(* ===== verification/Husky_Base.thy ===== *)
theory Husky_Base
  imports "HOL-Library.Word"
begin

unbundle bit_operations_syntax

text \<open>
  Shared vocabulary of the development: the machine types of the C program on an LP64
  platform (\<open>HKY_PTR_SIZE\<close> is 8), the return codes of src/core/hky_core.h, the character
  macros of src/core/hky_string.h, and generic facts on bytes, words, lists and decimal
  numerals that several components use.

  Conventions used by all theories:
  \<^item> a C buffer that is only read is the \<open>byte list\<close> of the memory from the pointer to the
    end of its object; a read past the end of the list makes the function return \<open>None\<close>,
    so \<open>None\<close> always means ``the C code reads out of bounds'';
  \<^item> a buffer that is written is returned as the list of bytes stored from the pointer on;
  \<^item> \<open>hky_int_t\<close>, \<open>ssize_t\<close>, \<open>off_t\<close>, \<open>time_t\<close> values are \<open>int\<close>s, with every operation that
    could leave the 64-bit range followed by \<open>wrap_s64\<close>; \<open>hky_uint_t\<close> and the other
    unsigned types are words of their width.
\<close>

section \<open>Machine types and return codes\<close>

type_synonym byte = "8 word"
type_synonym u32 = "32 word"
type_synonym u64 = "64 word"

named_theorems hky_consts \<open>the numeric constants of the headers\<close>
named_theorems hky_bytes \<open>facts on single bytes\<close>

definition HKY_OK :: int where [hky_consts]: "HKY_OK = 0"
definition HKY_ERROR :: int where [hky_consts]: "HKY_ERROR = -1"
definition HKY_AGAIN :: int where [hky_consts]: "HKY_AGAIN = -2"
definition HKY_BUSY :: int where [hky_consts]: "HKY_BUSY = -3"
definition HKY_DONE :: int where [hky_consts]: "HKY_DONE = -4"
definition HKY_DECLINED :: int where [hky_consts]: "HKY_DECLINED = -5"
definition HKY_ABORT :: int where [hky_consts]: "HKY_ABORT = -6"

definition HKY_MAX_INT_T_VALUE :: int where [hky_consts]: "HKY_MAX_INT_T_VALUE = 9223372036854775807"
definition HKY_MAX_SIZE_T_VALUE :: int where [hky_consts]: "HKY_MAX_SIZE_T_VALUE = 9223372036854775807"
definition HKY_MAX_OFF_T_VALUE :: int where [hky_consts]: "HKY_MAX_OFF_T_VALUE = 9223372036854775807"
definition HKY_MAX_TIME_T_VALUE :: int where [hky_consts]: "HKY_MAX_TIME_T_VALUE = 9223372036854775807"

text \<open>The value a 64-bit two's complement register holds after computing \<open>x\<close>.\<close>

definition wrap_s64 :: "int \<Rightarrow> int" where
  "wrap_s64 x = signed_take_bit 63 x"

lemma wrap_s64_id: "- 9223372036854775808 \<le> x \<Longrightarrow> x \<le> 9223372036854775807 \<Longrightarrow> wrap_s64 x = x"
  by (simp add: wrap_s64_def signed_take_bit_int_eq_self_iff)

text \<open>Text literals of the source, as bytes.\<close>

abbreviation bytes_of :: "string \<Rightarrow> byte list" where
  "bytes_of s \<equiv> map of_char s"

abbreviation LF :: byte where "LF \<equiv> 10"
abbreviation CR :: byte where "CR \<equiv> 13"

section \<open>Character macros\<close>

definition hky_tolower :: "byte \<Rightarrow> byte" where
  "hky_tolower c = (if 65 \<le> c \<and> c \<le> 90 then c OR 0x20 else c)"

definition hky_toupper :: "byte \<Rightarrow> byte" where
  "hky_toupper c = (if 97 \<le> c \<and> c \<le> 122 then c AND NOT 0x20 else c)"

definition is_digit :: "byte \<Rightarrow> bool" where
  "is_digit c \<longleftrightarrow> \<not> (c < 48 \<or> c > 57)"

subsection \<open>Reasoning on bytes by exhaustion\<close>

lemma unat_byte_lt [simp]: "unat (c::byte) < 256"
  using unsigned_less [of c] by simp

lemma uint_byte_lt [simp]: "uint (c::byte) < 256"
  using uint_bounded [of c] by simp

lemma uint_byte_inject [simp]: "uint (a::byte) = uint b \<longleftrightarrow> a = b"
  by (simp add: word_uint_eq_iff)

lemma uint_byte_eq_0 [simp]: "uint (a::byte) = 0 \<longleftrightarrow> a = 0"
  by (simp add: uint_0_iff)

lemma byte_cases_nat: "\<exists>k<256. (c::byte) = word_of_nat k"
  by (rule exI [of _ "unat c"]) simp

lemma all_bytes:
  "(\<forall>c::byte. P c) \<longleftrightarrow> list_all (\<lambda>k. P (word_of_nat k)) [0..<256]"
proof
  assume L: "list_all (\<lambda>k. P (word_of_nat k)) [0..<256]"
  show "\<forall>c. P c"
  proof
    fix c :: byte
    obtain k where "k < 256" "c = word_of_nat k" using byte_cases_nat by blast
    with L show "P c" by (simp add: list_all_iff)
  qed
qed (simp add: list_all_iff)

lemma uint_ucast_byte [simp]: "uint (ucast (c::byte) :: u64) = uint c"
  by (rule uint_up_ucast) (simp add: is_up)

lemma unat_ucast_byte [simp]: "unat (ucast (c::byte) :: u64) = unat c"
  by (metis nat_uint_eq uint_ucast_byte)

lemma sint_u64_small: "uint (x :: u64) < 9223372036854775808 \<Longrightarrow> sint x = uint x"
proof -
  assume "uint x < 9223372036854775808"
  moreover have "- 9223372036854775808 \<le> uint x" using uint_nonnegative [of x] by linarith
  ultimately show ?thesis by (simp add: sint_uint signed_take_bit_int_eq_self_iff)
qed

lemma sint_ucast_byte [simp]: "sint (ucast (c::byte) :: u64) = uint c"
  by (simp add: sint_u64_small order_less_trans [OF uint_byte_lt])

lemma ucast_byte_inject [simp]: "(ucast (b::byte) :: u64) = ucast c \<longleftrightarrow> b = c"
  by (metis uint_ucast_byte word_uint_eq_iff)

lemma uint_or_32: "uint ((c::byte) OR 0x20) = (if odd (uint c div 32) then uint c else uint c + 32)"
proof -
  have "uint (c OR 0x20) = uint c OR 32" by (simp add: uint_or)
  also have "\<dots> = set_bit 5 (uint c)" by (simp add: set_bit_eq_or)
  also have "\<dots> = uint c + of_bool (\<not> bit (uint c) 5) * 32" by (simp add: set_bit_eq)
  finally show ?thesis by (simp add: bit_iff_odd)
qed
lemma unat_of_nat_small: "k < 2 ^ LENGTH('a) \<Longrightarrow> unat (word_of_nat k :: 'a::len word) = k"
  by (simp add: unsigned_of_nat take_bit_nat_eq_self)

text \<open>Two bytes are equal when their eight bits are.\<close>

lemma less_8_cases: "(n::nat) < 8 \<Longrightarrow> n = 0 \<or> n = 1 \<or> n = 2 \<or> n = 3 \<or> n = 4 \<or> n = 5 \<or> n = 6 \<or> n = 7"
  by linarith

lemma bit_byte_beyond: "8 \<le> n \<Longrightarrow> \<not> bit (w :: byte) n"
  using bit_imp_le_length [of w n] by auto

lemma byte_bits_eqI:
  assumes "bit a 0 = bit b 0" "bit a 1 = bit b 1" "bit a 2 = bit b 2" "bit a 3 = bit b 3"
    "bit a 4 = bit b 4" "bit a 5 = bit b 5" "bit a 6 = bit b 6" "bit a 7 = bit b 7"
  shows "a = (b :: byte)"
  by (rule bit_word_eqI) (use assms in \<open>auto dest!: less_8_cases\<close>)

lemma byte_less_64I:
  assumes "\<not> bit w 6" "\<not> bit w 7"
  shows "(w :: byte) < 64"
proof -
  have "w = take_bit 6 w"
    by (rule bit_word_eqI) (use assms in \<open>auto simp: bit_simps dest!: less_8_cases\<close>)
  then have "uint w = take_bit 6 (uint w)" by (metis unsigned_take_bit_eq)
  also have "\<dots> < 2 ^ 6" by (rule take_bit_int_less_exp)
  finally show ?thesis by (simp add: word_less_def)
qed

text \<open>Subtracting two bytes held in \<open>hky_uint_t\<close> registers and returning \<open>hky_int_t\<close>.\<close>

lemma sint_diff_bytes:
  "sint ((ucast (b::byte) :: u64) - ucast (c::byte)) = uint b - uint c"
proof -
  have "sint ((ucast b :: u64) - ucast c) = wrap_s64 (uint b - uint c)"
    by (simp add: sint_word_ariths(2) wrap_s64_def)
  also have "\<dots> = uint b - uint c"
    using uint_byte_lt [of b] uint_byte_lt [of c] uint_nonnegative [of b] uint_nonnegative [of c]
    by (intro wrap_s64_id) linarith+
  finally show ?thesis .
qed

section \<open>Lists\<close>

lemma drop_eq_Cons_nth: "k < length xs \<Longrightarrow> drop k xs = xs ! k # drop (Suc k) xs"
  by (simp add: Cons_nth_drop_Suc)

lemma take_Suc_append_nth: "k < length xs \<Longrightarrow> take (Suc k) xs = take k xs @ [xs ! k]"
  by (rule take_Suc_conv_app_nth)

section \<open>Numerals in a base\<close>

text \<open>The value of a list of digits, most significant first.\<close>

definition base_value :: "int \<Rightarrow> int list \<Rightarrow> int" where
  "base_value b ds = foldl (\<lambda>v d. v * b + d) 0 ds"

lemma foldl_base: "foldl (\<lambda>v d. v * b + d) v ds = v * b ^ length ds + base_value b ds"
proof (induction ds arbitrary: v)
  case Nil
  then show ?case by (simp add: base_value_def)
next
  case (Cons d ds)
  have "foldl (\<lambda>v d. v * b + d) v (d # ds) = (v * b + d) * b ^ length ds + base_value b ds"
    using Cons.IH [of "v * b + d"] by simp
  moreover have "base_value b (d # ds) = d * b ^ length ds + base_value b ds"
    using Cons.IH [of d] by (simp add: base_value_def)
  ultimately show ?case by (simp add: algebra_simps)
qed

lemma base_value_simps [simp]:
  "base_value b [] = 0"
  "base_value b (d # ds) = d * b ^ length ds + base_value b ds"
proof -
  show "base_value b [] = 0" by (simp add: base_value_def)
  show "base_value b (d # ds) = d * b ^ length ds + base_value b ds"
    using foldl_base [of b d ds] by (simp add: base_value_def)
qed

lemma base_value_append [simp]:
  "base_value b (xs @ ys) = base_value b xs * b ^ length ys + base_value b ys"
  by (induction xs) (simp_all add: algebra_simps power_add)

lemma base_value_nonneg: "0 \<le> b \<Longrightarrow> \<forall>d\<in>set ds. 0 \<le> d \<Longrightarrow> 0 \<le> base_value b ds"
  by (induction ds) simp_all

lemma base_value_less:
  assumes "\<forall>d\<in>set ds. 0 \<le> d \<and> d < b"
  shows "base_value b ds < b ^ length ds"
  using assms
proof (induction ds)
  case (Cons d ds)
  have "0 \<le> b ^ length ds" using Cons.prems by simp
  moreover have "d + 1 \<le> b" using Cons.prems by simp
  ultimately have "(d + 1) * b ^ length ds \<le> b * b ^ length ds" by (rule mult_right_mono [rotated])
  moreover have "base_value b ds < b ^ length ds" using Cons by simp
  ultimately show ?case by (simp add: algebra_simps)
qed simp

end
