(* ===== verification/Hky_String.thy ===== *)
theory Hky_String
  imports Husky_Base "HOL-Library.Multiset"
begin

text \<open>
  The copying, comparison and substring routines of src/core/hky_string.c and the inline
  search of src/core/hky_string.h, with the libc routines they call (\<open>strlen\<close>, \<open>strcmp\<close>,
  \<open>strncmp\<close>, \<open>memcmp\<close>). Lemmas: what each routine computes on NUL-terminated strings, in
  particular that no read leaves the strings, that the comparisons decide equality of the
  case-folded strings and order them lexicographically, and that the searches find the
  first occurrence.
\<close>

section \<open>Library routines the code calls\<close>

fun c_strlen :: "byte list \<Rightarrow> nat option" where
  "c_strlen [] = None"
| "c_strlen (c # s) = (if c = 0 then Some 0 else map_option Suc (c_strlen s))"

fun c_strncmp :: "byte list \<Rightarrow> byte list \<Rightarrow> nat \<Rightarrow> int option" where
  "c_strncmp s t 0 = Some 0"
| "c_strncmp (a # s) (b # t) (Suc n) =
     (if a \<noteq> b then Some (uint a - uint b) else if a = 0 then Some 0 else c_strncmp s t n)"
| "c_strncmp _ _ (Suc n) = None"

fun c_strcmp :: "byte list \<Rightarrow> byte list \<Rightarrow> int option" where
  "c_strcmp (a # s) (b # t) =
     (if a \<noteq> b then Some (uint a - uint b) else if a = 0 then Some 0 else c_strcmp s t)"
| "c_strcmp _ _ = None"

fun c_memcmp :: "byte list \<Rightarrow> byte list \<Rightarrow> nat \<Rightarrow> int option" where
  "c_memcmp s t 0 = Some 0"
| "c_memcmp (a # s) (b # t) (Suc n) =
     (if a \<noteq> b then Some (uint a - uint b) else c_memcmp s t n)"
| "c_memcmp _ _ (Suc n) = None"

section \<open>Copying\<close>

fun hky_strlow :: "byte list \<Rightarrow> nat \<Rightarrow> byte list option" where
  "hky_strlow src 0 = Some []"
| "hky_strlow [] (Suc n) = None"
| "hky_strlow (c # src) (Suc n) = map_option ((#) (hky_tolower c)) (hky_strlow src n)"

text \<open>
  \<open>hky_cpystrn\<close> returns the bytes stored from \<open>dst\<close> on and the offset of the returned
  pointer. The loop's \<open>n\<close> is its value after \<open>--n\<close>.
\<close>

fun cpystrn_loop :: "byte list \<Rightarrow> nat \<Rightarrow> (byte list \<times> nat) option" where
  "cpystrn_loop src 0 = Some ([0], 0)"
| "cpystrn_loop [] (Suc n) = None"
| "cpystrn_loop (c # src) (Suc n) =
     (if c = 0 then Some ([0], 0)
      else map_option (\<lambda>(w, p). (c # w, Suc p)) (cpystrn_loop src n))"

definition hky_cpystrn :: "byte list \<Rightarrow> nat \<Rightarrow> (byte list \<times> nat) option" where
  "hky_cpystrn src n = (case n of 0 \<Rightarrow> Some ([], 0) | Suc m \<Rightarrow> cpystrn_loop src m)"

text \<open>\<open>hky_strlchr\<close> on the bytes between \<open>p\<close> and \<open>last\<close>; \<open>c\<close> is a signed \<open>char\<close>.\<close>

fun hky_strlchr :: "byte list \<Rightarrow> byte \<Rightarrow> nat option" where
  "hky_strlchr [] c = None"
| "hky_strlchr (b # p) c = (if uint b = sint c then Some 0 else map_option Suc (hky_strlchr p c))"

section \<open>Comparison\<close>

text \<open>The folding expression the comparison loops apply to their \<open>hky_uint_t\<close> variables.\<close>

definition fold_case :: "u64 \<Rightarrow> u64" where
  "fold_case c = (if 65 \<le> c \<and> c \<le> 90 then c OR 0x20 else c)"

fun hky_strcasecmp :: "byte list \<Rightarrow> byte list \<Rightarrow> int option" where
  "hky_strcasecmp (b1 # s1) (b2 # s2) =
     (let c1 = fold_case (ucast b1); c2 = fold_case (ucast b2) in
      if c1 = c2 then (if c1 \<noteq> 0 then hky_strcasecmp s1 s2 else Some 0)
      else Some (sint (c1 - c2)))"
| "hky_strcasecmp _ _ = None"

fun hky_strncasecmp :: "byte list \<Rightarrow> byte list \<Rightarrow> nat \<Rightarrow> int option" where
  "hky_strncasecmp s1 s2 0 = Some 0"
| "hky_strncasecmp (b1 # s1) (b2 # s2) (Suc n) =
     (let c1 = fold_case (ucast b1); c2 = fold_case (ucast b2) in
      if c1 = c2 then (if c1 \<noteq> 0 then hky_strncasecmp s1 s2 n else Some 0)
      else Some (sint (c1 - c2)))"
| "hky_strncasecmp _ _ (Suc n) = None"

fun rstrncmp_loop :: "byte list \<Rightarrow> byte list \<Rightarrow> nat \<Rightarrow> int option" where
  "rstrncmp_loop s1 s2 n =
     (if n < length s1 \<and> n < length s2 then
        (if s1 ! n \<noteq> s2 ! n then Some (uint (s1 ! n) - uint (s2 ! n))
         else if n = 0 then Some 0 else rstrncmp_loop s1 s2 (n - 1))
      else None)"

declare rstrncmp_loop.simps [simp del]

definition hky_rstrncmp :: "byte list \<Rightarrow> byte list \<Rightarrow> nat \<Rightarrow> int option" where
  "hky_rstrncmp s1 s2 n = (if n = 0 then Some 0 else rstrncmp_loop s1 s2 (n - 1))"

definition upper_byte :: "byte \<Rightarrow> byte" where
  "upper_byte c = (if 97 \<le> c \<and> c \<le> 122 then c - (97 - 65) else c)"

fun rstrncasecmp_loop :: "byte list \<Rightarrow> byte list \<Rightarrow> nat \<Rightarrow> int option" where
  "rstrncasecmp_loop s1 s2 n =
     (if n < length s1 \<and> n < length s2 then
        (let c1 = upper_byte (s1 ! n); c2 = upper_byte (s2 ! n) in
         if c1 \<noteq> c2 then Some (uint c1 - uint c2)
         else if n = 0 then Some 0 else rstrncasecmp_loop s1 s2 (n - 1))
      else None)"

declare rstrncasecmp_loop.simps [simp del]

definition hky_rstrncasecmp :: "byte list \<Rightarrow> byte list \<Rightarrow> nat \<Rightarrow> int option" where
  "hky_rstrncasecmp s1 s2 n = (if n = 0 then Some 0 else rstrncasecmp_loop s1 s2 (n - 1))"

definition hky_memn2cmp :: "byte list \<Rightarrow> byte list \<Rightarrow> nat \<Rightarrow> nat \<Rightarrow> int option" where
  "hky_memn2cmp s1 s2 n1 n2 =
     (let (n, z) = (if n1 \<le> n2 then (n1, -1) else (n2, 1)) in
      case c_memcmp s1 s2 n of None \<Rightarrow> None
      | Some m \<Rightarrow> if m \<noteq> 0 \<or> n1 = n2 then Some m else Some z)"

fun hky_dns_strcmp :: "byte list \<Rightarrow> byte list \<Rightarrow> int option" where
  "hky_dns_strcmp (b1 # s1) (b2 # s2) =
     (let c1 = fold_case (ucast b1); c2 = fold_case (ucast b2) in
      if c1 = c2 then (if c1 \<noteq> 0 then hky_dns_strcmp s1 s2 else Some 0)
      else let c1 = (if c1 = 0x2e then 0x20 else c1); c2 = (if c2 = 0x2e then 0x20 else c2)
           in Some (sint (c1 - c2)))"
| "hky_dns_strcmp _ _ = None"

text \<open>\<open>caseless\<close> is the build switch \<open>HKY_HAVE_CASELESS_FILESYSTEM\<close>.\<close>

fun hky_filename_cmp :: "bool \<Rightarrow> byte list \<Rightarrow> byte list \<Rightarrow> nat \<Rightarrow> int option" where
  "hky_filename_cmp caseless s1 s2 0 = Some 0"
| "hky_filename_cmp caseless (b1 # s1) (b2 # s2) (Suc n) =
     (let c1 = (if caseless then fold_case (ucast b1) else ucast b1);
          c2 = (if caseless then fold_case (ucast b2) else ucast b2) in
      if c1 = c2 then (if c1 \<noteq> 0 then hky_filename_cmp caseless s1 s2 n else Some 0)
      else if c1 = 0 \<or> c2 = 0 then Some (sint (c1 - c2))
      else let c1 = (if c1 = 0x2f then 0 else c1); c2 = (if c2 = 0x2f then 0 else c2)
           in Some (sint (c1 - c2)))"
| "hky_filename_cmp caseless _ _ (Suc n) = None"

section \<open>Substring search\<close>

text \<open>
  The searches return \<open>Some None\<close> for NULL and \<open>Some (Some k)\<close> for the pointer \<open>s1 + k\<close>;
  \<open>k\<close> is the offset of the byte the loop reads next.
\<close>

fun strnstr_loop :: "byte \<Rightarrow> byte list \<Rightarrow> nat \<Rightarrow> nat \<Rightarrow> nat \<Rightarrow> byte list \<Rightarrow> nat option option" where
  "strnstr_loop c2 s2 n 0 k s1 = Some None"
| "strnstr_loop c2 s2 n (Suc len) k [] = None"
| "strnstr_loop c2 s2 n (Suc len) k (c1 # s1) =
     (if c1 = 0 then Some None
      else if c1 \<noteq> c2 then strnstr_loop c2 s2 n len (Suc k) s1
      else if n > len then Some None
      else case c_strncmp s1 s2 n of None \<Rightarrow> None
        | Some r \<Rightarrow> if r \<noteq> 0 then strnstr_loop c2 s2 n len (Suc k) s1 else Some (Some k))"

definition hky_strnstr :: "byte list \<Rightarrow> byte list \<Rightarrow> nat \<Rightarrow> nat option option" where
  "hky_strnstr s1 s2 len =
     (case s2 of [] \<Rightarrow> None
      | c2 # s2' \<Rightarrow> (case c_strlen s2' of None \<Rightarrow> None
                    | Some n \<Rightarrow> strnstr_loop c2 s2' n len 0 s1))"

fun strstrn_loop :: "byte \<Rightarrow> byte list \<Rightarrow> nat \<Rightarrow> nat \<Rightarrow> byte list \<Rightarrow> nat option option" where
  "strstrn_loop c2 s2 n k [] = None"
| "strstrn_loop c2 s2 n k (c1 # s1) =
     (if c1 = 0 then Some None
      else if c1 \<noteq> c2 then strstrn_loop c2 s2 n (Suc k) s1
      else case c_strncmp s1 s2 n of None \<Rightarrow> None
        | Some r \<Rightarrow> if r \<noteq> 0 then strstrn_loop c2 s2 n (Suc k) s1 else Some (Some k))"

definition hky_strstrn :: "byte list \<Rightarrow> byte list \<Rightarrow> nat \<Rightarrow> nat option option" where
  "hky_strstrn s1 s2 n = (case s2 of [] \<Rightarrow> None | c2 # s2' \<Rightarrow> strstrn_loop c2 s2' n 0 s1)"

text \<open>
  In \<open>hky_strcasestrn\<close> the needle has type \<open>hky_char *\<close>: its first byte is sign-extended
  into \<open>c2\<close> while the bytes of the haystack are zero-extended into \<open>c1\<close>.
\<close>

fun strcasestrn_loop :: "u64 \<Rightarrow> byte list \<Rightarrow> nat \<Rightarrow> nat \<Rightarrow> byte list \<Rightarrow> nat option option" where
  "strcasestrn_loop c2 s2 n k [] = None"
| "strcasestrn_loop c2 s2 n k (b # s1) =
     (if (ucast b :: u64) = 0 then Some None
      else if fold_case (ucast b) \<noteq> c2 then strcasestrn_loop c2 s2 n (Suc k) s1
      else case hky_strncasecmp s1 s2 n of None \<Rightarrow> None
        | Some r \<Rightarrow> if r \<noteq> 0 then strcasestrn_loop c2 s2 n (Suc k) s1 else Some (Some k))"

definition hky_strcasestrn :: "byte list \<Rightarrow> byte list \<Rightarrow> nat \<Rightarrow> nat option option" where
  "hky_strcasestrn s1 s2 n =
     (case s2 of [] \<Rightarrow> None
      | b # s2' \<Rightarrow> strcasestrn_loop (fold_case (scast b)) s2' n 0 s1)"

text \<open>\<open>lst\<close> is the offset of the \<open>last\<close> pointer from \<open>s1\<close>, after \<open>last -= n\<close>.\<close>

fun strlcasestrn_loop :: "u64 \<Rightarrow> byte list \<Rightarrow> nat \<Rightarrow> int \<Rightarrow> nat \<Rightarrow> byte list \<Rightarrow> nat option option" where
  "strlcasestrn_loop c2 s2 n lst k [] = (if int k \<ge> lst then Some None else None)"
| "strlcasestrn_loop c2 s2 n lst k (b # s1) =
     (if int k \<ge> lst then Some None
      else if fold_case (ucast b) \<noteq> c2 then strlcasestrn_loop c2 s2 n lst (Suc k) s1
      else case hky_strncasecmp s1 s2 n of None \<Rightarrow> None
        | Some r \<Rightarrow> if r \<noteq> 0 then strlcasestrn_loop c2 s2 n lst (Suc k) s1 else Some (Some k))"

definition hky_strlcasestrn :: "byte list \<Rightarrow> nat \<Rightarrow> byte list \<Rightarrow> nat \<Rightarrow> nat option option" where
  "hky_strlcasestrn s1 lst s2 n =
     (case s2 of [] \<Rightarrow> None
      | b # s2' \<Rightarrow> strlcasestrn_loop (fold_case (ucast b)) s2' n (int lst - int n) 0 s1)"

section \<open>Sorting an array of elements\<close>

text \<open>
  \<open>hky_sort\<close> sets its scratch element \<open>p\<close> to NULL (the allocation is commented out) and
  returns when it is NULL; the insertion sort after that test is modelled on the element
  list, \<open>insert_back ys x\<close> shifting the elements of the sorted prefix that compare greater.
\<close>

fun insert_back :: "('a \<Rightarrow> 'a \<Rightarrow> int) \<Rightarrow> 'a list \<Rightarrow> 'a \<Rightarrow> 'a list" where
  "insert_back cmp [] x = [x]"
| "insert_back cmp (y # ys) x = (if cmp y x > 0 then y # insert_back cmp ys x else x # y # ys)"

definition sort_loop :: "('a \<Rightarrow> 'a \<Rightarrow> int) \<Rightarrow> 'a list \<Rightarrow> 'a list" where
  "sort_loop cmp xs =
     (case xs of [] \<Rightarrow> [] | x # xs' \<Rightarrow> rev (foldl (insert_back cmp) [x] xs'))"

definition hky_sort :: "('a \<Rightarrow> 'a \<Rightarrow> int) \<Rightarrow> 'a list \<Rightarrow> 'a list" where
  "hky_sort cmp xs =
     (let p = (None :: 'a option) in if p = None then xs else sort_loop cmp xs)"

section \<open>Case folding\<close>

lemma fold_case_ucast [hky_bytes]: "fold_case (ucast b) = ucast (hky_tolower b)"
  by (simp add: fold_case_def hky_tolower_def word_le_nat_alt unsigned_or_eq)

lemma hky_tolower_eq_0 [hky_bytes]: "hky_tolower b = 0 \<longleftrightarrow> b = 0"
  by (auto simp: hky_tolower_def or_eq_0_iff)

lemma ucast_byte_eq_0 [hky_bytes]: "(ucast (b::byte) :: u64) = 0 \<longleftrightarrow> b = 0"
  by (metis ucast_byte_inject unsigned_0)

lemma zero_bytes [simp]: "fold_case 0 = 0" "hky_tolower 0 = 0"
  by (simp_all add: fold_case_def hky_tolower_def)

lemma zero_eq_ucast_byte [hky_bytes]: "0 = (ucast (b::byte) :: u64) \<longleftrightarrow> b = 0"
  using ucast_byte_eq_0 by metis

lemma sint_minus_byte [hky_bytes]: "sint (- (ucast (b::byte) :: u64)) = - uint b"
  using sint_diff_bytes [of 0 b] by simp

lemma sint_low_byte: "b < 128 \<Longrightarrow> sint (b::byte) = uint b"
proof -
  assume "b < 128"
  then have "uint b < 128" by (simp add: word_less_def)
  moreover have "- 128 \<le> uint b" using uint_nonnegative [of b] by linarith
  ultimately show ?thesis by (simp add: sint_uint signed_take_bit_int_eq_self_iff)
qed

lemma scast_low_byte: "b < 128 \<Longrightarrow> (scast (b::byte) :: u64) = ucast b"
  by (metis scast_eq sint_low_byte ucast_eq)

lemma sint_high_byte: "128 \<le> b \<Longrightarrow> sint (b::byte) < 0"
proof -
  assume "128 \<le> b"
  then have "128 \<le> uint b" by (simp add: word_le_def)
  then have "uint b div 128 = 1" using uint_byte_lt [of b] by linarith
  then have "bit (uint b) 7" by (simp add: bit_iff_odd)
  then have "bit b 7" by (simp add: bit_uint_iff)
  then show ?thesis using bit_last_iff [of b] by simp
qed

lemma fold_case_scast_high: "128 \<le> (b::byte) \<Longrightarrow> fold_case (scast b) \<noteq> ucast (c::byte)"
proof
  assume "128 \<le> b" and eq: "fold_case (scast b) = ucast c"
  from \<open>128 \<le> b\<close> have neg: "sint (scast b :: u64) < 0"
    using sint_high_byte [of b] by (subst sint_up_scast) (simp_all add: is_up)
  have "\<not> (scast b :: u64) \<le> 90"
  proof
    assume "(scast b :: u64) \<le> 90"
    then have "uint (scast b :: u64) \<le> 90" by (simp add: word_le_def)
    then have "sint (scast b :: u64) = uint (scast b :: u64)"
      by (intro sint_u64_small) linarith
    with neg show False by simp
  qed
  with eq have "(scast b :: u64) = ucast c" by (simp add: fold_case_def)
  with neg show False using uint_nonnegative [of c] by simp
qed

section \<open>The library routines on terminated strings\<close>

text \<open>A NUL-terminated string \<open>s\<close> followed by other memory is \<open>s @ 0 # r\<close> with no NUL in \<open>s\<close>.\<close>

lemma c_strlen_cstr: "0 \<notin> set s \<Longrightarrow> c_strlen (s @ 0 # r) = Some (length s)"
  by (induction s) auto

lemma c_strncmp_cstr:
  assumes "0 \<notin> set h" and "0 \<notin> set p"
  shows "\<exists>r. c_strncmp (h @ 0 # x) (p @ 0 # y) (length p) = Some r
    \<and> (r = 0 \<longleftrightarrow> take (length p) h = p)"
  using assms
proof (induction p arbitrary: h)
  case (Cons c p)
  then show ?case by (cases h) auto
qed simp

lemma c_strcmp_cstr:
  assumes "0 \<notin> set s" and "0 \<notin> set t"
  shows "\<exists>r. c_strcmp (s @ 0 # x) (t @ 0 # y) = Some r \<and> (r = 0 \<longleftrightarrow> s = t)"
  using assms
proof (induction s arbitrary: t)
  case Nil
  then show ?case by (cases t) auto
next
  case (Cons c s)
  then show ?case by (cases t) auto
qed

lemma c_memcmp_eq:
  assumes "n \<le> length s" and "n \<le> length t"
  shows "\<exists>r. c_memcmp s t n = Some r \<and> (r = 0 \<longleftrightarrow> take n s = take n t)"
  using assms
proof (induction s t n rule: c_memcmp.induct)
  case (2 a s b t n)
  then show ?case by auto
qed auto

section \<open>Copying\<close>

lemma hky_strlow_spec:
  "hky_strlow src n = (if n \<le> length src then Some (map hky_tolower (take n src)) else None)"
  by (induction src n rule: hky_strlow.induct) auto

lemma cpystrn_loop_cstr:
  "0 \<notin> set s \<Longrightarrow> cpystrn_loop (s @ 0 # r) n = Some (take n s @ [0], min n (length s))"
proof (induction s arbitrary: n)
  case Nil
  then show ?case by (cases n) auto
next
  case (Cons c s)
  then show ?case by (cases n) auto
qed

section \<open>Comparison\<close>

definition lowered :: "byte list \<Rightarrow> int list" where
  "lowered s = map (\<lambda>c. uint (hky_tolower c)) s"

lemma lowered_simps [simp]:
  "lowered [] = []"
  "lowered (c # s) = uint (hky_tolower c) # lowered s"
  "length (lowered s) = length s"
  by (simp_all add: lowered_def)

lemma lowered_eq_iff: "lowered s = lowered t \<longleftrightarrow> map hky_tolower s = map hky_tolower t"
  by (induction s arbitrary: t) (auto simp: Cons_eq_map_conv lowered_def)

lemma uint_tolower_pos: "c \<noteq> 0 \<Longrightarrow> 0 < uint (hky_tolower c)"
  by (metis hky_tolower_eq_0 order_le_less uint_byte_eq_0 uint_nonnegative)

lemmas fold_cmp = hky_bytes sint_diff_bytes Let_def

lemma hky_strcasecmp_spec:
  assumes "0 \<notin> set s" and "0 \<notin> set t"
  shows "\<exists>r. hky_strcasecmp (s @ 0 # x) (t @ 0 # y) = Some r
    \<and> (r = 0 \<longleftrightarrow> lowered s = lowered t)
    \<and> (r < 0 \<longleftrightarrow> (lowered s, lowered t) \<in> lexord {(a, b). a < b})"
  using assms
proof (induction s arbitrary: t)
  case Nil
  then show ?case
    by (cases t) (auto simp: fold_cmp dest: uint_tolower_pos)
next
  case (Cons c s)
  then show ?case
    using uint_nonnegative [of "hky_tolower c"]
    by (cases t) (auto simp: fold_cmp)
qed

lemma hky_strncasecmp_eq_iff:
  assumes "0 \<notin> set p" and "length p = n" and "n \<le> length h \<or> 0 \<in> set h"
  shows "\<exists>r. hky_strncasecmp h (p @ y) n = Some r
    \<and> (r = 0 \<longleftrightarrow> map hky_tolower (take n h) = map hky_tolower p)"
  using assms
proof (induction p arbitrary: h n)
  case (Cons c p)
  show ?case
  proof (cases h)
    case (Cons b h')
    show ?thesis
    proof (cases "hky_tolower b = hky_tolower c")
      case True
      then have "b \<noteq> 0" using Cons.prems(1)
        by (metis hky_tolower_eq_0 list.set_intros(1))
      then show ?thesis
        using Cons.IH [of "n - 1" h'] Cons.prems Cons True by (auto simp: fold_cmp)
    next
      case False
      then show ?thesis using Cons.prems Cons by (auto simp: fold_cmp)
    qed
  qed (use Cons.prems in auto)
qed simp

lemma rstrncmp_loop_spec:
  assumes "n < length s1" and "n < length s2"
  shows "\<exists>r. rstrncmp_loop s1 s2 n = Some r \<and> (r = 0 \<longleftrightarrow> take (Suc n) s1 = take (Suc n) s2)"
  using assms
proof (induction n)
  case 0
  then show ?case
    by (subst rstrncmp_loop.simps) (auto simp: take_Suc_append_nth)
next
  case (Suc n)
  then show ?case
    by (subst rstrncmp_loop.simps) (auto simp: take_Suc_append_nth [of "Suc n"])
qed

lemma hky_rstrncmp_spec:
  "n \<le> length s1 \<Longrightarrow> n \<le> length s2 \<Longrightarrow>
    \<exists>r. hky_rstrncmp s1 s2 n = Some r \<and> (r = 0 \<longleftrightarrow> take n s1 = take n s2)"
  using rstrncmp_loop_spec [of "n - 1" s1 s2] by (cases n) (auto simp: hky_rstrncmp_def)

section \<open>Searching\<close>

text \<open>The offset of the first occurrence of \<open>p\<close> in \<open>h\<close>.\<close>

fun first_occ :: "'a list \<Rightarrow> 'a list \<Rightarrow> nat option" where
  "first_occ p [] = (if p = [] then Some 0 else None)"
| "first_occ p (c # h) =
     (if take (length p) (c # h) = p then Some 0 else map_option Suc (first_occ p h))"

lemma first_occ_short: "length h < length p \<Longrightarrow> first_occ p h = None"
  by (induction h) (auto dest: arg_cong [where f = length])

lemma first_occ_Some:
  "first_occ p h = Some k \<longleftrightarrow>
     (take (length p) (drop k h) = p \<and> k \<le> length h
      \<and> (\<forall>j<k. take (length p) (drop j h) \<noteq> p))"
proof (induction h arbitrary: k)
  case (Cons c h)
  show ?case
  proof (cases k)
    case (Suc j)
    have "(\<forall>i<Suc j. take (length p) (drop i (c # h)) \<noteq> p) \<longleftrightarrow>
      take (length p) (c # h) \<noteq> p \<and> (\<forall>i<j. take (length p) (drop i h) \<noteq> p)"
      by (simp add: All_less_Suc2)
    then show ?thesis using Suc Cons.IH by auto
  qed auto
qed auto

lemma first_occ_None:
  "first_occ p h = None \<Longrightarrow> take (length p) (drop k h) = p \<Longrightarrow> p \<noteq> [] \<Longrightarrow> False"
proof (induction h arbitrary: k)
  case (Cons c h)
  then show ?case by (cases k) (auto split: if_splits)
qed auto

lemma strnstr_loop_spec:
  assumes "0 \<notin> set h" and "0 \<notin> set (c # p)"
  shows "strnstr_loop c (p @ 0 # y) (length p) len k (h @ 0 # x)
    = Some (map_option ((+) k) (first_occ (c # p) (take len h)))"
  using assms
proof (induction h arbitrary: len k)
  case Nil
  then show ?case by (cases len) auto
next
  case (Cons a h)
  show ?case
  proof (cases len)
    case (Suc l)
    obtain r where r: "c_strncmp (h @ 0 # x) (p @ 0 # y) (length p) = Some r"
      "r = 0 \<longleftrightarrow> take (length p) h = p"
      using c_strncmp_cstr [of h p x y] Cons.prems by auto
    have IH: "strnstr_loop c (p @ 0 # y) (length p) l (Suc k) (h @ 0 # x)
      = Some (map_option ((+) (Suc k)) (first_occ (c # p) (take l h)))"
      using Cons by auto
    have comp: "map_option ((+) (Suc k)) m = map_option ((+) k) (map_option Suc m)" for m
      by (cases m) auto
    show ?thesis
    proof (cases "length p > l")
      case True
      then show ?thesis
        using Suc Cons.prems IH first_occ_short [of "take l h" "c # p"]
          first_occ_short [of "take (Suc l) (a # h)" "c # p"] by auto
    next
      case False
      then show ?thesis using Suc Cons.prems IH r by (auto simp: comp min_def)
    qed
  qed simp
qed

text \<open>
  The unbounded searches agree with the first occurrence in the whole string; the
  case-insensitive ones with the first occurrence of the folded needle.
\<close>

lemma map_option_Suc_plus: "map_option ((+) (Suc k)) m = map_option ((+) k) (map_option Suc m)"
  by (cases m) auto

lemma strstrn_loop_spec:
  assumes "0 \<notin> set h" and "0 \<notin> set (c # p)"
  shows "strstrn_loop c (p @ 0 # y) (length p) k (h @ 0 # x)
    = Some (map_option ((+) k) (first_occ (c # p) h))"
  using assms
proof (induction h arbitrary: k)
  case (Cons a h)
  obtain r where r: "c_strncmp (h @ 0 # x) (p @ 0 # y) (length p) = Some r"
    "r = 0 \<longleftrightarrow> take (length p) h = p"
    using c_strncmp_cstr [of h p x y] Cons.prems by auto
  then show ?case using Cons by (auto simp: map_option_Suc_plus)
qed simp

lemma strcasestrn_loop_spec:
  assumes "0 \<notin> set h" and "0 \<notin> set (c # p)"
  shows "strcasestrn_loop (ucast (hky_tolower c)) (p @ y) (length p) k (h @ 0 # x)
    = Some (map_option ((+) k) (first_occ (map hky_tolower (c # p)) (map hky_tolower h)))"
  using assms
proof (induction h arbitrary: k)
  case (Cons a h)
  have *: "(map hky_tolower (take (length p) (h @ 0 # x)) = map hky_tolower p)
      = (take (length p) (map hky_tolower h) = map hky_tolower p)"
  proof (cases "length p \<le> length h")
    case True
    then show ?thesis by (simp add: take_map)
  next
    case False
    then obtain z where "take (length p) (h @ 0 # x) = h @ 0 # z" by (auto simp: take_Cons')
    moreover have "0 \<notin> set (map hky_tolower p)" using Cons.prems by (auto simp: hky_bytes)
    ultimately have "map hky_tolower (take (length p) (h @ 0 # x)) \<noteq> map hky_tolower p"
      by (metis in_set_conv_decomp list.map(2) map_append zero_bytes(2))
    moreover have "take (length p) (map hky_tolower h) \<noteq> map hky_tolower p"
      using False by (auto dest: arg_cong [where f = length])
    ultimately show ?thesis by blast
  qed
  obtain r where r: "hky_strncasecmp (h @ 0 # x) (p @ y) (length p) = Some r"
    "r = 0 \<longleftrightarrow> take (length p) (map hky_tolower h) = map hky_tolower p"
    using hky_strncasecmp_eq_iff [of p "length p" "h @ 0 # x" y] Cons.prems * by auto
  then show ?case using Cons by (auto simp: map_option_Suc_plus hky_bytes)
qed (simp add: hky_bytes)

lemma strcasestrn_loop_high:
  assumes "0 \<notin> set h" and "128 \<le> c"
  shows "strcasestrn_loop (fold_case (scast (c :: byte))) p n k (h @ 0 # x) = Some None"
  using assms fold_case_scast_high [OF assms(2)]
  by (induction h arbitrary: k) (auto simp: hky_bytes dest: sym)

section \<open>Sorting\<close>

lemma mset_insert_back: "mset (insert_back cmp ys x) = add_mset x (mset ys)"
  by (induction ys) auto

lemma mset_sort_loop: "mset (sort_loop cmp xs) = mset xs"
proof -
  have "mset (foldl (insert_back cmp) ys xs) = mset ys + mset xs" for ys xs
    by (induction xs arbitrary: ys) (auto simp: mset_insert_back)
  then show ?thesis by (cases xs) (auto simp: sort_loop_def)
qed

lemma fold_case_scast_low: "c < 128 \<Longrightarrow> fold_case (scast (c :: byte)) = ucast (hky_tolower c)"
  by (simp add: scast_low_byte fold_case_ucast)

text \<open>
  C9: On NUL-terminated texts the substring searches find the first occurrence or return
  \<open>NULL\<close>: \<open>hky_strnstr\<close> within the first \<open>len\<close> bytes, \<open>hky_strstrn\<close> anywhere,
  \<open>hky_strcasestrn\<close> up to the case of letters. For the last one this holds when the needle
  starts with an ASCII byte; a needle starting with a byte from 128 on is never found, because
  that byte is sign-extended and the haystack's is not.
\<close>

theorem substring_search_correct:
  assumes "0 \<notin> set h" and "0 \<notin> set (c # p)"
  shows "hky_strnstr (h @ 0 # x) (c # p @ 0 # y) len = Some (first_occ (c # p) (take len h)) \<and>
    hky_strstrn (h @ 0 # x) (c # p @ 0 # y) (length p) = Some (first_occ (c # p) h) \<and>
    hky_strcasestrn (h @ 0 # x) (c # p @ 0 # y) (length p) =
      Some (if c < 128 then first_occ (map hky_tolower (c # p)) (map hky_tolower h) else None)"
proof (intro conjI)
  have z: "map_option ((+) 0) m = m" for m :: "nat option" by (cases m) auto
  have "0 \<notin> set p" using assms(2) by simp
  then show "hky_strnstr (h @ 0 # x) (c # p @ 0 # y) len = Some (first_occ (c # p) (take len h))"
    by (simp add: hky_strnstr_def c_strlen_cstr strnstr_loop_spec [OF assms] z)
  show "hky_strstrn (h @ 0 # x) (c # p @ 0 # y) (length p) = Some (first_occ (c # p) h)"
    by (simp add: hky_strstrn_def strstrn_loop_spec [OF assms] z)
  show "hky_strcasestrn (h @ 0 # x) (c # p @ 0 # y) (length p) =
      Some (if c < 128 then first_occ (map hky_tolower (c # p)) (map hky_tolower h) else None)"
    unfolding hky_strcasestrn_def
    using strcasestrn_loop_spec [OF assms, of "0 # y" 0 x] strcasestrn_loop_high [OF assms(1), of c]
    by (auto simp: z fold_case_scast_low not_less simp del: strcasestrn_loop.simps)
qed

theorem substring_search_correct_witness:
  "hky_strnstr (bytes_of ''GET /a'' @ [0]) (bytes_of ''/a'' @ [0]) 6 = Some (Some 4) \<and>
   hky_strcasestrn (bytes_of ''Keep-Alive'' @ [0]) (bytes_of ''alive'' @ [0]) (length (bytes_of ''live'')) = Some (Some 5)"
  using substring_search_correct [of "bytes_of ''GET /a''" 47 "bytes_of ''a''" "[]" "[]" 6]
    substring_search_correct [of "bytes_of ''Keep-Alive''" 97 "bytes_of ''live''" "[]" "[]" 0]
  by (simp add: hky_tolower_def)

text \<open>
  \<open>hky_strcasecmp\<close> on NUL-terminated strings is a total three-way comparison: zero exactly
  for strings equal up to case, negative exactly when the first is smaller in the
  lexicographic order of the lower-cased bytes. \<open>hky_cpystrn\<close> stores at most \<open>n\<close> bytes, the
  last of which is the terminating zero the returned pointer points to.
\<close>

theorem string_compare_copy_correct:
  assumes "0 \<notin> set s" and "0 \<notin> set t" and "0 < n"
  shows "(\<exists>r. hky_strcasecmp (s @ 0 # x) (t @ 0 # y) = Some r \<and>
      (r = 0 \<longleftrightarrow> map hky_tolower s = map hky_tolower t) \<and>
      (r < 0 \<longleftrightarrow> (lowered s, lowered t) \<in> lexord {(a, b). a < b})) \<and>
    hky_cpystrn (s @ 0 # x) n = Some (take (n - 1) s @ [0], min (n - 1) (length s)) \<and>
    length (take (n - 1) s @ [0 :: byte]) \<le> n"
proof -
  obtain m where n: "n = Suc m" using assms(3) by (cases n) auto
  show ?thesis
    using hky_strcasecmp_spec [OF assms(1,2), of x y] cpystrn_loop_cstr [OF assms(1), of x m]
    by (auto simp: hky_cpystrn_def n lowered_eq_iff)
qed

theorem string_compare_copy_correct_witness:
  "hky_strcasecmp (bytes_of ''Host'' @ [0]) (bytes_of ''hOST'' @ [0]) = Some 0 \<and>
   hky_cpystrn (bytes_of ''Host'' @ [0]) 3 = Some (bytes_of ''Ho'' @ [0], 2)"
proof -
  let ?s = "bytes_of ''Host''" and ?t = "bytes_of ''hOST''"
  have z: "0 \<notin> set ?s" "0 \<notin> set ?t" "0 < (3::nat)" by simp_all
  from string_compare_copy_correct [OF z, of "[]" "[]"] obtain r where
    r: "hky_strcasecmp (?s @ [0]) (?t @ [0]) = Some r" "r = 0 \<longleftrightarrow> map hky_tolower ?s = map hky_tolower ?t"
    and c: "hky_cpystrn (?s @ [0]) 3 = Some (take (3 - 1) ?s @ [0], min (3 - 1) (length ?s))" by blast
  have "map hky_tolower ?s = map hky_tolower ?t" by (simp add: hky_tolower_def)
  with r have "hky_strcasecmp (?s @ [0]) (?t @ [0]) = Some 0" by blast
  moreover have "take (3 - 1) ?s = bytes_of ''Ho''" "min (3 - 1) (length ?s) = 2" by simp_all
  ultimately show ?thesis using c by (simp only: simp_thms)
qed

text \<open>
  \<open>hky_sort\<close> does not sort: its scratch element is never allocated, so it returns its input
  unchanged, even for two elements out of order. The loop behind the failing test would be a
  sort: it permutes its input.
\<close>

theorem hky_sort_unsorted:
  "hky_sort (\<lambda>a b. a - b) [2, 1] = [2, 1 :: int] \<and> hky_sort cmp xs = xs \<and>
   mset (sort_loop cmp xs) = mset xs \<and> sort_loop (\<lambda>a b. a - b) [2, 1] = [1, 2 :: int]"
  by (simp add: hky_sort_def mset_sort_loop) (simp add: sort_loop_def)

end
