(* ===== verification/Hky_Rbtree.thy ===== *)
theory Hky_Rbtree
  imports Husky_Base "HOL-Library.While_Combinator" "HOL-Library.Tree"
begin

text \<open>
  The red-black trees of src/core/hky_rbtree.c and hky_rbtree.h, as the pointer code it is.
  The state holds the fields of all nodes as functions of the node's address, and the
  \<open>root\<close> and \<open>sentinel\<close> of the tree; the \<open>insert\<close> callback of \<open>hky_rbtree_t\<close> is an argument
  of \<open>hky_rbtree_insert\<close>. Loops are \<open>while_option\<close>, whose value is \<open>None\<close> when the C loop
  does not end.
\<close>

section \<open>State and accessors\<close>

type_synonym addr = nat

record rb =
  lft :: "addr \<Rightarrow> addr"
  rgt :: "addr \<Rightarrow> addr"
  par :: "addr \<Rightarrow> addr"
  ky :: "addr \<Rightarrow> u64"
  clr :: "addr \<Rightarrow> bool"
  root :: addr
  sentinel :: addr

abbreviation set_lft :: "addr \<Rightarrow> addr \<Rightarrow> rb \<Rightarrow> rb" where
  "set_lft a v s \<equiv> s\<lparr>lft := (lft s)(a := v)\<rparr>"

abbreviation set_rgt :: "addr \<Rightarrow> addr \<Rightarrow> rb \<Rightarrow> rb" where
  "set_rgt a v s \<equiv> s\<lparr>rgt := (rgt s)(a := v)\<rparr>"

abbreviation set_par :: "addr \<Rightarrow> addr \<Rightarrow> rb \<Rightarrow> rb" where
  "set_par a v s \<equiv> s\<lparr>par := (par s)(a := v)\<rparr>"

definition hky_rbt_red :: "addr \<Rightarrow> rb \<Rightarrow> rb" where
  "hky_rbt_red a s = s\<lparr>clr := (clr s)(a := True)\<rparr>"

definition hky_rbt_black :: "addr \<Rightarrow> rb \<Rightarrow> rb" where
  "hky_rbt_black a s = s\<lparr>clr := (clr s)(a := False)\<rparr>"

definition hky_rbt_copy_color :: "addr \<Rightarrow> addr \<Rightarrow> rb \<Rightarrow> rb" where
  "hky_rbt_copy_color a b s = s\<lparr>clr := (clr s)(a := clr s b)\<rparr>"

definition hky_rbtree_init :: "addr \<Rightarrow> rb \<Rightarrow> rb" where
  "hky_rbtree_init p s = (hky_rbt_black p s)\<lparr>root := p, sentinel := p\<rparr>"

section \<open>Rotations\<close>

definition hky_rbtree_left_rotate :: "addr \<Rightarrow> rb \<Rightarrow> rb" where
  "hky_rbtree_left_rotate node s =
     (let temp = rgt s node;
          s = set_rgt node (lft s temp) s;
          s = (if lft s temp \<noteq> sentinel s then set_par (lft s temp) node s else s);
          s = set_par temp (par s node) s;
          s = (if node = root s then s\<lparr>root := temp\<rparr>
               else if node = lft s (par s node) then set_lft (par s node) temp s
               else set_rgt (par s node) temp s);
          s = set_lft temp node s
      in set_par node temp s)"

definition hky_rbtree_right_rotate :: "addr \<Rightarrow> rb \<Rightarrow> rb" where
  "hky_rbtree_right_rotate node s =
     (let temp = lft s node;
          s = set_lft node (rgt s temp) s;
          s = (if rgt s temp \<noteq> sentinel s then set_par (rgt s temp) node s else s);
          s = set_par temp (par s node) s;
          s = (if node = root s then s\<lparr>root := temp\<rparr>
               else if node = rgt s (par s node) then set_rgt (par s node) temp s
               else set_lft (par s node) temp s);
          s = set_rgt temp node s
      in set_par node temp s)"

section \<open>Insertion\<close>

text \<open>One iteration of the loop of \<open>hky_rbtree_insert\<close>, on the state and \<open>node\<close>.\<close>

definition insert_step :: "rb \<times> addr \<Rightarrow> rb \<times> addr" where
  "insert_step = (\<lambda>(s, node).
     if par s node = lft s (par s (par s node)) then
       let temp = rgt s (par s (par s node)) in
       if clr s temp then
         let s = hky_rbt_black (par s node) s;
             s = hky_rbt_black temp s;
             s = hky_rbt_red (par s (par s node)) s
         in (s, par s (par s node))
       else
         let (s, node) = (if node = rgt s (par s node)
               then (hky_rbtree_left_rotate (par s node) s, par s node) else (s, node));
             s = hky_rbt_black (par s node) s;
             s = hky_rbt_red (par s (par s node)) s;
             s = hky_rbtree_right_rotate (par s (par s node)) s
         in (s, node)
     else
       let temp = lft s (par s (par s node)) in
       if clr s temp then
         let s = hky_rbt_black (par s node) s;
             s = hky_rbt_black temp s;
             s = hky_rbt_red (par s (par s node)) s
         in (s, par s (par s node))
       else
         let (s, node) = (if node = lft s (par s node)
               then (hky_rbtree_right_rotate (par s node) s, par s node) else (s, node));
             s = hky_rbt_black (par s node) s;
             s = hky_rbt_red (par s (par s node)) s;
             s = hky_rbtree_left_rotate (par s (par s node)) s
         in (s, node))"

definition insert_fixup :: "rb \<Rightarrow> addr \<Rightarrow> rb option" where
  "insert_fixup s node =
     map_option (\<lambda>(s, node). hky_rbt_black (root s) s)
       (while_option (\<lambda>(s, node). node \<noteq> root s \<and> clr s (par s node)) insert_step (s, node))"

definition hky_rbtree_insert ::
  "(addr \<Rightarrow> addr \<Rightarrow> rb \<Rightarrow> rb option) \<Rightarrow> addr \<Rightarrow> rb \<Rightarrow> rb option" where
  "hky_rbtree_insert ins node s =
     (if root s = sentinel s then
        let s = set_par node 0 s;
            s = set_lft node (sentinel s) s;
            s = set_rgt node (sentinel s) s;
            s = hky_rbt_black node s
        in Some (s\<lparr>root := node\<rparr>)
      else (case ins (root s) node s of
              None \<Rightarrow> None
            | Some s \<Rightarrow> insert_fixup s node))"

text \<open>
  The descent and linking that the three insert callbacks share; \<open>lt a b\<close> is the callback's
  test that sends node \<open>a\<close> to the left of \<open>b\<close>.
\<close>

definition insert_child :: "(rb \<Rightarrow> addr \<Rightarrow> addr \<Rightarrow> bool) \<Rightarrow> addr \<Rightarrow> rb \<Rightarrow> addr \<Rightarrow> addr" where
  "insert_child lt node s temp = (if lt s node temp then lft s temp else rgt s temp)"

definition insert_callback ::
  "(rb \<Rightarrow> addr \<Rightarrow> addr \<Rightarrow> bool) \<Rightarrow> addr \<Rightarrow> addr \<Rightarrow> rb \<Rightarrow> rb option" where
  "insert_callback lt temp node s =
     map_option
       (\<lambda>temp.
          let s = (if lt s node temp then set_lft temp node s else set_rgt temp node s);
              s = set_par node temp s;
              s = set_lft node (sentinel s) s;
              s = set_rgt node (sentinel s) s
          in hky_rbt_red node s)
       (while_option (\<lambda>temp. insert_child lt node s temp \<noteq> sentinel s) (insert_child lt node s) temp)"

definition key_less :: "rb \<Rightarrow> addr \<Rightarrow> addr \<Rightarrow> bool" where
  "key_less s a b \<longleftrightarrow> ky s a < ky s b"

definition timer_less :: "rb \<Rightarrow> addr \<Rightarrow> addr \<Rightarrow> bool" where
  "timer_less s a b \<longleftrightarrow> ky s a - ky s b <s 0"

definition hky_rbtree_insert_value :: "addr \<Rightarrow> addr \<Rightarrow> rb \<Rightarrow> rb option" where
  "hky_rbtree_insert_value = insert_callback key_less"

definition hky_rbtree_insert_timer_value :: "addr \<Rightarrow> addr \<Rightarrow> rb \<Rightarrow> rb option" where
  "hky_rbtree_insert_timer_value = insert_callback timer_less"

section \<open>Minimum and successor\<close>

definition hky_rbtree_min :: "addr \<Rightarrow> rb \<Rightarrow> addr option" where
  "hky_rbtree_min node s = while_option (\<lambda>n. lft s n \<noteq> sentinel s) (lft s) node"

text \<open>The outer option is the loop's, the inner one is \<open>NULL\<close> or the successor.\<close>

definition hky_rbtree_next :: "addr \<Rightarrow> rb \<Rightarrow> addr option option" where
  "hky_rbtree_next node s =
     (if rgt s node \<noteq> sentinel s then map_option Some (hky_rbtree_min (rgt s node) s)
      else map_option (\<lambda>n. if n = root s then None else Some (par s n))
        (while_option (\<lambda>n. n \<noteq> root s \<and> n \<noteq> lft s (par s n)) (par s) node))"

section \<open>Deletion\<close>

text \<open>
  The second half of an iteration of the fixup loop of \<open>hky_rbtree_delete\<close>, once the sibling
  \<open>w\<close> of \<open>temp\<close> is black, for \<open>temp\<close> a left child and for \<open>temp\<close> a right child.
\<close>

definition delete_balance_left :: "addr \<Rightarrow> rb \<Rightarrow> addr \<Rightarrow> rb \<times> addr" where
  "delete_balance_left temp s w =
     (if \<not> clr s (lft s w) \<and> \<not> clr s (rgt s w) then
        let s = hky_rbt_red w s in (s, par s temp)
      else
        let (s, w) = (if \<not> clr s (rgt s w) then
              let s = hky_rbt_black (lft s w) s;
                  s = hky_rbt_red w s;
                  s = hky_rbtree_right_rotate w s
              in (s, rgt s (par s temp)) else (s, w));
            s = hky_rbt_copy_color w (par s temp) s;
            s = hky_rbt_black (par s temp) s;
            s = hky_rbt_black (rgt s w) s;
            s = hky_rbtree_left_rotate (par s temp) s
        in (s, root s))"

definition delete_balance_right :: "addr \<Rightarrow> rb \<Rightarrow> addr \<Rightarrow> rb \<times> addr" where
  "delete_balance_right temp s w =
     (if \<not> clr s (lft s w) \<and> \<not> clr s (rgt s w) then
        let s = hky_rbt_red w s in (s, par s temp)
      else
        let (s, w) = (if \<not> clr s (lft s w) then
              let s = hky_rbt_black (rgt s w) s;
                  s = hky_rbt_red w s;
                  s = hky_rbtree_left_rotate w s
              in (s, lft s (par s temp)) else (s, w));
            s = hky_rbt_copy_color w (par s temp) s;
            s = hky_rbt_black (par s temp) s;
            s = hky_rbt_black (lft s w) s;
            s = hky_rbtree_right_rotate (par s temp) s
        in (s, root s))"

text \<open>One iteration, on the state and \<open>temp\<close>.\<close>

definition delete_step :: "rb \<times> addr \<Rightarrow> rb \<times> addr" where
  "delete_step = (\<lambda>(s, temp).
     if temp = lft s (par s temp) then
       let w = rgt s (par s temp) in
       if clr s w then
         let s = hky_rbt_black w s;
             s = hky_rbt_red (par s temp) s;
             s = hky_rbtree_left_rotate (par s temp) s
         in delete_balance_left temp s (rgt s (par s temp))
       else delete_balance_left temp s w
     else
       let w = lft s (par s temp) in
       if clr s w then
         let s = hky_rbt_black w s;
             s = hky_rbt_red (par s temp) s;
             s = hky_rbtree_right_rotate (par s temp) s
         in delete_balance_right temp s (lft s (par s temp))
       else delete_balance_right temp s w)"

definition delete_fixup :: "rb \<Rightarrow> addr \<Rightarrow> rb option" where
  "delete_fixup s temp =
     map_option (\<lambda>(s, temp). hky_rbt_black temp s)
       (while_option (\<lambda>(s, temp). temp \<noteq> root s \<and> \<not> clr s temp) delete_step (s, temp))"

text \<open>The choice of \<open>(subst, temp)\<close> at the head of \<open>hky_rbtree_delete\<close>.\<close>

definition delete_choose :: "addr \<Rightarrow> rb \<Rightarrow> (addr \<times> addr) option" where
  "delete_choose node s =
     (if lft s node = sentinel s then Some (node, rgt s node)
      else if rgt s node = sentinel s then Some (node, lft s node)
      else map_option
        (\<lambda>subst. (subst, if lft s subst \<noteq> sentinel s then lft s subst else rgt s subst))
        (hky_rbtree_min (rgt s node) s))"

text \<open>Clearing the removed node, the lines under ``DEBUG stuff''.\<close>

definition delete_clear :: "addr \<Rightarrow> rb \<Rightarrow> rb" where
  "delete_clear node s =
     (let s = set_lft node 0 s; s = set_rgt node 0 s; s = set_par node 0 s
      in s\<lparr>ky := (ky s)(node := 0)\<rparr>)"

text \<open>The move of \<open>subst\<close> into the place of \<open>node\<close>.\<close>

definition delete_replace :: "addr \<Rightarrow> addr \<Rightarrow> rb \<Rightarrow> rb" where
  "delete_replace node subst s =
     (let s = set_lft subst (lft s node) s;
          s = set_rgt subst (rgt s node) s;
          s = set_par subst (par s node) s;
          s = hky_rbt_copy_color subst node s;
          s = (if node = root s then s\<lparr>root := subst\<rparr>
               else if node = lft s (par s node) then set_lft (par s node) subst s
               else set_rgt (par s node) subst s);
          s = (if lft s subst \<noteq> sentinel s then set_par (lft s subst) subst s else s)
      in (if rgt s subst \<noteq> sentinel s then set_par (rgt s subst) subst s else s))"

text \<open>The unlinking of \<open>subst\<close>, followed by its move when it is not \<open>node\<close> itself.\<close>

definition delete_unlink :: "addr \<Rightarrow> addr \<Rightarrow> addr \<Rightarrow> rb \<Rightarrow> rb" where
  "delete_unlink node subst temp s =
     (let s = (if subst = lft s (par s subst) then set_lft (par s subst) temp s
               else set_rgt (par s subst) temp s)
      in if subst = node then set_par temp (par s subst) s
         else delete_replace node subst
           (if par s subst = node then set_par temp subst s else set_par temp (par s subst) s))"

definition hky_rbtree_delete :: "addr \<Rightarrow> rb \<Rightarrow> rb option" where
  "hky_rbtree_delete node s =
     (case delete_choose node s of
        None \<Rightarrow> None
      | Some (subst, temp) \<Rightarrow>
          if subst = root s then
            Some (delete_clear node (hky_rbt_black temp (s\<lparr>root := temp\<rparr>)))
          else
            let red = clr s subst;
                s = delete_clear node (delete_unlink node subst temp s)
            in if red then Some s else delete_fixup s temp)"

end
