(* ===== verification/Hky_Rbtree_Heap.thy ===== *)
theory Hky_Rbtree_Heap
  imports Hky_Rbtree
begin

text \<open>
  The relation between the node fields of \<open>Hky_Rbtree\<close> and coloured binary trees of node
  addresses, and the effect of the pointer operations on it. \<open>heap_tree s q p t\<close> says that
  \<open>t\<close> hangs at \<open>p\<close> below \<open>q\<close>; \<open>focus s p k t\<close> says that the whole tree is \<open>t\<close>, at \<open>p\<close>,
  plugged into the context \<open>k\<close> (a list of frames from the parent of \<open>p\<close> up to the root).
  The parent of the root is not constrained: the code leaves it stale after a deletion.
\<close>

section \<open>Trees and contexts\<close>

type_synonym rtree = "(addr \<times> bool) tree"
type_synonym frame = "bool \<times> (addr \<times> bool) \<times> rtree"

fun addrs :: "rtree \<Rightarrow> addr list" where
  "addrs Leaf = []"
| "addrs (Node l a r) = addrs l @ fst a # addrs r"

fun ctx_addrs :: "frame list \<Rightarrow> addr list" where
  "ctx_addrs [] = []"
| "ctx_addrs ((d, a, t) # k) = fst a # addrs t @ ctx_addrs k"

fun plug :: "frame list \<Rightarrow> rtree \<Rightarrow> rtree" where
  "plug [] t = t"
| "plug ((True, a, r) # k) t = plug k (Node t a r)"
| "plug ((False, a, l) # k) t = plug k (Node l a t)"

fun heap_tree :: "rb \<Rightarrow> addr \<Rightarrow> addr \<Rightarrow> rtree \<Rightarrow> bool" where
  "heap_tree s q p Leaf \<longleftrightarrow> p = sentinel s"
| "heap_tree s q p (Node l a r) \<longleftrightarrow>
     p = fst a \<and> p \<noteq> sentinel s \<and> clr s p = snd a \<and> par s p = q \<and>
     heap_tree s p (lft s p) l \<and> heap_tree s p (rgt s p) r"

fun heap_ctx :: "rb \<Rightarrow> addr \<Rightarrow> addr \<Rightarrow> frame list \<Rightarrow> bool" where
  "heap_ctx s q p [] \<longleftrightarrow> root s = p"
| "heap_ctx s q p ((d, a, t) # k) \<longleftrightarrow>
     q = fst a \<and> q \<noteq> sentinel s \<and> clr s q = snd a \<and>
     (if d then lft s q = p \<and> heap_tree s q (rgt s q) t
      else rgt s q = p \<and> heap_tree s q (lft s q) t) \<and>
     heap_ctx s (par s q) q k"

definition focus :: "rb \<Rightarrow> addr \<Rightarrow> addr \<Rightarrow> frame list \<Rightarrow> rtree \<Rightarrow> bool" where
  "focus s q p k t \<longleftrightarrow>
     heap_ctx s q p k \<and> heap_tree s q p t \<and> distinct (addrs t @ ctx_addrs k) \<and> \<not> clr s (sentinel s)"

definition rb_rel :: "rb \<Rightarrow> rtree \<Rightarrow> bool" where
  "rb_rel s t \<longleftrightarrow> (\<exists>q. focus s q (root s) [] t)"

lemma set_addrs_plug: "set (addrs (plug k t)) = set (addrs t) \<union> set (ctx_addrs k)"
  by (induction k t rule: plug.induct) auto

lemma distinct_addrs_plug: "distinct (addrs (plug k t)) \<longleftrightarrow> distinct (addrs t @ ctx_addrs k)"
  by (induction k t rule: plug.induct) auto

lemma addrs_plug_cong: "addrs t = addrs t' \<Longrightarrow> addrs (plug k t) = addrs (plug k t')"
proof (induction k arbitrary: t t')
  case (Cons f k)
  obtain d a u where "f = (d, a, u)" by (cases f)
  with Cons show ?case by (cases d) simp_all
qed simp

lemma heap_tree_notin: "heap_tree s q p t \<Longrightarrow> sentinel s \<notin> set (addrs t)"
  by (induction t arbitrary: q p) auto

lemma heap_ctx_notin: "heap_ctx s q p k \<Longrightarrow> sentinel s \<notin> set (ctx_addrs k)"
proof (induction k arbitrary: q p)
  case (Cons f k)
  then show ?case by (cases f) (auto split: if_splits simp: heap_tree_notin)
qed simp

lemma heap_tree_in: "heap_tree s q p t \<Longrightarrow> p \<noteq> sentinel s \<Longrightarrow> p \<in> set (addrs t)"
  by (cases t) auto

lemma heap_tree_sentinel: "heap_tree s q p t \<Longrightarrow> p = sentinel s \<longleftrightarrow> t = Leaf"
  by (cases t) auto

section \<open>Moving the focus\<close>

lemma focus_up_left:
  "focus s q p ((True, a, r) # k) l \<Longrightarrow> focus s (par s q) q k (Node l a r)"
  unfolding focus_def by auto

lemma focus_up_right:
  "focus s q p ((False, a, l) # k) r \<Longrightarrow> focus s (par s q) q k (Node l a r)"
  unfolding focus_def by auto

lemma focus_down_left:
  "focus s q p k (Node l a r) \<Longrightarrow> focus s p (lft s p) ((True, a, r) # k) l"
  unfolding focus_def by auto

lemma focus_down_right:
  "focus s q p k (Node l a r) \<Longrightarrow> focus s p (rgt s p) ((False, a, l) # k) r"
  unfolding focus_def by auto

lemma focus_root:
  assumes "focus s q p k t" "p \<noteq> sentinel s"
  shows "p = root s \<longleftrightarrow> k = []"
proof -
  have "k \<noteq> [] \<Longrightarrow> heap_ctx s q p k \<Longrightarrow> root s \<in> set (ctx_addrs k)"
  proof (induction k arbitrary: q p)
    case (Cons f k)
    then show ?case by (cases f, cases k) auto
  qed simp
  moreover have "p \<in> set (addrs t)" using assms heap_tree_in unfolding focus_def by blast
  ultimately show ?thesis using assms by (cases k) (auto simp: focus_def)
qed

lemma focus_plug: "focus s q p k t \<Longrightarrow> rb_rel s (plug k t)"
proof (induction k arbitrary: q p t)
  case Nil
  then show ?case by (auto simp: rb_rel_def focus_def)
next
  case (Cons f k)
  obtain d a u where "f = (d, a, u)" by (cases f)
  with Cons show ?case by (cases d) (auto dest: focus_up_left focus_up_right)
qed

text \<open>The test \<open>node == node->parent->left\<close> finds the side of the focus.\<close>

lemma focus_side:
  assumes "focus s q p ((d, a, u) # k) t" "p \<noteq> sentinel s \<or> u \<noteq> Leaf"
  shows "p = lft s q \<longleftrightarrow> d" "p = rgt s q \<longleftrightarrow> \<not> d"
proof -
  have "p = rgt s q \<Longrightarrow> d \<Longrightarrow> False" "p = lft s q \<Longrightarrow> \<not> d \<Longrightarrow> False"
    using assms heap_tree_in [of s q p t] heap_tree_in [of s q p u] heap_tree_sentinel [of s q p u]
    unfolding focus_def by auto
  then show "p = lft s q \<longleftrightarrow> d" "p = rgt s q \<longleftrightarrow> \<not> d"
    using assms unfolding focus_def by (auto split: if_splits)
qed

section \<open>Frame properties\<close>

definition same_on :: "addr set \<Rightarrow> rb \<Rightarrow> rb \<Rightarrow> bool" where
  "same_on A s s' \<longleftrightarrow> sentinel s' = sentinel s \<and>
     (\<forall>x\<in>A. lft s' x = lft s x \<and> rgt s' x = rgt s x \<and> par s' x = par s x \<and> clr s' x = clr s x)"

lemma same_onI:
  "sentinel s' = sentinel s \<Longrightarrow>
   (\<And>x. x \<in> A \<Longrightarrow> lft s' x = lft s x \<and> rgt s' x = rgt s x \<and> par s' x = par s x \<and> clr s' x = clr s x) \<Longrightarrow>
   same_on A s s'"
  unfolding same_on_def by blast

lemma same_on_mono: "same_on A s s' \<Longrightarrow> B \<subseteq> A \<Longrightarrow> same_on B s s'"
  unfolding same_on_def by blast

lemma heap_tree_same: "same_on (set (addrs t)) s s' \<Longrightarrow> heap_tree s q p t \<Longrightarrow> heap_tree s' q p t"
proof (induction t arbitrary: q p)
  case (Node l a r)
  have "same_on (set (addrs l)) s s'" "same_on (set (addrs r)) s s'"
    using Node.prems(1) by (auto intro: same_on_mono)
  moreover have "lft s' p = lft s p" "rgt s' p = rgt s p" "par s' p = par s p" "clr s' p = clr s p"
    "sentinel s' = sentinel s"
    using Node.prems by (auto simp: same_on_def)
  ultimately show ?case using Node by auto
qed (simp add: same_on_def)

lemma heap_ctx_same:
  "same_on (set (ctx_addrs k)) s s' \<Longrightarrow> root s' = root s \<Longrightarrow> heap_ctx s q p k \<Longrightarrow> heap_ctx s' q p k"
proof (induction k arbitrary: q p)
  case (Cons f k)
  obtain d a u where f: "f = (d, a, u)" by (cases f)
  have "same_on (set (ctx_addrs k)) s s'" "same_on (set (addrs u)) s s'"
    using Cons.prems(1) f by (auto intro: same_on_mono)
  moreover have "lft s' q = lft s q" "rgt s' q = rgt s q" "par s' q = par s q" "clr s' q = clr s q"
    "sentinel s' = sentinel s"
    using Cons.prems f by (auto simp: same_on_def)
  ultimately show ?case using Cons f heap_tree_same [of u s s'] by (auto split: if_splits)
qed (simp add: same_on_def)

text \<open>A tree whose parent field was redirected.\<close>

definition same_but_par :: "addr \<Rightarrow> addr \<Rightarrow> addr set \<Rightarrow> rb \<Rightarrow> rb \<Rightarrow> bool" where
  "same_but_par p q A s s' \<longleftrightarrow> sentinel s' = sentinel s \<and>
     (\<forall>x\<in>A. lft s' x = lft s x \<and> rgt s' x = rgt s x \<and> clr s' x = clr s x \<and>
        par s' x = (if x = p then q else par s x))"

lemma heap_tree_reparent:
  assumes "same_but_par p q' (set (addrs t)) s s'" "heap_tree s q p t" "distinct (addrs t)"
  shows "heap_tree s' q' p t"
proof (cases t)
  case (Node l a r)
  have "same_on (set (addrs l)) s s'" "same_on (set (addrs r)) s s'"
    using assms Node unfolding same_on_def same_but_par_def by auto
  with assms Node heap_tree_same show ?thesis by (auto simp: same_but_par_def)
qed (use assms in \<open>simp add: same_but_par_def\<close>)

text \<open>A context whose hole was relinked from \<open>p\<close> to \<open>p'\<close>.\<close>

definition relinked :: "addr \<Rightarrow> frame list \<Rightarrow> rb \<Rightarrow> rb \<Rightarrow> bool" where
  "relinked p' k s s' \<longleftrightarrow> sentinel s' = sentinel s \<and>
     (case k of [] \<Rightarrow> root s' = p'
      | (d, a, u) # k' \<Rightarrow>
          root s' = root s \<and> same_on (set (addrs u @ ctx_addrs k')) s s' \<and>
          par s' (fst a) = par s (fst a) \<and> clr s' (fst a) = clr s (fst a) \<and>
          (if d then lft s' (fst a) = p' \<and> rgt s' (fst a) = rgt s (fst a)
           else rgt s' (fst a) = p' \<and> lft s' (fst a) = lft s (fst a)))"

lemma heap_ctx_relinked:
  assumes "relinked p' k s s'" "heap_ctx s q p k"
  shows "heap_ctx s' q p' k"
proof (cases k)
  case (Cons f k')
  obtain d a u where f: "f = (d, a, u)" by (cases f)
  have same: "same_on (set (addrs u)) s s'" "same_on (set (ctx_addrs k')) s s'"
    and r: "root s' = root s"
    using assms(1) Cons f by (auto simp: relinked_def intro: same_on_mono)
  have "heap_ctx s' (par s q) q k'"
    by (rule heap_ctx_same [OF same(2) r]) (use assms(2) Cons f in auto)
  moreover have "heap_tree s x y u \<Longrightarrow> heap_tree s' x y u" for x y by (rule heap_tree_same [OF same(1)])
  ultimately show ?thesis using assms Cons f by (auto simp: relinked_def split: if_splits)
qed (use assms in \<open>simp add: relinked_def\<close>)

section \<open>Mirror images\<close>

text \<open>
  The right rotation is the mirror image of the left one, and in both fixup loops the second
  branch is the mirror image of the first: each lemma is proved for one side and transported.
\<close>

definition flip :: "rb \<Rightarrow> rb" where
  "flip s = s\<lparr>lft := rgt s, rgt := lft s\<rparr>"

definition flip_ctx :: "frame list \<Rightarrow> frame list" where
  "flip_ctx k = map (\<lambda>(d, a, t). (\<not> d, a, mirror t)) k"

lemma flip_simps [simp]:
  "lft (flip s) = rgt s" "rgt (flip s) = lft s" "par (flip s) = par s" "ky (flip s) = ky s"
  "clr (flip s) = clr s" "root (flip s) = root s" "sentinel (flip s) = sentinel s" "flip (flip s) = s"
  by (simp_all add: flip_def)

lemma flip_ctx_simps [simp]:
  "flip_ctx [] = []" "flip_ctx ((d, a, t) # k) = (\<not> d, a, mirror t) # flip_ctx k"
  "flip_ctx (flip_ctx k) = k" "flip_ctx k = [] \<longleftrightarrow> k = []"
  by (simp_all add: flip_ctx_def split_def comp_def)

lemma addrs_mirror [simp]: "addrs (mirror t) = rev (addrs t)"
  by (induction t) auto

lemma set_ctx_addrs_flip [simp]: "set (ctx_addrs (flip_ctx k)) = set (ctx_addrs k)"
  by (induction k) auto

lemma distinct_ctx_addrs_flip [simp]: "distinct (ctx_addrs (flip_ctx k)) = distinct (ctx_addrs k)"
  by (induction k) auto

lemma heap_tree_flip [simp]: "heap_tree (flip s) q p (mirror t) = heap_tree s q p t"
  by (induction t arbitrary: q p) auto

lemma heap_ctx_flip [simp]: "heap_ctx (flip s) q p (flip_ctx k) = heap_ctx s q p k"
  by (induction k arbitrary: q p) auto

lemma focus_flip: "focus (flip s) q p (flip_ctx k) (mirror t) = focus s q p k t"
  by (auto simp: focus_def)

lemma plug_flip: "plug (flip_ctx k) (mirror t) = mirror (plug k t)"
proof (induction k arbitrary: t)
  case (Cons f k)
  obtain d a u where "f = (d, a, u)" by (cases f)
  with Cons [of "Node t a u"] Cons [of "Node u a t"] show ?case by (cases d) simp_all
qed simp

lemma right_rotate_flip: "hky_rbtree_right_rotate a s = flip (hky_rbtree_left_rotate a (flip s))"
  unfolding hky_rbtree_right_rotate_def hky_rbtree_left_rotate_def Let_def
  by (rule rb.equality; cases "root s = a"; cases "rgt s (lft s a) = sentinel s"; simp)

lemma rotate_frame [simp]:
  "clr (hky_rbtree_left_rotate a s) = clr s" "clr (hky_rbtree_right_rotate a s) = clr s"
  "ky (hky_rbtree_left_rotate a s) = ky s" "ky (hky_rbtree_right_rotate a s) = ky s"
  "sentinel (hky_rbtree_left_rotate a s) = sentinel s" "sentinel (hky_rbtree_right_rotate a s) = sentinel s"
  by (simp_all add: hky_rbtree_right_rotate_def hky_rbtree_left_rotate_def Let_def)

section \<open>Rotations\<close>

lemma left_rotate_focus:
  assumes F: "focus s q a k (Node A (a, ca) (Node B (b, cb) C))"
  shows "focus (hky_rbtree_left_rotate a s) q b k (Node (Node A (a, ca) B) (b, cb) C)"
    (is "focus ?s q b k _")
proof -
  let ?c = "lft s b"
  have hc: "heap_ctx s q a k" and hA: "heap_tree s a (lft s a) A" and hB: "heap_tree s b ?c B"
    and hC: "heap_tree s b (rgt s b) C" and ab: "rgt s a = b" and pa: "par s a = q" and pb: "par s b = a"
    and sa: "a \<noteq> sentinel s" "b \<noteq> sentinel s" and col: "clr s a = ca" "clr s b = cb" "\<not> clr s (sentinel s)"
    using F by (auto simp: focus_def)
  have di: "distinct (addrs A @ a # addrs B @ b # addrs C @ ctx_addrs k)"
    using F by (simp add: focus_def)
  have r: "a = root s \<longleftrightarrow> k = []" using focus_root [OF F sa(1)] by simp
  have sent: "sentinel s \<notin> set (addrs B)" "sentinel s \<notin> set (ctx_addrs k)"
    using hB hc heap_tree_notin heap_ctx_notin by blast+
  have cB: "?c = sentinel s \<longleftrightarrow> B = Leaf" "?c = sentinel s \<or> ?c \<in> set (addrs B)"
    using heap_tree_sentinel [OF hB] heap_tree_in [OF hB] by auto
  have q: "k \<noteq> [] \<Longrightarrow> q \<in> set (ctx_addrs k)" using hc by (cases k) auto
  have side: "a = lft s q \<longleftrightarrow> fst (hd k)" if ne: "k \<noteq> []"
  proof -
    obtain d x u k' where k: "k = (d, x, u) # k'" using ne by (cases k) auto
    then show ?thesis using focus_side(1) [OF F [unfolded k]] sa by simp
  qed
  have ne: "a \<noteq> b" "?c \<noteq> a" "?c \<noteq> b" "k \<noteq> [] \<Longrightarrow> q \<noteq> a \<and> q \<noteq> b \<and> q \<noteq> ?c"
    using di cB q sent sa by auto
  have L: "lft ?s = (if k \<noteq> [] \<and> fst (hd k) then (lft s)(q := b, b := a) else (lft s)(b := a))"
    using r ne side pa by (simp add: hky_rbtree_left_rotate_def Let_def ab)
  have R: "rgt ?s = (if k \<noteq> [] \<and> \<not> fst (hd k) then (rgt s)(a := ?c, q := b) else (rgt s)(a := ?c))"
    using r ne side pa by (simp add: hky_rbtree_left_rotate_def Let_def ab)
  have P: "par ?s = (if B = Leaf then (par s)(b := q, a := b) else (par s)(?c := a, b := q, a := b))"
    using r ne side pa cB(1) by (simp add: hky_rbtree_left_rotate_def Let_def ab)
  have O: "root ?s = (if k = [] then b else root s)" "clr ?s = clr s" "sentinel ?s = sentinel s"
    using r by (simp_all add: hky_rbtree_left_rotate_def Let_def ab)
  have same: "lft ?s z = lft s z \<and> rgt ?s z = rgt s z \<and> par ?s z = par s z \<and> clr ?s z = clr s z"
    if "z \<noteq> a" "z \<noteq> b" "z \<noteq> ?c" "k \<noteq> [] \<Longrightarrow> z \<noteq> q" for z
    using that by (simp add: L R P O)
  have "relinked b k s ?s"
  proof (cases k)
    case (Cons f k')
    obtain d x u where f: "f = (d, x, u)" by (cases f)
    have q': "q = fst x" using hc Cons f by simp
    have "z \<noteq> a \<and> z \<noteq> b \<and> z \<noteq> ?c \<and> z \<noteq> q" if "z \<in> set (addrs u @ ctx_addrs k')" for z
      using that di cB(2) sent(2) Cons f q' by auto
    then have "same_on (set (addrs u @ ctx_addrs k')) s ?s"
      by (intro same_onI O(3) same) auto
    then show ?thesis using hc ne Cons f by (simp add: relinked_def L R P O)
  qed (simp add: relinked_def O)
  then have hc': "heap_ctx ?s q b k" by (rule heap_ctx_relinked) (rule hc)
  have "z \<noteq> a \<and> z \<noteq> b \<and> z \<noteq> ?c \<and> (k \<noteq> [] \<longrightarrow> z \<noteq> q)" if "z \<in> set (addrs A) \<union> set (addrs C)" for z
    using that di cB(2) q heap_tree_notin [OF hA] heap_tree_notin [OF hC] by auto
  then have sA: "same_on (set (addrs A)) s ?s" and sC: "same_on (set (addrs C)) s ?s"
    by (intro same_onI O(3) same; simp)+
  have sB: "same_but_par ?c a (set (addrs B)) s ?s"
    unfolding same_but_par_def using di cB q sent by (auto simp: L R P O)
  have "heap_tree ?s a (lft ?s a) A" "heap_tree ?s b (rgt ?s b) C" "heap_tree ?s a (rgt ?s a) B"
    using heap_tree_same [OF sA hA] heap_tree_same [OF sC hC] heap_tree_reparent [OF sB hB] di ne
    by (auto simp: L R)
  moreover have "lft ?s b = a" "par ?s b = q" "par ?s a = b"
    using ne by (auto simp: L P)
  ultimately show ?thesis
    using hc' di sa col O(2,3) by (simp add: focus_def)
qed

lemma right_rotate_focus:
  assumes "focus s q a k (Node (Node C (b, cb) B) (a, ca) A)"
  shows "focus (hky_rbtree_right_rotate a s) q b k (Node C (b, cb) (Node B (a, ca) A))"
  using left_rotate_focus [of "flip s" q a "flip_ctx k" "mirror A" ca "mirror B" b cb "mirror C"] assms
    focus_flip [of s q a k "Node (Node C (b, cb) B) (a, ca) A"]
    focus_flip [of "hky_rbtree_right_rotate a s" q b k "Node C (b, cb) (Node B (a, ca) A)"]
  by (simp add: right_rotate_flip)

section \<open>Recolouring\<close>

text \<open>Colour changes at the root of the focused tree.\<close>

lemma recolor_focus:
  assumes "focus s q p k (Node l (p, c) r)"
  shows "focus (s\<lparr>clr := (clr s)(p := c')\<rparr>) q p k (Node l (p, c') r)"
proof -
  let ?s = "s\<lparr>clr := (clr s)(p := c')\<rparr>"
  have d: "p \<notin> set (addrs l)" "p \<notin> set (addrs r)" "p \<notin> set (ctx_addrs k)" "p \<noteq> sentinel s"
    using assms by (auto simp: focus_def)
  have "same_on (set (addrs l)) s ?s" "same_on (set (addrs r)) s ?s" "same_on (set (ctx_addrs k)) s ?s"
    using d by (auto simp: same_on_def)
  then show ?thesis
    using assms d heap_ctx_same [of k s ?s q p] heap_tree_same [of l s ?s] heap_tree_same [of r s ?s]
    by (simp add: focus_def)
qed

end
