(* ===== verification/Hky_Rbtree_Insert.thy ===== *)
theory Hky_Rbtree_Insert
  imports Hky_Rbtree_Heap
begin

text \<open>
  Correctness of the insertion of src/core/hky_rbtree.c: the fixup loop ends and restores the
  red-black invariants, the three insert callbacks link the node at its place in the order,
  and the insertion as a whole is the insertion into the ordered list of nodes.
\<close>

section \<open>Red-black invariants of trees and contexts\<close>

fun isred :: "rtree \<Rightarrow> bool" where
  "isred Leaf = False"
| "isred (Node l a r) = snd a"

fun bh :: "rtree \<Rightarrow> nat" where
  "bh Leaf = 0"
| "bh (Node l a r) = (if snd a then bh l else Suc (bh l))"

fun inv_h :: "rtree \<Rightarrow> bool" where
  "inv_h Leaf = True"
| "inv_h (Node l a r) = (inv_h l \<and> inv_h r \<and> bh l = bh r)"

fun inv_c :: "rtree \<Rightarrow> bool" where
  "inv_c Leaf = True"
| "inv_c (Node l a r) = (inv_c l \<and> inv_c r \<and> (snd a \<longrightarrow> \<not> isred l \<and> \<not> isred r))"

definition rb_ok :: "rtree \<Rightarrow> bool" where
  "rb_ok t \<longleftrightarrow> inv_h t \<and> inv_c t \<and> \<not> isred t"

fun cred :: "frame list \<Rightarrow> bool" where
  "cred [] = False"
| "cred ((d, a, u) # k) = snd a"

fun hctx :: "nat \<Rightarrow> frame list \<Rightarrow> bool" where
  "hctx n [] = True"
| "hctx n ((d, a, u) # k) = (inv_h u \<and> bh u = n \<and> hctx (if snd a then n else Suc n) k)"

fun cctx :: "frame list \<Rightarrow> bool" where
  "cctx [] = True"
| "cctx ((d, a, u) # k) = (inv_c u \<and> (snd a \<longrightarrow> \<not> isred u \<and> \<not> cred k) \<and> cctx k)"

text \<open>The root of a tree with this context is black.\<close>

fun topblack :: "frame list \<Rightarrow> bool" where
  "topblack [] = True"
| "topblack ((d, a, u) # k) = (if k = [] then \<not> snd a else topblack k)"

lemma inv_h_plug: "inv_h (plug k t) \<longleftrightarrow> inv_h t \<and> hctx (bh t) k"
  by (induction k t rule: plug.induct) auto

lemma inv_c_plug: "inv_c (plug k t) \<longleftrightarrow> inv_c t \<and> cctx k \<and> \<not> (isred t \<and> cred k)"
  by (induction k t rule: plug.induct) auto

lemma isred_plug: "topblack k \<Longrightarrow> k \<noteq> [] \<Longrightarrow> \<not> isred (plug k t)"
proof (induction k t rule: plug.induct)
  case (2 a r k t)
  then show ?case by (cases k) auto
next
  case (3 a l k t)
  then show ?case by (cases k) auto
qed simp

lemma isred_mirror [simp]: "isred (mirror t) = isred t"
  by (cases t) auto

lemma inv_mirror [simp]:
  "inv_h (mirror t) = inv_h t" "inv_h t \<Longrightarrow> bh (mirror t) = bh t" "inv_c (mirror t) = inv_c t"
proof -
  have "inv_h t \<Longrightarrow> bh (mirror t) = bh t" for t by (induction t) auto
  moreover from this show "inv_h (mirror t) = inv_h t" by (induction t) auto
  ultimately show "inv_h t \<Longrightarrow> bh (mirror t) = bh t" by blast
  show "inv_c (mirror t) = inv_c t" by (induction t) auto
qed

lemma cred_flip [simp]: "cred (flip_ctx k) = cred k"
  by (cases k rule: cred.cases) auto

lemma ctx_inv_flip [simp]:
  "hctx n (flip_ctx k) = hctx n k" "cctx (flip_ctx k) = cctx k" "topblack (flip_ctx k) = topblack k"
proof -
  show "hctx n (flip_ctx k) = hctx n k" by (induction k arbitrary: n) auto
  show "cctx (flip_ctx k) = cctx k" by (induction k) auto
  show "topblack (flip_ctx k) = topblack k" by (induction k) (auto split: if_splits)
qed

text \<open>Reading the focus.\<close>

lemma focus_frame:
  assumes "focus s q p ((d, a, u) # k) t"
  shows "q = fst a" "clr s q = snd a" "lft s q = p \<or> \<not> d" "rgt s q = p \<or> d" "q \<noteq> sentinel s"
  using assms by (auto simp: focus_def split: if_splits)

lemma focus_node:
  assumes "focus s q p k (Node l a r)"
  shows "p = fst a" "clr s p = snd a" "par s p = q" "p \<noteq> sentinel s"
  using assms by (auto simp: focus_def)

lemma focus_red: "focus s q p k t \<Longrightarrow> clr s p = isred t"
  by (cases t) (auto simp: focus_def)

section \<open>The insertion fixup\<close>

definition ins_inv :: "rb \<Rightarrow> addr \<Rightarrow> frame list \<Rightarrow> addr list \<Rightarrow> bool" where
  "ins_inv s node k xs \<longleftrightarrow>
     (\<exists>q t. focus s q node k t \<and> isred t \<and> inv_c t \<and> inv_h (plug k t) \<and> cctx k \<and> topblack k \<and>
        addrs (plug k t) = xs)"

lemma ins_inv_flip: "ins_inv s node k xs \<Longrightarrow> ins_inv (flip s) node (flip_ctx k) (rev xs)"
proof -
  assume "ins_inv s node k xs"
  then obtain q t where "focus s q node k t" "isred t" "inv_c t" "inv_h (plug k t)" "cctx k" "topblack k"
    "addrs (plug k t) = xs"
    unfolding ins_inv_def by blast
  then show ?thesis
    unfolding ins_inv_def
    by (intro exI [of _ q] exI [of _ "mirror t"]) (simp add: focus_flip plug_flip)
qed

lemma color_flip [simp]:
  "hky_rbt_black a (flip s) = flip (hky_rbt_black a s)"
  "hky_rbt_red a (flip s) = flip (hky_rbt_red a s)"
  "hky_rbt_copy_color a b (flip s) = flip (hky_rbt_copy_color a b s)"
  by (simp_all add: hky_rbt_black_def hky_rbt_red_def hky_rbt_copy_color_def flip_def)

lemma rotate_flip [simp]:
  "hky_rbtree_left_rotate a (flip s) = flip (hky_rbtree_right_rotate a s)"
  "hky_rbtree_right_rotate a (flip s) = flip (hky_rbtree_left_rotate a s)"
  by (simp_all add: right_rotate_flip)

lemma color_frame [simp]:
  "lft (hky_rbt_black a s) = lft s" "rgt (hky_rbt_black a s) = rgt s" "par (hky_rbt_black a s) = par s"
  "ky (hky_rbt_black a s) = ky s" "root (hky_rbt_black a s) = root s" "sentinel (hky_rbt_black a s) = sentinel s"
  "lft (hky_rbt_red a s) = lft s" "rgt (hky_rbt_red a s) = rgt s" "par (hky_rbt_red a s) = par s"
  "ky (hky_rbt_red a s) = ky s" "root (hky_rbt_red a s) = root s" "sentinel (hky_rbt_red a s) = sentinel s"
  "lft (hky_rbt_copy_color a b s) = lft s" "rgt (hky_rbt_copy_color a b s) = rgt s"
  "par (hky_rbt_copy_color a b s) = par s" "ky (hky_rbt_copy_color a b s) = ky s"
  "root (hky_rbt_copy_color a b s) = root s" "sentinel (hky_rbt_copy_color a b s) = sentinel s"
  by (simp_all add: hky_rbt_black_def hky_rbt_red_def hky_rbt_copy_color_def)

lemma insert_step_flip:
  assumes "par s node \<noteq> lft s (par s (par s node))" "par s node = rgt s (par s (par s node))"
  shows "insert_step (s, node) = apfst flip (insert_step (flip s, node))"
  using assms by (simp add: insert_step_def Let_def)

lemma black_focus: "focus s q p k (Node l (p, c) r) \<Longrightarrow> focus (hky_rbt_black p s) q p k (Node l (p, False) r)"
  unfolding hky_rbt_black_def by (rule recolor_focus)

lemma red_focus: "focus s q p k (Node l (p, c) r) \<Longrightarrow> focus (hky_rbt_red p s) q p k (Node l (p, True) r)"
  unfolding hky_rbt_red_def by (rule recolor_focus)

text \<open>The red uncle case: three recolourings, focus on the grandparent.\<close>

lemma recolor_case:
  assumes F: "focus s g p ((True, (g, False), Node ul (u, True) ur) # k) (Node l (p, True) r)"
  shows "focus (hky_rbt_red g (hky_rbt_black u (hky_rbt_black p s))) (par s g) g k
    (Node (Node l (p, False) r) (g, True) (Node ul (u, False) ur))"
proof -
  let ?s1 = "hky_rbt_black p s"
  have "focus ?s1 (par s g) g k (Node (Node l (p, False) r) (g, False) (Node ul (u, True) ur))"
    using focus_up_left [OF black_focus [OF F]] by simp
  from focus_down_right [OF this] have
    F2: "focus ?s1 g u ((False, (g, False), Node l (p, False) r) # k) (Node ul (u, True) ur)"
    using focus_node(1) by fastforce
  have "focus (hky_rbt_black u ?s1) (par s g) g k (Node (Node l (p, False) r) (g, False) (Node ul (u, False) ur))"
    using focus_up_right [OF black_focus [OF F2]] by simp
  then show ?thesis by (rule red_focus)
qed

text \<open>The black uncle case with the node outside: two recolourings and a rotation.\<close>

lemma rotate_case:
  assumes F: "focus s g p ((True, (g, False), U) # k) (Node (Node a (n, True) b) (p, True) c)"
  shows "focus (hky_rbtree_right_rotate g (hky_rbt_red g (hky_rbt_black p s))) (par s g) p k
    (Node (Node a (n, True) b) (p, False) (Node c (g, True) U))"
proof -
  let ?s1 = "hky_rbt_black p s"
  have "focus ?s1 (par s g) g k (Node (Node (Node a (n, True) b) (p, False) c) (g, False) U)"
    using focus_up_left [OF black_focus [OF F]] by simp
  from right_rotate_focus [OF red_focus [OF this]] show ?thesis .
qed

text \<open>
  One iteration: it keeps the invariant and shortens the context, when \<open>node\<close> is not the root
  and its parent is red.
\<close>

definition ins_progress :: "nat \<Rightarrow> addr list \<Rightarrow> rb \<Rightarrow> rb \<times> addr \<Rightarrow> bool" where
  "ins_progress n xs s r \<longleftrightarrow>
     (\<exists>k. ins_inv (fst r) (snd r) k xs \<and> length k < n) \<and> ky (fst r) = ky s \<and> sentinel (fst r) = sentinel s"

lemma ins_progressI:
  assumes "focus s' q n k' t" "isred t" "inv_c t" "inv_h (plug k' t)" "cctx k'" "topblack k'"
    "addrs (plug k' t) = xs" "length k' < m" "ky s' = ky s" "sentinel s' = sentinel s"
  shows "ins_progress m xs s (s', n)"
  unfolding ins_progress_def ins_inv_def using assms by auto

lemma insert_step_left:
  assumes I: "ins_inv s node ((d, (p, True), sib) # (True, (g, False), U) # k) xs"
  shows "ins_progress (length k + 2) xs s (insert_step (s, node))"
proof -
  let ?k = "(True, (g, False), U) # k"
  obtain q t where F: "focus s q node ((d, (p, True), sib) # ?k) t" and T: "isred t" "inv_c t"
    "inv_h (plug ((d, (p, True), sib) # ?k) t)" "cctx ((d, (p, True), sib) # ?k)"
    "topblack ((d, (p, True), sib) # ?k)" "addrs (plug ((d, (p, True), sib) # ?k) t) = xs"
    using I unfolding ins_inv_def by blast
  obtain l a r where t': "t = Node l (a, True) r"
    using T(1) by (cases t) auto
  then have t: "t = Node l (node, True) r"
    using focus_node(1) F by fastforce
  have qp: "q = p" using focus_frame(1) [OF F] by simp
  have pn: "par s node = p" using focus_node(3) F t qp by blast
  let ?tp = "if d then Node t (p, True) sib else Node sib (p, True) t"
  have Fp: "focus s (par s p) p ?k ?tp"
    using focus_up_left focus_up_right F qp by (cases d) auto
  then have pg: "par s p = g" "lft s g = p" using focus_frame(1,3) [OF Fp] by auto
  have Fg: "focus s (par s g) g k (Node ?tp (g, False) U)"
    using focus_up_left [OF Fp] pg by simp
  have cu: "clr s (rgt s g) = isred U" using focus_red [OF focus_down_right [OF Fg]] .
  have tb: "topblack k" using T(5) by (cases k) auto
  have H: "inv_h t" "inv_h sib" "bh sib = bh t" "inv_h U" "bh U = bh t" "hctx (Suc (bh t)) k"
    and C: "inv_c sib" "\<not> isred sib" "inv_c U" "cctx k"
    using T(3,4) by (auto simp: inv_h_plug)
  have A: "addrs (plug k (Node ?tp (g, False) U)) = xs" using T(6) by (cases d) auto
  show ?thesis
  proof (cases "isred U")
    case True
    then obtain ul u ur where U: "U = Node ul (u, True) ur" by (cases U) auto
    have gu: "rgt s g = u" using focus_node(1) [OF focus_down_right [OF Fg [unfolded U]]] by simp
    let ?s = "hky_rbt_red g (hky_rbt_black u (hky_rbt_black p s))"
    let ?tb = "if d then Node t (p, False) sib else Node sib (p, False) t"
    have "focus ?s (par s g) g k (Node ?tb (g, True) (Node ul (u, False) ur))"
      using Fp recolor_case [of s g p ul u ur k] pg unfolding U by (cases d) auto
    moreover have "insert_step (s, node) = (?s, g)"
      using pn pg cu True gu by (simp add: insert_step_def Let_def)
    moreover have "addrs (plug k (Node ?tb (g, True) (Node ul (u, False) ur))) = xs"
      using A U addrs_plug_cong [of "Node ?tb (g, True) (Node ul (u, False) ur)" "Node ?tp (g, False) U" k]
      by simp
    ultimately show ?thesis
      using H C T(2) U tb by (auto intro!: ins_progressI simp: inv_h_plug)
  next
    case U: False
    show ?thesis
    proof (cases d)
      case True
      let ?s = "hky_rbtree_right_rotate g (hky_rbt_red g (hky_rbt_black p s))"
      have "focus ?s (par s g) p k (Node t (p, False) (Node sib (g, True) U))"
        using rotate_case [of s g p U k l node r sib] Fp pg True t by simp
      from focus_down_left [OF this] have
        "focus ?s p node ((True, (p, False), Node sib (g, True) U) # k) t"
        using focus_node(1) t by fastforce
      moreover have "node \<noteq> rgt s p"
        using focus_side(2) [OF F] True qp t F by (simp add: focus_def)
      then have "insert_step (s, node) = (?s, node)"
        using pn pg cu U by (simp add: insert_step_def Let_def)
      moreover have "addrs (plug ((True, (p, False), Node sib (g, True) U) # k) t) = xs"
        using A True addrs_plug_cong [of "Node t (p, False) (Node sib (g, True) U)" "Node ?tp (g, False) U" k]
        by simp
      ultimately show ?thesis
        using H C T(1,2) U tb by (auto intro!: ins_progressI simp: inv_h_plug)
    next
      case False
      let ?s1 = "hky_rbtree_left_rotate p s"
      let ?s = "hky_rbtree_right_rotate g (hky_rbt_red g (hky_rbt_black node ?s1))"
      let ?t = "Node sib (p, True) l"
      have F1: "focus ?s1 g node ?k (Node ?t (node, True) r)"
        using left_rotate_focus [of s g p ?k sib True l node True r] Fp pg False t by simp
      then have p1: "par ?s1 p = node"
        using focus_node(1,3) [of ?s1 node _ _ sib "(p, True)" l] focus_down_left [OF F1] by fastforce
      have g1: "par ?s1 node = g" using focus_node(3) [OF F1] .
      have "focus ?s (par ?s1 g) node k (Node ?t (node, False) (Node r (g, True) U))"
        by (rule rotate_case [OF F1])
      from focus_down_left [OF this] have
        "focus ?s node p ((True, (node, False), Node r (g, True) U) # k) ?t"
        using focus_node(1) by fastforce
      moreover have "node = rgt s p"
        using focus_side(2) [OF F] False qp t F by (simp add: focus_def)
      then have "insert_step (s, node) = (?s, p)"
        using pn pg cu U p1 g1 by (simp add: insert_step_def Let_def)
      moreover have "addrs (plug ((True, (node, False), Node r (g, True) U) # k) ?t) = xs"
        using A False t addrs_plug_cong [of "Node ?t (node, False) (Node r (g, True) U)" "Node ?tp (g, False) U" k]
        by simp
      ultimately show ?thesis
        using H C T(1,2) U tb t by (auto intro!: ins_progressI simp: inv_h_plug)
    qed
  qed
qed

lemma insert_step_progress:
  assumes I: "ins_inv s node k xs" and c: "node \<noteq> root s" "clr s (par s node)"
  shows "ins_progress (length k) xs s (insert_step (s, node))"
proof -
  obtain q t where F: "focus s q node k t" "isred t" and T: "cctx k" "topblack k"
    using I unfolding ins_inv_def by blast
  then have n: "node \<noteq> sentinel s" "par s node = q" by (cases t, auto simp: focus_def)+
  obtain d p c sib k1 where k: "k = (d, (p, c), sib) # k1"
    using focus_root [OF F(1) n(1)] assms(2) by (cases k) auto
  have p: "q = p" "c" using focus_frame(1,2) F(1) c(2) n k by fastforce+
  then obtain e g U k2 where k1: "k1 = (e, (g, False), U) # k2"
    using T k by (cases k1) auto
  define tp where "tp = (if d then Node t (p, c) sib else Node sib (p, c) t)"
  have "focus s (par s p) p k1 tp"
    using F(1) p focus_up_left [of s q node "(p, c)" sib k1 t] focus_up_right [of s q node "(p, c)" sib k1 t]
    unfolding k tp_def by (cases d) auto
  then have Fp: "focus s g p k1 tp" "par s p = g" "p \<noteq> sentinel s"
    using focus_frame(1) [of s _ p e "(g, False)" U k2 tp] unfolding k1
    by (auto simp: tp_def focus_def split: if_splits)
  show ?thesis
  proof (cases e)
    case True
    then show ?thesis using insert_step_left [of s node d p sib g U k2 xs] I p k k1 by simp
  next
    case False
    have side: "par s node \<noteq> lft s (par s (par s node))" "par s node = rgt s (par s (par s node))"
      using focus_side [OF Fp(1) [unfolded k1]] Fp(2,3) False n p by auto
    have "ins_inv (flip s) node ((\<not> d, (p, True), mirror sib) # (True, (g, False), mirror U) # flip_ctx k2) (rev xs)"
      using ins_inv_flip [OF I] p False by (simp add: k k1)
    from insert_step_left [OF this] obtain k' where
      "ins_inv (fst (insert_step (flip s, node))) (snd (insert_step (flip s, node))) k' (rev xs)"
      "length k' < length (flip_ctx k2) + 2"
      "ky (fst (insert_step (flip s, node))) = ky s" "sentinel (fst (insert_step (flip s, node))) = sentinel s"
      unfolding ins_progress_def by auto
    then show ?thesis
      using ins_inv_flip [of "fst (insert_step (flip s, node))" _ k' "rev xs"]
      unfolding ins_progress_def insert_step_flip [OF side]
      by (auto simp: k k1 flip_ctx_def intro!: exI [of _ "flip_ctx k'"])
  qed
qed

lemma insert_loop:
  assumes "ins_inv s node k xs"
  shows "\<exists>s' n' k'. while_option (\<lambda>(s, node). node \<noteq> root s \<and> clr s (par s node)) insert_step (s, node) =
      Some (s', n') \<and> ins_inv s' n' k' xs \<and> (n' = root s' \<or> \<not> clr s' (par s' n')) \<and>
      ky s' = ky s \<and> sentinel s' = sentinel s"
  using assms
proof (induction "length k" arbitrary: s node k rule: less_induct)
  case less
  show ?case
  proof (cases "node \<noteq> root s \<and> clr s (par s node)")
    case True
    obtain s1 n1 where r: "insert_step (s, node) = (s1, n1)" by (cases "insert_step (s, node)")
    obtain k1 where "ins_inv s1 n1 k1 xs" "length k1 < length k" "ky s1 = ky s" "sentinel s1 = sentinel s"
      using insert_step_progress [OF less.prems] True r unfolding ins_progress_def by auto
    then show ?thesis
      using less.hyps [of k1 s1 n1] True r by (subst while_option_unfold) auto
  next
    case False
    then show ?thesis using less.prems by (subst while_option_unfold) auto
  qed
qed

lemma insert_fixup_correct:
  assumes "ins_inv s node k xs"
  shows "\<exists>s' t. insert_fixup s node = Some s' \<and> rb_rel s' t \<and> rb_ok t \<and> addrs t = xs \<and>
    ky s' = ky s \<and> sentinel s' = sentinel s"
proof -
  obtain s1 n1 k1 where L: "while_option (\<lambda>(s, node). node \<noteq> root s \<and> clr s (par s node)) insert_step (s, node) =
      Some (s1, n1)" and I: "ins_inv s1 n1 k1 xs" and e: "n1 = root s1 \<or> \<not> clr s1 (par s1 n1)"
      and fr: "ky s1 = ky s" "sentinel s1 = sentinel s"
    using insert_loop [OF assms] by blast
  obtain q t where F: "focus s1 q n1 k1 t" "isred t" "inv_c t" "inv_h (plug k1 t)" "cctx k1" "topblack k1"
      "addrs (plug k1 t) = xs"
    using I unfolding ins_inv_def by blast
  have n: "n1 \<noteq> sentinel s1" "par s1 n1 = q" using F(1,2) by (cases t, auto simp: focus_def)+
  have nred: "\<not> cred k1"
  proof (cases k1)
    case (Cons f k2)
    obtain d a u where f: "f = (d, a, u)" by (cases f)
    show ?thesis
      using focus_frame(2) [OF F(1) [unfolded Cons f]] e focus_root [OF F(1) n(1)] n(2) by (simp add: Cons f)
  qed simp
  have "plug k1 t \<noteq> Leaf" using F(1,2) set_addrs_plug [of k1 t] by (cases t) auto
  then obtain l a r where T: "plug k1 t = Node l a r" by (cases "plug k1 t") auto
  obtain q' where R: "focus s1 q' (root s1) [] (Node l a r)"
    using focus_plug [OF F(1)] T unfolding rb_rel_def by auto
  have a: "fst a = root s1" using focus_node(1) [OF R] by simp
  have "focus (hky_rbt_black (root s1) s1) q' (root s1) [] (Node l (root s1, False) r)"
    using black_focus [of s1 q' "root s1" "[]" l "snd a" r] R a by (cases a) auto
  moreover have "inv_c (Node l a r)" using T F(3,5) nred inv_c_plug [of k1 t] by simp
  then have "rb_ok (Node l (root s1, False) r)"
    using F(4) T by (auto simp: rb_ok_def)
  moreover have "addrs (Node l (root s1, False) r) = xs"
    using F(7) T a by simp
  ultimately show ?thesis
    unfolding insert_fixup_def L rb_rel_def using fr by (intro exI [of _ "hky_rbt_black (root s1) s1"]) auto
qed

section \<open>The contract of an insert callback\<close>

text \<open>
  Where a node goes: behind the nodes that do not follow it. \<open>before\<close> is the test of the
  callback, \<open>True\<close> for the nodes that the new one precedes.
\<close>

definition place :: "(addr \<Rightarrow> bool) \<Rightarrow> addr \<Rightarrow> addr list \<Rightarrow> addr list" where
  "place before node xs = takeWhile (\<lambda>x. \<not> before x) xs @ node # dropWhile (\<lambda>x. \<not> before x) xs"

lemma place_split:
  "\<forall>x\<in>set as. \<not> before x \<Longrightarrow> \<forall>x\<in>set bs. before x \<Longrightarrow> place before node (as @ bs) = as @ node # bs"
  by (induction as) (cases bs, auto simp: place_def)

lemma set_place [simp]: "set (place before node xs) = insert node (set xs)"
proof -
  have "set xs = set (takeWhile (\<lambda>x. \<not> before x) xs @ dropWhile (\<lambda>x. \<not> before x) xs)" by simp
  then show ?thesis unfolding place_def set_append by simp
qed

text \<open>
  \<open>hky_rbtree_insert_pt\<close>: a callback links a fresh node, red and with sentinel children, at
  its place below the root of a nonempty tree whose nodes its order splits.
\<close>

locale rbtree_insert_pt =
  fixes ins :: "addr \<Rightarrow> addr \<Rightarrow> rb \<Rightarrow> rb option"
    and lt :: "rb \<Rightarrow> addr \<Rightarrow> addr \<Rightarrow> bool"
  assumes links:
    "rb_rel s t \<Longrightarrow> t \<noteq> Leaf \<Longrightarrow> rb_ok t \<Longrightarrow> node \<notin> set (addrs t) \<Longrightarrow> node \<noteq> sentinel s \<Longrightarrow>
     sorted_wrt (\<lambda>x y. lt s node x \<longrightarrow> lt s node y) (addrs t) \<Longrightarrow>
     \<exists>s' k. ins (root s) node s = Some s' \<and> ins_inv s' node k (place (lt s node) node (addrs t)) \<and>
       ky s' = ky s \<and> sentinel s' = sentinel s"
begin

lemma insert_correct:
  assumes R: "rb_rel s t" "rb_ok t" and n: "node \<notin> set (addrs t)" "node \<noteq> sentinel s"
    and o: "sorted_wrt (\<lambda>x y. lt s node x \<longrightarrow> lt s node y) (addrs t)"
  shows "\<exists>s' t'. hky_rbtree_insert ins node s = Some s' \<and> rb_rel s' t' \<and> rb_ok t' \<and>
    addrs t' = place (lt s node) node (addrs t) \<and> ky s' = ky s \<and> sentinel s' = sentinel s"
proof (cases t)
  case Leaf
  then have e: "root s = sentinel s" and c: "\<not> clr s (sentinel s)" using R by (auto simp: rb_rel_def focus_def)
  define s' where "s' = hky_rbt_black node (set_rgt node (sentinel s) (set_lft node (sentinel s) (set_par node 0 s)))\<lparr>root := node\<rparr>"
  have "hky_rbtree_insert ins node s = Some s'"
    using e by (simp add: hky_rbtree_insert_def Let_def s'_def)
  moreover have "focus s' 0 (root s') [] (Node Leaf (node, False) Leaf)"
    using n c by (simp add: focus_def s'_def hky_rbt_black_def)
  moreover have "rb_ok (Node Leaf (node, False) Leaf)" by (simp add: rb_ok_def)
  moreover have "ky s' = ky s" "sentinel s' = sentinel s" by (simp_all add: s'_def)
  ultimately show ?thesis
    using Leaf unfolding rb_rel_def place_def
    by (intro exI [of _ s'] exI [of _ "Node Leaf (node, False) Leaf"]) auto
next
  case (Node l a r)
  then have "root s \<noteq> sentinel s" using R by (auto simp: rb_rel_def focus_def)
  moreover obtain s1 k where "ins (root s) node s = Some s1"
    "ins_inv s1 node k (place (lt s node) node (addrs t))" "ky s1 = ky s" "sentinel s1 = sentinel s"
    using links [OF R(1) _ R(2) n o] Node by auto
  moreover from this obtain s' t' where "insert_fixup s1 node = Some s'" "rb_rel s' t'" "rb_ok t'"
    "addrs t' = place (lt s node) node (addrs t)" "ky s' = ky s1" "sentinel s' = sentinel s1"
    using insert_fixup_correct by blast
  ultimately show ?thesis unfolding hky_rbtree_insert_def by auto
qed

end

section \<open>The shared descent satisfies the contract\<close>

fun ctx_left :: "frame list \<Rightarrow> addr list" where
  "ctx_left [] = []"
| "ctx_left ((d, a, u) # k) = ctx_left k @ (if d then [] else addrs u @ [fst a])"

fun ctx_right :: "frame list \<Rightarrow> addr list" where
  "ctx_right [] = []"
| "ctx_right ((d, a, u) # k) = (if d then fst a # addrs u else []) @ ctx_right k"

lemma addrs_plug: "addrs (plug k t) = ctx_left k @ addrs t @ ctx_right k"
  by (induction k t rule: plug.induct) auto

lemma topblack_plug: "\<not> isred (plug k t) \<Longrightarrow> topblack k"
proof (induction k t rule: plug.induct)
  case (2 a r k t)
  then show ?case by (cases "k = []") auto
next
  case (3 a l k t)
  then show ?case by (cases "k = []") auto
qed simp

lemma sorted_wrt_middle:
  "sorted_wrt R (vs @ (xs @ y # zs) @ ws) \<Longrightarrow> (\<forall>x\<in>set xs. R x y) \<and> (\<forall>z\<in>set zs. R y z)"
  by (simp add: sorted_wrt_append)

lemma descent:
  assumes "focus s q p k (Node l a r)"
    and "sorted_wrt (\<lambda>x y. lt s node x \<longrightarrow> lt s node y) (addrs (plug k (Node l a r)))"
    and "\<forall>x\<in>set (ctx_left k). \<not> lt s node x" and "\<forall>x\<in>set (ctx_right k). lt s node x"
  shows "\<exists>p' c u k'. while_option (\<lambda>temp. insert_child lt node s temp \<noteq> sentinel s) (insert_child lt node s) p
      = Some p' \<and> focus s p' (sentinel s) ((lt s node p', (p', c), u) # k') Leaf \<and>
      plug ((lt s node p', (p', c), u) # k') Leaf = plug k (Node l a r) \<and>
      (\<forall>x\<in>set (ctx_left ((lt s node p', (p', c), u) # k')). \<not> lt s node x) \<and>
      (\<forall>x\<in>set (ctx_right ((lt s node p', (p', c), u) # k')). lt s node x)"
  using assms
proof (induction "Node l a r" arbitrary: q p k l a r)
  case (Node l a r)
  obtain p0 c where a: "a = (p0, c)" by (cases a)
  have p: "p0 = p" using focus_node(1) [OF Node.prems(1)] a by simp
  let ?c = "insert_child lt node s p"
  have srt: "\<forall>x\<in>set (addrs r). lt s node p \<longrightarrow> lt s node x" "\<forall>x\<in>set (addrs l). lt s node x \<longrightarrow> lt s node p"
    using sorted_wrt_middle [OF Node.prems(2) [unfolded addrs_plug addrs.simps]]
    unfolding a p fst_conv by blast+
  show ?case
  proof (cases "lt s node p")
    case True
    have F: "focus s p ?c ((True, (p, c), r) # k) l"
      using focus_down_left [OF Node.prems(1)] True a p by (simp add: insert_child_def)
    have L: "\<forall>x\<in>set (ctx_left ((True, (p, c), r) # k)). \<not> lt s node x"
      "\<forall>x\<in>set (ctx_right ((True, (p, c), r) # k)). lt s node x"
      using Node.prems(3,4) True srt by auto
    show ?thesis
    proof (cases l)
      case Leaf
      then have e: "?c = sentinel s" using F by (simp add: focus_def)
      have "while_option (\<lambda>temp. insert_child lt node s temp \<noteq> sentinel s) (insert_child lt node s) p = Some p"
        using e by (subst while_option_unfold) simp
      then show ?thesis
        using F L True e a p Leaf by (intro exI [of _ p] exI [of _ c] exI [of _ r] exI [of _ k]) simp
    next
      case l: (Node l' a' r')
      have e: "?c \<noteq> sentinel s" using F l by (auto simp: focus_def)
      have "while_option (\<lambda>temp. insert_child lt node s temp \<noteq> sentinel s) (insert_child lt node s) p =
        while_option (\<lambda>temp. insert_child lt node s temp \<noteq> sentinel s) (insert_child lt node s) ?c"
        using e by (subst while_option_unfold) simp
      then show ?thesis
        using Node.hyps(1) [OF l F [unfolded l] _ L] Node.prems(2) a p l by simp
    qed
  next
    case False
    have F: "focus s p ?c ((False, (p, c), l) # k) r"
      using focus_down_right [OF Node.prems(1)] False a p by (simp add: insert_child_def)
    have L: "\<forall>x\<in>set (ctx_left ((False, (p, c), l) # k)). \<not> lt s node x"
      "\<forall>x\<in>set (ctx_right ((False, (p, c), l) # k)). lt s node x"
      using Node.prems(3,4) False srt by auto
    show ?thesis
    proof (cases r)
      case Leaf
      then have e: "?c = sentinel s" using F by (simp add: focus_def)
      have "while_option (\<lambda>temp. insert_child lt node s temp \<noteq> sentinel s) (insert_child lt node s) p = Some p"
        using e by (subst while_option_unfold) simp
      then show ?thesis
        using F L False e a p Leaf by (intro exI [of _ p] exI [of _ c] exI [of _ l] exI [of _ k]) simp
    next
      case r: (Node l' a' r')
      have e: "?c \<noteq> sentinel s" using F r by (auto simp: focus_def)
      have "while_option (\<lambda>temp. insert_child lt node s temp \<noteq> sentinel s) (insert_child lt node s) p =
        while_option (\<lambda>temp. insert_child lt node s temp \<noteq> sentinel s) (insert_child lt node s) ?c"
        using e by (subst while_option_unfold) simp
      then show ?thesis
        using Node.hyps(2) [OF r F [unfolded r] _ L] Node.prems(2) a p r by simp
    qed
  qed
qed

text \<open>Linking a fresh red node at an empty place.\<close>

lemma link_focus:
  assumes F: "focus s p (sentinel s) ((d, (p, c), u) # k) Leaf"
    and n: "node \<notin> set (ctx_addrs ((d, (p, c), u) # k))" "node \<noteq> sentinel s"
    and s': "s' = hky_rbt_red node (set_rgt node (sentinel s) (set_lft node (sentinel s)
      (set_par node p (if d then set_lft p node s else set_rgt p node s))))"
  shows "focus s' p node ((d, (p, c), u) # k) (Node Leaf (node, True) Leaf)"
proof -
  have fields: "lft s' = (if d then (lft s)(p := node) else lft s)(node := sentinel s)"
    "rgt s' = (if d then rgt s else (rgt s)(p := node))(node := sentinel s)"
    "par s' = (par s)(node := p)" "clr s' = (clr s)(node := True)"
    "root s' = root s" "sentinel s' = sentinel s"
    by (simp_all add: s' hky_rbt_red_def)
  have d: "p \<notin> set (addrs u @ ctx_addrs k)" using F by (simp add: focus_def)
  have "z \<noteq> node \<and> z \<noteq> p" if "z \<in> set (addrs u @ ctx_addrs k)" for z
    using that n d by auto
  then have "same_on (set (addrs u @ ctx_addrs k)) s s'"
    by (intro same_onI) (auto simp: fields)
  then have "relinked node ((d, (p, c), u) # k) s s'"
    using n by (simp add: relinked_def fields)
  then have "heap_ctx s' p node ((d, (p, c), u) # k)"
    by (rule heap_ctx_relinked [where p = "sentinel s"]) (use F in \<open>simp only: focus_def\<close>)
  then show ?thesis
    using F n unfolding focus_def by (auto simp: fields)
qed

lemma callback_links:
  assumes R: "rb_rel s t" "t \<noteq> Leaf" "rb_ok t" and n: "node \<notin> set (addrs t)" "node \<noteq> sentinel s"
    and o: "sorted_wrt (\<lambda>x y. lt s node x \<longrightarrow> lt s node y) (addrs t)"
  shows "\<exists>s' k. insert_callback lt (root s) node s = Some s' \<and>
    ins_inv s' node k (place (lt s node) node (addrs t)) \<and> ky s' = ky s \<and> sentinel s' = sentinel s"
proof -
  obtain l a r q where t: "t = Node l a r" and F: "focus s q (root s) [] (Node l a r)"
    using R(1,2) by (cases t) (auto simp: rb_rel_def)
  obtain p c u k0 where W: "while_option (\<lambda>temp. insert_child lt node s temp \<noteq> sentinel s)
      (insert_child lt node s) (root s) = Some p"
    and F': "focus s p (sentinel s) ((lt s node p, (p, c), u) # k0) Leaf"
    and P: "plug ((lt s node p, (p, c), u) # k0) Leaf = t"
    and L: "\<forall>x\<in>set (ctx_left ((lt s node p, (p, c), u) # k0)). \<not> lt s node x"
      "\<forall>x\<in>set (ctx_right ((lt s node p, (p, c), u) # k0)). lt s node x"
    using descent [OF F, of lt node, unfolded plug.simps ctx_left.simps(1) ctx_right.simps(1), folded t, OF o]
    unfolding list.set ball_empty by blast
  define k where "k = (lt s node p, (p, c), u) # k0"
  define s' where "s' = hky_rbt_red node (set_rgt node (sentinel s) (set_lft node (sentinel s)
      (set_par node p (if lt s node p then set_lft p node s else set_rgt p node s))))"
  have nk: "node \<notin> set (ctx_addrs k)" using n(1) P set_addrs_plug [of k Leaf] by (simp add: k_def)
  have F2: "focus s' p node k (Node Leaf (node, True) Leaf)"
    unfolding k_def by (rule link_focus [OF F' nk [unfolded k_def] n(2) s'_def])
  have A: "addrs t = ctx_left k @ ctx_right k" using P addrs_plug [of k Leaf] by (simp add: k_def)
  have "addrs (plug k (Node Leaf (node, True) Leaf)) = ctx_left k @ node # ctx_right k"
    by (simp add: addrs_plug)
  then have "addrs (plug k (Node Leaf (node, True) Leaf)) = place (lt s node) node (addrs t)"
    unfolding A by (simp only: place_split [OF L [folded k_def]])
  moreover have "inv_h (plug k Leaf)" "inv_c (plug k Leaf)" "\<not> isred (plug k Leaf)"
    using R(3) P unfolding k_def rb_ok_def by auto
  then have "inv_h (plug k (Node Leaf (node, True) Leaf))" "cctx k" "topblack k"
    using topblack_plug [of k Leaf] by (simp_all add: inv_h_plug inv_c_plug)
  ultimately have "ins_inv s' node k (place (lt s node) node (addrs t))"
    unfolding ins_inv_def using F2 by (intro exI [of _ p] exI [of _ "Node Leaf (node, True) Leaf"]) simp
  moreover have "insert_callback lt (root s) node s = Some s'"
    unfolding insert_callback_def W by (simp add: s'_def Let_def)
  moreover have "ky s' = ky s" "sentinel s' = sentinel s" by (simp_all add: s'_def hky_rbt_red_def)
  ultimately show ?thesis by blast
qed

interpretation value_cb: rbtree_insert_pt hky_rbtree_insert_value key_less
  unfolding hky_rbtree_insert_value_def by unfold_locales (rule callback_links)

interpretation timer_cb: rbtree_insert_pt hky_rbtree_insert_timer_value timer_less
  unfolding hky_rbtree_insert_timer_value_def by unfold_locales (rule callback_links)

section \<open>Insertion into sorted trees\<close>

lemma sorted_place:
  fixes f :: "addr \<Rightarrow> 'a::linorder"
  assumes "sorted (map f xs)"
  shows "sorted (map f (place (\<lambda>x. f node < f x) node xs))"
proof -
  let ?P = "\<lambda>x. \<not> f node < f x"
  have S: "sorted (map f (takeWhile ?P xs) @ map f (dropWhile ?P xs))"
    using assms by (simp add: map_append [symmetric] del: map_append)
  have l: "\<forall>x\<in>set (takeWhile ?P xs). f x \<le> f node" by (auto dest: set_takeWhileD)
  have r: "\<forall>x\<in>set (dropWhile ?P xs). f node \<le> f x"
  proof (cases "dropWhile ?P xs")
    case (Cons y ys)
    have "f node < f y" using Cons hd_dropWhile [of ?P xs] by auto
    moreover have "sorted (map f (y # ys))" using S unfolding sorted_append Cons by blast
    ultimately show ?thesis using Cons by auto
  next
    case Nil
    show ?thesis unfolding Nil by simp
  qed
  show ?thesis
    using S l r unfolding place_def by (auto simp: sorted_append intro: order_trans)
qed

lemma sorted_splits:
  fixes f :: "addr \<Rightarrow> 'a::linorder"
  assumes "sorted (map f xs)"
  shows "sorted_wrt (\<lambda>x y. f node < f x \<longrightarrow> f node < f y) xs"
proof -
  have "sorted_wrt (\<lambda>x y. f x \<le> f y) xs" using assms by (simp add: sorted_map)
  then show ?thesis by (rule sorted_wrt_mono_rel [rotated]) auto
qed

text \<open>
  C2: On a red-black tree sorted by key, \<open>hky_rbtree_insert\<close> with
  \<open>hky_rbtree_insert_value\<close> ends, keeps the red-black invariants (black root, no red node with
  a red child, equal black heights) and the pointer structure (parents included), and the
  in-order sequence of the nodes is the old one with the new node behind all nodes whose key
  does not exceed its own.
\<close>

theorem rbtree_insert_value_correct:
  assumes "rb_rel s t" and "rb_ok t" and "sorted (map (ky s) (addrs t))"
    and "node \<notin> set (addrs t)" and "node \<noteq> sentinel s"
  shows "\<exists>s' t'. hky_rbtree_insert hky_rbtree_insert_value node s = Some s' \<and> rb_rel s' t' \<and> rb_ok t' \<and>
    addrs t' = place (\<lambda>x. ky s node < ky s x) node (addrs t) \<and> ky s' = ky s \<and>
    sorted (map (ky s') (addrs t'))"
  using value_cb.insert_correct [OF assms(1,2,4,5)] sorted_splits [OF assms(3), of node]
    sorted_place [OF assms(3), of node]
  unfolding key_less_def by fastforce

text \<open>A state with one black node 2 with key 20, the sentinel 1 and a node 3 with key 10.\<close>

definition rb_example :: rb where
  "rb_example = \<lparr>lft = \<lambda>_. 1, rgt = \<lambda>_. 1, par = \<lambda>_. 0, ky = (\<lambda>_. 0)(2 := 20, 3 := 10),
     clr = \<lambda>_. False, root = 2, sentinel = 1\<rparr>"

lemma rb_example_rel: "rb_rel rb_example (Node Leaf (2, False) Leaf)"
  by (simp add: rb_rel_def focus_def rb_example_def)

theorem rbtree_insert_value_correct_witness:
  "\<exists>s' t'. hky_rbtree_insert hky_rbtree_insert_value 3 rb_example = Some s' \<and> rb_rel s' t' \<and>
     addrs t' = [3, 2]"
proof -
  have "(3::addr) \<notin> set (addrs (Node Leaf (2, False) Leaf))" "(3::addr) \<noteq> sentinel rb_example"
    "sorted (map (ky rb_example) (addrs (Node Leaf (2, False) Leaf)))" "rb_ok (Node Leaf (2, False) Leaf)"
    by (simp_all add: rb_example_def rb_ok_def)
  from rbtree_insert_value_correct [OF rb_example_rel this(4,3,1,2)] show ?thesis
    by (auto simp: place_def rb_example_def)
qed

section \<open>Timers\<close>

lemma timer_less_window:
  assumes "ky s a - base < 0x8000000000000000" "ky s b - base < 0x8000000000000000"
  shows "timer_less s a b \<longleftrightarrow> ky s a - base < ky s b - base"
proof -
  define x y where "x = ky s a - base" and "y = ky s b - base"
  have b: "uint x < 9223372036854775808" "uint y < 9223372036854775808" "0 \<le> uint x" "0 \<le> uint y"
    using assms by (auto simp: x_def y_def word_less_def)
  have "sint (x - y) = wrap_s64 (uint x - uint y)"
    using b by (simp add: sint_word_ariths(2) wrap_s64_def sint_u64_small)
  also have "\<dots> = uint x - uint y" using b by (intro wrap_s64_id) linarith+
  finally have "sint (ky s a - ky s b) = uint x - uint y" by (simp add: x_def y_def)
  then show ?thesis
    by (simp add: timer_less_def word_sless_alt word_less_def x_def [symmetric] y_def [symmetric])
qed

lemma insert_timer_ok:
  assumes "rb_rel s t" and "rb_ok t" and "sorted (map (\<lambda>x. ky s x - base) (addrs t))"
    and "node \<notin> set (addrs t)" and "node \<noteq> sentinel s"
    and "\<forall>x\<in>set (node # addrs t). ky s x - base < 0x8000000000000000"
  shows "\<exists>s' t'. hky_rbtree_insert hky_rbtree_insert_timer_value node s = Some s' \<and> rb_rel s' t' \<and>
    rb_ok t' \<and> set (addrs t') = insert node (set (addrs t)) \<and> ky s' = ky s \<and>
    sorted (map (\<lambda>x. ky s' x - base) (addrs t')) \<and> sentinel s' = sentinel s"
proof -
  have eq: "x \<in> set (addrs t) \<Longrightarrow> timer_less s node x \<longleftrightarrow> ky s node - base < ky s x - base" for x
    using assms(6) timer_less_window [of s node base x] by simp
  have "sorted_wrt (\<lambda>x y. timer_less s node x \<longrightarrow> timer_less s node y) (addrs t)"
    by (rule sorted_wrt_mono_rel [OF _ sorted_splits [OF assms(3), of node]]) (simp add: eq)
  moreover have "place (timer_less s node) node (addrs t) =
      place (\<lambda>x. ky s node - base < ky s x - base) node (addrs t)"
    unfolding place_def using eq by (simp cong: takeWhile_cong dropWhile_cong)
  ultimately show ?thesis
    using timer_cb.insert_correct [OF assms(1,2,4,5)] sorted_place [OF assms(3), of node] by fastforce
qed

text \<open>
  The timer tree: as long as all deadlines, the new one included, lie within half the
  range of the millisecond clock from some \<open>base\<close>, insertion with
  \<open>hky_rbtree_insert_timer_value\<close> keeps the tree a red-black tree sorted by the time after
  \<open>base\<close>, although the 64-bit keys may wrap around.
\<close>

theorem rbtree_insert_timer_correct:
  assumes "rb_rel s t" and "rb_ok t" and "sorted (map (\<lambda>x. ky s x - base) (addrs t))"
    and "node \<notin> set (addrs t)" and "node \<noteq> sentinel s"
    and "\<forall>x\<in>set (node # addrs t). ky s x - base < 0x8000000000000000"
  shows "\<exists>s' t'. hky_rbtree_insert hky_rbtree_insert_timer_value node s = Some s' \<and> rb_rel s' t' \<and>
    rb_ok t' \<and> set (addrs t') = insert node (set (addrs t)) \<and> ky s' = ky s \<and>
    sorted (map (\<lambda>x. ky s' x - base) (addrs t'))"
  using insert_timer_ok [OF assms] by blast

theorem rbtree_insert_timer_correct_witness:
  "\<exists>s' t'. hky_rbtree_insert hky_rbtree_insert_timer_value 3 rb_example = Some s' \<and> rb_rel s' t' \<and>
     set (addrs t') = {2, 3}"
proof -
  have "(3::addr) \<notin> set (addrs (Node Leaf (2, False) Leaf))" "(3::addr) \<noteq> sentinel rb_example"
    "sorted (map (\<lambda>x. ky rb_example x - 0) (addrs (Node Leaf (2, False) Leaf)))"
    "rb_ok (Node Leaf (2, False) Leaf)"
    "\<forall>x\<in>set (3 # addrs (Node Leaf (2, False) Leaf)). ky rb_example x - 0 < 0x8000000000000000"
    by (simp_all add: rb_example_def rb_ok_def)
  from rbtree_insert_timer_correct [OF rb_example_rel this(4,3,1,2,5)] show ?thesis
    by (auto simp: insert_commute)
qed

section \<open>Balance\<close>

lemma bh_size: "inv_h t \<Longrightarrow> 2 ^ bh t \<le> size1 t"
  by (induction t) (auto simp: size1_size)

lemma height_bh: "inv_c t \<Longrightarrow> inv_h t \<Longrightarrow> height t \<le> 2 * bh t + (if isred t then 1 else 0)"
proof (induction t)
  case (Node l a r)
  then show ?case by (cases "snd a") (auto split: if_splits)
qed simp

lemma length_addrs: "length (addrs t) = size t"
  by (induction t) simp_all

text \<open>
  A tree with the invariants is balanced: its height is at most twice the binary logarithm
  of its number of nodes plus one, so the loops of the lookups and of the insertion and
  deletion descend that far at most.
\<close>

theorem rbtree_balanced:
  assumes "rb_rel s t" and "rb_ok t"
  shows "2 ^ height t \<le> (length (addrs t) + 1)\<^sup>2"
proof -
  have "height t \<le> 2 * bh t" using height_bh [of t] assms(2) by (auto simp: rb_ok_def)
  then have "(2::nat) ^ height t \<le> (2 ^ bh t)\<^sup>2" by (simp add: power_mult [symmetric] mult.commute)
  also have "\<dots> \<le> (size1 t)\<^sup>2" using bh_size assms(2) by (simp add: rb_ok_def power_mono)
  finally show ?thesis by (simp add: length_addrs size1_size)
qed

theorem rbtree_balanced_witness:
  "2 ^ height (Node Leaf (2 :: addr, False) Leaf) \<le> (length (addrs (Node Leaf (2, False) Leaf)) + 1)\<^sup>2"
  using rbtree_balanced [OF rb_example_rel] by (simp add: rb_ok_def)

end
