(* ===== verification/Hky_Rbtree_Delete.thy ===== *)
theory Hky_Rbtree_Delete
  imports Hky_Rbtree_Insert
begin

text \<open>
  Correctness of the deletion and of the successor function of src/core/hky_rbtree.c: the
  pointer surgery that unlinks a node, the fixup loop, and the in-order successor.
\<close>

section \<open>Descending to a node\<close>

lemma heap_tree_addr: "heap_tree s q p t \<Longrightarrow> p = (case t of Leaf \<Rightarrow> sentinel s | Node l a r \<Rightarrow> fst a)"
  by (cases t) auto

lemma plug_append: "plug (k1 @ k2) t = plug k2 (plug k1 t)"
  by (induction k1 t rule: plug.induct) auto

lemma focus_unplug: "focus s q p k (plug kr t) \<Longrightarrow> \<exists>q' p'. focus s q' p' (kr @ k) t"
proof (induction kr arbitrary: q p k rule: rev_induct)
  case (snoc f kr)
  obtain d a u where f: "f = (d, a, u)" by (cases f)
  have "\<exists>q p. focus s q p (f # k) (plug kr t)"
    using snoc.prems focus_down_left [of s q p k "plug kr t" a u] focus_down_right [of s q p k u a "plug kr t"]
    unfolding f by (cases d) (auto simp: plug_append)
  then show ?case using snoc.IH by fastforce
qed auto

lemma focus_climb: "focus s q p (kr @ k) t \<Longrightarrow> \<exists>q' p'. focus s q' p' k (plug kr t)"
proof (induction kr t arbitrary: q p rule: plug.induct)
  case (2 a r kr t)
  then show ?case using focus_up_left by (metis append_Cons plug.simps(2))
next
  case (3 a l kr t)
  then show ?case using focus_up_right by (metis append_Cons plug.simps(3))
qed auto

lemma split_at_node: "x \<in> set (addrs t) \<Longrightarrow> \<exists>k l c r. t = plug k (Node l (x, c) r)"
proof (induction t)
  case (Node l a r)
  consider "x = fst a" | "x \<in> set (addrs l)" | "x \<in> set (addrs r)" using Node.prems by auto
  then show ?case
  proof cases
    case 1
    then show ?thesis by (intro exI [of _ "[]"] exI [of _ l] exI [of _ "snd a"] exI [of _ r]) simp
  next
    case 2
    then obtain k l' c r' where "l = plug k (Node l' (x, c) r')" using Node.IH(1) by blast
    then show ?thesis by (intro exI [of _ "k @ [(True, a, r)]"]) (auto simp: plug_append)
  next
    case 3
    then obtain k l' c r' where "r = plug k (Node l' (x, c) r')" using Node.IH(2) by blast
    then show ?thesis by (intro exI [of _ "k @ [(False, a, l)]"]) (auto simp: plug_append)
  qed
qed simp

lemma rb_rel_focus:
  assumes "rb_rel s t" "x \<in> set (addrs t)"
  obtains q k l c r where "t = plug k (Node l (x, c) r)" "focus s q x k (Node l (x, c) r)"
proof -
  obtain k l c r where t: "t = plug k (Node l (x, c) r)" using split_at_node [OF assms(2)] by blast
  then obtain q p where "focus s q p k (Node l (x, c) r)"
    using assms(1) focus_unplug [of s _ "root s" "[]" k] unfolding rb_rel_def by fastforce
  moreover from this have "p = x" using focus_node(1) by fastforce
  ultimately show thesis using that t by blast
qed

lemma distinct_split_unique:
  assumes "distinct xs" "xs = as @ x # bs" "xs = as' @ x # bs'"
  shows "as = as' \<and> bs = bs'"
proof -
  have "x \<notin> set as" "x \<notin> set bs" using assms(1,2) by auto
  then show ?thesis using assms(2,3) append_Cons_eq_iff [of x as bs as' bs'] by simp
qed

section \<open>Minimum and successor\<close>

text \<open>The context of the leftmost node of a tree: only left turns.\<close>

definition left_spine :: "frame list \<Rightarrow> bool" where
  "left_spine k \<longleftrightarrow> (\<forall>f\<in>set k. fst f)"

lemma left_spine_simps [simp]: "left_spine []" "left_spine (f # k) \<longleftrightarrow> fst f \<and> left_spine k"
  "left_spine (k @ k') \<longleftrightarrow> left_spine k \<and> left_spine k'"
  by (auto simp: left_spine_def)

lemma ctx_left_spine: "left_spine k \<Longrightarrow> ctx_left k = []"
  by (induction k) auto

lemma min_focus:
  assumes "focus s q p k (Node l a r)"
  shows "\<exists>q' m c rm kr. hky_rbtree_min p s = Some m \<and> left_spine kr \<and> Node l a r = plug kr (Node Leaf (m, c) rm) \<and>
    focus s q' m (kr @ k) (Node Leaf (m, c) rm)"
  using assms
proof (induction l arbitrary: q p k a r)
  case Leaf
  obtain x c where a: "a = (x, c)" by (cases a)
  have "x = p" "lft s p = sentinel s" using Leaf a by (auto simp: focus_def)
  then show ?case
    using Leaf a unfolding hky_rbtree_min_def
    by (intro exI [of _ q] exI [of _ p] exI [of _ c] exI [of _ r] exI [of _ "[]"])
       (simp add: while_option_unfold)
next
  case (Node l1 a1 r1)
  have F: "focus s p (lft s p) ((True, a, r) # k) (Node l1 a1 r1)" by (rule focus_down_left) (rule Node.prems)
  then have "lft s p \<noteq> sentinel s" by (auto simp: focus_def)
  then have m: "hky_rbtree_min p s = hky_rbtree_min (lft s p) s"
    unfolding hky_rbtree_min_def by (subst while_option_unfold) simp
  obtain q' m' c rm kr where *: "hky_rbtree_min (lft s p) s = Some m'" "left_spine kr"
    "Node l1 a1 r1 = plug kr (Node Leaf (m', c) rm)"
    "focus s q' m' (kr @ (True, a, r) # k) (Node Leaf (m', c) rm)"
    using Node.IH(1) [OF F] by blast
  then show ?case
    unfolding m
    by (intro exI [of _ q'] exI [of _ m'] exI [of _ c] exI [of _ rm] exI [of _ "kr @ [(True, a, r)]"])
       (simp add: plug_append)
qed

lemma climb_next:
  assumes "focus s q p k t" "t \<noteq> Leaf"
  shows "map_option (\<lambda>n. if n = root s then None else Some (par s n))
      (while_option (\<lambda>n. n \<noteq> root s \<and> n \<noteq> lft s (par s n)) (par s) p) =
    Some (case ctx_right k of [] \<Rightarrow> None | b # _ \<Rightarrow> Some b)"
  using assms
proof (induction k arbitrary: q p t)
  case Nil
  then have "p = root s" by (auto simp: focus_def)
  then show ?case by (simp add: while_option_unfold)
next
  case (Cons f k)
  obtain d a u where f: "f = (d, a, u)" by (cases f)
  have p: "p \<noteq> sentinel s" "par s p = q" using Cons.prems by (cases t, auto simp: focus_def)+
  have nr: "p \<noteq> root s" using focus_root [OF Cons.prems(1) p(1)] by simp
  have side: "p = lft s q \<longleftrightarrow> d" using focus_side(1) [OF Cons.prems(1) [unfolded f]] p(1) by simp
  show ?case
  proof (cases d)
    case True
    then have "while_option (\<lambda>n. n \<noteq> root s \<and> n \<noteq> lft s (par s n)) (par s) p = Some p"
      using side p by (simp add: while_option_unfold)
    then show ?thesis using True nr p focus_frame(1) [OF Cons.prems(1) [unfolded f]] f by simp
  next
    case False
    then have "while_option (\<lambda>n. n \<noteq> root s \<and> n \<noteq> lft s (par s n)) (par s) p =
        while_option (\<lambda>n. n \<noteq> root s \<and> n \<noteq> lft s (par s n)) (par s) q"
      using side p nr by (subst while_option_unfold) simp
    moreover have "focus s (par s q) q k (Node u a t)"
      using focus_up_right Cons.prems(1) f False by simp
    ultimately show ?thesis using Cons.IH False f by simp
  qed
qed

text \<open>
  \<open>hky_rbtree_next\<close> ends and returns the in-order successor of a node of the tree, and
  \<open>NULL\<close> exactly for the last one.
\<close>

theorem rbtree_next_correct:
  assumes "rb_rel s t" and "addrs t = as @ node # bs"
  shows "hky_rbtree_next node s = Some (case bs of [] \<Rightarrow> None | b # _ \<Rightarrow> Some b)"
proof -
  obtain q k l c r where t: "t = plug k (Node l (node, c) r)" and F: "focus s q node k (Node l (node, c) r)"
    by (rule rb_rel_focus [OF assms(1), of node]) (simp_all add: assms(2))
  have d: "distinct (addrs t)" using F by (simp add: t distinct_addrs_plug focus_def)
  have "addrs t = (ctx_left k @ addrs l) @ node # (addrs r @ ctx_right k)" by (simp add: t addrs_plug)
  then have bs: "bs = addrs r @ ctx_right k"
    using distinct_split_unique [OF d assms(2)] by blast
  have R: "focus s node (rgt s node) ((False, (node, c), l) # k) r" by (rule focus_down_right) (rule F)
  show ?thesis
  proof (cases r)
    case Leaf
    then have "rgt s node = sentinel s" using R by (simp add: focus_def)
    then show ?thesis
      using climb_next [OF F] bs Leaf unfolding hky_rbtree_next_def by simp
  next
    case (Node r1 a r2)
    obtain m c' rm kr where m: "hky_rbtree_min (rgt s node) s = Some m" "left_spine kr"
      "Node r1 a r2 = plug kr (Node Leaf (m, c') rm)"
      using min_focus [OF R [unfolded Node]] by blast
    have "addrs r = m # addrs rm @ ctx_right kr" using m Node by (simp add: addrs_plug ctx_left_spine)
    moreover have "rgt s node \<noteq> sentinel s" using R Node by (auto simp: focus_def)
    ultimately show ?thesis using bs m(1) unfolding hky_rbtree_next_def by simp
  qed
qed

theorem rbtree_next_correct_witness: "hky_rbtree_next 2 rb_example = Some None"
  using rbtree_next_correct [OF rb_example_rel, of "[]" 2 "[]"] by simp

section \<open>Unlinking\<close>

text \<open>Putting \<open>temp\<close> in the place of its parent \<open>node\<close>, which has no other child.\<close>

definition bypass :: "addr \<Rightarrow> addr \<Rightarrow> rb \<Rightarrow> rb" where
  "bypass node temp s =
     (let s = (if node = lft s (par s node) then set_lft (par s node) temp s else set_rgt (par s node) temp s)
      in set_par temp (par s node) s)"

lemma bypass_focus:
  assumes F: "focus s p node ((d, (p, c), u) # k) (Node l (node, cn) r)"
    and T: "(T = r \<and> temp = rgt s node) \<or> (T = l \<and> temp = lft s node)"
  shows "focus (bypass node temp s) p temp ((d, (p, c), u) # k) T \<and>
    par (bypass node temp s) temp = p \<and> ky (bypass node temp s) = ky s \<and> clr (bypass node temp s) = clr s \<and>
    sentinel (bypass node temp s) = sentinel s \<and> root (bypass node temp s) = root s \<and>
    lft (bypass node temp s) = (if d then (lft s)(p := temp) else lft s) \<and>
    rgt (bypass node temp s) = (if d then rgt s else (rgt s)(p := temp)) \<and>
    par (bypass node temp s) = (par s)(temp := p)"
proof -
  let ?K = "(d, (p, c), u) # k"
  have n: "node \<noteq> sentinel s" "par s node = p" using F by (auto simp: focus_def)
  have side: "node = lft s p \<longleftrightarrow> d" using focus_side(1) [OF F] n by simp
  have fields: "lft (bypass node temp s) = (if d then (lft s)(p := temp) else lft s)"
    "rgt (bypass node temp s) = (if d then rgt s else (rgt s)(p := temp))"
    "par (bypass node temp s) = (par s)(temp := p)" "clr (bypass node temp s) = clr s"
    "sentinel (bypass node temp s) = sentinel s" "root (bypass node temp s) = root s"
    "ky (bypass node temp s) = ky s"
    using n side by (simp_all add: bypass_def Let_def)
  have hT: "heap_tree s node temp T" using F T by (auto simp: focus_def)
  have di: "distinct (addrs T @ ctx_addrs ?K)" using F T by (auto simp: focus_def)
  have sent: "sentinel s \<notin> set (ctx_addrs ?K)"
    using F heap_ctx_notin unfolding focus_def by blast
  have tT: "temp = sentinel s \<or> temp \<in> set (addrs T)" using heap_tree_in [OF hT] by blast
  then have tK: "temp \<notin> set (ctx_addrs ?K)" using di sent by auto
  have "z \<noteq> temp \<and> z \<noteq> p" if "z \<in> set (addrs u @ ctx_addrs k)" for z
    using that tK di by auto
  then have "same_on (set (addrs u @ ctx_addrs k)) s (bypass node temp s)"
    by (intro same_onI) (auto simp: fields)
  then have "relinked temp ?K s (bypass node temp s)"
    using tK by (simp add: relinked_def fields)
  then have H1: "heap_ctx (bypass node temp s) p temp ?K"
    by (rule heap_ctx_relinked [where p = node]) (use F in \<open>simp only: focus_def\<close>)
  have "same_but_par temp p (set (addrs T)) s (bypass node temp s)"
    using di unfolding same_but_par_def by (auto simp: fields)
  then have H2: "heap_tree (bypass node temp s) p temp T"
    by (rule heap_tree_reparent) (use hT di in auto)
  have "\<not> clr s (sentinel s)" using F unfolding focus_def by blast
  then have "focus (bypass node temp s) p temp ?K T"
    using H1 H2 di unfolding focus_def fields by blast
  then show ?thesis by (simp add: fields)
qed

lemma delete_unlink_parts:
  "delete_unlink node subst temp s =
     (if subst = node then bypass subst temp s
      else if (par s subst = node) then delete_replace node subst (set_par temp subst
        (if subst = lft s (par s subst) then set_lft (par s subst) temp s else set_rgt (par s subst) temp s))
      else delete_replace node subst (bypass subst temp s))"
  by (simp add: delete_unlink_def bypass_def Let_def)

lemma ctx_side:
  assumes C: "heap_ctx s q node ((d, a, u) # k)" and n: "node \<noteq> sentinel s" "node \<notin> set (ctx_addrs ((d, a, u) # k))"
  shows "node = lft s q \<longleftrightarrow> d"
proof -
  have "heap_tree s q (lft s q) u \<Longrightarrow> node \<noteq> lft s q"
    using heap_tree_in [of s q "lft s q" u] n by auto
  then show ?thesis using C by (auto split: if_splits)
qed

lemma ctx_root:
  assumes "heap_ctx s q node k" "node \<notin> set (ctx_addrs k)"
  shows "node = root s \<longleftrightarrow> k = []"
proof -
  have "k \<noteq> [] \<Longrightarrow> heap_ctx s q node k \<Longrightarrow> root s \<in> set (ctx_addrs k)"
  proof (induction k arbitrary: q node)
    case (Cons f k)
    then show ?case by (cases f, cases k) auto
  qed simp
  then show ?thesis using assms by (cases k) auto
qed

lemma replace_focus:
  assumes C: "heap_ctx s q node k" and L: "heap_tree s x (lft s node) l" and R: "heap_tree s y (rgt s node) r"
    and n: "par s node = q" "node \<noteq> sentinel s" "m \<noteq> sentinel s" "clr s node = c" "\<not> clr s (sentinel s)"
    and di: "distinct (node # m # addrs l @ addrs r @ ctx_addrs k)"
  shows "focus (delete_replace node m s) q m k (Node l (m, c) r) \<and>
    ky (delete_replace node m s) = ky s \<and> sentinel (delete_replace node m s) = sentinel s \<and>
    par (delete_replace node m s) (sentinel s) = par s (sentinel s)"
proof -
  let ?l = "lft s node" and ?r = "rgt s node" and ?s = "delete_replace node m s"
  let ?d = "k \<noteq> [] \<and> fst (hd k)" and ?e = "k \<noteq> [] \<and> \<not> fst (hd k)"
  have lr: "?l = sentinel s \<or> ?l \<in> set (addrs l)" "?r = sentinel s \<or> ?r \<in> set (addrs r)"
    using heap_tree_in [OF L] heap_tree_in [OF R] by auto
  have sent: "sentinel s \<notin> set (addrs l)" "sentinel s \<notin> set (addrs r)" "sentinel s \<notin> set (ctx_addrs k)"
    using heap_tree_notin [OF L] heap_tree_notin [OF R] heap_ctx_notin [OF C] by auto
  have q: "k \<noteq> [] \<Longrightarrow> q \<in> set (ctx_addrs k)" using C by (cases k) auto
  have root: "node = root s \<longleftrightarrow> k = []" using ctx_root [OF C] di by simp
  have side: "node = lft s q \<longleftrightarrow> fst (hd k)" if ne: "k \<noteq> []"
  proof -
    obtain d a u k' where k: "k = (d, a, u) # k'" using ne by (cases k) auto
    have "node \<notin> set (ctx_addrs k)" using di by simp
    then show ?thesis using ctx_side [OF C [unfolded k] n(2)] by (simp add: k)
  qed
  have ne: "m \<noteq> ?l" "m \<noteq> ?r" "m \<noteq> node" "k \<noteq> [] \<Longrightarrow> q \<noteq> m"
    using di lr q n by auto
  define link where "link = (\<lambda>s. if k = [] then s\<lparr>root := m\<rparr> else if fst (hd k) then set_lft q m s else set_rgt q m s)"
  define s1 where "s1 = s\<lparr>lft := (lft s)(m := ?l), rgt := (rgt s)(m := ?r), par := (par s)(m := q),
      clr := (clr s)(m := c)\<rparr>"
  have b: "node = root s1 \<longleftrightarrow> k = []" "k \<noteq> [] \<Longrightarrow> node = lft s1 q \<longleftrightarrow> fst (hd k)" "par s1 node = q"
    using root side ne(3,4) n(1) by (simp_all add: s1_def)
  have A: "hky_rbt_copy_color m node (set_par m (par (set_rgt m (rgt (set_lft m (lft s node) s) node)
      (set_lft m (lft s node) s)) node) (set_rgt m (rgt (set_lft m (lft s node) s) node) (set_lft m (lft s node) s))) = s1"
    using n(1,4) ne(3) by (simp add: s1_def hky_rbt_copy_color_def)
  have B: "(if node = root s1 then s1\<lparr>root := m\<rparr>
               else if node = lft s1 (par s1 node) then set_lft (par s1 node) m s1
               else set_rgt (par s1 node) m s1) = link s1"
    using b by (simp add: link_def)
  have "?s = (let s = link s1; s = (if lft s m \<noteq> sentinel s then set_par (lft s m) m s else s)
      in if rgt s m \<noteq> sentinel s then set_par (rgt s m) m s else s)"
    unfolding delete_replace_def Let_def by (simp only: A B)
  moreover have "lft (link s1) m = ?l" "rgt (link s1) m = ?r" "sentinel (link s1) = sentinel s"
    using ne(4) by (auto simp: link_def s1_def)
  ultimately have s': "?s = (let s = (if ?l \<noteq> sentinel s then set_par ?l m (link s1) else link s1)
      in if ?r \<noteq> sentinel s then set_par ?r m s else s)"
    unfolding Let_def by simp
  have fl: "lft ?s = (if ?d then (lft s)(m := ?l, q := m) else (lft s)(m := ?l))"
    and fr: "rgt ?s = (if ?e then (rgt s)(m := ?r, q := m) else (rgt s)(m := ?r))"
    and fo: "clr ?s = (clr s)(m := c)" "sentinel ?s = sentinel s" "ky ?s = ky s"
      "root ?s = (if k = [] then m else root s)"
    unfolding s' Let_def link_def s1_def by simp_all
  have fp: "par ?s z = (if z = m then q else if z \<noteq> sentinel s \<and> (z = ?l \<or> z = ?r) then m else par s z)" for z
    unfolding s' Let_def link_def s1_def using ne by auto
  have "relinked m k s ?s"
  proof (cases k)
    case (Cons f k')
    obtain d a u where f: "f = (d, a, u)" by (cases f)
    have qa: "q = fst a" using C Cons f by simp
    have "z \<noteq> m \<and> z \<noteq> ?l \<and> z \<noteq> ?r \<and> z \<noteq> q" if "z \<in> set (addrs u @ ctx_addrs k')" for z
      using that di lr sent(3) Cons f qa by auto
    then have "same_on (set (addrs u @ ctx_addrs k')) s ?s"
      by (intro same_onI) (simp_all add: fl fr fo fp)
    moreover have "q \<noteq> m \<and> q \<noteq> ?l \<and> q \<noteq> ?r" using q Cons di lr sent(3) by auto
    ultimately show ?thesis using Cons f qa by (simp add: relinked_def fl fr fo fp)
  qed (simp add: relinked_def fo)
  then have H1: "heap_ctx ?s q m k" by (rule heap_ctx_relinked) (rule C)
  have "z \<noteq> m \<and> z \<noteq> sentinel s \<and> z \<noteq> ?r \<and> (k \<noteq> [] \<longrightarrow> z \<noteq> q)" if "z \<in> set (addrs l)" for z
    using that di lr sent(1) q by auto
  then have "same_but_par ?l m (set (addrs l)) s ?s" by (simp add: same_but_par_def fl fr fo fp)
  then have H2: "heap_tree ?s m ?l l" by (rule heap_tree_reparent [OF _ L]) (use di in simp)
  have "z \<noteq> m \<and> z \<noteq> sentinel s \<and> z \<noteq> ?l \<and> (k \<noteq> [] \<longrightarrow> z \<noteq> q)" if "z \<in> set (addrs r)" for z
    using that di lr sent(2) q by auto
  then have "same_but_par ?r m (set (addrs r)) s ?s" by (simp add: same_but_par_def fl fr fo fp)
  then have H3: "heap_tree ?s m ?r r" by (rule heap_tree_reparent [OF _ R]) (use di in simp)
  have "lft ?s m = ?l" "rgt ?s m = ?r" using ne by (auto simp: fl fr)
  then have "heap_tree ?s q m (Node l (m, c) r)" using H2 H3 n by (simp add: fo fp)
  moreover have "distinct (addrs (Node l (m, c) r) @ ctx_addrs k)" using di by auto
  moreover have "\<not> clr ?s (sentinel ?s)" using n by (simp add: fo)
  ultimately have "focus ?s q m k (Node l (m, c) r)" using H1 unfolding focus_def by blast
  then show ?thesis using n by (simp add: fo fp)
qed

lemma clear_focus:
  assumes F: "focus s q p k t" and n: "node \<notin> set (addrs t)" "node \<notin> set (ctx_addrs k)" "node \<noteq> sentinel s"
  shows "focus (delete_clear node s) q p k t"
proof -
  have "same_on (set (addrs t)) s (delete_clear node s)" "same_on (set (ctx_addrs k)) s (delete_clear node s)"
    using n by (auto simp: same_on_def delete_clear_def Let_def)
  moreover have "root (delete_clear node s) = root s" "sentinel (delete_clear node s) = sentinel s"
    "clr (delete_clear node s) = clr s"
    by (simp_all add: delete_clear_def Let_def)
  ultimately show ?thesis
    using F heap_ctx_same [of k s "delete_clear node s"] heap_tree_same [of t s "delete_clear node s"]
    unfolding focus_def by auto
qed

section \<open>The deletion fixup\<close>

fun blk :: "rtree \<Rightarrow> rtree" where
  "blk Leaf = Leaf"
| "blk (Node l a r) = Node l (fst a, False) r"

lemma blk_facts:
  "inv_c t \<Longrightarrow> inv_c (blk t)" "inv_h (blk t) = inv_h t" "addrs (blk t) = addrs t" "\<not> isred (blk t)"
  "\<not> isred t \<Longrightarrow> blk t = t" "isred t \<Longrightarrow> bh (blk t) = Suc (bh t)" "blk (mirror t) = mirror (blk t)"
  by (cases t; auto)+

text \<open>
  The loop's invariant: the tree at \<open>temp\<close> has one black node too few, and only its root may
  be red below a red parent.
\<close>

definition del_inv :: "rb \<Rightarrow> addr \<Rightarrow> frame list \<Rightarrow> rtree \<Rightarrow> addr list \<Rightarrow> bool" where
  "del_inv s temp k t xs \<longleftrightarrow>
     (\<exists>q. focus s q temp k t \<and> par s temp = q) \<and> inv_h t \<and> inv_c (blk t) \<and>
     hctx (Suc (bh t)) k \<and> cctx k \<and> topblack k \<and> addrs (plug k t) = xs"

lemma del_inv_flip: "del_inv s temp k t xs \<Longrightarrow> del_inv (flip s) temp (flip_ctx k) (mirror t) (rev xs)"
  unfolding del_inv_def by (auto simp: focus_flip plug_flip blk_facts)

definition del_progress :: "bool \<Rightarrow> frame list \<Rightarrow> addr list \<Rightarrow> rb \<Rightarrow> rb \<times> addr \<Rightarrow> bool" where
  "del_progress c k xs s r \<longleftrightarrow>
     (\<exists>k' t. del_inv (fst r) (snd r) k' t xs \<and> (k' = [] \<or> k' = k \<and> isred t = c)) \<and>
     ky (fst r) = ky s \<and> sentinel (fst r) = sentinel s"

lemma left_rotate_par_sentinel:
  "a \<noteq> sentinel s \<Longrightarrow> rgt s a \<noteq> sentinel s \<Longrightarrow>
   par (hky_rbtree_left_rotate a s) (sentinel s) = par s (sentinel s)"
  by (auto simp: hky_rbtree_left_rotate_def Let_def)

lemma right_rotate_par_sentinel:
  "a \<noteq> sentinel s \<Longrightarrow> lft s a \<noteq> sentinel s \<Longrightarrow>
   par (hky_rbtree_right_rotate a s) (sentinel s) = par s (sentinel s)"
  by (auto simp: hky_rbtree_right_rotate_def Let_def)

lemma copy_focus:
  "focus s q p k (Node l (p, c) r) \<Longrightarrow> clr s x = c' \<Longrightarrow>
   focus (hky_rbt_copy_color p x s) q p k (Node l (p, c') r)"
  unfolding hky_rbt_copy_color_def using recolor_focus [of s q p k l c r c'] by simp

lemma focus_same_par:
  assumes "focus s q p k t" "focus s' q p' k' t" "sentinel s' = sentinel s" "par s p = q"
    "par s' (sentinel s) = par s (sentinel s)"
  shows "p' = p \<and> par s' p = q"
  using assms by (cases t) (auto simp: focus_def)

text \<open>The case of two black nephews: the sibling becomes red, the focus moves up.\<close>

lemma balance_black:
  assumes F: "focus s p temp ((True, (p, c), Node wl (w, False) wr) # k) T"
  shows "focus (hky_rbt_red w s) (par s p) p k (Node T (p, c) (Node wl (w, True) wr))"
proof -
  have "focus s p w ((False, (p, c), T) # k) (Node wl (w, False) wr)"
    using focus_down_right [OF focus_up_left [OF F]] focus_node(1) by fastforce
  from focus_up_right [OF red_focus [OF this]] show ?thesis by simp
qed

text \<open>The inner red nephew is rotated outside.\<close>

lemma balance_inner:
  assumes F: "focus s p temp ((True, (p, c), Node (Node x (y, True) z) (w, False) wr) # k) T"
  shows "focus (hky_rbtree_right_rotate w (hky_rbt_red w (hky_rbt_black y s))) p y ((False, (p, c), T) # k)
    (Node x (y, False) (Node z (w, True) wr))"
proof -
  have "focus s p w ((False, (p, c), T) # k) (Node (Node x (y, True) z) (w, False) wr)"
    using focus_down_right [OF focus_up_left [OF F]] focus_node(1) by fastforce
  moreover from focus_down_left [OF this] have
    Fy: "focus s w y ((True, (w, False), wr) # (False, (p, c), T) # k) (Node x (y, True) z)"
    using focus_node(1) by fastforce
  ultimately have "par s w = p" using focus_node(3) by blast
  with focus_up_left [OF black_focus [OF Fy]] have
    "focus (hky_rbt_black y s) p w ((False, (p, c), T) # k) (Node (Node x (y, False) z) (w, False) wr)" by simp
  from right_rotate_focus [OF red_focus [OF this]] show ?thesis .
qed

text \<open>The outer red nephew: the recolouring and rotation that end the loop.\<close>

lemma balance_outer:
  assumes F: "focus s q p k (Node T (p, c) (Node a (w, False) (Node b (v, True) d)))"
  shows "focus (hky_rbtree_left_rotate p (hky_rbt_black v (hky_rbt_black p (hky_rbt_copy_color w p s)))) q w k
    (Node (Node T (p, False) a) (w, c) (Node b (v, False) d))"
proof -
  let ?s1 = "hky_rbt_copy_color w p s" and ?s2 = "hky_rbt_black p (hky_rbt_copy_color w p s)"
  have pq: "par s p = q" "clr s p = c" using focus_node [OF F] by auto
  have "focus s p w ((False, (p, c), T) # k) (Node a (w, False) (Node b (v, True) d))"
    using focus_down_right [OF F] focus_node(1) by fastforce
  from focus_up_right [OF copy_focus [OF this pq(2)]] have
    "focus ?s1 q p k (Node T (p, c) (Node a (w, c) (Node b (v, True) d)))" using pq by simp
  from black_focus [OF this] have F2: "focus ?s2 q p k (Node T (p, False) (Node a (w, c) (Node b (v, True) d)))" .
  from focus_down_right [OF this] have
    Fw: "focus ?s2 p w ((False, (p, False), T) # k) (Node a (w, c) (Node b (v, True) d))"
    using focus_node(1) by fastforce
  from focus_down_right [OF this] have
    "focus ?s2 w v ((False, (w, c), a) # (False, (p, False), T) # k) (Node b (v, True) d)"
    using focus_node(1) by fastforce
  from focus_up_right [OF focus_up_right [OF black_focus [OF this], simplified color_frame]] have
    "focus (hky_rbt_black v ?s2) q p k (Node T (p, False) (Node a (w, c) (Node b (v, False) d)))"
    using focus_node(3) [OF Fw] pq by simp
  from left_rotate_focus [OF this] show ?thesis .
qed

lemma del_progressI:
  assumes "focus s' q p k' t" "par s' p = q" "inv_h t" "inv_c (blk t)" "hctx (Suc (bh t)) k'" "cctx k'"
    "topblack k'" "addrs (plug k' t) = xs" "k' = [] \<or> k' = k \<and> isred t = c"
    "ky s' = ky s" "sentinel s' = sentinel s"
  shows "del_progress c k xs s (s', p)"
  unfolding del_progress_def del_inv_def using assms by auto

lemma balance_left_progress:
  assumes F: "focus s p temp ((True, (p, c), W) # k) T" and P: "par s temp = p"
    and W: "W = Node wl (w, False) wr"
    and I: "inv_h T" "inv_c T" "hctx (Suc (bh T)) ((True, (p, c), W) # k)" "cctx ((True, (p, c), W) # k)"
      "topblack ((True, (p, c), W) # k)" "addrs (plug ((True, (p, c), W) # k) T) = xs"
  shows "del_progress c k xs s (delete_balance_left temp s w)"
proof -
  note F = F [unfolded W]
  have Fp: "focus s (par s p) p k (Node T (p, c) (Node wl (w, False) wr))" by (rule focus_up_left [OF F])
  have Fw: "focus s p w ((False, (p, c), T) # k) (Node wl (w, False) wr)"
    using focus_down_right [OF Fp] focus_node(1) by fastforce
  have rp: "rgt s p = w" using focus_frame(4) [OF Fw] by simp
  have cl: "clr s (lft s w) = isred wl" "clr s (rgt s w) = isred wr"
    using focus_red [OF focus_down_left [OF Fw]] focus_red [OF focus_down_right [OF Fw]] by auto
  have H: "inv_h wl" "inv_h wr" "bh wl = bh T" "bh wr = bh T"
    "hctx (if c then Suc (bh T) else Suc (Suc (bh T))) k"
    and C: "inv_c wl" "inv_c wr" "cctx k" "c \<longrightarrow> \<not> cred k"
    using I(3,4) by (auto simp: W)
  have tb: "topblack k" using I(5) by (cases k) auto
  have A: "addrs (plug k (Node T (p, c) (Node wl (w, False) wr))) = xs" using I(6) by (simp add: W)
  show ?thesis
  proof (cases "\<not> isred wl \<and> \<not> isred wr")
    case True
    let ?t = "Node T (p, c) (Node wl (w, True) wr)"
    have "delete_balance_left temp s w = (hky_rbt_red w s, p)"
      using True cl P by (simp add: delete_balance_left_def Let_def)
    moreover have "focus (hky_rbt_red w s) (par s p) p k ?t" by (rule balance_black [OF F])
    moreover have "addrs (plug k ?t) = xs"
      using A addrs_plug_cong [of ?t "Node T (p, c) (Node wl (w, False) wr)" k] by simp
    ultimately show ?thesis
      using H C I(1,2) tb True by (auto intro!: del_progressI)
  next
    case red: False
    have fin: "del_progress c k xs s (let s = hky_rbt_copy_color w' (par s1 temp) s1;
                s = hky_rbt_black (par s temp) s; s = hky_rbt_black (rgt s w') s;
                s = hky_rbtree_left_rotate (par s temp) s in (s, root s))"
      if F1: "focus s1 q p k (Node T (p, c) (Node a (w', False) (Node b (v, True) d)))"
        and s1: "par s1 temp = p" "ky s1 = ky s" "sentinel s1 = sentinel s"
        and i: "inv_h a" "inv_h b" "inv_h d" "bh a = bh T" "bh b = bh T" "bh d = bh T"
          "inv_c a" "inv_c b" "inv_c d"
        and ad: "addrs (Node a (w', False) (Node b (v, True) d)) = addrs (Node wl (w, False) wr)"
      for s1 q a w' b v d
    proof -
      let ?s = "hky_rbtree_left_rotate p (hky_rbt_black v (hky_rbt_black p (hky_rbt_copy_color w' p s1)))"
      let ?t = "Node (Node T (p, False) a) (w', c) (Node b (v, False) d)"
      have G: "focus ?s q w' k ?t" by (rule balance_outer [OF F1])
      have "rgt s1 w' = v"
        using focus_node(1) focus_down_right [OF focus_down_right [OF F1]] focus_node(1) [OF focus_down_right [OF F1]]
        by fastforce
      moreover obtain q' where R: "focus ?s q' (root ?s) [] (plug k ?t)"
        using focus_plug [OF G] unfolding rb_rel_def by blast
      moreover have "plug k ?t \<noteq> Leaf" using set_addrs_plug [of k ?t] by (cases "plug k ?t") auto
      then have "par ?s (root ?s) = q'" using R by (cases "plug k ?t") (auto simp: focus_def)
      moreover have "inv_h (plug k ?t)" using H(5) i I(1) by (cases c) (simp_all add: inv_h_plug)
      moreover have "inv_c (plug k ?t)" using C i I(2) by (auto simp: inv_c_plug)
      moreover have "addrs (plug k ?t) = xs"
        using A ad addrs_plug_cong [of ?t "Node T (p, c) (Node wl (w, False) wr)" k] by simp
      ultimately show ?thesis
        using s1 by (auto simp: Let_def intro!: del_progressI blk_facts(1))
    qed
    show ?thesis
    proof (cases "isred wr")
      case True
      then obtain b v d where wr: "wr = Node b (v, True) d" by (cases wr) auto
      have "delete_balance_left temp s w = (let s = hky_rbt_copy_color w (par s temp) s;
                s = hky_rbt_black (par s temp) s; s = hky_rbt_black (rgt s w) s;
                s = hky_rbtree_left_rotate (par s temp) s in (s, root s))"
        using True cl by (simp add: delete_balance_left_def Let_def)
      then show ?thesis
        using fin [OF Fp [unfolded wr] P] H C wr by simp
    next
      case False
      then obtain x y z where wl: "wl = Node x (y, True) z" using red by (cases wl) auto
      let ?s1 = "hky_rbtree_right_rotate w (hky_rbt_red w (hky_rbt_black y s))"
      have F1: "focus ?s1 p y ((False, (p, c), T) # k) (Node x (y, False) (Node z (w, True) wr))"
        by (rule balance_inner [OF F [unfolded wl]])
      have y: "lft s w = y" using focus_node(1) [OF focus_down_left [OF Fw [unfolded wl]]] by simp
      have Fp1: "focus ?s1 (par ?s1 p) p k (Node T (p, c) (Node x (y, False) (Node z (w, True) wr)))"
        by (rule focus_up_right [OF F1])
      have "w \<noteq> sentinel s" "y \<noteq> sentinel s" using Fw focus_down_left [OF Fw [unfolded wl]] y
        by (auto simp: focus_def)
      then have "par ?s1 (sentinel s) = par s (sentinel s)"
        using right_rotate_par_sentinel [of w "hky_rbt_red w (hky_rbt_black y s)"] y by simp
      then have P1: "par ?s1 temp = p"
        using focus_same_par [OF F focus_down_left [OF Fp1]] P by simp
      have "delete_balance_left temp s w = (let s = hky_rbt_copy_color y (par ?s1 temp) ?s1;
                s = hky_rbt_black (par s temp) s; s = hky_rbt_black (rgt s y) s;
                s = hky_rbtree_left_rotate (par s temp) s in (s, root s))"
        using False red cl y P1 focus_frame(4) [OF F1]
        by (simp add: delete_balance_left_def Let_def)
      then show ?thesis
        using fin [OF Fp1 P1] H C wl False by simp
    qed
  qed
qed

definition del_step_ok :: "nat \<Rightarrow> addr list \<Rightarrow> rb \<Rightarrow> rb \<times> addr \<Rightarrow> bool" where
  "del_step_ok n xs s r \<longleftrightarrow>
     (\<exists>k' t. del_inv (fst r) (snd r) k' t xs \<and> (k' = [] \<or> isred t \<or> length k' < n)) \<and>
     ky (fst r) = ky s \<and> sentinel (fst r) = sentinel s"

lemma del_progress_step_ok:
  assumes "del_progress c k xs s1 r" "ky s1 = ky s" "sentinel s1 = sentinel s" "c \<or> length k < n"
  shows "del_step_ok n xs s r"
  using assms unfolding del_progress_def del_step_ok_def by fastforce

lemma delete_step_left:
  assumes I: "del_inv s temp ((True, (p, c), W) # k) T xs" and T: "\<not> isred T"
  shows "del_step_ok (Suc (length k)) xs s (delete_step (s, temp))"
proof -
  obtain q where F: "focus s q temp ((True, (p, c), W) # k) T" and P: "par s temp = q" and
    H: "inv_h T" "inv_c T" "hctx (Suc (bh T)) ((True, (p, c), W) # k)" "cctx ((True, (p, c), W) # k)"
      "topblack ((True, (p, c), W) # k)" "addrs (plug ((True, (p, c), W) # k) T) = xs"
    using I T unfolding del_inv_def by (auto simp: blk_facts)
  have q: "q = p" using focus_frame(1) [OF F] by simp
  note F = F [unfolded q] and P = P [unfolded q]
  obtain wl w wc wr where W: "W = Node wl (w, wc) wr" using H(3) by (cases W) auto
  have side: "temp = lft s (par s temp)" using focus_frame(3) [OF F] P by simp
  have Fp: "focus s (par s p) p k (Node T (p, c) W)" by (rule focus_up_left [OF F])
  have w: "rgt s p = w" "clr s w = wc" "w \<noteq> sentinel s"
    using focus_node [OF focus_down_right [OF Fp, unfolded W]] by auto
  have p: "p \<noteq> sentinel s" using focus_frame(5) [OF F] .
  show ?thesis
  proof (cases wc)
    case False
    then have "delete_step (s, temp) = delete_balance_left temp s w"
      using side P w by (simp add: delete_step_def Let_def)
    then show ?thesis
      using balance_left_progress [OF F P _ H] W False by (auto intro!: del_progress_step_ok)
  next
    case True
    then have c: "c = False" using H(4) W by simp
    let ?s0 = "hky_rbt_red p (hky_rbt_black w s)" and ?k = "(True, (w, False), wr) # k"
    let ?s1 = "hky_rbtree_left_rotate p ?s0"
    have "focus s p w ((False, (p, False), T) # k) (Node wl (w, True) wr)"
      using focus_down_right [OF Fp] w W True c by simp
    from left_rotate_focus [OF red_focus [OF focus_up_right [OF black_focus [OF this]]]] have
      G: "focus ?s1 (par s p) w k (Node (Node T (p, True) wl) (w, False) wr)" by simp
    have "focus ?s1 w p ?k (Node T (p, True) wl)"
      using focus_down_left [OF G] focus_node(1) by fastforce
    from focus_down_left [OF this] have F1: "focus ?s1 p (lft ?s1 p) ((True, (p, True), wl) # ?k) T" .
    have "par ?s1 (sentinel s) = par s (sentinel s)"
      using left_rotate_par_sentinel [of p ?s0] p w by simp
    then have P1: "lft ?s1 p = temp" "par ?s1 temp = p"
      using focus_same_par [OF F F1] P by auto
    note F1 = F1 [unfolded P1(1)]
    obtain a w2 b where wl: "wl = Node a (w2, False) b"
      using H(3,4) W True by (cases wl) auto
    have rp: "rgt ?s1 p = w2"
      using focus_node(1) [OF focus_down_right [OF focus_up_left [OF F1], unfolded wl]] by simp
    have "delete_step (s, temp) = delete_balance_left temp ?s1 w2"
      using side P w True P1 rp by (simp add: delete_step_def Let_def)
    moreover have "addrs (plug ((True, (p, True), wl) # ?k) T) = xs"
      using H(6) W addrs_plug_cong [of "Node (Node T (p, True) wl) (w, False) wr" "Node T (p, c) W" k] by simp
    then have "del_progress True ?k xs ?s1 (delete_balance_left temp ?s1 w2)"
      using H W True c wl by (intro balance_left_progress [OF F1 P1(2) wl]) (auto split: if_splits)
    ultimately show ?thesis by (auto intro: del_progress_step_ok)
  qed
qed

lemma delete_balance_flip: "delete_balance_right temp s w = apfst flip (delete_balance_left temp (flip s) w)"
  by (simp add: delete_balance_left_def delete_balance_right_def Let_def split_def conj_commute)

lemma delete_step_flip:
  assumes "temp \<noteq> lft s (par s temp)" "temp = rgt s (par s temp)"
  shows "delete_step (s, temp) = apfst flip (delete_step (flip s, temp))"
  using assms by (simp add: delete_step_def Let_def delete_balance_flip)

lemma delete_step_progress:
  assumes I: "del_inv s temp k T xs" and c: "\<not> isred T" "k \<noteq> []"
  shows "del_step_ok (length k) xs s (delete_step (s, temp))"
proof -
  obtain d p c' W k' where k: "k = (d, (p, c'), W) # k'" using c(2) by (cases k) auto
  show ?thesis
  proof (cases d)
    case True
    then show ?thesis using delete_step_left [of s temp p c' W k' T xs] I c(1) k by simp
  next
    case False
    obtain q where F: "focus s q temp ((d, (p, c'), W) # k') T" and P: "par s temp = q"
      and "hctx (Suc (bh T)) ((d, (p, c'), W) # k')"
      using I unfolding del_inv_def k by blast
    then have "W \<noteq> Leaf" by auto
    then have side: "temp \<noteq> lft s (par s temp)" "temp = rgt s (par s temp)"
      using focus_side [OF F] False P by auto
    have "del_inv (flip s) temp ((True, (p, c'), mirror W) # flip_ctx k') (mirror T) (rev xs)"
      using del_inv_flip [OF I] by (simp add: k False)
    from delete_step_left [OF this] c(1) obtain k1 t1 where
      "del_inv (fst (delete_step (flip s, temp))) (snd (delete_step (flip s, temp))) k1 t1 (rev xs)"
      "k1 = [] \<or> isred t1 \<or> length k1 < Suc (length (flip_ctx k'))"
      "ky (fst (delete_step (flip s, temp))) = ky s" "sentinel (fst (delete_step (flip s, temp))) = sentinel s"
      unfolding del_step_ok_def by auto
    then show ?thesis
      using del_inv_flip [of "fst (delete_step (flip s, temp))" _ k1 t1 "rev xs"]
      unfolding del_step_ok_def delete_step_flip [OF side]
      by (auto simp: k flip_ctx_def intro!: exI [of _ "flip_ctx k1"] exI [of _ "mirror t1"])
  qed
qed

lemma delete_loop:
  assumes "del_inv s temp k t xs"
  shows "\<exists>s' p k' t'. while_option (\<lambda>(s, temp). temp \<noteq> root s \<and> \<not> clr s temp) delete_step (s, temp) = Some (s', p)
    \<and> del_inv s' p k' t' xs \<and> (k' = [] \<or> isred t') \<and> ky s' = ky s \<and> sentinel s' = sentinel s"
  using assms
proof (induction "if k = [] \<or> isred t then 0 else length k" arbitrary: s temp k t rule: less_induct)
  case less
  obtain q where F: "focus s q temp k t" and h: "hctx (Suc (bh t)) k"
    using less.prems unfolding del_inv_def by blast
  have red: "clr s temp = isred t" by (rule focus_red [OF F])
  have rt: "k = [] \<Longrightarrow> temp = root s" using F by (simp add: focus_def)
  have "temp \<notin> set (ctx_addrs k)"
    using F heap_ctx_notin [of s q temp k] heap_tree_in [of s q temp t] unfolding focus_def by auto
  then have nrt: "k \<noteq> [] \<Longrightarrow> temp \<noteq> root s" using F ctx_root [of s q temp k] unfolding focus_def by blast
  show ?case
  proof (cases "k = [] \<or> isred t")
    case True
    then show ?thesis using less.prems red rt by (subst while_option_unfold) auto
  next
    case False
    obtain s1 p1 where r: "delete_step (s, temp) = (s1, p1)" by (cases "delete_step (s, temp)")
    obtain k1 t1 where "del_inv s1 p1 k1 t1 xs" "k1 = [] \<or> isred t1 \<or> length k1 < length k"
      "ky s1 = ky s" "sentinel s1 = sentinel s"
      using delete_step_progress [OF less.prems] False r unfolding del_step_ok_def by auto
    then show ?thesis
      using less.hyps [of k1 t1 s1 p1] False r red nrt by (subst while_option_unfold) auto
  qed
qed

lemma black_blk: "focus s q p k t \<Longrightarrow> focus (hky_rbt_black p s) q p k (blk t)"
proof (cases t)
  case Leaf
  assume F: "focus s q p k t"
  then have "p = sentinel s" "\<not> clr s (sentinel s)" using Leaf by (auto simp: focus_def)
  then have "hky_rbt_black p s = s" by (simp add: hky_rbt_black_def fun_upd_idem)
  then show ?thesis using F Leaf by simp
next
  case (Node l a r)
  assume F: "focus s q p k t"
  then have "fst a = p" using Node focus_node(1) by blast
  then show ?thesis using F Node black_focus [of s q p k l "snd a" r] by (cases a) simp
qed

lemma delete_fixup_correct:
  assumes "del_inv s temp k t xs"
  shows "\<exists>s' t'. delete_fixup s temp = Some s' \<and> rb_rel s' t' \<and> rb_ok t' \<and> addrs t' = xs \<and>
    ky s' = ky s \<and> sentinel s' = sentinel s"
proof -
  obtain s1 p k1 t1 where L: "while_option (\<lambda>(s, temp). temp \<noteq> root s \<and> \<not> clr s temp) delete_step (s, temp)
      = Some (s1, p)" and I: "del_inv s1 p k1 t1 xs" and e: "k1 = [] \<or> isred t1"
      and fr: "ky s1 = ky s" "sentinel s1 = sentinel s"
    using delete_loop [OF assms] by blast
  obtain q where F: "focus s1 q p k1 t1" and H: "inv_h t1" "inv_c (blk t1)" "hctx (Suc (bh t1)) k1" "cctx k1"
      "topblack k1" "addrs (plug k1 t1) = xs"
    using I unfolding del_inv_def by blast
  have "rb_rel (hky_rbt_black p s1) (plug k1 (blk t1))" by (rule focus_plug [OF black_blk [OF F]])
  moreover have "rb_ok (plug k1 (blk t1))"
    using H e isred_plug [of k1 "blk t1"]
    by (cases "k1 = []") (auto simp: rb_ok_def inv_h_plug inv_c_plug blk_facts)
  moreover have "addrs (plug k1 (blk t1)) = xs"
    using H(6) addrs_plug_cong [of "blk t1" t1 k1] by (simp add: blk_facts)
  ultimately show ?thesis
    unfolding delete_fixup_def L using fr by (intro exI [of _ "hky_rbt_black p s1"]) auto
qed

section \<open>The deletion\<close>

text \<open>What the unlinking leaves: \<open>temp\<close> in focus, in the place that \<open>subst\<close> had.\<close>

definition unlinked :: "rb \<Rightarrow> rb \<Rightarrow> addr \<Rightarrow> bool \<Rightarrow> addr list \<Rightarrow> bool" where
  "unlinked s s' temp red xs \<longleftrightarrow>
     (\<exists>K T q. focus s' q temp K T \<and> par s' temp = q \<and> K \<noteq> [] \<and> inv_h T \<and> inv_c T \<and>
        hctx (if red then bh T else Suc (bh T)) K \<and> cctx K \<and> topblack K \<and> (red \<longrightarrow> \<not> isred T) \<and>
        addrs (plug K T) = xs) \<and> ky s' = ky s \<and> sentinel s' = sentinel s"

lemma delete_finish:
  assumes U: "unlinked s s1 temp red xs" and n: "node \<notin> set xs" "node \<noteq> sentinel s"
  shows "\<exists>s' t'. (if red then Some (delete_clear node s1) else delete_fixup (delete_clear node s1) temp) = Some s'
    \<and> rb_rel s' t' \<and> rb_ok t' \<and> addrs t' = xs \<and> ky s' = (ky s)(node := 0) \<and> sentinel s' = sentinel s"
proof -
  obtain K T q where F: "focus s1 q temp K T" and P: "par s1 temp = q" and H: "K \<noteq> []" "inv_h T" "inv_c T"
      "hctx (if red then bh T else Suc (bh T)) K" "cctx K" "topblack K" "red \<longrightarrow> \<not> isred T"
      "addrs (plug K T) = xs" and fr: "ky s1 = ky s" "sentinel s1 = sentinel s"
    using U unfolding unlinked_def by blast
  have nn: "node \<notin> set (addrs T)" "node \<notin> set (ctx_addrs K)"
    using n(1) set_addrs_plug [of K T] H(8) by auto
  have "temp = sentinel s1 \<or> temp \<in> set (addrs T)" using F heap_tree_in unfolding focus_def by blast
  then have tn: "temp \<noteq> node" using nn n fr by auto
  have F': "focus (delete_clear node s1) q temp K T" using clear_focus [OF F nn] n(2) fr by simp
  have fields: "ky (delete_clear node s1) = (ky s)(node := 0)" "sentinel (delete_clear node s1) = sentinel s"
    "par (delete_clear node s1) temp = q"
    using fr tn P by (simp_all add: delete_clear_def Let_def)
  show ?thesis
  proof (cases red)
    case True
    have "rb_ok (plug K T)"
      using H True isred_plug [of K T] by (auto simp: rb_ok_def inv_h_plug inv_c_plug)
    then show ?thesis using focus_plug [OF F'] True H(8) fields by auto
  next
    case False
    have "del_inv (delete_clear node s1) temp K T xs"
      unfolding del_inv_def using F' fields H False by (auto simp: blk_facts)
    from delete_fixup_correct [OF this] show ?thesis using False fields by auto
  qed
qed

text \<open>Colours, not addresses, matter for the context invariants.\<close>

lemma ctx_inv_address:
  "hctx n (k1 @ (d, (x, c), u) # k2) = hctx n (k1 @ (d, (y, c), u) # k2)"
  "cctx (k1 @ (d, (x, c), u) # k2) = cctx (k1 @ (d, (y, c), u) # k2)"
  "topblack (k1 @ (d, (x, c), u) # k2) = topblack (k1 @ (d, (y, c), u) # k2)"
proof -
  have r: "cred (k1 @ (d, (x, c), u) # k2) = cred (k1 @ (d, (y, c), u) # k2)" for k1
    by (cases k1 rule: cred.cases) auto
  show "hctx n (k1 @ (d, (x, c), u) # k2) = hctx n (k1 @ (d, (y, c), u) # k2)"
    by (induction k1 arbitrary: n) auto
  show "cctx (k1 @ (d, (x, c), u) # k2) = cctx (k1 @ (d, (y, c), u) # k2)"
    by (induction k1) (auto simp: r)
  show "topblack (k1 @ (d, (x, c), u) # k2) = topblack (k1 @ (d, (y, c), u) # k2)"
    by (induction k1) auto
qed

lemma unlink_leaf:
  assumes F: "focus s q node k (Node l (node, c) r)" and ok: "rb_ok (plug k (Node l (node, c) r))" and k: "k \<noteq> []"
    and T: "(T = r \<and> temp = rgt s node \<and> l = Leaf) \<or> (T = l \<and> temp = lft s node \<and> r = Leaf)"
  shows "unlinked s (delete_unlink node node temp s) temp c (ctx_left k @ addrs l @ addrs r @ ctx_right k)"
proof -
  obtain d p cp u k' where K: "k = (d, (p, cp), u) # k'" using k by (cases k) auto
  have B: "delete_unlink node node temp s = bypass node temp s"
    by (simp add: delete_unlink_parts)
  have q: "q = p" using focus_frame(1) F K by fastforce
  have "focus (bypass node temp s) p temp k T \<and> par (bypass node temp s) temp = p \<and>
      ky (bypass node temp s) = ky s \<and> sentinel (bypass node temp s) = sentinel s"
    using bypass_focus [OF F [unfolded K q], of T temp] T unfolding K by blast
  moreover have "inv_h T" "inv_c T" "hctx (if c then bh T else Suc (bh T)) k" "cctx k" "topblack k" "c \<longrightarrow> \<not> isred T"
    using ok T topblack_plug [of k "Node l (node, c) r"] by (auto simp: rb_ok_def inv_h_plug inv_c_plug)
  moreover have "addrs (plug k T) = ctx_left k @ addrs l @ addrs r @ ctx_right k"
    using T by (auto simp: addrs_plug)
  ultimately show ?thesis unfolding unlinked_def B using k by blast
qed

text \<open>The two-children case: the minimum of the right subtree takes the place of \<open>node\<close>.\<close>

lemma unlink_min_root:
  assumes F: "focus s q node k (Node l (node, c) (Node Leaf (m, cm) rm))"
  shows "focus (delete_unlink node m (rgt s m) s) q m k (Node l (m, c) rm) \<and>
    ky (delete_unlink node m (rgt s m) s) = ky s \<and> sentinel (delete_unlink node m (rgt s m) s) = sentinel s \<and>
    (rm = Leaf \<longrightarrow> par (delete_unlink node m (rgt s m) s) (sentinel s) = m)"
proof -
  let ?temp = "rgt s m" and ?sB = "bypass m (rgt s m) s"
  let ?s2 = "set_par ?temp m ?sB"
  have n: "node \<noteq> sentinel s" "par s node = q" "clr s node = c" "\<not> clr s (sentinel s)" "m \<noteq> node" "rgt s node = m"
    and di: "distinct (node # m # addrs l @ addrs rm @ ctx_addrs k)"
    using F by (auto simp: focus_def)
  have M: "focus s node m ((False, (node, c), l) # k) (Node Leaf (m, cm) rm)"
    using focus_down_right [OF F] n by simp
  have m: "m \<noteq> sentinel s" "par s m = node" using M by (auto simp: focus_def)
  have B: "focus ?sB node ?temp ((False, (node, c), l) # k) rm" "par ?sB = (par s)(?temp := node)"
    "lft ?sB = lft s" "rgt ?sB = (rgt s)(node := ?temp)" "clr ?sB = clr s" "root ?sB = root s" "ky ?sB = ky s"
    "sentinel ?sB = sentinel s"
    using bypass_focus [OF M, of rm ?temp] by auto
  have "?temp = sentinel s \<or> ?temp \<in> set (addrs rm)"
    using B(1,8) heap_tree_in unfolding focus_def by metis
  moreover have "heap_tree s node (lft s node) l" "heap_ctx s q node k" using F by (auto simp: focus_def)
  then have "sentinel s \<notin> set (addrs l)" "sentinel s \<notin> set (ctx_addrs k)"
    using heap_tree_notin heap_ctx_notin by blast+
  ultimately have t: "?temp \<noteq> node" "?temp \<notin> set (addrs l)" "?temp \<notin> set (ctx_addrs k)"
    using di n(1) by auto
  have "m \<noteq> lft s node" using focus_side(1) [OF M] m by simp
  then have U: "delete_unlink node m ?temp s = delete_replace node m ?s2"
    using m n(5) by (simp add: delete_unlink_parts bypass_def Let_def)
  have "heap_ctx ?s2 q node k"
    by (rule heap_ctx_same [of k ?sB]) (use B t n in \<open>auto simp: focus_def same_on_def\<close>)
  moreover have "heap_tree ?s2 node (lft ?s2 node) l"
    by (rule heap_tree_same [of l ?sB]) (use B t in \<open>auto simp: focus_def same_on_def\<close>)
  moreover have "heap_tree ?s2 m (rgt ?s2 node) rm"
    by (rule heap_tree_reparent [of _ _ _ ?sB]) (use B di in \<open>auto simp: focus_def same_but_par_def\<close>)
  ultimately have "focus (delete_replace node m ?s2) q m k (Node l (m, c) rm) \<and>
      ky (delete_replace node m ?s2) = ky ?s2 \<and> sentinel (delete_replace node m ?s2) = sentinel ?s2 \<and>
      par (delete_replace node m ?s2) (sentinel ?s2) = par ?s2 (sentinel ?s2)"
    by (rule replace_focus) (use B n m t di in auto)
  moreover have "rm = Leaf \<longrightarrow> par ?s2 (sentinel ?s2) = m" using M B(8) by (auto simp: focus_def)
  moreover have "ky ?s2 = ky s" "sentinel ?s2 = sentinel s" using B by simp_all
  ultimately show ?thesis unfolding U by simp
qed

lemma unlink_min_deep:
  assumes F: "focus s q node k (Node l (node, c) (plug kr (Node Leaf (m, cm) rm)))"
    and kr: "kr = (True, (pm, pc), u) # kr'"
    and M: "focus s qm m (kr @ (False, (node, c), l) # k) (Node Leaf (m, cm) rm)"
  shows "focus (delete_unlink node m (rgt s m) s) q m k (Node l (m, c) (plug kr rm)) \<and>
    ky (delete_unlink node m (rgt s m) s) = ky s \<and> sentinel (delete_unlink node m (rgt s m) s) = sentinel s \<and>
    (rm = Leaf \<longrightarrow> par (delete_unlink node m (rgt s m) s) (sentinel s) = pm)"
proof -
  let ?temp = "rgt s m" and ?sB = "bypass m (rgt s m) s" and ?k = "(False, (node, c), l) # k"
  have n: "node \<noteq> sentinel s" "par s node = q" "clr s node = c" "\<not> clr s (sentinel s)"
    using F by (auto simp: focus_def)
  have di: "distinct (node # m # addrs l @ addrs (plug kr rm) @ ctx_addrs k)"
    using F unfolding focus_def by (auto simp: distinct_addrs_plug set_addrs_plug)
  have qm: "qm = pm" using focus_frame(1) [OF M [unfolded kr append_Cons]] by simp
  have m: "m \<noteq> sentinel s" "par s m = pm" using M qm by (auto simp: focus_def)
  have pn: "pm \<noteq> node" "m \<noteq> node" using di kr by (auto simp: set_addrs_plug)
  have B: "focus ?sB pm ?temp (kr @ ?k) rm" "par ?sB = (par s)(?temp := pm)"
    "clr ?sB = clr s" "root ?sB = root s" "ky ?sB = ky s" "sentinel ?sB = sentinel s"
    using bypass_focus [OF M [unfolded kr append_Cons qm], of rm ?temp] kr by auto
  have U: "delete_unlink node m ?temp s = delete_replace node m ?sB"
    using m pn by (simp add: delete_unlink_parts)
  have "?temp = sentinel s \<or> ?temp \<in> set (addrs rm)"
    using B(1,6) heap_tree_in unfolding focus_def by metis
  then have t: "?temp \<noteq> node" using di n(1) by (auto simp: set_addrs_plug)
  obtain q2 p2 where C: "focus ?sB q2 p2 ?k (plug kr rm)" using focus_climb [OF B(1)] by blast
  have "focus (delete_replace node m ?sB) q m k (Node l (m, c) (plug kr rm)) \<and>
      ky (delete_replace node m ?sB) = ky ?sB \<and> sentinel (delete_replace node m ?sB) = sentinel ?sB \<and>
      par (delete_replace node m ?sB) (sentinel ?sB) = par ?sB (sentinel ?sB)"
    by (rule replace_focus [where x = node and y = node]) (use B C n m t di in \<open>auto simp: focus_def\<close>)
  moreover have "rm = Leaf \<longrightarrow> par ?sB (sentinel ?sB) = pm" using M B(2,6) by (auto simp: focus_def)
  ultimately show ?thesis unfolding U B(5,6) by simp
qed

lemma unlink_min:
  assumes F: "focus s q node k (Node l (node, c) r)" and ok: "rb_ok (plug k (Node l (node, c) r))"
    and r: "r = plug kr (Node Leaf (m, cm) rm)" "left_spine kr"
    and M: "focus s qm m (kr @ (False, (node, c), l) # k) (Node Leaf (m, cm) rm)"
  shows "unlinked s (delete_unlink node m (rgt s m) s) (rgt s m) cm
    (ctx_left k @ addrs l @ addrs r @ ctx_right k)"
proof -
  let ?temp = "rgt s m" and ?K = "kr @ (False, (node, c), l) # k" and ?K' = "kr @ (False, (m, c), l) # k"
  let ?s3 = "delete_unlink node m (rgt s m) s" and ?pm = "case kr of [] \<Rightarrow> m | f # _ \<Rightarrow> fst (fst (snd f))"
  have "focus ?s3 q m k (Node l (m, c) (plug kr rm)) \<and> ky ?s3 = ky s \<and> sentinel ?s3 = sentinel s \<and>
      (rm = Leaf \<longrightarrow> par ?s3 (sentinel s) = ?pm)"
  proof (cases kr)
    case Nil
    then show ?thesis using unlink_min_root [of s q node k l c m cm rm] F r(1) by simp
  next
    case (Cons f kr')
    then obtain pm pc u where f: "f = (True, (pm, pc), u)" using r(2) by (cases f) auto
    then show ?thesis using unlink_min_deep [OF F [unfolded r(1)] _ M, of pm pc _ kr'] Cons by simp
  qed
  then have G: "focus ?s3 q m k (Node l (m, c) (plug kr rm))" and fr: "ky ?s3 = ky s" "sentinel ?s3 = sentinel s"
    and ps: "rm = Leaf \<Longrightarrow> par ?s3 (sentinel s) = ?pm"
    by auto
  obtain q' p' where G': "focus ?s3 q' p' ?K' rm"
    using focus_unplug [OF focus_down_right [OF G]] by blast
  have hT: "heap_tree s m ?temp rm" and hT': "heap_tree ?s3 q' p' rm"
    using M G' by (auto simp: focus_def)
  have p': "p' = ?temp" using heap_tree_addr [OF hT] heap_tree_addr [OF hT'] fr(2) by (cases rm) auto
  have "q' = ?pm"
  proof (cases kr)
    case (Cons f kr')
    then show ?thesis using G' focus_frame(1) by (cases f) fastforce
  qed (use G' focus_frame(1) in fastforce)
  then have "par ?s3 ?temp = q'" using ps hT hT' p' fr(2) by (cases rm) auto
  moreover have "inv_h (plug ?K (Node Leaf (m, cm) rm))" "inv_c (plug ?K (Node Leaf (m, cm) rm))"
      "\<not> isred (plug ?K (Node Leaf (m, cm) rm))"
    using ok by (simp_all add: rb_ok_def r(1) plug_append)
  then have "inv_h rm" "inv_c rm" "hctx (if cm then bh rm else Suc (bh rm)) ?K" "cctx ?K" "topblack ?K"
      "cm \<longrightarrow> \<not> isred rm"
    using topblack_plug [of ?K] by (auto simp: inv_h_plug inv_c_plug)
  moreover have "addrs (plug ?K' rm) = ctx_left k @ addrs l @ addrs r @ ctx_right k"
    using ctx_left_spine [OF r(2)] by (simp add: plug_append addrs_plug r(1))
  ultimately show ?thesis
    unfolding unlinked_def using G' p' fr ctx_inv_address(1) [of _ kr False node c l k m]
      ctx_inv_address(2,3) [of kr False node c l k m]
    by (intro conjI exI [of _ ?K'] exI [of _ rm] exI [of _ q']) auto
qed

text \<open>The tree of one node.\<close>

lemma delete_root:
  assumes F: "focus s q (root s) [] (Node l (root s, c) r)" and ok: "rb_ok (Node l (root s, c) r)"
    and T: "(T = r \<and> temp = rgt s (root s)) \<or> (T = l \<and> temp = lft s (root s))"
  shows "rb_rel (delete_clear (root s) (hky_rbt_black temp (s\<lparr>root := temp\<rparr>))) (blk T) \<and> rb_ok (blk T)"
proof -
  let ?s = "s\<lparr>root := temp\<rparr>" and ?n = "root s"
  have "heap_tree s ?n temp T" "distinct (addrs T)" "\<not> clr s (sentinel s)" "?n \<notin> set (addrs T)"
    and n: "?n \<noteq> sentinel s"
    using F T by (auto simp: focus_def)
  then have "focus ?s ?n temp [] T"
    using heap_tree_same [of T s ?s] by (simp add: focus_def same_on_def)
  from black_blk [OF this] have "focus (delete_clear ?n (hky_rbt_black temp ?s)) ?n temp [] (blk T)"
    using n \<open>?n \<notin> set (addrs T)\<close> by (intro clear_focus) (auto simp: blk_facts)
  moreover have "root (delete_clear ?n (hky_rbt_black temp ?s)) = temp" by (simp add: delete_clear_def Let_def)
  moreover have "rb_ok (blk T)" using ok T by (auto simp: rb_ok_def blk_facts)
  ultimately show ?thesis unfolding rb_rel_def by auto
qed

lemma delete_leaf_case:
  assumes F: "focus s q node k (Node l (node, c) r)" and ok: "rb_ok (plug k (Node l (node, c) r))"
    and T: "(T = r \<and> temp = rgt s node \<and> l = Leaf) \<or> (T = l \<and> temp = lft s node \<and> r = Leaf)"
    and ch: "delete_choose node s = Some (node, temp)"
  shows "\<exists>s' t'. hky_rbtree_delete node s = Some s' \<and> rb_rel s' t' \<and> rb_ok t' \<and>
    addrs t' = ctx_left k @ addrs l @ addrs r @ ctx_right k \<and> ky s' = (ky s)(node := 0) \<and> sentinel s' = sentinel s"
proof (cases "k = []")
  case True
  then have n: "node = root s" using F by (simp add: focus_def)
  then show ?thesis
    using delete_root [of s q l c r T temp] F ok T True ch
    unfolding hky_rbtree_delete_def by (auto simp: delete_clear_def Let_def blk_facts)
next
  case False
  let ?xs = "ctx_left k @ addrs l @ addrs r @ ctx_right k"
  have n: "node \<noteq> sentinel s" "clr s node = c" "node \<noteq> root s"
    using F focus_root [OF F] False by (auto simp: focus_def)
  have "distinct (addrs (plug k (Node l (node, c) r)))"
    using F unfolding focus_def distinct_addrs_plug by blast
  then have "node \<notin> set ?xs" by (auto simp: addrs_plug)
  from delete_finish [OF unlink_leaf [OF F ok False T] this n(1)] show ?thesis
    unfolding hky_rbtree_delete_def ch using n by (simp add: Let_def)
qed

lemma delete_ok:
  assumes "rb_rel s t" and "rb_ok t" and "addrs t = as @ node # bs"
  shows "\<exists>s' t'. hky_rbtree_delete node s = Some s' \<and> rb_rel s' t' \<and> rb_ok t' \<and> addrs t' = as @ bs \<and>
    ky s' = (ky s)(node := 0) \<and> sentinel s' = sentinel s"
proof -
  obtain q k l c r where t: "t = plug k (Node l (node, c) r)" and F: "focus s q node k (Node l (node, c) r)"
    by (rule rb_rel_focus [OF assms(1), of node]) (simp_all add: assms(3))
  have d: "distinct (addrs t)" using F unfolding t distinct_addrs_plug focus_def by blast
  have "addrs t = (ctx_left k @ addrs l) @ node # (addrs r @ ctx_right k)" by (simp add: t addrs_plug)
  from distinct_split_unique [OF d assms(3) this]
  have ab: "as @ bs = ctx_left k @ addrs l @ addrs r @ ctx_right k" by simp
  note ok = assms(2) [unfolded t]
  have L: "lft s node = sentinel s \<longleftrightarrow> l = Leaf" and R: "rgt s node = sentinel s \<longleftrightarrow> r = Leaf"
    using F heap_tree_sentinel [of s node _ l] heap_tree_sentinel [of s node _ r] by (auto simp: focus_def)
  consider "l = Leaf" | "l \<noteq> Leaf" "r = Leaf" | "l \<noteq> Leaf" "r \<noteq> Leaf" by blast
  then show ?thesis
  proof cases
    case 1
    then show ?thesis
      using delete_leaf_case [OF F ok, of r "rgt s node"] L unfolding ab by (simp add: delete_choose_def)
  next
    case 2
    then show ?thesis
      using delete_leaf_case [OF F ok, of l "lft s node"] L R unfolding ab by (simp add: delete_choose_def)
  next
    case 3
    obtain r1 a r2 where rn: "r = Node r1 a r2" using 3 by (cases r) auto
    obtain qm m cm rm kr where m: "hky_rbtree_min (rgt s node) s = Some m" "left_spine kr"
      "r = plug kr (Node Leaf (m, cm) rm)" and
      M: "focus s qm m (kr @ (False, (node, c), l) # k) (Node Leaf (m, cm) rm)"
      using min_focus focus_down_right [OF F] unfolding rn by blast
    let ?xs = "ctx_left k @ addrs l @ addrs r @ ctx_right k"
    have c: "clr s m = cm" "lft s m = sentinel s" "m \<noteq> root s"
      using M focus_root [OF M] by (auto simp: focus_def)
    then have ch: "delete_choose node s = Some (m, rgt s m)"
      using 3 L R m(1) by (simp add: delete_choose_def)
    have n: "node \<notin> set ?xs" "node \<noteq> sentinel s" using d F by (auto simp: t addrs_plug focus_def)
    from delete_finish [OF unlink_min [OF F ok m(3,2) M] n] show ?thesis
      unfolding hky_rbtree_delete_def ch ab using c by (simp add: Let_def)
  qed
qed

text \<open>
  C1: \<open>hky_rbtree_delete\<close> of a node of a red-black tree ends; it keeps the red-black invariants
  and the pointer structure, removes exactly that node from the in-order sequence, and
  clears the key of the removed node and nothing else.
\<close>

theorem rbtree_delete_correct:
  assumes "rb_rel s t" and "rb_ok t" and "addrs t = as @ node # bs"
  shows "\<exists>s' t'. hky_rbtree_delete node s = Some s' \<and> rb_rel s' t' \<and> rb_ok t' \<and> addrs t' = as @ bs \<and>
    ky s' = (ky s)(node := 0) \<and> sentinel s' = sentinel s"
  by (rule delete_ok [OF assms])

theorem rbtree_delete_correct_witness:
  "\<exists>s' t'. hky_rbtree_delete 2 rb_example = Some s' \<and> rb_rel s' t' \<and> addrs t' = []"
  using rbtree_delete_correct [OF rb_example_rel, of "[]" 2 "[]"] by (auto simp: rb_ok_def)

text \<open>
  The deletion keeps any order of the remaining nodes that does not depend on the key of the
  removed one.
\<close>

lemma sorted_delete: "sorted (map f (as @ x # bs)) \<Longrightarrow> x \<notin> set (as @ bs) \<Longrightarrow> sorted (map (f(x := v)) (as @ bs))"
proof -
  assume s: "sorted (map f (as @ x # bs))" and x: "x \<notin> set (as @ bs)"
  have "map (f(x := v)) (as @ bs) = map f (as @ bs)" using x by (auto simp: fun_upd_def)
  moreover have "sorted (map f (as @ bs))" using s by (simp add: sorted_append)
  ultimately show ?thesis by (simp only:)
qed

end
