(* ===== verification/Hky_Str_Rbtree.thy ===== *)
theory Hky_Str_Rbtree
  imports Hky_String Hky_Rbtree_Delete "HOL-Library.List_Lexorder" "HOL-Library.Product_Lexorder"
begin

text \<open>
  The string trees of src/core/hky_string.c: \<open>hky_str_rbtree_insert_value\<close>, the third insert
  callback of the red-black trees, and \<open>hky_str_rbtree_lookup\<close>. A node is ordered by its key,
  then by the length of its string, then by the bytes of the string; \<open>str\<close> gives the string
  of each node.
\<close>

section \<open>The code\<close>

definition str_less :: "(addr \<Rightarrow> byte list) \<Rightarrow> rb \<Rightarrow> addr \<Rightarrow> addr \<Rightarrow> bool" where
  "str_less str s n t =
     (if ky s n \<noteq> ky s t then ky s n < ky s t
      else if length (str n) \<noteq> length (str t) then length (str n) < length (str t)
      else (case c_memcmp (str n) (str t) (length (str n)) of None \<Rightarrow> False | Some r \<Rightarrow> r < 0))"

definition hky_str_rbtree_insert_value :: "(addr \<Rightarrow> byte list) \<Rightarrow> addr \<Rightarrow> addr \<Rightarrow> rb \<Rightarrow> rb option" where
  "hky_str_rbtree_insert_value str = insert_callback (str_less str)"

text \<open>
  One turn of the lookup loop: \<open>None\<close> when the node matches, \<open>Some\<close> the child to go on with.
\<close>

definition str_lookup_dir :: "(addr \<Rightarrow> byte list) \<Rightarrow> rb \<Rightarrow> byte list \<Rightarrow> u32 \<Rightarrow> addr \<Rightarrow> addr option" where
  "str_lookup_dir str s val hash n =
     (if ucast hash \<noteq> ky s n then Some (if ucast hash < ky s n then lft s n else rgt s n)
      else if length val \<noteq> length (str n) then
        Some (if length val < length (str n) then lft s n else rgt s n)
      else (case c_memcmp val (str n) (length val) of
              None \<Rightarrow> None
            | Some rc \<Rightarrow> if rc < 0 then Some (lft s n) else if rc > 0 then Some (rgt s n) else None))"

text \<open>The outer option is the loop's, the inner one is \<open>NULL\<close> or the node found.\<close>

definition hky_str_rbtree_lookup ::
  "(addr \<Rightarrow> byte list) \<Rightarrow> rb \<Rightarrow> byte list \<Rightarrow> u32 \<Rightarrow> addr option option" where
  "hky_str_rbtree_lookup str s val hash =
     map_option (\<lambda>n. if n = sentinel s then None else Some n)
       (while_option (\<lambda>n. n \<noteq> sentinel s \<and> str_lookup_dir str s val hash n \<noteq> None)
          (\<lambda>n. the (str_lookup_dir str s val hash n)) (root s))"

section \<open>The order is lexicographic\<close>

type_synonym str_key = "u64 \<times> nat \<times> byte list"

definition str_key :: "(addr \<Rightarrow> byte list) \<Rightarrow> rb \<Rightarrow> addr \<Rightarrow> str_key" where
  "str_key str s n = (ky s n, length (str n), str n)"

lemma memcmp_lex:
  "length a = length b \<Longrightarrow>
   \<exists>r. c_memcmp a b (length a) = Some r \<and> (r < 0 \<longleftrightarrow> a < b) \<and> (r = 0 \<longleftrightarrow> a = b)"
proof (induction a b rule: list_induct2)
  case (Cons x xs y ys)
  then show ?case by (auto simp: word_less_def)
qed simp

lemma str_less_key: "str_less str s n t \<longleftrightarrow> str_key str s n < str_key str s t"
  using memcmp_lex [of "str n" "str t"] by (auto simp: str_less_def str_key_def)

interpretation str_cb: rbtree_insert_pt "hky_str_rbtree_insert_value str" "str_less str" for str
  unfolding hky_str_rbtree_insert_value_def by unfold_locales (rule callback_links)

lemma str_lookup_dir_key:
  "str_lookup_dir str s val hash n =
     (let k = (ucast hash, length val, val) in
      if k < str_key str s n then Some (lft s n)
      else if str_key str s n < k then Some (rgt s n) else None)"
  using memcmp_lex [of val "str n"] by (auto simp: str_lookup_dir_def str_key_def Let_def)

lemma lookup_loop:
  assumes "focus s q p k t" and "sorted (map f (addrs t))"
    and dir: "\<And>n. dir n = (if key < f n then Some (lft s n) else if f n < (key :: 'a::linorder) then Some (rgt s n) else None)"
  shows "\<exists>p'. while_option (\<lambda>n. n \<noteq> sentinel s \<and> dir n \<noteq> None) (\<lambda>n. the (dir n)) p = Some p' \<and>
    (if p' = sentinel s then key \<notin> f ` set (addrs t) else p' \<in> set (addrs t) \<and> f p' = key)"
  using assms(1,2)
proof (induction t arbitrary: q p k)
  case Leaf
  then have "p = sentinel s" by (simp add: focus_def)
  then show ?case by (simp add: while_option_unfold)
next
  case (Node l a r)
  have p: "fst a = p" "p \<noteq> sentinel s" using Node.prems(1) by (auto simp: focus_def)
  have srt: "sorted (map f (addrs l))" "sorted (map f (addrs r))"
    "\<forall>x\<in>set (addrs l). f x \<le> f p" "\<forall>x\<in>set (addrs r). f p \<le> f x"
    using Node.prems(2) p by (auto simp: sorted_append)
  consider "key < f p" | "f p < key" | "key = f p" by force
  then show ?case
  proof cases
    case 1
    have "while_option (\<lambda>n. n \<noteq> sentinel s \<and> dir n \<noteq> None) (\<lambda>n. the (dir n)) p =
        while_option (\<lambda>n. n \<noteq> sentinel s \<and> dir n \<noteq> None) (\<lambda>n. the (dir n)) (lft s p)"
      using 1 p by (subst while_option_unfold) (simp add: dir)
    moreover have "key \<notin> f ` set (addrs r)" using 1 srt(4) by (auto dest: order_less_le_trans)
    moreover obtain p' where "while_option (\<lambda>n. n \<noteq> sentinel s \<and> dir n \<noteq> None) (\<lambda>n. the (dir n)) (lft s p) = Some p'"
      "if p' = sentinel s then key \<notin> f ` set (addrs l) else p' \<in> set (addrs l) \<and> f p' = key"
      using Node.IH(1) [OF focus_down_left [OF Node.prems(1)] srt(1)] by blast
    ultimately show ?thesis using 1 p by (auto split: if_splits)
  next
    case 2
    have "while_option (\<lambda>n. n \<noteq> sentinel s \<and> dir n \<noteq> None) (\<lambda>n. the (dir n)) p =
        while_option (\<lambda>n. n \<noteq> sentinel s \<and> dir n \<noteq> None) (\<lambda>n. the (dir n)) (rgt s p)"
      using 2 p by (subst while_option_unfold) (auto simp: dir)
    moreover have "key \<notin> f ` set (addrs l)" using 2 srt(3) by (auto dest: order_le_less_trans)
    moreover obtain p' where "while_option (\<lambda>n. n \<noteq> sentinel s \<and> dir n \<noteq> None) (\<lambda>n. the (dir n)) (rgt s p) = Some p'"
      "if p' = sentinel s then key \<notin> f ` set (addrs r) else p' \<in> set (addrs r) \<and> f p' = key"
      using Node.IH(2) [OF focus_down_right [OF Node.prems(1)] srt(2)] by blast
    ultimately show ?thesis using 2 p by (auto split: if_splits)
  next
    case 3
    have "while_option (\<lambda>n. n \<noteq> sentinel s \<and> dir n \<noteq> None) (\<lambda>n. the (dir n)) p = Some p"
      using 3 p by (subst while_option_unfold) (simp add: dir)
    then show ?thesis using 3 p by auto
  qed
qed

text \<open>
  C3: Insertion and lookup in a string tree agree: after \<open>hky_rbtree_insert\<close> with
  \<open>hky_str_rbtree_insert_value\<close> the tree is again a red-black tree sorted by (key, length,
  bytes) with the new node in it; a lookup in it ends, every node it returns has the hash and
  the string that were asked for, it returns \<open>NULL\<close> only when no node has them, and so it finds
  the string just inserted.
\<close>

theorem str_rbtree_insert_lookup:
  assumes "rb_rel s t" and "rb_ok t" and "sorted (map (str_key str s) (addrs t))"
    and "node \<notin> set (addrs t)" and "node \<noteq> sentinel s"
  shows "\<exists>s' t'. hky_rbtree_insert (hky_str_rbtree_insert_value str) node s = Some s' \<and> rb_rel s' t' \<and> rb_ok t' \<and>
    set (addrs t') = insert node (set (addrs t)) \<and> ky s' = ky s \<and> sorted (map (str_key str s') (addrs t')) \<and>
    (\<forall>val hash. case hky_str_rbtree_lookup str s' val hash of
       None \<Rightarrow> False
     | Some None \<Rightarrow> \<forall>n \<in> insert node (set (addrs t)). \<not> (ky s n = ucast hash \<and> str n = val)
     | Some (Some n) \<Rightarrow> n \<in> insert node (set (addrs t)) \<and> ky s n = ucast hash \<and> str n = val)"
proof -
  have "sorted_wrt (\<lambda>x y. str_less str s node x \<longrightarrow> str_less str s node y) (addrs t)"
    unfolding str_less_key by (rule sorted_splits) (rule assms(3))
  from str_cb.insert_correct [OF assms(1,2,4,5) this] obtain s' t' where
    I: "hky_rbtree_insert (hky_str_rbtree_insert_value str) node s = Some s'" "rb_rel s' t'" "rb_ok t'"
      "addrs t' = place (str_less str s node) node (addrs t)" "ky s' = ky s" "sentinel s' = sentinel s"
    by blast
  have "place (str_less str s node) = place (\<lambda>x. str_key str s node < str_key str s x)"
    by (simp add: str_less_key [abs_def])
  moreover have k: "str_key str s' = str_key str s" using I(5) by (simp add: str_key_def fun_eq_iff)
  ultimately have srt: "sorted (map (str_key str s') (addrs t'))"
    using sorted_place [OF assms(3), of node] I(4) by simp
  have st: "set (addrs t') = insert node (set (addrs t))" using I(4) by simp
  obtain q where F: "focus s' q (root s') [] t'" using I(2) unfolding rb_rel_def by blast
  have L: "case hky_str_rbtree_lookup str s' val hash of
       None \<Rightarrow> False
     | Some None \<Rightarrow> \<forall>n \<in> set (addrs t'). \<not> (ky s n = ucast hash \<and> str n = val)
     | Some (Some n) \<Rightarrow> n \<in> set (addrs t') \<and> ky s n = ucast hash \<and> str n = val" for val hash
  proof -
    obtain p where p: "while_option (\<lambda>n. n \<noteq> sentinel s' \<and> str_lookup_dir str s' val hash n \<noteq> None)
        (\<lambda>n. the (str_lookup_dir str s' val hash n)) (root s') = Some p"
      "if p = sentinel s' then (ucast hash, length val, val) \<notin> str_key str s' ` set (addrs t')
       else p \<in> set (addrs t') \<and> str_key str s' p = (ucast hash, length val, val)"
      using lookup_loop [OF F srt, of "str_lookup_dir str s' val hash" "(ucast hash, length val, val)"]
        str_lookup_dir_key [of str s' val hash] unfolding Let_def by blast
    show ?thesis
    proof (cases "p = sentinel s'")
      case True
      then have "\<forall>n \<in> set (addrs t'). \<not> (ky s n = ucast hash \<and> str n = val)"
        using p(2) I(5) by (force simp: str_key_def)
      then show ?thesis using p(1) True by (simp add: hky_str_rbtree_lookup_def)
    next
      case False
      then show ?thesis using p I(5) by (auto simp: hky_str_rbtree_lookup_def str_key_def)
    qed
  qed
  show ?thesis using I srt st L [unfolded st] by blast
qed

theorem str_rbtree_insert_lookup_witness:
  "\<exists>s' t'. hky_rbtree_insert (hky_str_rbtree_insert_value (\<lambda>_. bytes_of ''a'')) 3 rb_example = Some s' \<and>
     rb_rel s' t' \<and> set (addrs t') = {2, 3}"
proof -
  have "(3::addr) \<notin> set (addrs (Node Leaf (2, False) Leaf))" "(3::addr) \<noteq> sentinel rb_example"
    "sorted (map (str_key (\<lambda>_. bytes_of ''a'') rb_example) (addrs (Node Leaf (2, False) Leaf)))"
    "rb_ok (Node Leaf (2, False) Leaf)"
    by (simp_all add: rb_example_def rb_ok_def)
  from str_rbtree_insert_lookup [OF rb_example_rel this(4,3,1,2)] show ?thesis
    by (auto simp: insert_commute)
qed

end
