(* ===== verification/Hky_Number.thy ===== *)
theory Hky_Number
  imports Husky_Base
begin

text \<open>
  The number parsers of src/core/hky_string.c (\<open>hky_atoi\<close>, \<open>hky_atosz\<close>, \<open>hky_atoof\<close>,
  \<open>hky_atotm\<close>, \<open>hky_atofp\<close>, \<open>hky_hextoi\<close>) and \<open>hky_hex_dump\<close>. The accumulators are
  64-bit signed, so every accumulation is written with \<open>wrap_s64\<close>; the lemmas show that the
  cutoff tests keep the wrap-around from ever happening and that each parser returns the
  value of the numeral, or \<open>HKY_ERROR\<close> exactly when the text is not a numeral of the 64-bit
  signed range.
\<close>

section \<open>Decimal integers\<close>

text \<open>
  The loop shared by the four decimal parsers. The \<open>value\<close> and \<open>n\<close> of the C loop are the
  last two arguments; \<open>line\<close> is the memory from the current \<open>line\<close> pointer on.
\<close>

fun dec_loop :: "int \<Rightarrow> int \<Rightarrow> byte list \<Rightarrow> nat \<Rightarrow> int \<Rightarrow> int option" where
  "dec_loop cutoff cutlim line 0 v = Some v"
| "dec_loop cutoff cutlim [] (Suc n) v = None"
| "dec_loop cutoff cutlim (c # line) (Suc n) v =
     (if c < 48 \<or> c > 57 then Some HKY_ERROR
      else if v \<ge> cutoff \<and> (v > cutoff \<or> uint c - 48 > cutlim) then Some HKY_ERROR
      else dec_loop cutoff cutlim line n (wrap_s64 (v * 10 + (uint c - 48))))"

definition hky_atoi :: "byte list \<Rightarrow> nat \<Rightarrow> int option" where
  "hky_atoi line n =
     (if n = 0 then Some HKY_ERROR
      else dec_loop (HKY_MAX_INT_T_VALUE div 10) (HKY_MAX_INT_T_VALUE mod 10) line n 0)"

definition hky_atosz :: "byte list \<Rightarrow> nat \<Rightarrow> int option" where
  "hky_atosz line n =
     (if n = 0 then Some HKY_ERROR
      else dec_loop (HKY_MAX_SIZE_T_VALUE div 10) (HKY_MAX_SIZE_T_VALUE mod 10) line n 0)"

definition hky_atoof :: "byte list \<Rightarrow> nat \<Rightarrow> int option" where
  "hky_atoof line n =
     (if n = 0 then Some HKY_ERROR
      else dec_loop (HKY_MAX_OFF_T_VALUE div 10) (HKY_MAX_OFF_T_VALUE mod 10) line n 0)"

definition hky_atotm :: "byte list \<Rightarrow> nat \<Rightarrow> int option" where
  "hky_atotm line n =
     (if n = 0 then Some HKY_ERROR
      else dec_loop (HKY_MAX_TIME_T_VALUE div 10) (HKY_MAX_TIME_T_VALUE mod 10) line n 0)"

section \<open>Fixed-point decimals\<close>

text \<open>
  \<open>atofp_loop\<close> is the reading loop: \<open>Inl HKY_ERROR\<close> for an error return, \<open>Inr\<close> the
  \<open>value\<close> and \<open>point\<close> it leaves. \<open>atofp_scale\<close> is the closing \<open>while(point--)\<close>.
\<close>

fun atofp_loop ::
  "int \<Rightarrow> int \<Rightarrow> byte list \<Rightarrow> nat \<Rightarrow> int \<Rightarrow> nat \<Rightarrow> nat \<Rightarrow> (int + int \<times> nat) option" where
  "atofp_loop cutoff cutlim line 0 v dot point = Some (Inr (v, point))"
| "atofp_loop cutoff cutlim line (Suc n) v dot point =
     (if point = 0 then Some (Inl HKY_ERROR)
      else case line of [] \<Rightarrow> None
      | c # line' \<Rightarrow>
        if c = 46 then
          (if dot \<noteq> 0 then Some (Inl HKY_ERROR) else atofp_loop cutoff cutlim line' n v 1 point)
        else if c < 48 \<or> c > 57 then Some (Inl HKY_ERROR)
        else if v \<ge> cutoff \<and> (v > cutoff \<or> uint c - 48 > cutlim) then Some (Inl HKY_ERROR)
        else atofp_loop cutoff cutlim line' n (wrap_s64 (v * 10 + (uint c - 48))) dot (point - dot))"

fun atofp_scale :: "int \<Rightarrow> int \<Rightarrow> nat \<Rightarrow> int" where
  "atofp_scale cutoff v 0 = v"
| "atofp_scale cutoff v (Suc point) =
     (if v > cutoff then HKY_ERROR else atofp_scale cutoff (wrap_s64 (v * 10)) point)"

definition hky_atofp :: "byte list \<Rightarrow> nat \<Rightarrow> nat \<Rightarrow> int option" where
  "hky_atofp line n point =
     (if n = 0 then Some HKY_ERROR
      else let cutoff = HKY_MAX_INT_T_VALUE div 10; cutlim = HKY_MAX_INT_T_VALUE mod 10 in
        case atofp_loop cutoff cutlim line n 0 0 point of
          None \<Rightarrow> None
        | Some (Inl e) \<Rightarrow> Some e
        | Some (Inr (v, point)) \<Rightarrow> Some (atofp_scale cutoff v point))"

section \<open>Hexadecimal\<close>

fun hextoi_loop :: "int \<Rightarrow> byte list \<Rightarrow> nat \<Rightarrow> int \<Rightarrow> int option" where
  "hextoi_loop cutoff line 0 v = Some v"
| "hextoi_loop cutoff line (Suc n) v =
     (if v > cutoff then Some HKY_ERROR
      else case line of [] \<Rightarrow> None
      | ch # line' \<Rightarrow>
        if ch \<ge> 48 \<and> ch \<le> 57 then hextoi_loop cutoff line' n (wrap_s64 (v * 16 + (uint ch - 48)))
        else let c = ch OR 0x20 in
          if c \<ge> 97 \<and> c \<le> 102
          then hextoi_loop cutoff line' n (wrap_s64 (v * 16 + (uint c - 97 + 10)))
          else Some HKY_ERROR)"

definition hky_hextoi :: "byte list \<Rightarrow> nat \<Rightarrow> int option" where
  "hky_hextoi line n =
     (if n = 0 then Some HKY_ERROR else hextoi_loop (HKY_MAX_INT_T_VALUE div 16) line n 0)"

definition hex_lower :: "byte list" where
  "hex_lower = bytes_of ''0123456789abcdef''"

definition hex_upper :: "byte list" where
  "hex_upper = bytes_of ''0123456789ABCDEF''"

fun hky_hex_dump :: "byte list \<Rightarrow> nat \<Rightarrow> byte list option" where
  "hky_hex_dump src 0 = Some []"
| "hky_hex_dump [] (Suc len) = None"
| "hky_hex_dump (c # src) (Suc len) =
     map_option (\<lambda>d. hex_lower ! unat (drop_bit 4 c) # hex_lower ! unat (c AND 0xf) # d)
       (hky_hex_dump src len)"

section \<open>What the decimal parsers return\<close>

definition digit_values :: "byte list \<Rightarrow> int list" where
  "digit_values s = map (\<lambda>c. uint c - 48) s"

lemma digit_values_simps [simp]:
  "digit_values [] = []"
  "digit_values (c # s) = (uint c - 48) # digit_values s"
  "digit_values (s @ t) = digit_values s @ digit_values t"
  "length (digit_values s) = length s"
  by (simp_all add: digit_values_def)

lemma is_digit_range: "is_digit c \<Longrightarrow> 48 \<le> uint c \<and> uint c \<le> 57"
  by (simp add: is_digit_def word_less_def not_less)

lemma digit_values_nonneg: "\<forall>c\<in>set s. is_digit c \<Longrightarrow> 0 \<le> base_value 10 (digit_values s)"
  by (intro base_value_nonneg) (auto simp: digit_values_def dest: is_digit_range)

text \<open>The reference: the value of the first \<open>n\<close> bytes as a decimal numeral bounded by \<open>m\<close>.\<close>

definition dec_spec :: "int \<Rightarrow> byte list \<Rightarrow> int" where
  "dec_spec m s =
     (if s \<noteq> [] \<and> (\<forall>c\<in>set s. is_digit c) \<and> base_value 10 (digit_values s) \<le> m
      then base_value 10 (digit_values s) else -1)"

lemma cutoff_test:
  fixes v d m :: int
  assumes "0 \<le> d" "d \<le> 9"
  shows "(v \<ge> m div 10 \<and> (v > m div 10 \<or> d > m mod 10)) \<longleftrightarrow> m < v * 10 + d"
proof -
  obtain q r where q: "q = m div 10" and r: "r = m mod 10" by simp
  have "m = 10 * q + r" "0 \<le> r" "r < 10" by (auto simp: q r)
  then show ?thesis unfolding q [symmetric] r [symmetric] using assms by auto
qed

lemma dec_loop_digit:
  assumes "is_digit c" and "0 \<le> v" and "m \<le> 9223372036854775807"
  shows "dec_loop (m div 10) (m mod 10) (c # l) (Suc n) v =
    (if v * 10 + (uint c - 48) \<le> m then dec_loop (m div 10) (m mod 10) l n (v * 10 + (uint c - 48))
     else Some (-1))"
proof -
  define d where "d = uint c - 48"
  have d: "0 \<le> d" "d \<le> 9" using is_digit_range [OF assms(1)] by (auto simp: d_def)
  have W: "wrap_s64 (v * 10 + d) = v * 10 + d" if "v * 10 + d \<le> m"
    using that assms d by (intro wrap_s64_id) linarith+
  have "\<not> (c < 48 \<or> c > 57)" using assms(1) by (simp add: is_digit_def)
  then have "dec_loop (m div 10) (m mod 10) (c # l) (Suc n) v =
    (if v \<ge> m div 10 \<and> (v > m div 10 \<or> d > m mod 10) then Some HKY_ERROR
     else dec_loop (m div 10) (m mod 10) l n (wrap_s64 (v * 10 + d)))"
    by (simp only: dec_loop.simps d_def if_False)
  then show ?thesis
    unfolding cutoff_test [OF d] d_def [symmetric] by (auto simp: W HKY_ERROR_def not_le)
qed

lemma base_10_mono:
  fixes u m :: int
  assumes "m < u" and "0 \<le> u" and "\<forall>c\<in>set s. is_digit c"
  shows "m < u * 10 ^ n + base_value 10 (digit_values s)"
proof -
  have "u * 1 \<le> u * 10 ^ n" by (rule mult_left_mono) (use assms in auto)
  then show ?thesis using assms digit_values_nonneg [OF assms(3)] by linarith
qed

lemma dec_loop_spec:
  assumes "n \<le> length line" and "0 \<le> v" and "v \<le> m" and "m \<le> 9223372036854775807"
  shows "dec_loop (m div 10) (m mod 10) line n v =
    Some (if (\<forall>c\<in>set (take n line). is_digit c)
             \<and> v * 10 ^ n + base_value 10 (digit_values (take n line)) \<le> m
          then v * 10 ^ n + base_value 10 (digit_values (take n line)) else -1)"
  using assms
proof (induction n arbitrary: line v)
  case (Suc n)
  then obtain c l where line: "line = c # l" and len: "n \<le> length l" by (cases line) auto
  show ?case
  proof (cases "is_digit c")
    case True
    define u where "u = v * 10 + (uint c - 48)"
    have u: "0 \<le> u" using is_digit_range [OF True] Suc.prems by (auto simp: u_def)
    have eq: "v * 10 ^ Suc n + base_value 10 (digit_values (take (Suc n) line)) =
        u * 10 ^ n + base_value 10 (digit_values (take n l))"
      using len by (simp add: line u_def algebra_simps min_def)
    have ds: "(\<forall>x\<in>set (take (Suc n) line). is_digit x) \<longleftrightarrow> (\<forall>x\<in>set (take n l). is_digit x)"
      using True by (simp add: line)
    show ?thesis
      unfolding eq ds unfolding line dec_loop_digit [OF True Suc.prems(2,4)] u_def [symmetric]
      using Suc.IH [OF len u _ Suc.prems(4)] base_10_mono [OF _ u, of m "take n l" n] by auto
  next
    case False
    then show ?thesis by (auto simp: line is_digit_def HKY_ERROR_def)
  qed
qed simp

lemma dec_parser_spec:
  assumes "n \<le> length line" and "0 \<le> m" and "m \<le> 9223372036854775807"
  shows "(if n = 0 then Some HKY_ERROR else dec_loop (m div 10) (m mod 10) line n 0) =
    Some (dec_spec m (take n line))"
proof (cases n)
  case (Suc k)
  moreover from this have "take n line \<noteq> []" using assms(1) by auto
  ultimately show ?thesis
    using dec_loop_spec [of n line 0 m] assms by (auto simp: dec_spec_def)
qed (simp add: dec_spec_def HKY_ERROR_def)

text \<open>
  C8: The four decimal parsers are total on a buffer of at least \<open>n\<close> bytes, never read
  outside it, and return the mathematical value of the first \<open>n\<close> bytes as a decimal numeral
  when these are all digits, there is at least one, and the value fits the type; in every
  other case, overflow included, they return \<open>HKY_ERROR\<close>.
\<close>

theorem decimal_parsers_correct:
  assumes "n \<le> length line"
  shows "hky_atoi line n = Some (dec_spec HKY_MAX_INT_T_VALUE (take n line)) \<and>
    hky_atosz line n = Some (dec_spec HKY_MAX_SIZE_T_VALUE (take n line)) \<and>
    hky_atoof line n = Some (dec_spec HKY_MAX_OFF_T_VALUE (take n line)) \<and>
    hky_atotm line n = Some (dec_spec HKY_MAX_TIME_T_VALUE (take n line))"
  unfolding hky_atoi_def hky_atosz_def hky_atoof_def hky_atotm_def
  by (intro conjI dec_parser_spec [OF assms]) (simp_all add: hky_consts)

theorem decimal_parsers_correct_witness:
  "hky_atoi (bytes_of ''80;'') 2 = Some 80 \<and> hky_atosz (bytes_of ''8k'') 2 = Some (-1)
   \<and> hky_atoof (bytes_of ''9223372036854775808'') 19 = Some (-1)"
  using decimal_parsers_correct [of 2 "bytes_of ''80;''"]
    decimal_parsers_correct [of 2 "bytes_of ''8k''"]
    decimal_parsers_correct [of 19 "bytes_of ''9223372036854775808''"]
  by (simp add: dec_spec_def is_digit_def hky_consts)

section \<open>What the fixed-point parser returns\<close>

text \<open>
  The reference: with \<open>a\<close> the text before the first dot and \<open>b\<close> the text after it, the value
  of \<open>a.b\<close> scaled by \<open>10 ^ point\<close>.
\<close>

definition fp_spec :: "int \<Rightarrow> nat \<Rightarrow> byte list \<Rightarrow> int" where
  "fp_spec m point s =
     (let a = takeWhile (\<lambda>c. c \<noteq> 46) s; b = drop (Suc (length a)) s;
          w = base_value 10 (digit_values (a @ b)) * 10 ^ (point - length b) in
      if s \<noteq> [] \<and> 0 < point \<and> (\<forall>c\<in>set (a @ b). is_digit c) \<and> length b \<le> point \<and> w \<le> m
      then w else -1)"

lemma atofp_digit:
  assumes "is_digit c" and "0 \<le> v" and "m \<le> 9223372036854775807" and "0 < point"
  shows "atofp_loop (m div 10) (m mod 10) (c # l) (Suc n) v dot point =
    (if v * 10 + (uint c - 48) \<le> m
     then atofp_loop (m div 10) (m mod 10) l n (v * 10 + (uint c - 48)) dot (point - dot)
     else Some (Inl (-1)))"
proof -
  define d where "d = uint c - 48"
  have d: "0 \<le> d" "d \<le> 9" using is_digit_range [OF assms(1)] by (auto simp: d_def)
  have W: "wrap_s64 (v * 10 + d) = v * 10 + d" if "v * 10 + d \<le> m"
    using that assms d by (intro wrap_s64_id) linarith+
  have "(c < 48 \<or> c > 57) = False" "(c = 46) = False" "(point = 0) = False"
    using assms(1,4) by (auto simp: is_digit_def)
  then have "atofp_loop (m div 10) (m mod 10) (c # l) (Suc n) v dot point =
    (if v \<ge> m div 10 \<and> (v > m div 10 \<or> d > m mod 10) then Some (Inl HKY_ERROR)
     else atofp_loop (m div 10) (m mod 10) l n (wrap_s64 (v * 10 + d)) dot (point - dot))"
    by (simp only: atofp_loop.simps d_def if_False list.case)
  then show ?thesis
    unfolding cutoff_test [OF d] d_def [symmetric] by (auto simp: W HKY_ERROR_def not_le)
qed

lemma atofp_loop_fraction:
  assumes "n \<le> length line" "0 \<le> v" "v \<le> m" "m \<le> 9223372036854775807"
  shows "atofp_loop (m div 10) (m mod 10) line n v 1 point =
    Some (if (\<forall>c\<in>set (take n line). is_digit c) \<and> n \<le> point
             \<and> v * 10 ^ n + base_value 10 (digit_values (take n line)) \<le> m
          then Inr (v * 10 ^ n + base_value 10 (digit_values (take n line)), point - n)
          else Inl (-1))"
  using assms
proof (induction n arbitrary: line v point)
  case (Suc n)
  then obtain c l where line: "line = c # l" and len: "n \<le> length l" by (cases line) auto
  show ?case
  proof (cases "is_digit c \<and> 0 < point")
    case True
    then have c: "is_digit c" and p: "0 < point" by auto
    define u where "u = v * 10 + (uint c - 48)"
    have u: "0 \<le> u" using is_digit_range [OF c] Suc.prems by (auto simp: u_def)
    have eq: "v * 10 ^ Suc n + base_value 10 (digit_values (take (Suc n) line)) =
        u * 10 ^ n + base_value 10 (digit_values (take n l))"
      using len by (simp add: line u_def algebra_simps min_def)
    have ds: "(\<forall>x\<in>set (take (Suc n) line). is_digit x) \<longleftrightarrow> (\<forall>x\<in>set (take n l). is_digit x)"
      using c by (simp add: line)
    have pt: "Suc n \<le> point \<longleftrightarrow> n \<le> point - 1" "point - Suc n = point - 1 - n" using p by auto
    show ?thesis
      unfolding eq ds pt unfolding line atofp_digit [OF c Suc.prems(2,4) p] u_def [symmetric]
      using Suc.IH [OF len u _ Suc.prems(4), of "point - 1"] base_10_mono [OF _ u, of m "take n l" n]
      by (cases "u \<le> m") (auto simp: not_le)
  next
    case False
    then show ?thesis by (auto simp: line is_digit_def HKY_ERROR_def)
  qed
qed simp

lemma atofp_loop_integer:
  assumes "n \<le> length line" "0 \<le> v" "v \<le> m" "m \<le> 9223372036854775807" "0 < point"
  shows "atofp_loop (m div 10) (m mod 10) line n v 0 point =
    (let s = take n line; a = takeWhile (\<lambda>c. c \<noteq> 46) s; b = drop (Suc (length a)) s;
         w = v * 10 ^ length (a @ b) + base_value 10 (digit_values (a @ b)) in
     Some (if (\<forall>c\<in>set (a @ b). is_digit c) \<and> length b \<le> point \<and> w \<le> m
           then Inr (w, point - length b) else Inl (-1)))"
  using assms
proof (induction n arbitrary: line v)
  case (Suc n)
  then obtain c l where line: "line = c # l" and len: "n \<le> length l" by (cases line) auto
  consider (dot) "c = 46" | (digit) "is_digit c" "c \<noteq> 46" | (bad) "\<not> is_digit c" "c \<noteq> 46"
    by (auto simp: is_digit_def)
  then show ?case
  proof cases
    case dot
    then show ?thesis
      using atofp_loop_fraction [OF len Suc.prems(2-4), of point] Suc.prems(5) len
      by (simp add: line Let_def min_def)
  next
    case digit
    define u where "u = v * 10 + (uint c - 48)"
    have u: "0 \<le> u" using is_digit_range [OF digit(1)] Suc.prems by (auto simp: u_def)
    define a where "a = takeWhile (\<lambda>c. c \<noteq> 46) (take n l)"
    define b where "b = drop (Suc (length a)) (take n l)"
    have eq: "v * 10 ^ length ((c # a) @ b) + base_value 10 (digit_values ((c # a) @ b)) =
        u * 10 ^ length (a @ b) + base_value 10 (digit_values (a @ b))"
      by (simp add: u_def algebra_simps)
    have step: "atofp_loop (m div 10) (m mod 10) line (Suc n) v 0 point =
      (if u \<le> m then atofp_loop (m div 10) (m mod 10) l n u 0 point else Some (Inl (-1)))"
      unfolding line u_def using atofp_digit [OF digit(1) Suc.prems(2,4,5), of l n 0] by simp
    have tw: "takeWhile (\<lambda>c. c \<noteq> 46) (take (Suc n) line) = c # a"
      "drop (Suc (length (c # a))) (take (Suc n) line) = b"
      using digit(2) by (simp_all add: line a_def b_def)
    have IH: "u \<le> m \<Longrightarrow> atofp_loop (m div 10) (m mod 10) l n u 0 point =
      Some (if (\<forall>c\<in>set (a @ b). is_digit c) \<and> length b \<le> point \<and>
                u * 10 ^ length (a @ b) + base_value 10 (digit_values (a @ b)) \<le> m
            then Inr (u * 10 ^ length (a @ b) + base_value 10 (digit_values (a @ b)), point - length b)
            else Inl (-1))"
      using Suc.IH [OF len u _ Suc.prems(4,5)] by (simp add: a_def b_def Let_def)
    have ds: "(\<forall>x\<in>set ((c # a) @ b). is_digit x) \<longleftrightarrow> (\<forall>x\<in>set (a @ b). is_digit x)"
      using digit by simp
    show ?thesis
      unfolding Let_def tw eq ds step
      using IH base_10_mono [OF _ u, of m "a @ b" "length (a @ b)"]
      by (cases "u \<le> m") (auto simp: not_le)
  next
    case bad
    then show ?thesis
      using Suc.prems by (auto simp: line is_digit_def HKY_ERROR_def Let_def)
  qed
qed simp

lemma atofp_scale_spec:
  assumes "0 \<le> v" "v \<le> m" "m \<le> 9223372036854775807"
  shows "atofp_scale (m div 10) v k = (if v * 10 ^ k \<le> m then v * 10 ^ k else -1)"
  using assms
proof (induction k arbitrary: v)
  case (Suc k)
  have c: "v > m div 10 \<longleftrightarrow> m < v * 10" by presburger
  show ?case
  proof (cases "m < v * 10")
    case True
    moreover have "v * 10 * 1 \<le> v * 10 * 10 ^ k" using Suc.prems by (intro mult_left_mono) auto
    ultimately show ?thesis using c by (simp add: HKY_ERROR_def mult.assoc)
  next
    case False
    moreover from this have "wrap_s64 (v * 10) = v * 10"
      using Suc.prems by (intro wrap_s64_id) linarith+
    ultimately show ?thesis using c Suc.IH [of "v * 10"] Suc.prems by (simp add: mult.assoc)
  qed
qed simp

text \<open>
  \<open>hky_atofp\<close> returns the value of a fixed-point decimal scaled by \<open>10 ^ point\<close>
  (\<open>hky_atofp("10.5", 4, 2)\<close> is 1050), and \<open>HKY_ERROR\<close> exactly when the text is empty,
  contains anything but digits and one dot, has more than \<open>point\<close> digits after the dot, or
  the scaled value does not fit 63 bits. A \<open>point\<close> of 0 makes every text an error.
\<close>

theorem hky_atofp_correct:
  assumes "n \<le> length line"
  shows "hky_atofp line n point = Some (fp_spec HKY_MAX_INT_T_VALUE point (take n line))"
proof (cases "n = 0 \<or> point = 0")
  case True
  then show ?thesis using assms by (cases n) (auto simp: hky_atofp_def fp_spec_def HKY_ERROR_def Let_def)
next
  case False
  define s where "s = take n line"
  define a where "a = takeWhile (\<lambda>c. c \<noteq> 46) s"
  define b where "b = drop (Suc (length a)) s"
  let ?m = HKY_MAX_INT_T_VALUE and ?w = "base_value 10 (digit_values (a @ b))"
  have m: "0 \<le> ?m" "?m \<le> 9223372036854775807" by (simp_all add: hky_consts)
  have "s \<noteq> []" using False assms by (auto simp: s_def)
  have fp: "fp_spec ?m point s = (if (\<forall>c\<in>set (a @ b). is_digit c) \<and> length b \<le> point \<and>
      ?w * 10 ^ (point - length b) \<le> ?m then ?w * 10 ^ (point - length b) else -1)"
    using False \<open>s \<noteq> []\<close> by (simp add: fp_spec_def a_def b_def Let_def)
  have "?w \<le> ?w * 10 ^ k" if "\<forall>c\<in>set (a @ b). is_digit c" for k
    using mult_left_mono [OF _ digit_values_nonneg [OF that], of 1 "10 ^ k"] by simp
  then have big: "\<not> ?w * 10 ^ k \<le> ?m" if "\<forall>c\<in>set (a @ b). is_digit c" "\<not> ?w \<le> ?m" for k
    using that by (meson order_trans)
  have "atofp_loop (?m div 10) (?m mod 10) line n 0 0 point =
    Some (if (\<forall>c\<in>set (a @ b). is_digit c) \<and> length b \<le> point \<and> ?w \<le> ?m
          then Inr (?w, point - length b) else Inl (-1))"
    using atofp_loop_integer [OF assms _ m, of point] False
    by (simp add: s_def a_def b_def Let_def)
  then show ?thesis
    unfolding s_def [symmetric] fp
    using False atofp_scale_spec [OF digit_values_nonneg [of "a @ b"] _ m(2)] big
    by (auto simp: hky_atofp_def Let_def)
qed

theorem hky_atofp_correct_witness:
  "hky_atofp (bytes_of ''10.5'') 4 2 = Some 1050 \<and> hky_atofp (bytes_of ''10.555'') 6 2 = Some (-1)"
  using hky_atofp_correct [of 4 "bytes_of ''10.5''" 2] hky_atofp_correct [of 6 "bytes_of ''10.555''" 2]
  by (simp add: fp_spec_def is_digit_def hky_consts)

section \<open>What the hexadecimal parser returns\<close>

definition hex_digit :: "byte \<Rightarrow> int option" where
  "hex_digit c =
     (if 48 \<le> c \<and> c \<le> 57 then Some (uint c - 48)
      else if 65 \<le> c \<and> c \<le> 70 then Some (uint c - 55)
      else if 97 \<le> c \<and> c \<le> 102 then Some (uint c - 87) else None)"

definition hex_value :: "byte list \<Rightarrow> int" where
  "hex_value s = base_value 16 (map (\<lambda>c. the (hex_digit c)) s)"

definition hex_spec :: "int \<Rightarrow> byte list \<Rightarrow> int" where
  "hex_spec m s =
     (if s \<noteq> [] \<and> (\<forall>c\<in>set s. hex_digit c \<noteq> None) \<and> hex_value s \<le> m then hex_value s else -1)"

lemma hex_digit_fold [hky_bytes]:
  "hex_digit c =
     (if c \<ge> 48 \<and> c \<le> 57 then Some (uint c - 48)
      else let d = c OR 0x20 in if d \<ge> 97 \<and> d \<le> 102 then Some (uint d - 97 + 10) else None)"
proof -
  have b: "0 \<le> uint c" "uint c < 256" using uint_bounded [of c] by simp_all
  have r: "65 \<le> uint c \<Longrightarrow> uint c \<le> 70 \<Longrightarrow> uint c div 32 = 2"
     "97 \<le> uint c \<Longrightarrow> uint c \<le> 102 \<Longrightarrow> uint c div 32 = 3" by presburger+
  show ?thesis using b r unfolding hex_digit_def Let_def by (auto simp: word_le_def uint_or_32)
qed

lemma hex_digit_range: "hex_digit c = Some d \<Longrightarrow> 0 \<le> d \<and> d < 16"
  by (auto simp: hex_digit_def word_le_def split: if_splits)

lemma hex_value_simps [simp]:
  "hex_value [] = 0"
  "hex_value (c # s) = the (hex_digit c) * 16 ^ length s + hex_value s"
  by (simp_all add: hex_value_def)

lemma hex_value_nonneg: "\<forall>c\<in>set s. hex_digit c \<noteq> None \<Longrightarrow> 0 \<le> hex_value s"
proof -
  assume "\<forall>c\<in>set s. hex_digit c \<noteq> None"
  then have "\<forall>d\<in>set (map (\<lambda>c. the (hex_digit c)) s). 0 \<le> d"
    using hex_digit_range by fastforce
  then show ?thesis unfolding hex_value_def by (intro base_value_nonneg) auto
qed

lemma hextoi_digit:
  assumes "hex_digit c = Some d" and "0 \<le> v"
  shows "hextoi_loop (HKY_MAX_INT_T_VALUE div 16) (c # l) (Suc n) v =
    (if v * 16 + d \<le> HKY_MAX_INT_T_VALUE
     then hextoi_loop (HKY_MAX_INT_T_VALUE div 16) l n (v * 16 + d) else Some (-1))"
proof -
  have d: "0 \<le> d" "d < 16" using hex_digit_range [OF assms(1)] by auto
  have "v > HKY_MAX_INT_T_VALUE div 16 \<longleftrightarrow> \<not> v * 16 + d \<le> HKY_MAX_INT_T_VALUE"
    using d by (auto simp: hky_consts)
  moreover have "wrap_s64 (v * 16 + d) = v * 16 + d" if "v * 16 + d \<le> HKY_MAX_INT_T_VALUE"
    using that d assms(2) by (intro wrap_s64_id) (auto simp: hky_consts)
  ultimately show ?thesis
    using assms(1) by (auto simp: hex_digit_fold Let_def HKY_ERROR_def split: if_splits)
qed

lemma hextoi_loop_spec:
  assumes "n \<le> length line" and "0 \<le> v" and "v \<le> HKY_MAX_INT_T_VALUE"
  shows "hextoi_loop (HKY_MAX_INT_T_VALUE div 16) line n v =
    Some (if (\<forall>c\<in>set (take n line). hex_digit c \<noteq> None)
             \<and> v * 16 ^ n + hex_value (take n line) \<le> HKY_MAX_INT_T_VALUE
          then v * 16 ^ n + hex_value (take n line) else -1)"
  using assms
proof (induction n arbitrary: line v)
  case (Suc n)
  then obtain c l where line: "line = c # l" and len: "n \<le> length l" by (cases line) auto
  show ?case
  proof (cases "hex_digit c")
    case None
    then show ?thesis
      by (auto simp: line HKY_ERROR_def hex_digit_fold Let_def split: if_splits)
  next
    case (Some d)
    define u where "u = v * 16 + d"
    have u: "0 \<le> u" using hex_digit_range [OF Some] Suc.prems by (simp add: u_def)
    have eq: "v * 16 ^ Suc n + hex_value (take (Suc n) line) = u * 16 ^ n + hex_value (take n l)"
      using len Some by (simp add: line u_def algebra_simps min_def)
    have ds: "(\<forall>x\<in>set (take (Suc n) line). hex_digit x \<noteq> None) \<longleftrightarrow> (\<forall>x\<in>set (take n l). hex_digit x \<noteq> None)"
      using Some by (simp add: line)
    have big: "HKY_MAX_INT_T_VALUE < u * 16 ^ n + hex_value (take n l)"
      if "HKY_MAX_INT_T_VALUE < u" "\<forall>x\<in>set (take n l). hex_digit x \<noteq> None"
      using mult_left_mono [of 1 "16 ^ n" u] u that(1) hex_value_nonneg [OF that(2)] by simp
    show ?thesis
      unfolding eq ds unfolding line hextoi_digit [OF Some Suc.prems(2)] u_def [symmetric]
      using Suc.IH [OF len u] big by (cases "u \<le> HKY_MAX_INT_T_VALUE") (auto simp: not_le)
  qed
qed simp

lemma hky_hextoi_spec:
  assumes "n \<le> length line"
  shows "hky_hextoi line n = Some (hex_spec HKY_MAX_INT_T_VALUE (take n line))"
proof (cases n)
  case (Suc k)
  moreover from this have "take n line \<noteq> []" using assms by auto
  ultimately show ?thesis
    using hextoi_loop_spec [OF assms, of 0]
    by (simp add: hky_hextoi_def hex_spec_def HKY_MAX_INT_T_VALUE_def del: hextoi_loop.simps not_None_eq)
qed (simp add: hky_hextoi_def hex_spec_def HKY_ERROR_def)

section \<open>Dumping bytes in hexadecimal and reading them back\<close>

lemma hex_dump_byte:
  "hex_digit (hex_lower ! unat (drop_bit 4 c)) = Some (uint c div 16) \<and>
   hex_digit (hex_lower ! unat ((c::byte) AND 0xf)) = Some (uint c mod 16)"
proof -
  have "\<forall>k\<in>set [0..<16]. hex_digit (hex_lower ! k) = Some (int k)"
    by (simp add: upt_conv_Cons hex_lower_def hex_digit_def)
  then have H: "k < 16 \<Longrightarrow> hex_digit (hex_lower ! k) = Some (int k)" for k by simp
  have "unat (drop_bit 4 c) = unat c div 16"
    by (simp add: unat_drop_bit_eq) (simp add: drop_bit_eq_div)
  moreover have "c AND 0xf = take_bit 4 c" by (simp add: take_bit_eq_mask mask_eq_exp_minus_1)
  then have "unat (c AND 0xf) = take_bit 4 (unat c)" by (simp only: unsigned_take_bit_eq)
  then have "unat (c AND 0xf) = unat c mod 16" by (simp add: take_bit_eq_mod)
  moreover have "unat c div 16 < 16" using unat_byte_lt [of c] by (simp add: less_mult_imp_div_less)
  moreover have "int (unat c div 16) = uint c div 16" "int (unat c mod 16) = uint c mod 16"
    by (simp_all only: uint_nat zdiv_int zmod_int of_nat_numeral)
  ultimately show ?thesis
    using H [of "unat c div 16"] H [of "unat c mod 16"] by (simp del: of_nat_numeral)
qed

lemma hex_dump_value:
  "n \<le> length src \<Longrightarrow>
   \<exists>d. hky_hex_dump src n = Some d \<and> length d = 2 * n \<and> (\<forall>c\<in>set d. hex_digit c \<noteq> None) \<and>
       hex_value d = base_value 256 (map uint (take n src))"
proof (induction n arbitrary: src)
  case (Suc n)
  then obtain c l where src: "src = c # l" by (cases src) auto
  with Suc obtain d where d: "hky_hex_dump l n = Some d" "length d = 2 * n"
    "\<forall>c\<in>set d. hex_digit c \<noteq> None" "hex_value d = base_value 256 (map uint (take n l))" "n \<le> length l"
    by fastforce
  have p: "(16::int) ^ (2 * n) = 256 ^ n" by (simp add: power_mult)
  have "uint c div 16 * 16 + uint c mod 16 = uint c" by simp
  then have "uint c div 16 * (16 * 256 ^ n) + uint c mod 16 * 256 ^ n = uint c * 256 ^ n"
    by (metis distrib_right mult.assoc)
  then show ?case
    using d hex_dump_byte [of c] by (simp add: src p min_def)
qed simp

text \<open>
  \<open>hky_hextoi\<close> inverts \<open>hky_hex_dump\<close>: dumping \<open>n\<close> bytes gives \<open>2 n\<close> hexadecimal
  characters whose parse is the big-endian value of the bytes, or \<open>HKY_ERROR\<close> when that
  value needs the 64th bit.
\<close>

theorem hextoi_hex_dump:
  assumes "0 < n" and "n \<le> length src"
  shows "\<exists>d. hky_hex_dump src n = Some d \<and> length d = 2 * n \<and>
    hky_hextoi d (2 * n) =
      Some (let v = base_value 256 (map uint (take n src)) in
            if v \<le> HKY_MAX_INT_T_VALUE then v else HKY_ERROR)"
proof -
  obtain d where d: "hky_hex_dump src n = Some d" "length d = 2 * n"
    "\<forall>c\<in>set d. hex_digit c \<noteq> None" "hex_value d = base_value 256 (map uint (take n src))"
    using hex_dump_value [OF assms(2)] by blast
  moreover from d(2) assms(1) have "d \<noteq> []" by auto
  ultimately show ?thesis
    using hky_hextoi_spec [of "2 * n" d] by (auto simp: hex_spec_def Let_def HKY_ERROR_def)
qed

theorem hextoi_hex_dump_witness:
  "\<exists>d. hky_hex_dump [0x1f, 0xa0] 2 = Some d \<and> hky_hextoi d 4 = Some 0x1fa0"
  using hextoi_hex_dump [of 2 "[0x1f, 0xa0]"] by (auto simp: hky_consts Let_def)

end
