(* ===== verification/Hky_Printf.thy ===== *)
theory Hky_Printf
  imports Husky_Base Hky_Number
begin

text \<open>
  The formatter of src/core/hky_string.c: \<open>hky_vslprintf\<close>, its number writer
  \<open>hky_sprintf_num\<close>, and the entry points \<open>hky_sprintf\<close>, \<open>hky_snprintf\<close>, \<open>hky_slprintf\<close>.

  The format is the memory from \<open>fmt\<close> on, its terminating zero byte included; the result is
  the list of bytes stored from \<open>buf\<close> on, so the returned pointer is \<open>buf\<close> plus its length.
  \<open>room\<close> is \<open>last - buf\<close>, the bytes left. The variable arguments are a list of values of the
  kinds the directives fetch; an argument of the wrong kind, a missing argument and a read
  beyond the end of the format or of an argument's memory are \<open>None\<close>. An argument of an
  integer type is the 64-bit register it is passed in, of which \<open>int\<close> and the other 32-bit
  types take the low half.

  A \<open>double\<close> is given by what the code computes from it with the arithmetic of the platform:
  whether it is negative, the integer part of its absolute value, and for a scale the rounded
  product \<open>(uint64_t) ((f - (double) ui64) * scale + 0.5)\<close>. Directive \<open>%N\<close> is the UNIX one.
\<close>

section \<open>Numbers\<close>

lemma word_div_decr: "2 \<le> unat k \<Longrightarrow> w div k \<noteq> 0 \<Longrightarrow> unat (w div k) < unat (w :: 'a::len word)"
  by (cases "w = 0") (simp_all add: unat_div div_less_dividend unat_gt_0)

function dec_digits32 :: "u32 \<Rightarrow> byte list \<Rightarrow> byte list" where
  "dec_digits32 ui32 p =
     (let p = (ucast (ui32 mod 10) + 48) # p; ui32 = ui32 div 10
      in if ui32 \<noteq> 0 then dec_digits32 ui32 p else p)"
  by pat_completeness auto
termination
  by (relation "measure (unat \<circ> fst)") (simp_all add: word_div_decr)

function dec_digits64 :: "u64 \<Rightarrow> byte list \<Rightarrow> byte list" where
  "dec_digits64 ui64 p =
     (let p = (ucast (ui64 mod 10) + 48) # p; ui64 = ui64 div 10
      in if ui64 \<noteq> 0 then dec_digits64 ui64 p else p)"
  by pat_completeness auto
termination
  by (relation "measure (unat \<circ> fst)") (simp_all add: word_div_decr)

function hex_digits :: "byte list \<Rightarrow> u64 \<Rightarrow> byte list \<Rightarrow> byte list" where
  "hex_digits hex ui64 p =
     (let p = hex ! unat (ui64 AND 0xf) # p; ui64 = drop_bit 4 ui64
      in if ui64 \<noteq> 0 then hex_digits hex ui64 p else p)"
  by pat_completeness auto
termination
  by (relation "measure (unat \<circ> fst \<circ> snd)") (simp_all add: drop_bit_eq_div word_div_decr)

declare dec_digits32.simps [simp del] dec_digits64.simps [simp del] hex_digits.simps [simp del]

definition HKY_MAX_UINT32_VALUE :: u64 where [hky_consts]: "HKY_MAX_UINT32_VALUE = 0xffffffff"
definition HKY_INT64_LEN :: nat where [hky_consts]: "HKY_INT64_LEN = 20"
definition HKY_INT_T_LEN :: u64 where [hky_consts]: "HKY_INT_T_LEN = 20"
definition HKY_ATOMIC_T_LEN :: u64 where [hky_consts]: "HKY_ATOMIC_T_LEN = 20"

text \<open>The bytes of the array \<open>temp\<close> from \<open>p\<close> on, and the padded and bounded copy of them.\<close>

definition num_digits :: "u64 \<Rightarrow> u64 \<Rightarrow> byte list" where
  "num_digits ui64 hexadecimal =
     (if hexadecimal = 0
      then if ui64 \<le> HKY_MAX_UINT32_VALUE then dec_digits32 (ucast ui64) [] else dec_digits64 ui64 []
      else if hexadecimal = 1 then hex_digits hex_lower ui64 []
      else hex_digits hex_upper ui64 [])"

definition hky_sprintf_num :: "nat \<Rightarrow> u64 \<Rightarrow> byte \<Rightarrow> u64 \<Rightarrow> u64 \<Rightarrow> byte list" where
  "hky_sprintf_num room ui64 zero hexadecimal width =
     (let p = num_digits ui64 hexadecimal;
          pad = replicate (min (unat width - length p) room) zero;
          len = min (length p) (room - length pad)
      in pad @ take len p)"

section \<open>Directives\<close>

record c_double =
  dbl_negative :: bool
  dbl_integer :: u64
  dbl_fraction :: "u64 \<Rightarrow> u64"

datatype va_arg =
    VInt u64                \<comment> \<open>an integer or a pointer printed as a number\<close>
  | VMem "byte list"        \<comment> \<open>\<open>hky_uchar *\<close>: the memory from the pointer on\<close>
  | VStr "byte list"        \<comment> \<open>\<open>hky_str_t *\<close>: the \<open>len\<close> bytes at \<open>data\<close>\<close>
  | VVar "byte list"        \<comment> \<open>\<open>hky_variable_value_t *\<close>: likewise\<close>
  | VDouble c_double

record fmt_spec =
  f_zero :: byte
  f_width :: u64
  f_sign :: bool
  f_hex :: u64
  f_max_width :: bool
  f_frac_width :: u64
  f_slen :: u64

fun fmt_number :: "u64 \<Rightarrow> byte list \<Rightarrow> (u64 \<times> byte list) option" where
  "fmt_number w [] = None"
| "fmt_number w (c # fmt) =
     (if c \<ge> 48 \<and> c \<le> 57 then fmt_number (w * 10 + (ucast c - 48)) fmt else Some (w, c # fmt))"

text \<open>The flags between the percent sign and the conversion character.\<close>

fun fmt_flags :: "fmt_spec \<Rightarrow> byte list \<Rightarrow> va_arg list \<Rightarrow> (fmt_spec \<times> byte list \<times> va_arg list) option" where
  "fmt_flags sp [] args = None"
| "fmt_flags sp (c # fmt) args =
     (if c = 117 \<comment> \<open>u\<close> then fmt_flags (sp\<lparr>f_sign := False\<rparr>) fmt args
      else if c = 109 \<comment> \<open>m\<close> then fmt_flags (sp\<lparr>f_max_width := True\<rparr>) fmt args
      else if c = 88 \<comment> \<open>X\<close> then fmt_flags (sp\<lparr>f_hex := 2, f_sign := False\<rparr>) fmt args
      else if c = 120 \<comment> \<open>x\<close> then fmt_flags (sp\<lparr>f_hex := 1, f_sign := False\<rparr>) fmt args
      else if c = 46 \<comment> \<open>.\<close> then
        (case fmt_number (f_frac_width sp) fmt of None \<Rightarrow> None
         | Some (w, fmt) \<Rightarrow> Some (sp\<lparr>f_frac_width := w\<rparr>, fmt, args))
      else if c = 42 \<comment> \<open>*\<close> then
        (case args of VInt n # args \<Rightarrow> fmt_flags (sp\<lparr>f_slen := n\<rparr>) fmt args | _ \<Rightarrow> None)
      else Some (sp, c # fmt, args))"

definition fmt_start :: "byte list \<Rightarrow> va_arg list \<Rightarrow> (fmt_spec \<times> byte list \<times> va_arg list) option" where
  "fmt_start fmt args =
     (case fmt of [] \<Rightarrow> None
      | c # _ \<Rightarrow> case fmt_number 0 fmt of None \<Rightarrow> None
      | Some (w, fmt) \<Rightarrow>
          fmt_flags \<lparr>f_zero = (if c = 48 then 48 else 32), f_width = w, f_sign = True, f_hex = 0,
            f_max_width = False, f_frac_width = 0, f_slen = -1\<rparr> fmt args)"

text \<open>\<open>va_arg (args, int)\<close> and \<open>va_arg (args, u_int)\<close> converted to 64 bits.\<close>

definition low_int :: "u64 \<Rightarrow> u64" where "low_int v = scast (ucast v :: u32)"
definition low_uint :: "u64 \<Rightarrow> u64" where "low_uint v = ucast (ucast v :: u32)"

datatype int_conv = Not_int | Bad_arg | Int_conv fmt_spec u64 u64 "va_arg list"

text \<open>
  The cases of the \<open>switch\<close> that leave it with a number in \<open>i64\<close> (signed) or \<open>ui64\<close>.
\<close>

definition fmt_int :: "fmt_spec \<Rightarrow> byte \<Rightarrow> va_arg list \<Rightarrow> int_conv" where
  "fmt_int sp c args =
     (if c \<notin> set (bytes_of ''OPTMzidlDLArp'') then Not_int
      else case args of VInt v # args \<Rightarrow>
        if c = 79 \<comment> \<open>O\<close> then Int_conv (sp\<lparr>f_sign := True\<rparr>) v 0 args
        else if c = 80 \<comment> \<open>P\<close> then Int_conv (sp\<lparr>f_sign := True\<rparr>) (low_int v) 0 args
        else if c = 84 \<comment> \<open>T\<close> then Int_conv (sp\<lparr>f_sign := True\<rparr>) v 0 args
        else if c = 77 \<comment> \<open>M\<close> then
          if sint v = -1 then Int_conv (sp\<lparr>f_sign := True\<rparr>) (-1) 0 args
          else Int_conv (sp\<lparr>f_sign := False\<rparr>) 0 v args
        else if c = 122 \<comment> \<open>z\<close> then
          if f_sign sp then Int_conv sp v 0 args else Int_conv sp 0 v args
        else if c = 105 \<comment> \<open>i\<close> then
          let sp = (if f_max_width sp then sp\<lparr>f_width := HKY_INT_T_LEN\<rparr> else sp) in
          if f_sign sp then Int_conv sp v 0 args else Int_conv sp 0 v args
        else if c = 100 \<comment> \<open>d\<close> then
          if f_sign sp then Int_conv sp (low_int v) 0 args else Int_conv sp 0 (low_uint v) args
        else if c = 108 \<comment> \<open>l\<close> then
          if f_sign sp then Int_conv sp v 0 args else Int_conv sp 0 v args
        else if c = 68 \<comment> \<open>D\<close> then
          if f_sign sp then Int_conv sp (low_int v) 0 args else Int_conv sp 0 (low_uint v) args
        else if c = 76 \<comment> \<open>L\<close> then
          if f_sign sp then Int_conv sp v 0 args else Int_conv sp 0 v args
        else if c = 65 \<comment> \<open>A\<close> then
          let sp = (if f_max_width sp then sp\<lparr>f_width := HKY_ATOMIC_T_LEN\<rparr> else sp) in
          if f_sign sp then Int_conv sp v 0 args else Int_conv sp 0 v args
        else if c = 114 \<comment> \<open>r\<close> then Int_conv (sp\<lparr>f_sign := True\<rparr>) v 0 args
        else Int_conv (sp\<lparr>f_hex := 2, f_sign := False, f_zero := 48, f_width := 16\<rparr>) 0 v args
      | _ \<Rightarrow> Bad_arg)"

text \<open>The tail of the loop body: the sign and the number.\<close>

definition fmt_signed :: "nat \<Rightarrow> fmt_spec \<Rightarrow> u64 \<Rightarrow> u64 \<Rightarrow> byte list" where
  "fmt_signed room sp i64 ui64 =
     (if f_sign sp
      then if sint i64 < 0
        then 45 # hky_sprintf_num (room - 1) (- i64) (f_zero sp) (f_hex sp) (f_width sp)
        else hky_sprintf_num room i64 (f_zero sp) (f_hex sp) (f_width sp)
      else hky_sprintf_num room ui64 (f_zero sp) (f_hex sp) (f_width sp))"

text \<open>The integer and the fraction that \<open>%f\<close> prints; the scale wraps at 64 bits.\<close>

definition dbl_parts :: "u64 \<Rightarrow> c_double \<Rightarrow> u64 \<times> u64" where
  "dbl_parts frac_width f =
     (let ui64 = dbl_integer f in
      if frac_width \<noteq> 0 then
        let scale = 10 ^ unat frac_width; frac = dbl_fraction f scale
        in if frac = scale then (ui64 + 1, 0) else (ui64, frac)
      else (ui64, 0))"

definition fmt_double :: "nat \<Rightarrow> fmt_spec \<Rightarrow> c_double \<Rightarrow> byte list" where
  "fmt_double room sp f =
     (let minus = (if dbl_negative f then [45] else []);
          (ui64, frac) = dbl_parts (f_frac_width sp) f;
          room = room - length minus;
          whole = hky_sprintf_num room ui64 (f_zero sp) 0 (f_width sp);
          room = room - length whole;
          dot = (if room > 0 then [46] else [])
      in minus @ whole @
         (if f_frac_width sp \<noteq> 0
          then dot @ hky_sprintf_num (room - length dot) frac 48 0 (f_frac_width sp) else []))"

fun copy_cstr :: "nat \<Rightarrow> byte list \<Rightarrow> byte list option" where
  "copy_cstr room [] = None"
| "copy_cstr room (b # p) =
     (if b \<noteq> 0 \<and> room > 0 then map_option ((#) b) (copy_cstr (room - 1) p) else Some [])"

definition copy_mem :: "nat \<Rightarrow> byte list \<Rightarrow> byte list option" where
  "copy_mem len p = (if len \<le> length p then Some (take len p) else None)"

definition fmt_conv :: "nat \<Rightarrow> fmt_spec \<Rightarrow> byte \<Rightarrow> va_arg list \<Rightarrow> (byte list \<times> va_arg list) option" where
  "fmt_conv room sp c args =
     (if c = 86 \<comment> \<open>V\<close> then
        (case args of VStr v # args \<Rightarrow> Some (take (min room (length v)) v, args) | _ \<Rightarrow> None)
      else if c = 118 \<comment> \<open>v\<close> then
        (case args of VVar v # args \<Rightarrow> Some (take (min room (length v)) v, args) | _ \<Rightarrow> None)
      else if c = 115 \<comment> \<open>s\<close> then
        (case args of VMem p # args \<Rightarrow>
           map_option (\<lambda>out. (out, args))
             (if f_slen sp = -1 then copy_cstr room p else copy_mem (min room (unat (f_slen sp))) p)
         | _ \<Rightarrow> None)
      else if c = 102 \<comment> \<open>f\<close> then
        (case args of VDouble f # args \<Rightarrow> Some (fmt_double room sp f, args) | _ \<Rightarrow> None)
      else if c = 99 \<comment> \<open>c\<close> then
        (case args of VInt d # args \<Rightarrow> Some ([ucast (d AND 0xff)], args) | _ \<Rightarrow> None)
      else if c = 90 \<comment> \<open>Z\<close> then Some ([0], args)
      else if c = 78 \<comment> \<open>N\<close> then Some ([LF], args)
      else if c = 37 \<comment> \<open>percent\<close> then Some ([37], args)
      else case fmt_int sp c args of
          Not_int \<Rightarrow> Some ([c], args)
        | Bad_arg \<Rightarrow> None
        | Int_conv sp i64 ui64 args \<Rightarrow> Some (fmt_signed room sp i64 ui64, args))"

section \<open>The loop\<close>

lemma fmt_number_length: "fmt_number w fmt = Some (w', fmt') \<Longrightarrow> length fmt' \<le> length fmt"
  by (induction w fmt rule: fmt_number.induct) (auto split: if_splits)

lemma fmt_flags_length: "fmt_flags sp fmt args = Some (sp', fmt', args') \<Longrightarrow> length fmt' \<le> length fmt"
  by (induction sp fmt args rule: fmt_flags.induct)
    (fastforce split: if_splits option.splits list.splits va_arg.splits dest: fmt_number_length)+

lemma fmt_start_length: "fmt_start fmt args = Some (sp, fmt', args') \<Longrightarrow> length fmt' \<le> length fmt"
  by (auto simp: fmt_start_def split: list.splits option.splits
      dest!: fmt_flags_length fmt_number_length simp del: fmt_number.simps)

function vslprintf_loop :: "nat \<Rightarrow> byte list \<Rightarrow> va_arg list \<Rightarrow> byte list option" where
  "vslprintf_loop room [] args = None"
| "vslprintf_loop room (c # fmt) args =
     (if c \<noteq> 0 \<and> room > 0 then
        if c = 37 then
          (case fmt_start fmt args of
             Some (sp, d # fmt', args') \<Rightarrow>
               (case fmt_conv room sp d args' of None \<Rightarrow> None
                | Some (out, args'') \<Rightarrow>
                    map_option ((@) out) (vslprintf_loop (room - length out) fmt' args''))
           | _ \<Rightarrow> None)
        else map_option ((#) c) (vslprintf_loop (room - 1) fmt args)
      else Some [])"
  by pat_completeness auto
termination
  by (relation "measure (\<lambda>(room, fmt, args). length fmt)") (auto dest!: fmt_start_length)

definition hky_vslprintf :: "nat \<Rightarrow> nat \<Rightarrow> byte list \<Rightarrow> va_arg list \<Rightarrow> byte list option" where
  "hky_vslprintf buf lim fmt args = vslprintf_loop (lim - buf) fmt args"

definition hky_sprintf :: "nat \<Rightarrow> byte list \<Rightarrow> va_arg list \<Rightarrow> byte list option" where
  "hky_sprintf buf fmt args = hky_vslprintf buf (2 ^ 64 - 1) fmt args"

definition hky_snprintf :: "nat \<Rightarrow> nat \<Rightarrow> byte list \<Rightarrow> va_arg list \<Rightarrow> byte list option" where
  "hky_snprintf buf cap fmt args = hky_vslprintf buf (buf + cap) fmt args"

definition hky_slprintf :: "nat \<Rightarrow> nat \<Rightarrow> byte list \<Rightarrow> va_arg list \<Rightarrow> byte list option" where
  "hky_slprintf buf lim fmt args = hky_vslprintf buf lim fmt args"

section \<open>Truncation\<close>

text \<open>
  A writer is truncating when a smaller room gives a prefix of what a larger room gives.
\<close>

definition truncating :: "(nat \<Rightarrow> byte list) \<Rightarrow> bool" where
  "truncating f \<longleftrightarrow> (\<forall>r R. r \<le> R \<longrightarrow> f r = take r (f R))"

lemma truncatingD: "truncating f \<Longrightarrow> r \<le> R \<Longrightarrow> f r = take r (f R)"
  by (simp add: truncating_def)

lemma truncating_length: "truncating f \<Longrightarrow> length (f r) \<le> r"
  using truncatingD [of f r r] by (metis length_take min.cobounded2 order.refl)

lemma truncating_take [intro]: "truncating (\<lambda>r. take r xs)"
  by (simp add: truncating_def min_absorb1)

lemma truncating_seq [intro]:
  assumes "truncating f" "truncating g"
  shows "truncating (\<lambda>r. f r @ g (r - length (f r)))"
  unfolding truncating_def
proof (intro allI impI)
  fix r R :: nat
  assume le: "r \<le> R"
  have f: "f r = take r (f R)" by (rule truncatingD [OF assms(1) le])
  have "length (f R) \<le> R" by (rule truncating_length [OF assms(1)])
  then have "g (r - length (f R)) = take (r - length (f R)) (g (R - length (f R)))"
    using le by (intro truncatingD [OF assms(2)]) simp
  moreover have "g 0 = []" using truncating_length [OF assms(2), of 0] by simp
  ultimately show "f r @ g (r - length (f r)) = take r (f R @ g (R - length (f R)))"
    unfolding f by (cases "length (f R) \<le> r") (simp_all add: min_absorb2)
qed

lemma truncating_num: "truncating (\<lambda>r. hky_sprintf_num r v z h w)"
proof -
  let ?p = "num_digits v h" and ?pad = "replicate (unat w - length (num_digits v h)) z"
  have "(\<lambda>r. hky_sprintf_num r v z h w) = (\<lambda>r. take r ?pad @ take (r - length (take r ?pad)) ?p)"
    by (rule ext, rename_tac r, case_tac "unat w - length ?p \<le> r")
       (auto simp: hky_sprintf_num_def Let_def min_absorb1 min_absorb2 min_def)
  then show ?thesis using truncating_seq [OF truncating_take [of ?pad] truncating_take [of ?p]] by simp
qed

lemma num_no_room [simp]: "hky_sprintf_num 0 v z h w = []"
  using truncating_length [OF truncating_num, of 0] by simp

lemma truncating_signed: "truncating (\<lambda>r. if r = 0 then [] else fmt_signed r sp i v)"
proof (cases "f_sign sp \<and> sint i < 0")
  case True
  let ?num = "\<lambda>r. hky_sprintf_num r (- i) (f_zero sp) (f_hex sp) (f_width sp)"
  have "(\<lambda>r. if r = 0 then [] else fmt_signed r sp i v) =
      (\<lambda>r. take r [45] @ ?num (r - length (take r [45 :: byte])))"
    using True by (intro ext) (auto simp: fmt_signed_def take_Cons')
  then show ?thesis using truncating_seq [OF truncating_take [of "[45]"] truncating_num] by simp
next
  case False
  have "(\<lambda>r. if r = 0 then [] else fmt_signed r sp i v) =
      (\<lambda>r. hky_sprintf_num r (if f_sign sp then i else v) (f_zero sp) (f_hex sp) (f_width sp))"
    using False by (intro ext) (auto simp: fmt_signed_def)
  then show ?thesis using truncating_num by simp
qed

lemma truncating_double: "truncating (\<lambda>r. if r = 0 then [] else fmt_double r sp f)"
proof -
  obtain whole frac where parts: "dbl_parts (f_frac_width sp) f = (whole, frac)" by fastforce
  let ?minus = "if dbl_negative f then [45 :: byte] else []"
  let ?dot = "[46 :: byte]"
  let ?frac = "\<lambda>r. take r ?dot @
    (\<lambda>r. hky_sprintf_num r frac 48 0 (f_frac_width sp)) (r - length (take r ?dot))"
  let ?whole = "\<lambda>r. hky_sprintf_num r whole (f_zero sp) 0 (f_width sp)"
  let ?rest = "\<lambda>r. if f_frac_width sp \<noteq> 0 then ?frac r else []"
  let ?num = "\<lambda>r. ?whole r @ ?rest (r - length (?whole r))"
  have "truncating ?frac" by (rule truncating_seq [OF truncating_take truncating_num])
  then have "truncating ?rest" by (cases "f_frac_width sp = 0") (simp_all add: truncating_def)
  then have "truncating ?num" by (rule truncating_seq [OF truncating_num])
  then have "truncating (\<lambda>r. take r ?minus @ ?num (r - length (take r ?minus)))"
    by (rule truncating_seq [OF truncating_take])
  moreover have "(\<lambda>r. if r = 0 then [] else fmt_double r sp f) =
      (\<lambda>r. take r ?minus @ ?num (r - length (take r ?minus)))"
    by (intro ext) (auto simp: fmt_double_def parts Let_def take_Cons')
  ultimately show ?thesis by simp
qed

lemma take_min_length [simp]: "take (min n (length v)) v = take n v"
  by (simp add: min_def)

lemma copy_cstr_truncated:
  "copy_cstr R p = Some out \<Longrightarrow> r \<le> R \<Longrightarrow> copy_cstr r p = Some (take r out)"
  by (induction R p arbitrary: out r rule: copy_cstr.induct) (fastforce split: if_splits simp: take_Cons')+

lemma copy_mem_truncated:
  "copy_mem (min R n) p = Some out \<Longrightarrow> r \<le> R \<Longrightarrow> copy_mem (min r n) p = Some (take r out)"
  by (auto simp: copy_mem_def min_def split: if_splits)

lemma fmt_conv_truncated:
  assumes "fmt_conv R sp c args = Some (out, args')" "0 < r" "r \<le> R"
  shows "fmt_conv r sp c args = Some (take r out, args')"
proof -
  have num: "\<And>sp i v. fmt_signed r sp i v = take r (fmt_signed R sp i v)"
      "\<And>sp f. fmt_double r sp f = take r (fmt_double R sp f)"
    using truncatingD [OF truncating_signed assms(3)] truncatingD [OF truncating_double assms(3)]
      assms(2,3) by (simp_all split: if_splits)
  show ?thesis
    using assms unfolding fmt_conv_def
    by (auto split: if_splits list.splits va_arg.splits int_conv.splits simp: min_absorb1 num take_Cons'
        dest: copy_cstr_truncated copy_mem_truncated)
qed

lemma fmt_conv_length:
  assumes "fmt_conv R sp c args = Some (out, args')" "0 < R"
  shows "length out \<le> R"
  using fmt_conv_truncated [OF assms order.refl] assms(1) by (simp, metis length_take min.cobounded2)

lemma vslprintf_truncated:
  "vslprintf_loop R fmt args = Some out \<Longrightarrow> r \<le> R \<Longrightarrow> vslprintf_loop r fmt args = Some (take r out)"
proof (induction R fmt args arbitrary: out r rule: vslprintf_loop.induct)
  case (2 room c fmt args)
  show ?case
  proof (cases "c \<noteq> 0 \<and> 0 < r")
    case go: True
    show ?thesis
    proof (cases "c = 37")
      case True
      then obtain sp d fmt' args' conv args'' rest where
        start: "fmt_start fmt args = Some (sp, d # fmt', args')" and
        conv: "fmt_conv room sp d args' = Some (conv, args'')" and
        rest: "vslprintf_loop (room - length conv) fmt' args'' = Some rest" and
        out: "out = conv @ rest"
        using 2(3,4) go by (auto split: option.splits list.splits)
      have "vslprintf_loop (r - length conv) fmt' args'' = Some (take (r - length conv) rest)"
        using 2(4) go True by (intro "2.IH"(1) [OF _ True start refl refl refl conv refl rest]) auto
      moreover have "fmt_conv r sp d args' = Some (take r conv, args'')"
        using go 2(4) by (intro fmt_conv_truncated [OF conv]) auto
      ultimately show ?thesis
        using go True start out by (cases "length conv \<le> r") (auto simp: min_absorb1 min_absorb2)
    next
      case False
      then show ?thesis using go 2(3,4) "2.IH"(2) by (auto simp: take_Cons')
    qed
  next
    case False
    then show ?thesis using 2(3,4) by (auto split: if_splits)
  qed
qed simp

text \<open>
  C16: Formatting with less room gives exactly the prefix that fits of what formatting with more
  room gives, consuming the same arguments; so \<open>hky_slprintf\<close> and \<open>hky_snprintf\<close> never write a
  byte at or beyond the end of their buffer, whatever the format and the arguments, and
  \<open>hky_snprintf\<close> truncates the text of \<open>hky_sprintf\<close>.
\<close>

theorem vslprintf_prefix:
  assumes "hky_vslprintf buf big fmt args = Some out" and "lim \<le> big"
  shows "hky_vslprintf buf lim fmt args = Some (take (lim - buf) out) \<and> length out \<le> big - buf"
proof
  have run: "vslprintf_loop (big - buf) fmt args = Some out" using assms(1) by (simp add: hky_vslprintf_def)
  show "hky_vslprintf buf lim fmt args = Some (take (lim - buf) out)"
    unfolding hky_vslprintf_def using assms(2) by (intro vslprintf_truncated [OF run]) simp
  have "out = take (big - buf) out" using vslprintf_truncated [OF run order.refl] run by simp
  then show "length out \<le> big - buf" by (metis length_take min.cobounded2)
qed

theorem vslprintf_prefix_witness:
  "hky_slprintf 100 104 (bytes_of ''%V:%d'' @ [0]) [VStr (bytes_of ''ab''), VInt 8080] =
     Some (bytes_of ''ab:8'')"
proof -
  have "hky_vslprintf 100 200 (bytes_of ''%V:%d'' @ [0]) [VStr (bytes_of ''ab''), VInt 8080] =
      Some (bytes_of ''ab:8080'')" by code_simp
  from vslprintf_prefix [OF this, of 104] show ?thesis by (simp add: hky_slprintf_def)
qed

section \<open>Numerals\<close>

text \<open>The references: the decimal and the hexadecimal numeral of a natural number.\<close>

fun dec_text :: "nat \<Rightarrow> byte list" where
  "dec_text n = (if n < 10 then [] else dec_text (n div 10)) @ [word_of_nat (n mod 10) + 48]"

fun hex_text :: "byte list \<Rightarrow> nat \<Rightarrow> byte list" where
  "hex_text hex n = (if n < 16 then [] else hex_text hex (n div 16)) @ [hex ! (n mod 16)]"

declare dec_text.simps [simp del] hex_text.simps [simp del]

lemma word_div_eq_0_iff: "0 < unat k \<Longrightarrow> w div k = 0 \<longleftrightarrow> unat (w :: 'a::len word) < unat k"
  by (simp add: unat_eq_zero [symmetric] unat_div div_eq_0_iff)

lemma ucast_unat: "(ucast (w :: 'a::len word) :: 'b::len word) = word_of_nat (unat w)"
  by simp

lemma unat_low_nibble: "unat ((v :: u64) AND 0xf) = unat v mod 16"
proof -
  have "v AND 0xf = take_bit 4 v" by (simp add: take_bit_eq_mask mask_eq_exp_minus_1)
  then have "unat (v AND 0xf) = take_bit 4 (unat v)" by (simp only: unsigned_take_bit_eq)
  then show ?thesis by (simp add: take_bit_eq_mod)
qed

lemma dec_digits32_text: "dec_digits32 v p = dec_text (unat v) @ p"
proof (induction v p rule: dec_digits32.induct)
  case (1 v p)
  show ?case
    using 1 by (subst dec_digits32.simps, subst dec_text.simps)
      (auto simp: Let_def word_div_eq_0_iff unat_div unat_mod ucast_unat simp del: of_nat_unat)
qed

lemma dec_digits64_text: "dec_digits64 v p = dec_text (unat v) @ p"
proof (induction v p rule: dec_digits64.induct)
  case (1 v p)
  show ?case
    using 1 by (subst dec_digits64.simps, subst dec_text.simps)
      (auto simp: Let_def word_div_eq_0_iff unat_div unat_mod ucast_unat simp del: of_nat_unat)
qed

lemma hex_digits_text: "hex_digits hex v p = hex_text hex (unat v) @ p"
proof (induction hex v p rule: hex_digits.induct)
  case (1 hex v p)
  show ?case
    using 1 by (subst hex_digits.simps, subst hex_text.simps)
      (auto simp: Let_def word_div_eq_0_iff unat_div drop_bit_eq_div unat_low_nibble)
qed

lemma num_digits_text:
  "num_digits v h = (if h = 0 then dec_text (unat v)
     else hex_text (if h = 1 then hex_lower else hex_upper) (unat v))"
proof -
  have "v \<le> HKY_MAX_UINT32_VALUE \<Longrightarrow> unat (ucast v :: u32) = unat v"
    by (simp add: unsigned_ucast_eq take_bit_nat_eq_self hky_consts word_le_nat_alt)
  then show ?thesis
    by (simp add: num_digits_def dec_digits32_text dec_digits64_text hex_digits_text)
qed

lemma digit_char:
  "n < 10 \<Longrightarrow> uint (word_of_nat n + 48 :: byte) = int n + 48 \<and> is_digit (word_of_nat n + 48)"
proof -
  assume n: "n < 10"
  then have "unat (word_of_nat n + 48 :: byte) = n + 48"
    using unat_of_nat_small [of "n + 48", where 'a = 8] by (simp add: add.commute)
  then show ?thesis using n by (simp add: uint_nat is_digit_def word_less_nat_alt not_less)
qed

lemma dec_text_value:
  "base_value 10 (digit_values (dec_text n)) = int n \<and> (\<forall>c\<in>set (dec_text n). is_digit c)
   \<and> dec_text n \<noteq> []"
proof (induction n rule: dec_text.induct)
  case (1 n)
  show ?case
    using 1 digit_char [of "n mod 10"]
    by (cases "n < 10") (auto simp: dec_text.simps [of n] zdiv_int zmod_int)
qed

lemma dec_text_length: "n < 10 ^ Suc k \<Longrightarrow> length (dec_text n) \<le> Suc k"
proof (induction k arbitrary: n)
  case (Suc k)
  then have "n div 10 < 10 ^ Suc k" by (simp add: less_mult_imp_div_less mult.commute)
  then show ?case using Suc.IH [of "n div 10"] by (simp add: dec_text.simps [of n])
next
  case 0
  then show ?case by (simp add: dec_text.simps [of n])
qed

lemma u64_text_length: "length (dec_text (unat (v :: u64))) \<le> 20"
proof -
  have "unat v < 2 ^ 64" using unsigned_less [of v] by simp
  also have "\<dots> < 10 ^ Suc 19" by simp
  finally have "unat v < 10 ^ Suc 19" .
  from dec_text_length [OF this] show ?thesis by simp
qed

lemma hex_char:
  assumes "n < 16" "hex = hex_lower \<or> hex = hex_upper"
  shows "hex_digit (hex ! n) = Some (int n)"
proof -
  have "n \<in> set [0..<16]" using assms(1) by simp
  then show ?thesis using assms(2)
    by (auto simp: hex_lower_def hex_upper_def upt_rec hex_digit_def word_le_def)
qed

lemma hex_value_append: "hex_value (s @ t) = hex_value s * 16 ^ length t + hex_value t"
  by (simp add: hex_value_def)

lemma hex_text_value:
  assumes "hex = hex_lower \<or> hex = hex_upper"
  shows "hex_value (hex_text hex n) = int n \<and> (\<forall>c\<in>set (hex_text hex n). hex_digit c \<noteq> None)
   \<and> hex_text hex n \<noteq> []"
  using assms
proof (induction hex n rule: hex_text.induct)
  case (1 hex n)
  show ?case
    using 1 hex_char [of "n mod 16" hex]
    by (cases "n < 16") (auto simp: hex_text.simps [of hex n] hex_value_append zdiv_int zmod_int)
qed

lemma hex_text_length: "n < 16 ^ Suc k \<Longrightarrow> length (hex_text hex n) \<le> Suc k"
proof (induction k arbitrary: n)
  case (Suc k)
  then have "n div 16 < 16 ^ Suc k" by (simp add: less_mult_imp_div_less mult.commute)
  then show ?case using Suc.IH [of "n div 16"] by (simp add: hex_text.simps [of hex n])
next
  case 0
  then show ?case by (simp add: hex_text.simps [of hex n])
qed

lemma sprintf_num_text:
  assumes "unat w \<le> room" and "length (num_digits v h) \<le> room"
  shows "hky_sprintf_num room v z h w =
    replicate (unat w - length (num_digits v h)) z @ num_digits v h"
  using assms by (cases "unat w \<le> length (num_digits v h)") (simp_all add: hky_sprintf_num_def Let_def)

lemma digit_values_zeros: "base_value 10 (digit_values (replicate k 48 @ s)) = base_value 10 (digit_values s)"
  by (induction k) simp_all

lemma hex_value_zeros: "hex_value (replicate k 48 @ s) = hex_value s"
  by (induction k) (simp_all add: hex_digit_def)

lemma dec_spec_padded:
  assumes "int n \<le> m"
  shows "dec_spec m (replicate k 48 @ dec_text n) = int n"
proof -
  have "\<forall>c\<in>set (replicate k 48 @ dec_text n). is_digit c"
    using dec_text_value [of n] by (auto simp: is_digit_def)
  moreover have "replicate k 48 @ dec_text n \<noteq> []" using dec_text_value [of n] by simp
  moreover have "base_value 10 (digit_values (replicate k 48 @ dec_text n)) = int n"
    unfolding digit_values_zeros using dec_text_value [of n] by simp
  ultimately show ?thesis using assms by (simp add: dec_spec_def)
qed

lemma hex_digit_48: "hex_digit 48 \<noteq> None"
  by (simp add: hex_digit_def)

lemma hex_spec_padded:
  assumes "int n \<le> m" and "hex = hex_lower \<or> hex = hex_upper"
  shows "hex_spec m (replicate k 48 @ hex_text hex n) = int n"
proof -
  note v = hex_text_value [OF assms(2), of n]
  have "\<forall>c\<in>set (replicate k 48 @ hex_text hex n). hex_digit c \<noteq> None"
    using v hex_digit_48 by auto
  moreover have "replicate k 48 @ hex_text hex n \<noteq> []" using v by simp
  moreover have "hex_value (replicate k 48 @ hex_text hex n) = int n"
    unfolding hex_value_zeros using v by simp
  ultimately show ?thesis using assms by (simp add: hex_spec_def)
qed

lemma atoi_spec: "hky_atoi s (length s) = Some (dec_spec HKY_MAX_INT_T_VALUE s)"
  unfolding hky_atoi_def using dec_parser_spec [of "length s" s HKY_MAX_INT_T_VALUE] by (simp add: hky_consts)

lemma hextoi_spec: "hky_hextoi s (length s) = Some (hex_spec HKY_MAX_INT_T_VALUE s)"
  using hky_hextoi_spec [of "length s" s] by simp

lemma num_digits_length: "length (num_digits n h) \<le> 20"
proof -
  have "unat n < 16 ^ Suc 15" using unsigned_less [of n] by simp
  from hex_text_length [OF this] have "length (hex_text hex (unat n)) \<le> 20" for hex
    by (rule order.trans) simp
  then show ?thesis using u64_text_length [of n] by (simp add: num_digits_text)
qed

text \<open>
  A number written with zero padding (any width, enough room) reads back as itself: the
  decimal form with \<open>hky_atoi\<close> and both hexadecimal forms with \<open>hky_hextoi\<close>. The text is as wide as
  asked for and 20 digits always suffice.
\<close>

theorem sprintf_num_parse_back:
  assumes "unat w \<le> room" and "20 \<le> room" and "uint n \<le> HKY_MAX_INT_T_VALUE"
  shows "(let t = hky_sprintf_num room n 48 0 w in
      hky_atoi t (length t) = Some (uint n) \<and> unat w \<le> length t \<and> length t \<le> max (unat w) 20) \<and>
    (let t = hky_sprintf_num room n 48 1 w in hky_hextoi t (length t) = Some (uint n)) \<and>
    (let t = hky_sprintf_num room n 48 2 w in hky_hextoi t (length t) = Some (uint n))"
proof -
  have len: "length (num_digits n h) \<le> room" for h
    using num_digits_length assms(2) by (rule order.trans)
  note out = sprintf_num_text [OF assms(1) len]
  have n: "int (unat n) \<le> HKY_MAX_INT_T_VALUE" using assms(3) unfolding uint_nat .
  have hex: "hky_hextoi t (length t) = Some (uint n)" if "t = hky_sprintf_num room n 48 h w" "h \<noteq> 0" for t h
  proof -
    let ?hex = "if h = 1 then hex_lower else hex_upper"
    have digits: "num_digits n h = hex_text ?hex (unat n)" using that(2) by (simp add: num_digits_text)
    show ?thesis
      unfolding that(1) hextoi_spec out unfolding digits uint_nat option.inject
      by (rule hex_spec_padded [OF n]) simp
  qed
  have digits: "num_digits n 0 = dec_text (unat n)" by (simp add: num_digits_text)
  have "hky_atoi (hky_sprintf_num room n 48 0 w) (length (hky_sprintf_num room n 48 0 w)) = Some (uint n)"
    unfolding atoi_spec out unfolding digits uint_nat option.inject by (rule dec_spec_padded [OF n])
  moreover have "unat w \<le> length (hky_sprintf_num room n 48 0 w)"
      "length (hky_sprintf_num room n 48 0 w) \<le> max (unat w) 20"
    using num_digits_length [of n 0] unfolding out by simp_all
  ultimately show ?thesis unfolding Let_def by (auto intro: hex [OF refl])
qed

theorem sprintf_num_parse_back_witness:
  "hky_sprintf_num 64 8080 48 0 6 = bytes_of ''008080'' \<and> hky_atoi (bytes_of ''008080'') 6 = Some 8080
   \<and> hky_sprintf_num 64 8080 48 2 6 = bytes_of ''001F90'' \<and> hky_hextoi (bytes_of ''001F90'') 6 = Some 8080"
proof -
  have t: "hky_sprintf_num 64 8080 48 0 6 = bytes_of ''008080''"
      "hky_sprintf_num 64 8080 48 2 6 = bytes_of ''001F90''" by code_simp+
  have len: "length (bytes_of ''008080'') = 6" "length (bytes_of ''001F90'') = 6" by simp_all
  have u: "uint (8080 :: u64) = 8080" by simp
  have c: "unat (6 :: u64) \<le> 64" "(20 :: nat) \<le> 64" "uint (8080 :: u64) \<le> HKY_MAX_INT_T_VALUE"
    by (simp_all add: hky_consts)
  from sprintf_num_parse_back [OF c] show ?thesis unfolding Let_def t len u by blast
qed

section \<open>Evaluating formats\<close>

text \<open>One step of the loop for a plain character and for the common directives.\<close>

lemma sprintf_num_plain [simp]: "hky_sprintf_num room v z h 0 = take room (num_digits v h)"
  by (simp add: hky_sprintf_num_def Let_def min.commute)

lemma format_text:
  "c \<noteq> 0 \<Longrightarrow> c \<noteq> 37 \<Longrightarrow> 0 < room \<Longrightarrow>
   vslprintf_loop room (c # fmt) args = map_option ((#) c) (vslprintf_loop (room - 1) fmt args)"
  by simp

lemma format_ud:
  "0 < room \<Longrightarrow> vslprintf_loop room (37 # 117 # 100 # fmt) (VInt v # args) =
   (let t = take room (num_digits (low_uint v) 0) in map_option ((@) t) (vslprintf_loop (room - length t) fmt args))"
  by (simp add: fmt_start_def fmt_conv_def fmt_int_def fmt_signed_def Let_def)

lemma format_d:
  "0 < room \<Longrightarrow> 0 \<le> sint (low_int v) \<Longrightarrow> vslprintf_loop room (37 # 100 # fmt) (VInt v # args) =
   (let t = take room (num_digits (low_int v) 0) in map_option ((@) t) (vslprintf_loop (room - length t) fmt args))"
  by (simp add: fmt_start_def fmt_conv_def fmt_int_def fmt_signed_def Let_def not_less)

lemma format_xd:
  "0 < room \<Longrightarrow> vslprintf_loop room (37 # 120 # 100 # fmt) (VInt v # args) =
   (let t = take room (num_digits (low_uint v) 1) in map_option ((@) t) (vslprintf_loop (room - length t) fmt args))"
  by (simp add: fmt_start_def fmt_conv_def fmt_int_def fmt_signed_def Let_def)

lemma format_V:
  "0 < room \<Longrightarrow> vslprintf_loop room (37 # 86 # fmt) (VStr s # args) =
   map_option ((@) (take room s)) (vslprintf_loop (room - length (take room s)) fmt args)"
  by (simp add: fmt_start_def fmt_conv_def)

lemma format_end [simp]: "vslprintf_loop room [0] args = Some []"
  by simp

lemma uint_low32: "uint (ucast (v :: u64) :: u32) = take_bit 32 (uint v)"
  by (simp add: unsigned_ucast_eq unsigned_take_bit_eq)

lemma low_uint_id: "uint v < 2 ^ 32 \<Longrightarrow> low_uint v = v"
  by (simp add: low_uint_def word_uint_eq_iff unsigned_ucast_eq unsigned_take_bit_eq
      take_bit_int_eq_self)

lemma low_int_id: "uint v < 2 ^ 31 \<Longrightarrow> low_int v = v"
proof -
  assume v: "uint v < 2 ^ 31"
  have u: "uint (ucast v :: u32) = uint v"
    unfolding uint_low32 using v by (intro take_bit_int_eq_self) simp_all
  have "- 2147483648 \<le> uint v" using uint_nonnegative [of v] by linarith
  then have "sint (ucast v :: u32) = uint v"
    unfolding sint_uint u using v by (simp add: signed_take_bit_int_eq_self_iff)
  then show ?thesis by (simp add: low_int_def scast_eq)
qed

lemma format_s:
  "0 < room \<Longrightarrow> vslprintf_loop room (37 # 115 # fmt) (VMem m # args) =
   (case copy_cstr room m of None \<Rightarrow> None
    | Some t \<Rightarrow> map_option ((@) t) (vslprintf_loop (room - length t) fmt args))"
  by (simp add: fmt_start_def fmt_conv_def split: option.splits)

lemma copy_cstr_text: "0 \<notin> set s \<Longrightarrow> length s \<le> room \<Longrightarrow> copy_cstr room (s @ 0 # r) = Some s"
  by (induction s arbitrary: room) auto

lemma format_0wd:
  "0 < room \<Longrightarrow> 0 \<le> sint (low_int v) \<Longrightarrow> 48 < w \<Longrightarrow> w \<le> 57 \<Longrightarrow>
   vslprintf_loop room (37 # 48 # w # 100 # fmt) (VInt v # args) =
   (let t = hky_sprintf_num room (low_int v) 48 0 (ucast w - 48) in
    map_option ((@) t) (vslprintf_loop (room - length t) fmt args))"
  using order.strict_implies_order [of 48 w]
  by (simp add: fmt_start_def fmt_conv_def fmt_int_def fmt_signed_def Let_def not_less)

text \<open>Two-digit and four-digit numbers.\<close>

definition digits2 :: "nat \<Rightarrow> byte list" where
  "digits2 n = [word_of_nat (n div 10) + 48, word_of_nat (n mod 10) + 48]"

lemma dec_text_less10: "n < 10 \<Longrightarrow> dec_text n = [word_of_nat n + 48]"
  by (simp add: dec_text.simps)

lemma dec_text_ge10: "10 \<le> n \<Longrightarrow> dec_text n = dec_text (n div 10) @ [word_of_nat (n mod 10) + 48]"
  by (subst dec_text.simps) simp

lemma digits2_length [simp]: "length (digits2 n) = 2"
  by (simp add: digits2_def)

lemma dec_text_2: "n < 100 \<Longrightarrow> replicate (2 - length (dec_text n)) 48 @ dec_text n = digits2 n"
  by (cases "n < 10") (simp_all add: dec_text_less10 dec_text_ge10 digits2_def)

lemma dec_text_4:
  assumes "1000 \<le> n" "n < 10000"
  shows "dec_text n = digits2 (n div 100) @ digits2 (n mod 100)"
proof -
  have e: "n div 10 div 10 = n div 100" "n mod 100 mod 10 = n mod 10" by (simp_all add: div_mult2_eq [symmetric] mod_mod_cancel)
  have f: "n mod 100 div 10 = n div 10 mod 10" using mod_mult2_eq [of n 10 10] by simp
  have "n div 100 div 10 < 10" "10 \<le> n div 100" "10 \<le> n div 10" using assms by simp_all
  then have "dec_text n = [word_of_nat (n div 100 div 10) + 48, word_of_nat (n div 100 mod 10) + 48,
      word_of_nat (n div 10 mod 10) + 48, word_of_nat (n mod 10) + 48]"
    using assms(1) by (simp only: dec_text_ge10 [of n] dec_text_ge10 [of "n div 10"] dec_text_ge10 [of "n div 100"] e
        dec_text_less10) simp
  then show ?thesis by (simp add: digits2_def e f)
qed

lemma low_int_nat: "n < 2 ^ 31 \<Longrightarrow> low_int (word_of_nat n) = word_of_nat n"
  by (rule low_int_id) (simp add: uint_nat unat_of_nat_small del: of_nat_unat int_nat_eq)

lemma num_digits_nat: "n < 2 ^ 31 \<Longrightarrow> num_digits (word_of_nat n) 0 = dec_text n"
  by (simp add: num_digits_text unat_of_nat_small)

lemma sint_nat: "n < 2 ^ 31 \<Longrightarrow> 0 \<le> sint (word_of_nat n :: u64)"
  by (subst sint_u64_small) (simp_all add: uint_nat unat_of_nat_small del: of_nat_unat int_nat_eq)

lemma format_02d:
  assumes "2 \<le> room" "n < 100"
  shows "vslprintf_loop room (37 # 48 # 50 # 100 # fmt) (VInt (word_of_nat n) # args) =
    map_option ((@) (digits2 n)) (vslprintf_loop (room - 2) fmt args)"
proof -
  have n: "n < 2 ^ 31" using assms(2) by simp
  have "length (dec_text n) \<le> 2" using dec_text_length [of n 1] assms(2) by simp
  then have "hky_sprintf_num room (word_of_nat n) 48 0 2 = digits2 n"
    using sprintf_num_text [of 2 room "word_of_nat n" 0 48] assms by (simp add: num_digits_nat [OF n] dec_text_2)
  then show ?thesis
    using assms(1) sint_nat [OF n] by (subst format_0wd) (simp_all add: low_int_nat [OF n])
qed

lemma format_4d:
  assumes "4 \<le> room" "1000 \<le> n" "n < 10000"
  shows "vslprintf_loop room (37 # 52 # 100 # fmt) (VInt (word_of_nat n) # args) =
    map_option ((@) (digits2 (n div 100) @ digits2 (n mod 100))) (vslprintf_loop (room - 4) fmt args)"
proof -
  have n: "n < 2 ^ 31" using assms(3) by simp
  have "hky_sprintf_num room (word_of_nat n) 32 0 4 = digits2 (n div 100) @ digits2 (n mod 100)"
    using sprintf_num_text [of 4 room "word_of_nat n" 0 32] assms
    by (simp add: num_digits_nat [OF n] dec_text_4)
  then show ?thesis
    using assms(1) sint_nat [OF n]
    by (simp add: fmt_start_def fmt_conv_def fmt_int_def fmt_signed_def low_int_nat [OF n] not_less)
qed

end
