(* ===== verification/Hky_Palloc.thy ===== *)
theory Hky_Palloc
  imports Husky_Base
begin

text \<open>
  The memory pools of src/core/hky_palloc.c on top of the wrappers of src/unix/hky_alloc.c.

  A pool is modelled by what its headers hold: the chain of its blocks (the \<open>d.next\<close> list, in
  order, with the block's address beside \<open>last\<close>, \<open>end\<close> and \<open>failed\<close>), the position of
  \<open>current\<close> in that chain, the list of large allocations and the list of cleanup handlers
  (each with the address of its cell), and the bookkeeping of the process: the regions the C
  library has handed out and the bytes of the memory the callers use. Addresses are \<open>nat\<close>s
  below \<open>2 ^ 64\<close>, 0 is \<open>NULL\<close>. The C library's allocator is the parameter \<open>os\<close>; what is used of
  it is \<open>lawful_os\<close>: a block it returns is aligned, does not wrap around and does not meet a
  block in use.

  The contract of a pool is the locale \<open>pool_allocator\<close>, on which arrays and lists build.
\<close>

section \<open>Regions\<close>

type_synonym region = "nat \<times> nat"

definition disj :: "region \<Rightarrow> region \<Rightarrow> bool" where
  "disj r q \<longleftrightarrow> snd r = 0 \<or> snd q = 0 \<or> fst r + snd r \<le> fst q \<or> fst q + snd q \<le> fst r"

definition inside :: "region \<Rightarrow> region \<Rightarrow> bool" where
  "inside r q \<longleftrightarrow> snd r = 0 \<or> (fst q \<le> fst r \<and> fst r + snd r \<le> fst q + snd q)"

lemma disj_sym: "disj r q \<Longrightarrow> disj q r"
  by (auto simp: disj_def)

lemma disj_inside: "disj r q \<Longrightarrow> inside r' r \<Longrightarrow> inside q' q \<Longrightarrow> disj r' q'"
  by (auto simp: disj_def inside_def)

lemma inside_refl [simp]: "inside r r"
  by (simp add: inside_def)

lemma inside_trans: "inside a b \<Longrightarrow> inside b c \<Longrightarrow> inside a c"
  by (auto simp: inside_def)

lemma sorted_wrt_disj_nth:
  "sorted_wrt disj rs \<Longrightarrow> i < length rs \<Longrightarrow> j < length rs \<Longrightarrow> i \<noteq> j \<Longrightarrow> disj (rs ! i) (rs ! j)"
  using disj_sym sorted_wrt_nth_less [of disj rs] by (metis linorder_neq_iff)

lemma sorted_wrt_disj_in:
  assumes "sorted_wrt disj rs" "r \<in> set rs" "q \<in> set rs" "r \<noteq> q"
  shows "disj r q"
  using assms sorted_wrt_disj_nth by (metis in_set_conv_nth)

section \<open>The wrappers of the C library's allocator\<close>

type_synonym allocator = "nat \<Rightarrow> nat \<Rightarrow> region list \<Rightarrow> nat"

record sys =
  sys_live :: "region list"
  sys_store :: "nat \<Rightarrow> byte"

definition lawful_os :: "allocator \<Rightarrow> bool" where
  "lawful_os os \<longleftrightarrow> (\<forall>al size live. os al size live \<noteq> 0 \<longrightarrow>
     al dvd os al size live \<and> os al size live + size < 2 ^ 64 \<and> os al size live \<notin> fst ` set live \<and>
     (\<forall>r\<in>set live. disj (os al size live, size) r))"

definition hky_memalign :: "allocator \<Rightarrow> nat \<Rightarrow> nat \<Rightarrow> 'a sys_scheme \<Rightarrow> nat \<times> 'a sys_scheme" where
  "hky_memalign os alignment sz s =
     (let p = os alignment sz (sys_live s)
      in if p = 0 then (0, s) else (p, s\<lparr>sys_live := (p, sz) # sys_live s\<rparr>))"

text \<open>
  \<open>if(p=NULL)\<close> assigns: the block \<open>malloc\<close> returned is lost. (\<open>malloc\<close> is \<open>os\<close> at the
  alignment of the platform's largest type.)
\<close>

definition hky_alloc :: "allocator \<Rightarrow> nat \<Rightarrow> 'a sys_scheme \<Rightarrow> nat \<times> 'a sys_scheme" where
  "hky_alloc os sz s = (let (p, s) = hky_memalign os 16 sz s in (0, s))"

definition hky_memzero :: "nat \<Rightarrow> nat \<Rightarrow> 'a sys_scheme \<Rightarrow> 'a sys_scheme" where
  "hky_memzero p n s = s\<lparr>sys_store := (\<lambda>a. if p \<le> a \<and> a < p + n then 0 else sys_store s a)\<rparr>"

definition hky_memcpy :: "nat \<Rightarrow> nat \<Rightarrow> nat \<Rightarrow> 'a sys_scheme \<Rightarrow> 'a sys_scheme" where
  "hky_memcpy dst src n s =
     s\<lparr>sys_store := (\<lambda>a. if dst \<le> a \<and> a < dst + n then sys_store s (src + (a - dst)) else sys_store s a)\<rparr>"

definition hky_calloc :: "allocator \<Rightarrow> nat \<Rightarrow> 'a sys_scheme \<Rightarrow> nat \<times> 'a sys_scheme" where
  "hky_calloc os sz s =
     (let (p, s) = hky_alloc os sz s
      in if p \<noteq> 0 then (p, hky_memzero p sz s) else (p, s))"

definition hky_free :: "nat \<Rightarrow> 'a sys_scheme \<Rightarrow> 'a sys_scheme" where
  "hky_free p s = s\<lparr>sys_live := filter (\<lambda>r. fst r \<noteq> p) (sys_live s)\<rparr>"

definition hky_align :: "nat \<Rightarrow> nat \<Rightarrow> nat" where
  "hky_align d a = nat ((int d + (int a - 1)) AND NOT (int a - 1))"

definition HKY_ALIGNMENT :: nat where "HKY_ALIGNMENT = 8"

definition hky_align_ptr :: "nat \<Rightarrow> nat \<Rightarrow> nat" where
  "hky_align_ptr p a = nat ((int p + (int a - 1)) AND NOT (int a - 1))"

lemma and_not_mask: "(x::int) AND NOT (2 ^ n - 1) = x - x mod 2 ^ n"
proof -
  have "(x AND NOT (mask n)) + (x AND mask n) = (x AND NOT (mask n)) OR (x AND mask n)"
    by (rule disjunctive_add_eq_or) (simp add: bit_eq_iff bit_simps)
  also have "\<dots> = x" by (auto simp: bit_eq_iff bit_simps)
  finally have "(x AND NOT (mask n)) + x mod 2 ^ n = x" by (simp add: take_bit_eq_mod flip: take_bit_eq_mask)
  then show ?thesis by (simp add: mask_eq_exp_minus_1)
qed

lemma align_8: "hky_align_ptr p 8 = (p + 7) div 8 * 8"
proof -
  have "(int p + 7) AND NOT 7 = int p + 7 - (int p + 7) mod 8"
    using and_not_mask [of "int p + 7" 3] by simp
  also have "\<dots> = int ((p + 7) div 8 * 8)"
    by (simp add: minus_mod_eq_div_mult zdiv_int)
  finally show ?thesis by (simp add: hky_align_ptr_def)
qed

lemma align_8_bounds: "p \<le> hky_align_ptr p 8" "hky_align_ptr p 8 \<le> p + 7" "8 dvd hky_align_ptr p 8"
  unfolding align_8 by presburger+

lemma align_8_below: "8 dvd e \<Longrightarrow> p \<le> e \<Longrightarrow> hky_align_ptr p 8 \<le> e"
  unfolding align_8 by presburger

section \<open>Pools\<close>

record hky_pool_data =
  d_base :: nat
  d_last :: nat
  d_end :: nat
  d_failed :: nat

record hky_pool_large =
  l_cell :: nat
  l_alloc :: nat

record hky_pool_cleanup =
  c_cell :: nat
  c_handler :: nat
  c_data :: nat

record hky_pool = sys +
  p_blocks :: "hky_pool_data list"
  p_max :: nat
  p_current :: nat
  p_chain :: nat
  p_large :: "hky_pool_large list"
  p_cleanup :: "hky_pool_cleanup list"

text \<open>\<open>sizeof\<close> of the structures on an LP64 platform.\<close>

definition sizeof_pool :: nat where "sizeof_pool = 80"
definition sizeof_pool_data :: nat where "sizeof_pool_data = 32"
definition sizeof_large :: nat where "sizeof_large = 16"
definition sizeof_cleanup :: nat where "sizeof_cleanup = 24"

definition HKY_POOL_ALIGNMENT :: nat where "HKY_POOL_ALIGNMENT = 16"

definition HKY_MAX_ALLOC_FROM_POOL :: "nat \<Rightarrow> nat" where
  "HKY_MAX_ALLOC_FROM_POOL pagesize = pagesize - 1"

definition HKY_MIN_POOL_SIZE :: nat where
  "HKY_MIN_POOL_SIZE = hky_align (sizeof_pool + 2 * sizeof_large) HKY_POOL_ALIGNMENT"

lemmas pool_sizes = sizeof_pool_def sizeof_pool_data_def sizeof_large_def sizeof_cleanup_def
  HKY_POOL_ALIGNMENT_def HKY_ALIGNMENT_def

text \<open>\<open>size_t\<close> values.\<close>

definition size_t :: "int \<Rightarrow> nat" where "size_t x = nat (x mod 2 ^ 64)"

lemma size_t_id: "0 \<le> x \<Longrightarrow> x < 2 ^ 64 \<Longrightarrow> size_t x = nat x"
  by (simp add: size_t_def)

definition hky_create_pool :: "allocator \<Rightarrow> nat \<Rightarrow> nat \<Rightarrow> sys \<Rightarrow> hky_pool option" where
  "hky_create_pool os pagesize sz s =
     (let (p, s) = hky_memalign os HKY_POOL_ALIGNMENT sz s
      in if p = 0 then None
         else let sz' = size_t (int sz - int sizeof_pool)
              in Some (sys.extend s
                   (hky_pool.fields
                     [\<lparr>d_base = p, d_last = p + sizeof_pool, d_end = p + sz, d_failed = 0\<rparr>]
                     (if sz' < HKY_MAX_ALLOC_FROM_POOL pagesize then sz' else HKY_MAX_ALLOC_FROM_POOL pagesize)
                     0 0 [] [])))"

text \<open>The scan of the blocks in \<open>hky_palloc_small\<close>; \<open>end - m\<close> is converted to \<open>size_t\<close>.\<close>

fun palloc_scan :: "nat \<Rightarrow> bool \<Rightarrow> hky_pool_data list \<Rightarrow> (nat \<times> hky_pool_data list) option" where
  "palloc_scan sz align [] = None"
| "palloc_scan sz align (p # ps) =
     (let m = (if align then hky_align_ptr (d_last p) HKY_ALIGNMENT else d_last p)
      in if size_t (int (d_end p) - int m) \<ge> sz then Some (m, p\<lparr>d_last := m + sz\<rparr> # ps)
         else case palloc_scan sz align ps of None \<Rightarrow> None | Some (m, ps') \<Rightarrow> Some (m, p # ps'))"

text \<open>
  The loop at the end of \<open>hky_palloc_block\<close> over the blocks from \<open>current\<close> on: \<open>i\<close> is the
  position of the first of them and \<open>c\<close> the value of \<open>pool->current\<close>.
\<close>

fun palloc_bump :: "nat \<Rightarrow> nat \<Rightarrow> hky_pool_data list \<Rightarrow> nat \<times> hky_pool_data list" where
  "palloc_bump i c (p # q # ps) =
     (let c = (if d_failed p > 4 then Suc i else c);
          (c, qs) = palloc_bump (Suc i) c (q # ps)
      in (c, p\<lparr>d_failed := d_failed p + 1\<rparr> # qs))"
| "palloc_bump i c ps = (c, ps)"

definition hky_palloc_block :: "allocator \<Rightarrow> nat \<Rightarrow> hky_pool \<Rightarrow> nat \<times> hky_pool" where
  "hky_palloc_block os sz pool =
     (let psize = d_end (hd (p_blocks pool)) - d_base (hd (p_blocks pool));
          (m, pool) = hky_memalign os HKY_POOL_ALIGNMENT psize pool
      in if m = 0 then (0, pool)
         else let r = hky_align_ptr (m + sizeof_pool_data) HKY_ALIGNMENT;
                  new = \<lparr>d_base = m, d_last = r + sz, d_end = m + psize, d_failed = 0\<rparr>;
                  k = p_current pool;
                  (c, bs) = palloc_bump k k (drop k (p_blocks pool))
              in (r, pool\<lparr>p_current := c, p_blocks := take k (p_blocks pool) @ bs @ [new]\<rparr>))"

definition hky_palloc_small :: "allocator \<Rightarrow> nat \<Rightarrow> bool \<Rightarrow> hky_pool \<Rightarrow> nat \<times> hky_pool" where
  "hky_palloc_small os sz align pool =
     (let k = p_current pool
      in case palloc_scan sz align (drop k (p_blocks pool)) of
           Some (m, bs) \<Rightarrow> (m, pool\<lparr>p_blocks := take k (p_blocks pool) @ bs\<rparr>)
         | None \<Rightarrow> hky_palloc_block os sz pool)"

text \<open>The first five cells of the list of large allocations are tried for reuse.\<close>

fun large_reuse :: "nat \<Rightarrow> nat \<Rightarrow> hky_pool_large list \<Rightarrow> hky_pool_large list option" where
  "large_reuse p n [] = None"
| "large_reuse p n (l # ls) =
     (if l_alloc l = 0 then Some (l\<lparr>l_alloc := p\<rparr> # ls)
      else if n > 3 then None
      else case large_reuse p (n + 1) ls of None \<Rightarrow> None | Some ls' \<Rightarrow> Some (l # ls'))"

definition large_link :: "allocator \<Rightarrow> nat \<Rightarrow> hky_pool \<Rightarrow> nat \<times> hky_pool" where
  "large_link os p pool =
     (let (cell, pool) = hky_palloc_small os sizeof_large True pool
      in if cell = 0 then (0, hky_free p pool)
         else (p, pool\<lparr>p_large := \<lparr>l_cell = cell, l_alloc = p\<rparr> # p_large pool\<rparr>))"

definition hky_palloc_large :: "allocator \<Rightarrow> nat \<Rightarrow> hky_pool \<Rightarrow> nat \<times> hky_pool" where
  "hky_palloc_large os sz pool =
     (let (p, pool) = hky_alloc os sz pool
      in if p = 0 then (0, pool)
         else case large_reuse p 0 (p_large pool) of
                Some ls \<Rightarrow> (p, pool\<lparr>p_large := ls\<rparr>)
              | None \<Rightarrow> large_link os p pool)"

definition hky_palloc :: "allocator \<Rightarrow> nat \<Rightarrow> hky_pool \<Rightarrow> nat \<times> hky_pool" where
  "hky_palloc os sz pool =
     (if sz \<le> p_max pool then hky_palloc_small os sz True pool else hky_palloc_large os sz pool)"

definition hky_pnalloc :: "allocator \<Rightarrow> nat \<Rightarrow> hky_pool \<Rightarrow> nat \<times> hky_pool" where
  "hky_pnalloc os sz pool =
     (if sz \<le> p_max pool then hky_palloc_small os sz False pool else hky_palloc_large os sz pool)"

definition hky_pcalloc :: "allocator \<Rightarrow> nat \<Rightarrow> hky_pool \<Rightarrow> nat \<times> hky_pool" where
  "hky_pcalloc os sz pool =
     (let (p, pool) = hky_palloc os sz pool
      in if p \<noteq> 0 then (p, hky_memzero p sz pool) else (p, pool))"

definition hky_pmemalign :: "allocator \<Rightarrow> nat \<Rightarrow> nat \<Rightarrow> hky_pool \<Rightarrow> nat \<times> hky_pool" where
  "hky_pmemalign os sz alignment pool =
     (let (p, pool) = hky_memalign os alignment sz pool
      in if p = 0 then (0, pool) else large_link os p pool)"

fun pfree_loop :: "nat \<Rightarrow> hky_pool_large list \<Rightarrow> hky_pool_large list option" where
  "pfree_loop p [] = None"
| "pfree_loop p (l # ls) =
     (if p = l_alloc l then Some (l\<lparr>l_alloc := 0\<rparr> # ls)
      else case pfree_loop p ls of None \<Rightarrow> None | Some ls' \<Rightarrow> Some (l # ls'))"

definition hky_pfree :: "nat \<Rightarrow> hky_pool \<Rightarrow> int \<times> hky_pool" where
  "hky_pfree p pool =
     (case pfree_loop p (p_large pool) of
        Some ls \<Rightarrow> (HKY_OK, (hky_free p pool)\<lparr>p_large := ls\<rparr>)
      | None \<Rightarrow> (HKY_DECLINED, pool))"

fun free_larges :: "hky_pool_large list \<Rightarrow> 'a sys_scheme \<Rightarrow> 'a sys_scheme" where
  "free_larges [] s = s"
| "free_larges (l # ls) s = free_larges ls (if l_alloc l \<noteq> 0 then hky_free (l_alloc l) s else s)"

definition hky_reset_pool :: "hky_pool \<Rightarrow> hky_pool" where
  "hky_reset_pool pool =
     (free_larges (p_large pool) pool)
       \<lparr>p_blocks := map (\<lambda>p. p\<lparr>d_last := d_base p + sizeof_pool, d_failed := 0\<rparr>) (p_blocks pool),
        p_current := 0, p_chain := 0, p_large := []\<rparr>"

section \<open>The invariant of a pool\<close>

definition block_region :: "hky_pool_data \<Rightarrow> region" where
  "block_region b = (d_base b, d_end b - d_base b)"

definition live_ok :: "region list \<Rightarrow> bool" where
  "live_ok live \<longleftrightarrow> sorted_wrt disj live \<and> distinct (map fst live) \<and>
     (\<forall>r\<in>set live. 0 < fst r \<and> fst r + snd r < 2 ^ 64)"

text \<open>The block at position \<open>i\<close> of a pool whose blocks have the size \<open>n\<close>: the first one holds the
  header of the pool, the others the shorter header of a block.\<close>

definition block_header :: "nat \<Rightarrow> nat" where
  "block_header i = (if i = 0 then sizeof_pool else sizeof_pool_data)"

definition block_ok :: "nat \<Rightarrow> nat \<Rightarrow> hky_pool_data \<Rightarrow> bool" where
  "block_ok n i b \<longleftrightarrow> 16 dvd d_base b \<and> d_base b + block_header i \<le> d_last b \<and>
     d_last b \<le> d_end b \<and> d_end b = d_base b + n"

definition pool_ok :: "nat \<Rightarrow> hky_pool \<Rightarrow> bool" where
  "pool_ok n p \<longleftrightarrow> p_blocks p \<noteq> [] \<and> p_current p < length (p_blocks p) \<and> 8 dvd n \<and>
     p_max p + sizeof_pool \<le> n \<and>
     (\<forall>i<length (p_blocks p). block_ok n i (p_blocks p ! i)) \<and>
     distinct (map d_base (p_blocks p)) \<and> live_ok (sys_live p) \<and>
     (\<forall>b\<in>set (p_blocks p). block_region b \<in> set (sys_live p)) \<and>
     (\<forall>l\<in>set (p_large p). l_alloc l \<noteq> 0 \<longrightarrow>
        l_alloc l \<in> fst ` set (sys_live p) \<and> l_alloc l \<notin> d_base ` set (p_blocks p)) \<and>
     distinct (filter (\<lambda>a. a \<noteq> 0) (map l_alloc (p_large p)))"

text \<open>
  The memory in use: a chunk lies behind the header of one of the blocks, or it is a large
  allocation; no two chunks meet.
\<close>

definition used_region :: "nat \<Rightarrow> hky_pool_data \<Rightarrow> region" where
  "used_region i b = (d_base b + block_header i, d_last b - (d_base b + block_header i))"

definition chunk_ok :: "hky_pool \<Rightarrow> region \<Rightarrow> bool" where
  "chunk_ok p c \<longleftrightarrow> (\<exists>i<length (p_blocks p). inside c (used_region i (p_blocks p ! i))) \<or>
     (c \<in> set (sys_live p) \<and> fst c \<in> l_alloc ` set (p_large p))"

definition pool_inv :: "nat \<Rightarrow> hky_pool \<Rightarrow> region list \<Rightarrow> bool" where
  "pool_inv n p cs \<longleftrightarrow> pool_ok n p \<and> sorted_wrt disj cs \<and> (\<forall>c\<in>set cs. chunk_ok p c)"

lemma pool_okD:
  assumes "pool_ok n p"
  shows "p_blocks p \<noteq> []" "p_current p < length (p_blocks p)" "8 dvd n" "p_max p + 80 \<le> n"
    "i < length (p_blocks p) \<Longrightarrow> block_ok n i (p_blocks p ! i)" "live_ok (sys_live p)"
    "distinct (map d_base (p_blocks p))"
    "b \<in> set (p_blocks p) \<Longrightarrow> block_region b \<in> set (sys_live p)"
    "l \<in> set (p_large p) \<Longrightarrow> l_alloc l \<noteq> 0 \<Longrightarrow> l_alloc l \<in> fst ` set (sys_live p)"
    "l \<in> set (p_large p) \<Longrightarrow> l_alloc l \<noteq> 0 \<Longrightarrow> l_alloc l \<notin> d_base ` set (p_blocks p)"
    "distinct (filter (\<lambda>a. a \<noteq> 0) (map l_alloc (p_large p)))"
  using assms by (auto simp: pool_ok_def pool_sizes)

lemma live_ok_disj: "live_ok live \<Longrightarrow> r \<in> set live \<Longrightarrow> q \<in> set live \<Longrightarrow> r \<noteq> q \<Longrightarrow> disj r q"
  by (auto simp: live_ok_def intro: sorted_wrt_disj_in)

lemma used_inside_block: "block_ok n i b \<Longrightarrow> inside (used_region i b) (block_region b)"
  by (auto simp: block_ok_def used_region_def block_region_def inside_def)

lemma blocks_disj:
  assumes "pool_ok n p" "i < length (p_blocks p)" "j < length (p_blocks p)" "i \<noteq> j"
  shows "disj (block_region (p_blocks p ! i)) (block_region (p_blocks p ! j))"
proof -
  have "d_base (p_blocks p ! i) \<noteq> d_base (p_blocks p ! j)"
    using pool_okD(7) [OF assms(1)] assms(2-4) by (simp add: distinct_conv_nth)
  then have "block_region (p_blocks p ! i) \<noteq> block_region (p_blocks p ! j)"
    by (simp add: block_region_def)
  then show ?thesis
    using live_ok_disj [OF pool_okD(6) [OF assms(1)] pool_okD(8) [OF assms(1)] pool_okD(8) [OF assms(1)]] assms
    by simp
qed

lemma large_block_disj:
  assumes "pool_ok n p" "c \<in> set (sys_live p)" "fst c \<in> l_alloc ` set (p_large p)" "b \<in> set (p_blocks p)"
  shows "disj (block_region b) c"
proof (rule live_ok_disj [OF pool_okD(6) [OF assms(1)]])
  show "block_region b \<in> set (sys_live p)" using pool_okD(8) [OF assms(1)] assms(4) .
  obtain l where l: "l \<in> set (p_large p)" "fst c = l_alloc l" using assms(3) by blast
  have "0 < fst c" using pool_okD(6) [OF assms(1)] assms(2) by (simp add: live_ok_def)
  then have "fst c \<notin> d_base ` set (p_blocks p)" using pool_okD(10) [OF assms(1) l(1)] l(2) by simp
  then show "block_region b \<noteq> c" using assms(4) by (auto simp: block_region_def)
qed (rule assms(2))

subsection \<open>Allocation inside a block\<close>

text \<open>Moving the \<open>last\<close> pointer of block \<open>j\<close> from \<open>m\<close> to \<open>m + sz\<close> gives a fresh chunk.\<close>

lemma chunk_disj_unused:
  assumes "pool_ok n p" "chunk_ok p c" "j < length (p_blocks p)"
    "d_last (p_blocks p ! j) \<le> m" "m + sz \<le> d_end (p_blocks p ! j)"
  shows "disj (m, sz) c"
proof -
  let ?b = "p_blocks p ! j"
  have bj: "block_ok n j ?b" using pool_okD(5) [OF assms(1,3)] .
  have inb: "inside (m, sz) (block_region ?b)"
    using assms(4,5) bj by (auto simp: inside_def block_region_def block_ok_def)
  from assms(2) show ?thesis unfolding chunk_ok_def
  proof (elim disjE exE conjE)
    fix i assume i: "i < length (p_blocks p)" "inside c (used_region i (p_blocks p ! i))"
    show ?thesis
    proof (cases "i = j")
      case True
      with i(2) assms(4) bj show ?thesis by (auto simp: inside_def used_region_def disj_def block_ok_def)
    next
      case False
      have "inside c (block_region (p_blocks p ! i))"
        using inside_trans [OF i(2) used_inside_block [OF pool_okD(5) [OF assms(1) i(1)]]] .
      then show ?thesis using blocks_disj [OF assms(1,3) i(1)] False inb disj_inside by blast
    qed
  next
    assume "c \<in> set (sys_live p)" "fst c \<in> l_alloc ` set (p_large p)"
    then show ?thesis using large_block_disj [OF assms(1), of c ?b] assms(3) inb disj_inside [of "block_region ?b" c "(m, sz)" c]
      by simp
  qed
qed

lemma pool_inv_take:
  assumes inv: "pool_inv n p cs" and j: "j < length (p_blocks p)"
    and m: "d_last (p_blocks p ! j) \<le> m" "m + sz \<le> d_end (p_blocks p ! j)"
  shows "pool_inv n (p\<lparr>p_blocks := (p_blocks p)[j := (p_blocks p ! j)\<lparr>d_last := m + sz\<rparr>]\<rparr>) ((m, sz) # cs)"
    (is "pool_inv n ?p _")
proof -
  let ?b = "p_blocks p ! j"
  have ok: "pool_ok n p" using inv by (simp add: pool_inv_def)
  have bj: "block_ok n j ?b" using pool_okD(5) [OF ok j] .
  have nth: "p_blocks ?p ! i = (if i = j then ?b\<lparr>d_last := m + sz\<rparr> else p_blocks p ! i)"
    if "i < length (p_blocks p)" for i using that by (simp add: nth_list_update)
  have bases: "map d_base (p_blocks ?p) = map d_base (p_blocks p)"
    using j by (simp add: map_update) (metis list_update_id nth_map)
  have regs: "map block_region (p_blocks ?p) = map block_region (p_blocks p)"
    using j by (simp add: map_update block_region_def) (metis (no_types, lifting) block_region_def list_update_id nth_map)
  have bj': "block_ok n j (?b\<lparr>d_last := m + sz\<rparr>)" using bj m by (auto simp: block_ok_def)
  have blocks': "block_ok n i (p_blocks ?p ! i)" if "i < length (p_blocks p)" for i
    using pool_okD(5) [OF ok that] bj' j that by (cases "i = j") simp_all
  have regs': "block_region b \<in> set (sys_live p)" if "b \<in> set (p_blocks ?p)" for b
  proof -
    have "block_region b \<in> set (map block_region (p_blocks ?p))" unfolding set_map using that by (rule imageI)
    then obtain b' where "b' \<in> set (p_blocks p)" "block_region b = block_region b'"
      unfolding regs by auto
    then show ?thesis using pool_okD(8) [OF ok] by simp
  qed
  have bset: "d_base ` set (p_blocks ?p) = d_base ` set (p_blocks p)"
    using bases by (metis set_map)
  have "pool_ok n ?p"
    unfolding pool_ok_def
  proof (intro conjI)
    show "p_blocks ?p \<noteq> []" using pool_okD(1) [OF ok] by simp
    show "p_current ?p < length (p_blocks ?p)" using pool_okD(2) [OF ok] by simp
    show "8 dvd n" "p_max ?p + sizeof_pool \<le> n" using pool_okD(3,4) [OF ok] by (simp_all add: pool_sizes)
    show "\<forall>i<length (p_blocks ?p). block_ok n i (p_blocks ?p ! i)" using blocks' by (simp del: nth_list_update)
    show "distinct (map d_base (p_blocks ?p))" using pool_okD(7) [OF ok] bases by simp
    show "live_ok (sys_live ?p)" using pool_okD(6) [OF ok] by simp
    show "\<forall>b\<in>set (p_blocks ?p). block_region b \<in> set (sys_live ?p)" using regs' by simp
    show "\<forall>l\<in>set (p_large ?p). l_alloc l \<noteq> 0 \<longrightarrow>
        l_alloc l \<in> fst ` set (sys_live ?p) \<and> l_alloc l \<notin> d_base ` set (p_blocks ?p)"
      unfolding bset using pool_okD(9,10) [OF ok] by simp
    show "distinct (filter (\<lambda>a. a \<noteq> 0) (map l_alloc (p_large ?p)))" using pool_okD(11) [OF ok] by simp
  qed
  moreover have "chunk_ok ?p c" if "chunk_ok p c" for c
    using that unfolding chunk_ok_def
  proof (elim disjE exE conjE)
    fix i assume i: "i < length (p_blocks p)" "inside c (used_region i (p_blocks p ! i))"
    have "inside (used_region i (p_blocks p ! i)) (used_region i (p_blocks ?p ! i))"
      using pool_okD(5) [OF ok i(1)] m i(1) by (cases "i = j") (auto simp: used_region_def inside_def block_ok_def)
    then have "inside c (used_region i (p_blocks ?p ! i))" using i(2) inside_trans by blast
    then show "(\<exists>i<length (p_blocks ?p). inside c (used_region i (p_blocks ?p ! i))) \<or>
        c \<in> set (sys_live ?p) \<and> fst c \<in> l_alloc ` set (p_large ?p)" using i(1) by auto
  qed auto
  moreover have "chunk_ok ?p (m, sz)"
  proof -
    have "inside (m, sz) (used_region j (p_blocks ?p ! j))"
      using j bj m by (auto simp: inside_def used_region_def block_ok_def)
    then show ?thesis using j by (auto simp: chunk_ok_def)
  qed
  moreover have "\<forall>c\<in>set cs. disj (m, sz) c"
    using chunk_disj_unused [OF ok _ j m] inv by (simp add: pool_inv_def)
  ultimately show ?thesis using inv by (simp add: pool_inv_def)
qed

text \<open>The counters of failed attempts and the place where the search starts do not matter.\<close>

lemma pool_inv_failed:
  assumes inv: "pool_inv n p cs" and len: "length bs = length (p_blocks p)"
    and same: "\<forall>i<length bs. \<exists>k. bs ! i = (p_blocks p ! i)\<lparr>d_failed := k\<rparr>" and cur: "c < length bs"
  shows "pool_inv n (p\<lparr>p_current := c, p_blocks := bs\<rparr>) cs" (is "pool_inv n ?p _")
proof -
  have ok: "pool_ok n p" using inv by (simp add: pool_inv_def)
  have eq: "d_base (bs ! i) = d_base (p_blocks p ! i) \<and> d_last (bs ! i) = d_last (p_blocks p ! i) \<and>
      d_end (bs ! i) = d_end (p_blocks p ! i)" if "i < length bs" for i
    using same that by fastforce
  have bases: "map d_base bs = map d_base (p_blocks p)"
    by (rule nth_equalityI) (simp_all add: len eq [unfolded len])
  have regs: "map block_region bs = map block_region (p_blocks p)"
    by (rule nth_equalityI) (simp_all add: len eq [unfolded len] block_region_def)
  have bset: "d_base ` set bs = d_base ` set (p_blocks p)" using bases by (metis set_map)
  have rset: "block_region ` set bs = block_region ` set (p_blocks p)" using regs by (metis set_map)
  have "pool_ok n ?p"
    unfolding pool_ok_def
  proof (intro conjI)
    show "p_blocks ?p \<noteq> []" using cur by auto
    show "\<forall>i<length (p_blocks ?p). block_ok n i (p_blocks ?p ! i)"
    proof (intro allI impI)
      fix i assume i: "i < length (p_blocks ?p)"
      then have "block_ok n i (p_blocks p ! i)" using pool_okD(5) [OF ok] len by simp
      then show "block_ok n i (p_blocks ?p ! i)" using eq [of i] i by (simp add: block_ok_def)
    qed
    show "\<forall>b\<in>set (p_blocks ?p). block_region b \<in> set (sys_live ?p)"
    proof
      fix b assume "b \<in> set (p_blocks ?p)"
      then have "block_region b \<in> block_region ` set (p_blocks p)" unfolding rset [symmetric] by simp
      then show "block_region b \<in> set (sys_live ?p)" using pool_okD(8) [OF ok] by auto
    qed
    show "\<forall>l\<in>set (p_large ?p). l_alloc l \<noteq> 0 \<longrightarrow>
        l_alloc l \<in> fst ` set (sys_live ?p) \<and> l_alloc l \<notin> d_base ` set (p_blocks ?p)"
      using pool_okD(9,10) [OF ok] bset by simp
    show "distinct (map d_base (p_blocks ?p))" using pool_okD(7) [OF ok] bases by simp
  qed (use pool_okD(1-4,6,11) [OF ok] cur in \<open>simp_all add: pool_sizes\<close>)
  moreover have "chunk_ok ?p c" if "chunk_ok p c" for c
    using that eq len unfolding chunk_ok_def used_region_def by auto
  ultimately show ?thesis using inv by (simp add: pool_inv_def)
qed

lemma palloc_scan_Some:
  "palloc_scan sz al bs = Some (m, bs') \<Longrightarrow>
     \<exists>j<length bs. bs' = bs[j := (bs ! j)\<lparr>d_last := m + sz\<rparr>] \<and>
       m = (if al then hky_align_ptr (d_last (bs ! j)) HKY_ALIGNMENT else d_last (bs ! j)) \<and>
       sz \<le> size_t (int (d_end (bs ! j)) - int m)"
proof (induction bs arbitrary: bs')
  case (Cons p ps)
  let ?m = "if al then hky_align_ptr (d_last p) HKY_ALIGNMENT else d_last p"
  show ?case
  proof (cases "sz \<le> size_t (int (d_end p) - int ?m)")
    case True
    with Cons.prems show ?thesis by (auto simp: Let_def intro!: exI [of _ 0])
  next
    case False
    with Cons.prems obtain ps' where ps: "palloc_scan sz al ps = Some (m, ps')" "bs' = p # ps'"
      by (auto simp: Let_def split: option.splits)
    obtain j where j: "j < length ps" "ps' = ps[j := (ps ! j)\<lparr>d_last := m + sz\<rparr>]"
       "m = (if al then hky_align_ptr (d_last (ps ! j)) HKY_ALIGNMENT else d_last (ps ! j))"
       "sz \<le> size_t (int (d_end (ps ! j)) - int m)"
      using Cons.IH [OF ps(1)] by blast
    show ?thesis
    proof (intro exI [of _ "Suc j"] conjI)
      show "Suc j < length (p # ps)" using j(1) by simp
      show "bs' = (p # ps)[Suc j := ((p # ps) ! Suc j)\<lparr>d_last := m + sz\<rparr>]" by (simp only: ps(2) j(2) list_update_code nth_Cons_Suc)
    qed (unfold nth_Cons_Suc, rule j(3), rule j(4))
  qed
qed simp

lemma failed_self: "\<exists>k. b = b\<lparr>d_failed := k\<rparr>"
  by (rule exI [of _ "d_failed b"]) simp

lemma palloc_bump_spec:
  "palloc_bump i c bs = (c', bs') \<Longrightarrow>
     length bs' = length bs \<and> (\<forall>j<length bs. \<exists>k. bs' ! j = (bs ! j)\<lparr>d_failed := k\<rparr>) \<and>
     (c' = c \<or> i < c' \<and> c' < i + length bs)"
proof (induction i c bs arbitrary: c' bs' rule: palloc_bump.induct)
  case (1 i c p q ps)
  let ?c = "if d_failed p > 4 then Suc i else c"
  obtain c2 qs where r: "palloc_bump (Suc i) ?c (q # ps) = (c2, qs)" by fastforce
  with "1.prems" have e: "c' = c2" "bs' = p\<lparr>d_failed := d_failed p + 1\<rparr> # qs" by (auto simp: Let_def)
  note IH = "1.IH" [OF refl r]
  have "\<exists>k. bs' ! j = ((p # q # ps) ! j)\<lparr>d_failed := k\<rparr>" if "j < length (p # q # ps)" for j
    using that IH e(2) by (cases j) auto
  then show ?case using IH e by (auto split: if_splits)
qed (auto intro: failed_self)

lemma align_ptr_spec:
  assumes "m = (if al then hky_align_ptr l HKY_ALIGNMENT else l)" "8 dvd e" "l \<le> e"
  shows "l \<le> m" "m \<le> e" "al \<Longrightarrow> 8 dvd m"
  using assms align_8_bounds [of l] align_8_below [of e l] by (auto simp: pool_sizes)

text \<open>A new block, with an empty used part.\<close>

lemma pool_inv_new_block:
  assumes inv: "pool_inv n p cs" and os: "lawful_os os"
    and m: "hky_memalign os HKY_POOL_ALIGNMENT n p = (m, p')" "m \<noteq> 0"
    and b: "b = \<lparr>d_base = m, d_last = m + 32, d_end = m + n, d_failed = 0\<rparr>"
  shows "pool_inv n (p'\<lparr>p_blocks := p_blocks p @ [b]\<rparr>) cs" (is "pool_inv n ?p _")
proof -
  have ok: "pool_ok n p" using inv by (simp add: pool_inv_def)
  have p': "p' = p\<lparr>sys_live := (m, n) # sys_live p\<rparr>" and mos: "m = os 16 n (sys_live p)"
    using m by (auto simp: hky_memalign_def Let_def pool_sizes split: if_splits)
  have law: "16 dvd m" "m + n < 2 ^ 64" "m \<notin> fst ` set (sys_live p)" "\<forall>r\<in>set (sys_live p). disj (m, n) r"
    using os m(2) unfolding lawful_os_def mos by blast+
  have n: "80 \<le> n" "8 dvd n" using pool_okD(3,4) [OF ok] by simp_all
  have fresh: "m \<notin> d_base ` set (p_blocks p)"
    using pool_okD(8) [OF ok] law(3) by (force simp: block_region_def)
  have bok: "block_ok n i b" if "i \<noteq> 0" for i
    using law(1) n b that by (auto simp: block_ok_def block_header_def pool_sizes)
  have "pool_ok n ?p"
    unfolding pool_ok_def
  proof (intro conjI)
    show "\<forall>i<length (p_blocks ?p). block_ok n i (p_blocks ?p ! i)"
      using pool_okD(1,5) [OF ok] bok by (auto simp: nth_append less_Suc_eq)
    show "live_ok (sys_live ?p)"
      using pool_okD(6) [OF ok] law(2-4) m(2) by (auto simp: live_ok_def p')
    show "\<forall>c\<in>set (p_blocks ?p). block_region c \<in> set (sys_live ?p)"
      using pool_okD(8) [OF ok] b by (auto simp: p' block_region_def)
    show "\<forall>l\<in>set (p_large ?p). l_alloc l \<noteq> 0 \<longrightarrow>
        l_alloc l \<in> fst ` set (sys_live ?p) \<and> l_alloc l \<notin> d_base ` set (p_blocks ?p)"
      using pool_okD(9,10) [OF ok] law(3) b by (auto simp: p')
    show "distinct (map d_base (p_blocks ?p))" using pool_okD(7) [OF ok] fresh b by (simp add: p')
  qed (use pool_okD [OF ok] in \<open>auto simp: p' pool_sizes\<close>)
  moreover have "chunk_ok ?p c" if "chunk_ok p c" for c
    using that unfolding chunk_ok_def
  proof (elim disjE exE conjE)
    fix i assume "i < length (p_blocks p)" "inside c (used_region i (p_blocks p ! i))"
    then have "i < length (p_blocks ?p) \<and> inside c (used_region i (p_blocks ?p ! i))" by (simp add: nth_append)
    then show "(\<exists>i<length (p_blocks ?p). inside c (used_region i (p_blocks ?p ! i))) \<or>
        c \<in> set (sys_live ?p) \<and> fst c \<in> l_alloc ` set (p_large ?p)" by blast
  qed (simp add: p')
  ultimately show ?thesis using inv by (simp add: pool_inv_def)
qed

subsection \<open>The allocation functions\<close>

definition same_user :: "hky_pool \<Rightarrow> hky_pool \<Rightarrow> bool" where
  "same_user p q \<longleftrightarrow> sys_store q = sys_store p \<and> p_max q = p_max p \<and> p_large q = p_large p \<and>
     p_cleanup q = p_cleanup p \<and> p_chain q = p_chain p"

lemma palloc_block_inv:
  assumes inv: "pool_inv n p cs" and os: "lawful_os os" and sz: "sz + 32 \<le> n"
    and call: "hky_palloc_block os sz p = (r, p')"
  shows "(r = 0 \<and> p' = p) \<or>
    (r \<noteq> 0 \<and> 8 dvd r \<and> pool_inv n p' ((r, sz) # cs) \<and> same_user p p' \<and> set (sys_live p) \<subseteq> set (sys_live p') \<and>
     (\<forall>b\<in>set (p_blocks p'). d_base b \<in> d_base ` set (p_blocks p) \<or> d_base b \<notin> fst ` set (sys_live p)))"
proof -
  have ok: "pool_ok n p" using inv by (simp add: pool_inv_def)
  have bok0: "block_ok n 0 (p_blocks p ! 0)" using pool_okD(1,5) [OF ok] by blast
  then have psize: "d_end (hd (p_blocks p)) - d_base (hd (p_blocks p)) = n"
    using pool_okD(1) [OF ok] by (simp add: hd_conv_nth block_ok_def)
  obtain m q where mq: "hky_memalign os HKY_POOL_ALIGNMENT n p = (m, q)" by fastforce
  show ?thesis
  proof (cases "m = 0")
    case True
    then have "q = p" using mq by (auto simp: hky_memalign_def Let_def split: if_splits)
    then show ?thesis using call mq True psize by (simp add: hky_palloc_block_def)
  next
    case False
    let ?k = "p_current p"
    let ?b = "\<lparr>d_base = m, d_last = m + 32, d_end = m + n, d_failed = 0\<rparr>"
    have q: "q = p\<lparr>sys_live := (m, n) # sys_live p\<rparr>" and mos: "m = os 16 n (sys_live p)"
      using mq False by (auto simp: hky_memalign_def Let_def pool_sizes split: if_splits)
    have "16 dvd m" using os False unfolding lawful_os_def mos by blast
    then have "8 dvd m + 32" by presburger
    then have al: "hky_align_ptr (m + sizeof_pool_data) HKY_ALIGNMENT = m + 32"
      using align_8_bounds [of "m + 32"] align_8_below [of "m + 32" "m + 32"] by (auto simp: pool_sizes)
    obtain c bs where bump: "palloc_bump ?k ?k (drop ?k (p_blocks p)) = (c, bs)" by fastforce
    note spec = palloc_bump_spec [OF bump]
    have res: "r = m + 32"
      "p' = q\<lparr>p_current := c, p_blocks := take ?k (p_blocks p) @ bs @ [?b\<lparr>d_last := m + 32 + sz\<rparr>]\<rparr>"
      using call mq False psize bump al by (auto simp: hky_palloc_block_def q Let_def)
    let ?bs = "take ?k (p_blocks p) @ bs"
    have cur: "?k < length (p_blocks p)" using pool_okD(2) [OF ok] .
    have len: "length ?bs = length (p_blocks p)" using spec cur by simp
    have same: "\<exists>k. ?bs ! i = (p_blocks p ! i)\<lparr>d_failed := k\<rparr>" if "i < length (p_blocks p)" for i
    proof (cases "i < ?k")
      case True
      then show ?thesis using that by (auto simp: nth_append intro!: exI [of _ "d_failed (p_blocks p ! i)"])
    next
      case False
      then have "i - ?k < length (drop ?k (p_blocks p))" using that by simp
      then obtain k where "bs ! (i - ?k) = (drop ?k (p_blocks p) ! (i - ?k))\<lparr>d_failed := k\<rparr>" using spec by blast
      then show ?thesis using False that cur by (auto simp: nth_append)
    qed
    let ?p1 = "q\<lparr>p_blocks := p_blocks p @ [?b]\<rparr>"
    have inv1: "pool_inv n ?p1 cs" using pool_inv_new_block [OF inv os mq False refl] .
    let ?p2 = "?p1\<lparr>p_current := c, p_blocks := ?bs @ [?b]\<rparr>"
    have "pool_inv n ?p2 cs"
    proof (rule pool_inv_failed [OF inv1])
      show "length (?bs @ [?b]) = length (p_blocks ?p1)" using len by simp
      show "\<forall>i<length (?bs @ [?b]). \<exists>k. (?bs @ [?b]) ! i = (p_blocks ?p1 ! i)\<lparr>d_failed := k\<rparr>"
      proof (intro allI impI)
        fix i assume "i < length (?bs @ [?b])"
        then consider "i < length (p_blocks p)" | "i = length (p_blocks p)" using len by fastforce
        then show "\<exists>k. (?bs @ [?b]) ! i = (p_blocks ?p1 ! i)\<lparr>d_failed := k\<rparr>"
        proof cases
          case 1
          then have "(?bs @ [?b]) ! i = ?bs ! i" "p_blocks ?p1 ! i = p_blocks p ! i" using len nth_append [of ?bs "[?b]" i] nth_append [of "p_blocks p" "[?b]" i] by simp_all
          then show ?thesis using same [OF 1] by simp
        next
          case 2
          then have "(?bs @ [?b]) ! i = ?b" "p_blocks ?p1 ! i = ?b" using len nth_append_length [of ?bs ?b "[]"] by simp_all
          then show ?thesis by (auto intro!: exI [of _ 0])
        qed
      qed
      show "c < length (?bs @ [?b])" using spec cur len by auto
    qed
    moreover have j: "length ?bs < length (p_blocks ?p2)" by simp
    moreover have pb: "p_blocks ?p2 = ?bs @ [?b]" by simp
    moreover have bj: "p_blocks ?p2 ! length ?bs = ?b" unfolding pb by (rule nth_append_length)
    ultimately have "pool_inv n (?p2\<lparr>p_blocks := (p_blocks ?p2)[length ?bs := ?b\<lparr>d_last := m + 32 + sz\<rparr>]\<rparr>) ((m + 32, sz) # cs)"
      using pool_inv_take [of n ?p2 cs "length ?bs" "m + 32" sz] sz by (simp only: bj) simp
    moreover have "(?bs @ [?b])[length ?bs := ?b\<lparr>d_last := m + 32 + sz\<rparr>] = ?bs @ [?b\<lparr>d_last := m + 32 + sz\<rparr>]"
      by (simp only: list_update_length)
    ultimately have "pool_inv n p' ((r, sz) # cs)" using res by simp
    moreover have "same_user p p'" "set (sys_live p) \<subseteq> set (sys_live p')" using res q by (auto simp: same_user_def)
    moreover have "d_base b \<in> d_base ` set (p_blocks p) \<or> d_base b \<notin> fst ` set (sys_live p)" if "b \<in> set (p_blocks p')" for b
    proof -
      have "m \<notin> fst ` set (sys_live p)" using os False unfolding lawful_os_def mos by blast
      moreover have "d_base b = m \<or> b \<in> set ?bs" using that res(2) by auto
      moreover have "d_base b \<in> d_base ` set (p_blocks p)" if b: "b \<in> set ?bs"
      proof -
        obtain i where i: "i < length (p_blocks p)" "?bs ! i = b" using b len by (metis in_set_conv_nth)
        then have "d_base b = d_base (p_blocks p ! i)" using same [OF i(1)] by force
        then show ?thesis using i(1) by simp
      qed
      ultimately show ?thesis by auto
    qed
    ultimately show ?thesis using res(1) \<open>8 dvd m + 32\<close> by simp
  qed
qed

lemma palloc_small_inv:
  assumes inv: "pool_inv n p cs" and os: "lawful_os os" and sz: "sz + 32 \<le> n"
    and call: "hky_palloc_small os sz al p = (r, p')"
  shows "(r = 0 \<and> p' = p) \<or>
    (r \<noteq> 0 \<and> (al \<longrightarrow> 8 dvd r) \<and> pool_inv n p' ((r, sz) # cs) \<and> same_user p p' \<and>
     set (sys_live p) \<subseteq> set (sys_live p') \<and>
     (\<forall>b\<in>set (p_blocks p'). d_base b \<in> d_base ` set (p_blocks p) \<or> d_base b \<notin> fst ` set (sys_live p)))"
proof (cases "palloc_scan sz al (drop (p_current p) (p_blocks p))")
  case None
  then have "hky_palloc_block os sz p = (r, p')" using call by (simp add: hky_palloc_small_def)
  from palloc_block_inv [OF inv os sz this] show ?thesis by blast
next
  case (Some mb)
  let ?k = "p_current p"
  let ?bs = "drop ?k (p_blocks p)"
  obtain m bs where mb: "mb = (m, bs)" by fastforce
  have ok: "pool_ok n p" using inv by (simp add: pool_inv_def)
  obtain j where j: "j < length ?bs" "bs = ?bs[j := (?bs ! j)\<lparr>d_last := m + sz\<rparr>]"
    "m = (if al then hky_align_ptr (d_last (?bs ! j)) HKY_ALIGNMENT else d_last (?bs ! j))"
    "sz \<le> size_t (int (d_end (?bs ! j)) - int m)"
    using palloc_scan_Some [OF Some [unfolded mb]] by blast
  let ?j = "?k + j"
  have nth: "?bs ! j = p_blocks p ! ?j" using j(1) by (simp add: add.commute)
  have j': "?j < length (p_blocks p)" using j(1) by simp
  have bok: "block_ok n ?j (p_blocks p ! ?j)" using pool_okD(5) [OF ok j'] .
  have "block_region (p_blocks p ! ?j) \<in> set (sys_live p)" using pool_okD(8) [OF ok] j' by simp
  then have base: "0 < d_base (p_blocks p ! ?j)" and top: "d_end (p_blocks p ! ?j) < 2 ^ 64"
    using pool_okD(6) [OF ok] bok by (auto simp: live_ok_def block_region_def block_ok_def)
  have "8 dvd d_end (p_blocks p ! ?j)"
    using bok pool_okD(3) [OF ok] by (auto simp: block_ok_def intro: dvd_add dvd_trans [of 8 16])
  then have m: "d_last (p_blocks p ! ?j) \<le> m" "m \<le> d_end (p_blocks p ! ?j)" "al \<Longrightarrow> 8 dvd m"
    using align_ptr_spec [OF j(3), of "d_end (p_blocks p ! ?j)"] bok nth by (auto simp: block_ok_def)
  then have fits: "m + sz \<le> d_end (p_blocks p ! ?j)"
    using j(4) top nth by (simp add: size_t_id of_nat_diff nat_diff_distrib')
  have upd: "take ?k (p_blocks p) @ bs = (p_blocks p)[?j := (p_blocks p ! ?j)\<lparr>d_last := m + sz\<rparr>]"
    unfolding j(2) nth by (metis append_take_drop_id drop_update_swap le_add1 add_diff_cancel_left' take_update_cancel)
  have "p' = p\<lparr>p_blocks := (p_blocks p)[?j := (p_blocks p ! ?j)\<lparr>d_last := m + sz\<rparr>]\<rparr>" "r = m"
    using call Some mb upd by (auto simp: hky_palloc_small_def Let_def)
  moreover have "d_base ` set ((p_blocks p)[?j := (p_blocks p ! ?j)\<lparr>d_last := m + sz\<rparr>]) = d_base ` set (p_blocks p)"
    using j' by (metis hky_pool_data.select_convs(1) hky_pool_data.surjective hky_pool_data.update_convs(2) list_update_id map_update set_map)
  ultimately show ?thesis
    using pool_inv_take [OF inv j' m(1) fits] m base bok by (auto simp: same_user_def block_ok_def)
qed

lemma hky_alloc_fails: "hky_alloc os sz s = (r, s') \<Longrightarrow> r = 0"
  by (auto simp: hky_alloc_def split: prod.splits)

text \<open>More blocks of the C library in use do no harm.\<close>

lemma pool_inv_live:
  assumes inv: "pool_inv n p cs" and live: "live_ok live" "set (sys_live p) \<subseteq> set live"
  shows "pool_inv n (p\<lparr>sys_live := live\<rparr>) cs"
proof -
  have ok: "pool_ok n p" using inv by (simp add: pool_inv_def)
  have "pool_ok n (p\<lparr>sys_live := live\<rparr>)"
    unfolding pool_ok_def
  proof (intro conjI)
    show "\<forall>l\<in>set (p_large (p\<lparr>sys_live := live\<rparr>)). l_alloc l \<noteq> 0 \<longrightarrow>
        l_alloc l \<in> fst ` set (sys_live (p\<lparr>sys_live := live\<rparr>)) \<and> l_alloc l \<notin> d_base ` set (p_blocks (p\<lparr>sys_live := live\<rparr>))"
      using pool_okD(9,10) [OF ok] image_mono [OF live(2), of fst] by auto
    show "\<forall>b\<in>set (p_blocks (p\<lparr>sys_live := live\<rparr>)). block_region b \<in> set (sys_live (p\<lparr>sys_live := live\<rparr>))"
      using pool_okD(8) [OF ok] live(2) by auto
  qed (use pool_okD(1-7,11) [OF ok] live in \<open>simp_all add: pool_sizes\<close>)
  moreover have "chunk_ok (p\<lparr>sys_live := live\<rparr>) c" if "chunk_ok p c" for c
    using that live(2) by (auto simp: chunk_ok_def)
  ultimately show ?thesis using inv by (simp add: pool_inv_def)
qed

lemma memalign_live:
  assumes "live_ok (sys_live s)" "lawful_os os" "hky_memalign os al sz s = (p, s')"
  shows "live_ok (sys_live s')" "set (sys_live s) \<subseteq> set (sys_live s')"
    "s' = s\<lparr>sys_live := sys_live s'\<rparr>" "p \<noteq> 0 \<Longrightarrow> sys_live s' = (p, sz) # sys_live s \<and> al dvd p"
proof -
  have "p = 0 \<and> s' = s \<or> p \<noteq> 0 \<and> p = os al sz (sys_live s) \<and> s' = s\<lparr>sys_live := (p, sz) # sys_live s\<rparr>"
    using assms(3) by (auto simp: hky_memalign_def Let_def split: if_splits)
  then show "live_ok (sys_live s')" "set (sys_live s) \<subseteq> set (sys_live s')"
    "s' = s\<lparr>sys_live := sys_live s'\<rparr>" "p \<noteq> 0 \<Longrightarrow> sys_live s' = (p, sz) # sys_live s \<and> al dvd p"
    using assms(1,2) by (auto simp: live_ok_def lawful_os_def)
qed

lemma palloc_large_inv:
  assumes inv: "pool_inv n p cs" and os: "lawful_os os" and call: "hky_palloc_large os sz p = (r, p')"
  shows "r = 0" "pool_inv n p' cs" "same_user p p'" "set (sys_live p) \<subseteq> set (sys_live p')"
proof -
  obtain q live where q: "hky_memalign os 16 sz p = (q, live)" by fastforce
  have e: "r = 0 \<and> p' = live" using call q by (simp add: hky_palloc_large_def hky_alloc_def)
  have l: "live_ok (sys_live p)" using inv by (simp add: pool_inv_def pool_ok_def)
  note m = memalign_live [OF l os q]
  show "r = 0" using e by simp
  show "pool_inv n p' cs" using pool_inv_live [OF inv m(1,2)] m(3) e by metis
  show "set (sys_live p) \<subseteq> set (sys_live p')" using m(2) e by simp
  obtain live where "p' = p\<lparr>sys_live := live\<rparr>" using m(3) e by metis
  then show "same_user p p'" by (simp add: same_user_def)
qed

lemma palloc_inv:
  assumes inv: "pool_inv n p cs" and os: "lawful_os os"
    and call: "(if sz \<le> p_max p then hky_palloc_small os sz al p else hky_palloc_large os sz p) = (r, p')"
  shows "same_user p p'" "r = 0 \<Longrightarrow> pool_inv n p' cs"
    "r \<noteq> 0 \<Longrightarrow> sz \<le> p_max p \<and> (al \<longrightarrow> 8 dvd r) \<and> pool_inv n p' ((r, sz) # cs)"
proof -
  have n: "p_max p + 80 \<le> n" using inv by (simp add: pool_inv_def pool_ok_def pool_sizes)
  have *: "same_user p p' \<and> (r = 0 \<longrightarrow> pool_inv n p' cs) \<and>
      (r \<noteq> 0 \<longrightarrow> sz \<le> p_max p \<and> (al \<longrightarrow> 8 dvd r) \<and> pool_inv n p' ((r, sz) # cs))"
  proof (cases "sz \<le> p_max p")
    case True
    then have "hky_palloc_small os sz al p = (r, p')" "sz + 32 \<le> n" using call n by simp_all
    from palloc_small_inv [OF inv os this(2,1)] show ?thesis using inv True by (auto simp: same_user_def)
  next
    case False
    then have "hky_palloc_large os sz p = (r, p')" using call by simp
    from palloc_large_inv [OF inv os this] show ?thesis by simp
  qed
  then show "same_user p p'" "r = 0 \<Longrightarrow> pool_inv n p' cs"
    "r \<noteq> 0 \<Longrightarrow> sz \<le> p_max p \<and> (al \<longrightarrow> 8 dvd r) \<and> pool_inv n p' ((r, sz) # cs)" by blast+
qed

lemma create_pool_inv:
  assumes os: "lawful_os os" and live: "live_ok (sys_live s)" and sz: "8 dvd sz" "80 \<le> sz"
    and call: "hky_create_pool os pagesize sz s = Some p"
  shows "pool_inv sz p []" "p_max p = min (sz - 80) (pagesize - 1)"
proof -
  obtain m s' where m: "hky_memalign os HKY_POOL_ALIGNMENT sz s = (m, s')" by fastforce
  have m0: "m \<noteq> 0" using call m by (auto simp: hky_create_pool_def split: if_splits)
  note l = memalign_live [OF live os m]
  have live': "sys_live s' = (m, sz) # sys_live s" "16 dvd m" using l(4) m0 by (simp_all add: pool_sizes)
  have "m + sz < 2 ^ 64" using l(1) live'(1) by (simp add: live_ok_def)
  then have s64: "size_t (int sz - int sizeof_pool) = sz - 80"
    using sz by (simp add: size_t_id pool_sizes nat_diff_distrib)
  have p: "p = sys.extend s' (hky_pool.fields [\<lparr>d_base = m, d_last = m + 80, d_end = m + sz, d_failed = 0\<rparr>]
      (min (sz - 80) (pagesize - 1)) 0 0 [] [])"
    using call m m0 s64 by (auto simp: hky_create_pool_def Let_def min_def HKY_MAX_ALLOC_FROM_POOL_def pool_sizes split: if_splits)
  have f: "p_blocks p = [\<lparr>d_base = m, d_last = m + 80, d_end = m + sz, d_failed = 0\<rparr>]" "p_current p = 0"
    "p_large p = []" "sys_live p = sys_live s'" "p_max p = min (sz - 80) (pagesize - 1)"
    by (simp_all add: p sys.defs hky_pool.defs)
  show "p_max p = min (sz - 80) (pagesize - 1)" by (rule f)
  show "pool_inv sz p []"
    using l(1) live' sz
    by (auto simp: pool_inv_def pool_ok_def f block_ok_def block_header_def block_region_def pool_sizes)
qed

section \<open>The interface of the allocators\<close>

text \<open>
  What the clients of a pool rely on: allocation returns \<open>NULL\<close> or the address of a chunk that
  meets no chunk in use, and does not touch the memory of the chunks. A pool is aligned when
  every address is a multiple of the platform word.
\<close>

locale pool_allocator =
  fixes alloc :: "nat \<Rightarrow> 's \<Rightarrow> nat \<times> 's"
    and inv :: "'s \<Rightarrow> region list \<Rightarrow> bool"
    and mem :: "'s \<Rightarrow> nat \<Rightarrow> byte"
  assumes alloc_fresh: "inv s cs \<Longrightarrow> alloc sz s = (r, s') \<Longrightarrow> r \<noteq> 0 \<Longrightarrow> inv s' ((r, sz) # cs)"
    and alloc_null: "inv s cs \<Longrightarrow> alloc sz s = (0, s') \<Longrightarrow> inv s' cs"
    and alloc_mem: "inv s cs \<Longrightarrow> alloc sz s = (r, s') \<Longrightarrow> mem s' = mem s"
    and chunks_disj: "inv s cs \<Longrightarrow> sorted_wrt disj cs"
begin

lemma fresh_disj:
  assumes "inv s cs" "alloc sz s = (r, s')" "r \<noteq> 0" "c \<in> set cs"
  shows "disj (r, sz) c"
  using chunks_disj [OF alloc_fresh [OF assms(1-3)]] assms(4) by simp

text \<open>Two allocations in a row, the second of which decides.\<close>

lemma alloc2:
  assumes "inv s cs" "alloc a s = (r, s1)" "r \<noteq> 0" "alloc b s1 = (q, s2)"
  shows "q = 0 \<Longrightarrow> inv s2 ((r, a) # cs)" "q \<noteq> 0 \<Longrightarrow> inv s2 ((q, b) # (r, a) # cs)" "mem s2 = mem s"
  using alloc_fresh [OF assms(1-3)] assms(4) alloc_null alloc_fresh alloc_mem assms(1,2) by metis+

end

locale aligned_allocator = pool_allocator +
  assumes alloc_aligned: "inv s cs \<Longrightarrow> alloc sz s = (r, s') \<Longrightarrow> 8 dvd r"
begin

lemma element_aligned:
  assumes "inv s cs" "alloc sz s = (r, s')" "8 dvd esz"
  shows "8 dvd r + esz * i"
  using alloc_aligned [OF assms(1,2)] assms(3) by simp

end

definition palloc_inv_of :: "allocator \<Rightarrow> hky_pool \<Rightarrow> region list \<Rightarrow> bool" where
  "palloc_inv_of os p cs \<longleftrightarrow> lawful_os os \<and> (\<exists>n. pool_inv n p cs)"

interpretation pnalloc: pool_allocator "hky_pnalloc os" "palloc_inv_of os" sys_store for os
proof
  fix p p' :: hky_pool and cs sz r
  assume inv: "palloc_inv_of os p cs"
  then obtain n where n: "pool_inv n p cs" "lawful_os os" by (auto simp: palloc_inv_of_def)
  show "sorted_wrt disj cs" using n by (simp add: pool_inv_def)
  assume call: "hky_pnalloc os sz p = (r, p')"
  note * = palloc_inv [OF n call [unfolded hky_pnalloc_def]]
  show "sys_store p' = sys_store p" using *(1) by (simp add: same_user_def)
  show "palloc_inv_of os p' ((r, sz) # cs)" if "r \<noteq> 0" using *(3) [OF that] n(2) by (auto simp: palloc_inv_of_def)
next
  fix p p' :: hky_pool and cs sz
  assume "palloc_inv_of os p cs" and call: "hky_pnalloc os sz p = (0, p')"
  then obtain n where n: "pool_inv n p cs" "lawful_os os" by (auto simp: palloc_inv_of_def)
  show "palloc_inv_of os p' cs"
    using palloc_inv(2) [OF n call [unfolded hky_pnalloc_def]] n(2) by (auto simp: palloc_inv_of_def)
qed

interpretation palloc: aligned_allocator "hky_palloc os" "palloc_inv_of os" sys_store for os
proof
  fix p p' :: hky_pool and cs sz r
  assume inv: "palloc_inv_of os p cs"
  then obtain n where n: "pool_inv n p cs" "lawful_os os" by (auto simp: palloc_inv_of_def)
  show "sorted_wrt disj cs" using n by (simp add: pool_inv_def)
  assume call: "hky_palloc os sz p = (r, p')"
  note * = palloc_inv [OF n call [unfolded hky_palloc_def]]
  show "sys_store p' = sys_store p" using *(1) by (simp add: same_user_def)
  show "palloc_inv_of os p' ((r, sz) # cs)" if "r \<noteq> 0" using *(3) [OF that] n(2) by (auto simp: palloc_inv_of_def)
  show "8 dvd r" using *(3) by (cases "r = 0") simp_all
next
  fix p p' :: hky_pool and cs sz
  assume "palloc_inv_of os p cs" and call: "hky_palloc os sz p = (0, p')"
  then obtain n where n: "pool_inv n p cs" "lawful_os os" by (auto simp: palloc_inv_of_def)
  show "palloc_inv_of os p' cs"
    using palloc_inv(2) [OF n call [unfolded hky_palloc_def]] n(2) by (auto simp: palloc_inv_of_def)
qed

section \<open>An example pool\<close>

text \<open>An allocator of the C library that always takes fresh memory, for the examples.\<close>

definition bump_os :: allocator where
  "bump_os al sz live =
     (let tp = foldr (\<lambda>r t. max (Suc (fst r + snd r)) t) live 4096;
          a = (tp + al - 1) div al * al
      in if al = 0 \<or> 2 ^ 64 \<le> a + sz then 0 else a)"

lemma foldr_top: "r \<in> set live \<Longrightarrow> fst r + snd r < foldr (\<lambda>r t. max (Suc (fst r + snd r)) t) live t"
  by (induction live) auto

lemma foldr_top_ge: "t \<le> foldr (\<lambda>r t. max (Suc (fst r + snd r)) t) live t"
  by (induction live) auto

lemma round_up_ge:
  assumes "0 < al"
  shows "tp \<le> (tp + al - 1) div al * (al :: nat)"
proof -
  have "(tp + al - 1) mod al < al" using assms by simp
  moreover have "(tp + al - 1) div al * al + (tp + al - 1) mod al = tp + al - 1" by simp
  ultimately show ?thesis using assms by linarith
qed

lemma lawful_bump_os: "lawful_os bump_os"
  unfolding lawful_os_def
proof (intro allI impI)
  fix al sz and live :: "region list"
  assume nz: "bump_os al sz live \<noteq> 0"
  let ?tp = "foldr (\<lambda>r t. max (Suc (fst r + snd r)) t) live 4096"
  let ?a = "(?tp + al - 1) div al * al"
  have al: "al \<noteq> 0" "?a + sz < 2 ^ 64" "bump_os al sz live = ?a"
    using nz by (auto simp: bump_os_def Let_def split: if_splits)
  have above: "fst r + snd r < ?a" if "r \<in> set live" for r
    using foldr_top [OF that, of 4096] round_up_ge [of al ?tp] al(1) by simp
  show "al dvd bump_os al sz live \<and> bump_os al sz live + sz < 2 ^ 64 \<and> bump_os al sz live \<notin> fst ` set live \<and>
      (\<forall>r\<in>set live. disj (bump_os al sz live, sz) r)"
    using al above by (fastforce simp: disj_def)
qed

definition boot :: sys where "boot = \<lparr>sys_live = [], sys_store = (\<lambda>a. 0)\<rparr>"

definition sample_pool :: hky_pool where
  "sample_pool = the (hky_create_pool bump_os 4096 1024 boot)"

lemma sample_pool_created: "hky_create_pool bump_os 4096 1024 boot = Some sample_pool"
  by (simp add: sample_pool_def hky_create_pool_def hky_memalign_def bump_os_def boot_def pool_sizes Let_def)

lemma sample_pool_inv: "pool_inv 1024 sample_pool []"
  using create_pool_inv(1) [OF lawful_bump_os _ _ _ sample_pool_created] by (simp add: boot_def live_ok_def)

end
