(* ===== verification/Hky_Inet.thy ===== *)
theory Hky_Inet
  imports Husky_Base Hky_String Hky_Printf Hky_Palloc
begin

text \<open>
  Internet addresses, first part of src/core/hky_inet.c: the text forms of IPv4 and IPv6
  addresses (\<open>hky_inet_addr\<close>, \<open>hky_inet6_addr\<close>, \<open>hky_inet6_ntop\<close>, \<open>hky_sock_ntop\<close>) and the
  comparison \<open>hky_cmp_sockaddr\<close>.

  The platform is little-endian (\<open>htonl\<close> swaps the bytes) and has IPv6 and UNIX domain sockets.
  The branches for them do not compile as they are written; the model takes \<open>null\<close> for
  \<open>NULL\<close>, \<open>sum_path\<close> for \<open>sun_path\<close>, \<open>post\<close> for \<open>port\<close> and \<open>u->addr\<close> for \<open>u->addrs\<close>, and is otherwise
  as written. A socket address is a value of the datatype \<open>sockaddr\<close>, one constructor per family
  with the members the code uses, ports and IPv4 addresses in network byte order.
\<close>

section \<open>Byte order and socket addresses\<close>

type_synonym u16 = "16 word"

definition htonl :: "u32 \<Rightarrow> u32" where
  "htonl w = push_bit 24 w OR (push_bit 8 w AND 0xff0000) OR (drop_bit 8 w AND 0xff00) OR drop_bit 24 w"

definition htons :: "u16 \<Rightarrow> u16" where
  "htons w = push_bit 8 w OR drop_bit 8 w"

text \<open>The four bytes of an \<open>in_addr_t\<close> in memory.\<close>

definition mem_byte :: "u32 \<Rightarrow> nat \<Rightarrow> byte" where
  "mem_byte w i = ucast (drop_bit (8 * i) w)"

definition INADDR_NONE :: u32 where [hky_consts]: "INADDR_NONE = 0xffffffff"
definition INADDR_ANY :: u32 where [hky_consts]: "INADDR_ANY = 0"

definition AF_UNSPEC :: nat where [hky_consts]: "AF_UNSPEC = 0"
definition AF_UNIX :: nat where [hky_consts]: "AF_UNIX = 1"
definition AF_INET :: nat where [hky_consts]: "AF_INET = 2"
definition AF_INET6 :: nat where [hky_consts]: "AF_INET6 = 10"

datatype sockaddr =
    Sin (sa_port: u16) (sin_addr: u32)
  | Sin6 (sa_port: u16) (sin6_addr: "byte list")
  | Sun (sun_path: "byte list")
  | Sa_other (sa_other_family: nat) (sa_port: u16) (other_addr: u32)

fun sa_family_of :: "sockaddr \<Rightarrow> nat" where
  "sa_family_of (Sin _ _) = AF_INET"
| "sa_family_of (Sin6 _ _) = AF_INET6"
| "sa_family_of (Sun _) = AF_UNIX"
| "sa_family_of (Sa_other f _ _) = f"

definition sizeof_sockaddr_in :: nat where [hky_consts]: "sizeof_sockaddr_in = 16"
definition sizeof_sockaddr_in6 :: nat where [hky_consts]: "sizeof_sockaddr_in6 = 28"
definition sizeof_sun_path :: nat where [hky_consts]: "sizeof_sun_path = 108"
definition offsetof_sun_path :: nat where [hky_consts]: "offsetof_sun_path = 2"

definition HKY_INET_ADDRSTRLEN :: nat where [hky_consts]: "HKY_INET_ADDRSTRLEN = 15"
definition HKY_INET6_ADDRSTRLEN :: nat where [hky_consts]: "HKY_INET6_ADDRSTRLEN = 45"

section \<open>Dotted quads\<close>

fun inet_addr_loop :: "byte list \<Rightarrow> nat \<Rightarrow> u32 \<Rightarrow> u64 \<Rightarrow> nat \<Rightarrow> u32 option" where
  "inet_addr_loop p 0 addr octet n =
     (if n = 3 then Some (htonl (push_bit 8 addr + ucast octet)) else Some INADDR_NONE)"
| "inet_addr_loop [] (Suc len) addr octet n = None"
| "inet_addr_loop (c # p) (Suc len) addr octet n =
     (if c \<ge> 48 \<and> c \<le> 57 then
        let octet = octet * 10 + (ucast c - 48)
        in if octet > 255 then Some INADDR_NONE else inet_addr_loop p len addr octet n
      else if c = 46 then inet_addr_loop p len (push_bit 8 addr + ucast octet) 0 (n + 1)
      else Some INADDR_NONE)"

definition hky_inet_addr :: "byte list \<Rightarrow> nat \<Rightarrow> u32 option" where
  "hky_inet_addr text len = inet_addr_loop text len 0 0 0"

section \<open>IPv6 text to address\<close>

text \<open>
  The loop state: the bytes stored at the address, \<open>zero\<close> and \<open>digit\<close> (where the run of zeros
  was left out; the text and the length after the last colon), the number of nibbles and the
  value of the current word, and the words still missing.
\<close>

record inet6_state =
  i6_addr :: "byte list"
  i6_zero :: "nat option"
  i6_digit :: "(byte list \<times> nat) option"
  i6_nibbles :: nat
  i6_word :: u64
  i6_n :: nat

definition word_bytes :: "u64 \<Rightarrow> byte list" where
  "word_bytes word = [ucast (drop_bit 8 word), ucast (word AND 0xff)]"

datatype inet6_exit = I6_error | I6_end inet6_state

text \<open>The dotted tail of an address, \<open>*addr++ = (hky_uchar) ((word >> 24) * 0xff)\<close> included.\<close>

definition inet6_dotted :: "inet6_state \<Rightarrow> inet6_exit option" where
  "inet6_dotted s =
     (case i6_digit s of None \<Rightarrow> Some I6_error
      | Some (digit, len4) \<Rightarrow>
          if i6_n s < 2 then Some I6_error
          else case hky_inet_addr digit (len4 - 1) of None \<Rightarrow> None
          | Some a \<Rightarrow>
              if a = INADDR_NONE then Some I6_error
              else let word = ucast (htonl a) :: u64
                in Some (I6_end (s\<lparr>i6_addr := i6_addr s @ [ucast (drop_bit 24 word * 0xff), ucast (drop_bit 16 word * 0xff)],
                     i6_word := word, i6_n := i6_n s - 1\<rparr>)))"

fun inet6_loop :: "byte list \<Rightarrow> nat \<Rightarrow> inet6_state \<Rightarrow> inet6_exit option" where
  "inet6_loop p 0 s = Some (I6_end s)"
| "inet6_loop [] (Suc len) s = None"
| "inet6_loop (c # p) (Suc len) s =
     (if c = 58 then
        if i6_nibbles s \<noteq> 0 then
          let s = s\<lparr>i6_digit := Some (p, Suc len), i6_addr := i6_addr s @ word_bytes (i6_word s),
                i6_n := i6_n s - 1\<rparr>
          in if i6_n s \<noteq> 0 then inet6_loop p len (s\<lparr>i6_nibbles := 0, i6_word := 0\<rparr>) else Some I6_error
        else if i6_zero s = None then
          inet6_loop p len (s\<lparr>i6_digit := Some (p, Suc len), i6_zero := Some (length (i6_addr s))\<rparr>)
        else Some I6_error
      else if c = 46 \<and> i6_nibbles s \<noteq> 0 then inet6_dotted s
      else
        let s = s\<lparr>i6_nibbles := i6_nibbles s + 1\<rparr> in
        if i6_nibbles s > 4 then Some I6_error
        else if c \<ge> 48 \<and> c \<le> 57 then
          inet6_loop p len (s\<lparr>i6_word := i6_word s * 16 + (ucast c - 48)\<rparr>)
        else let c = c OR 0x20 in
          if c \<ge> 97 \<and> c \<le> 102 then
            inet6_loop p len (s\<lparr>i6_word := i6_word s * 16 + (ucast c - 97) + 10\<rparr>)
          else Some I6_error)"

text \<open>
  The end of the function. The copy loop moves the bytes from \<open>zero\<close> on behind \<open>n * 2\<close> zero
  bytes; the second component is what \<open>addr\<close> holds.
\<close>

definition inet6_finish :: "inet6_state \<Rightarrow> int \<times> byte list" where
  "inet6_finish s =
     (if i6_nibbles s = 0 \<and> i6_zero s = None then (HKY_ERROR, i6_addr s)
      else
        let addr = i6_addr s @ word_bytes (i6_word s); n = i6_n s - 1 in
        if n \<noteq> 0 then
          (case i6_zero s of None \<Rightarrow> (HKY_ERROR, addr)
           | Some zero \<Rightarrow> (HKY_OK, take zero addr @ replicate (n * 2) 0 @ drop zero addr))
        else if i6_zero s = None then (HKY_OK, addr) else (HKY_ERROR, addr))"

definition inet6_init :: inet6_state where
  "inet6_init = \<lparr>i6_addr = [], i6_zero = None, i6_digit = None, i6_nibbles = 0, i6_word = 0, i6_n = 8\<rparr>"

definition hky_inet6_addr :: "byte list \<Rightarrow> nat \<Rightarrow> (int \<times> byte list) option" where
  "hky_inet6_addr p len =
     (if len = 0 then Some (HKY_ERROR, [])
      else case p of [] \<Rightarrow> None
      | c # p' \<Rightarrow>
        let (p, len) = (if c = 58 then (p', len - 1) else (p, len)) in
        case inet6_loop p len inet6_init of None \<Rightarrow> None
        | Some I6_error \<Rightarrow> Some (HKY_ERROR, [])
        | Some (I6_end s) \<Rightarrow> Some (inet6_finish s))"

section \<open>IPv6 address to text\<close>

text \<open>
  The longest run of zero words: \<open>zero\<close>, \<open>last\<close> are byte indices, \<open>None\<close> for \<open>(hky_uint_t) -1\<close>.
  The arguments of the loop are \<open>i\<close>, \<open>zero\<close>, \<open>last\<close>, \<open>max\<close> and \<open>n\<close>.
\<close>

function ntop_scan :: "byte list \<Rightarrow> nat \<Rightarrow> nat option \<Rightarrow> nat option \<Rightarrow> nat \<Rightarrow> nat \<Rightarrow> nat option \<times> nat" where
  "ntop_scan p i zero lst mx n =
     (if i < 16 then
        if p ! i \<noteq> 0 \<or> p ! (i + 1) \<noteq> 0 then
          if mx < n then ntop_scan p (i + 2) lst lst n 0 else ntop_scan p (i + 2) zero lst mx 0
        else ntop_scan p (i + 2) zero (if n = 0 then Some i else lst) mx (n + 1)
      else if mx < n then (lst, n) else (zero, mx))"
  by pat_completeness auto
termination by (relation "measure (\<lambda>(p, i, zero, lst, mx, n). 16 - i)") auto

declare ntop_scan.simps [simp del]

definition word_at :: "byte list \<Rightarrow> nat \<Rightarrow> u64" where
  "word_at p i = ucast (p ! i) * 256 + ucast (p ! (i + 1))"

text \<open>
  The loop that writes the words; \<open>dst\<close> is the address of the next byte. \<open>None\<close> stands for a
  formatter that reads out of bounds, which does not happen.
\<close>

function ntop_words :: "byte list \<Rightarrow> nat option \<Rightarrow> nat \<Rightarrow> nat \<Rightarrow> nat \<Rightarrow> nat \<Rightarrow> byte list option" where
  "ntop_words p zero mx n i dst =
     (if i < n then
        if zero = Some i then map_option ((#) 58) (ntop_words p zero mx n (i + (mx - 1) * 2 + 2) (dst + 1))
        else
          (case hky_sprintf dst (bytes_of ''%xd'' @ [0]) [VInt (word_at p i)] of None \<Rightarrow> None
           | Some w \<Rightarrow>
               let colon = (if i < 14 then [58] else [])
               in map_option ((@) (w @ colon)) (ntop_words p zero mx n (i + 2) (dst + length w + length colon)))
      else Some [])"
  by pat_completeness auto
termination by (relation "measure (\<lambda>(p, zero, mx, n, i, dst). n - i)") auto

declare ntop_words.simps [simp del]

definition dotted_format :: "byte list" where
  "dotted_format = bytes_of ''%ud.%ud.%ud.%ud'' @ [0]"

text \<open>Where the hexadecimal words end: 12 when the last four bytes are written with dots.\<close>

definition ntop_limit :: "byte list \<Rightarrow> nat option \<Rightarrow> nat \<Rightarrow> nat" where
  "ntop_limit p zero mx =
     (if zero = Some 0 \<and> (mx = 5 \<and> p ! 10 = 0xff \<and> p ! 11 = 0xff \<or> mx = 6
        \<or> mx = 7 \<and> p ! 14 \<noteq> 0 \<and> p ! 15 \<noteq> 1) then 12 else 16)"

definition ntop_text :: "byte list \<Rightarrow> nat option \<Rightarrow> nat \<Rightarrow> nat \<Rightarrow> nat \<Rightarrow> byte list option" where
  "ntop_text p zero mx n text =
     (let colon = (if zero = Some 0 then [58] else []) in
      case ntop_words p zero mx n 0 (text + length colon) of None \<Rightarrow> None
      | Some t \<Rightarrow>
          if n = 12 then
            map_option ((@) (colon @ t)) (hky_sprintf (text + length colon + length t) dotted_format
              (map (\<lambda>i. VInt (ucast (p ! i))) [12, 13, 14, 15]))
          else Some (colon @ t))"

definition hky_inet6_ntop :: "byte list \<Rightarrow> nat \<Rightarrow> nat \<Rightarrow> byte list option" where
  "hky_inet6_ntop p text len =
     (if len < HKY_INET6_ADDRSTRLEN then Some []
      else case ntop_scan p 0 None None 1 0 of (zero, mx) \<Rightarrow>
        ntop_text p zero mx (ntop_limit p zero mx) text)"

section \<open>Socket addresses to text\<close>

text \<open>The bytes stored at \<open>text\<close> and the returned length.\<close>

definition hky_sock_ntop :: "sockaddr \<Rightarrow> nat \<Rightarrow> nat \<Rightarrow> nat \<Rightarrow> bool \<Rightarrow> (byte list \<times> nat) option" where
  "hky_sock_ntop sa socklen text len port =
     (case sa of
        Sin sin_port addr \<Rightarrow>
          let octets = map (\<lambda>i. VInt (ucast (mem_byte addr i))) [0, 1, 2, 3] in
          map_option (\<lambda>t. (t, length t))
            (if port
             then hky_snprintf text len (bytes_of ''%ud.%ud.%ud.%ud:%d'' @ [0]) (octets @ [VInt (ucast (htons sin_port))])
             else hky_snprintf text len dotted_format octets)
      | Sin6 sin6_port addr \<Rightarrow>
          (case hky_inet6_ntop addr (text + (if port then 1 else 0)) len of None \<Rightarrow> None
           | Some t \<Rightarrow>
               if port then
                 map_option (\<lambda>t'. (91 # t @ t', 1 + length t + length t'))
                   (hky_sprintf (text + 1 + length t) (bytes_of '']:%d'' @ [0]) [VInt (ucast (htons sin6_port))])
               else Some (t, length t))
      | Sun path \<Rightarrow>
          map_option (\<lambda>t. (t, size_t (int (length t) - 1)))
            (if socklen \<le> offsetof_sun_path then hky_snprintf text len (bytes_of ''unix:%Z'' @ [0]) []
             else
               let n = length (takeWhile (\<lambda>c. c \<noteq> 0) (take (socklen - offsetof_sun_path) path))
               in hky_snprintf text len (bytes_of ''unix:%*s%Z'' @ [0]) [VInt (word_of_nat n), VMem path])
      | Sa_other _ _ _ \<Rightarrow> Some ([], 0))"

section \<open>Comparing socket addresses\<close>

text \<open>The case \<open>AF_INET6\<close> leaves the \<open>switch\<close> at once: its comparisons follow a \<open>break\<close>.\<close>

definition hky_cmp_sockaddr :: "sockaddr \<Rightarrow> nat \<Rightarrow> sockaddr \<Rightarrow> nat \<Rightarrow> bool \<Rightarrow> int option" where
  "hky_cmp_sockaddr sa1 slen1 sa2 slen2 cmp_port =
     (if sa_family_of sa1 \<noteq> sa_family_of sa2 then Some HKY_DECLINED
      else case (sa1, sa2) of
        (Sin6 _ _, _) \<Rightarrow> Some HKY_OK
      | (Sun path1, Sun path2) \<Rightarrow>
          let len = size_t (int (if slen1 < slen2 then slen1 else slen2) - int offsetof_sun_path);
              len = (if len > sizeof_sun_path then sizeof_sun_path else len)
          in map_option (\<lambda>c. if c \<noteq> 0 then HKY_DECLINED else HKY_OK) (c_memcmp path1 path2 len)
      | (sin1, sin2) \<Rightarrow>
          let addr = (\<lambda>s. case s of Sin _ a \<Rightarrow> a | Sa_other _ _ a \<Rightarrow> a | _ \<Rightarrow> 0) in
          if cmp_port \<and> sa_port sin1 \<noteq> sa_port sin2 then Some HKY_DECLINED
          else if addr sin1 \<noteq> addr sin2 then Some HKY_DECLINED
          else Some HKY_OK)"

section \<open>Dotted quads as text\<close>

lemma byte_digits: "num_digits (ucast (b :: byte)) 0 = dec_text (unat b)"
  by (simp add: num_digits_text)

lemma byte_digits_length: "length (dec_text (unat (b :: byte))) \<le> 3"
proof -
  have "unat b < 10 ^ Suc 2" by (rule order.strict_trans [OF unat_byte_lt]) simp
  from dec_text_length [OF this] show ?thesis by simp
qed

lemma format_octet:
  "3 \<le> room \<Longrightarrow> vslprintf_loop room (37 # 117 # 100 # fmt) (VInt (ucast (b :: byte)) # args) =
   map_option ((@) (dec_text (unat b))) (vslprintf_loop (room - length (dec_text (unat b))) fmt args)"
  using byte_digits_length [of b] order.strict_trans [OF uint_byte_lt [of b], of "2 ^ 32"]
  by (simp add: format_ud low_uint_id byte_digits Let_def del: vslprintf_loop.simps)

definition dotted :: "byte list \<Rightarrow> byte list" where
  "dotted os = (case map (\<lambda>b. dec_text (unat b)) os of
     [a, b, c, d] \<Rightarrow> a @ [46] @ b @ [46] @ c @ [46] @ d | _ \<Rightarrow> [])"

lemma dotted_length: "length (dotted [a, b, c, d]) \<le> 15"
  using byte_digits_length [of a] byte_digits_length [of b] byte_digits_length [of c] byte_digits_length [of d]
  by (simp add: dotted_def)

lemma dotted_format_loop:
  assumes "15 \<le> room"
  shows "vslprintf_loop room dotted_format (map VInt [ucast a, ucast b, ucast c, ucast (d :: byte)]) =
    Some (dotted [a, b, c, d])"
  using assms byte_digits_length [of a] byte_digits_length [of b] byte_digits_length [of c] byte_digits_length [of d]
  by (simp add: dotted_format_def dotted_def format_octet format_text del: vslprintf_loop.simps)

section \<open>Reading and writing IPv4 addresses\<close>

text \<open>
  The reference of the parser: the text is split at the dots; there are four parts, made of
  digits only (a part may be empty and stands for 0), none of a value above 255.
\<close>

fun split_dots :: "byte list \<Rightarrow> byte list list" where
  "split_dots [] = [[]]"
| "split_dots (c # s) =
     (if c = 46 then [] # split_dots s else (c # hd (split_dots s)) # tl (split_dots s))"

definition octet_ok :: "byte list \<Rightarrow> bool" where
  "octet_ok s \<longleftrightarrow> (\<forall>c\<in>set s. is_digit c) \<and> base_value 10 (digit_values s) \<le> 255"

definition inet_fold :: "u32 \<Rightarrow> int list \<Rightarrow> u32" where
  "inet_fold addr os = foldl (\<lambda>a v. push_bit 8 a + word_of_int v) addr os"

definition inet_spec :: "byte list \<Rightarrow> u32" where
  "inet_spec s =
     (let parts = split_dots s in
      if length parts = 4 \<and> list_all octet_ok parts
      then htonl (inet_fold 0 (map (\<lambda>p. base_value 10 (digit_values p)) parts)) else INADDR_NONE)"

text \<open>The same from the middle of an octet of value \<open>v\<close>, with \<open>n\<close> dots behind.\<close>

definition octet_value :: "int \<Rightarrow> byte list \<Rightarrow> int" where
  "octet_value v p = v * 10 ^ length p + base_value 10 (digit_values p)"

lemma octet_value_simps [simp]:
  "octet_value v [] = v"
  "octet_value v (c # p) = octet_value (v * 10 + (uint c - 48)) p"
  by (simp_all add: octet_value_def algebra_simps)

lemma octet_value_ge:
  assumes "0 \<le> v" "\<forall>c\<in>set p. is_digit c"
  shows "v \<le> octet_value v p"
proof -
  have "v * 1 \<le> v * 10 ^ length p" using assms(1) by (intro mult_left_mono) simp_all
  from add_mono [OF this digit_values_nonneg [OF assms(2)]] show ?thesis by (simp add: octet_value_def)
qed

definition inet_from :: "u32 \<Rightarrow> int \<Rightarrow> nat \<Rightarrow> byte list \<Rightarrow> u32" where
  "inet_from addr v n s =
     (let parts = split_dots s; p = hd parts in
      if n + length parts = 4 \<and> (\<forall>c\<in>set p. is_digit c) \<and> octet_value v p \<le> 255 \<and> list_all octet_ok (tl parts)
      then htonl (inet_fold addr (octet_value v p # map (octet_value 0) (tl parts))) else INADDR_NONE)"

lemma split_dots_ne [simp]: "split_dots s \<noteq> []"
  by (cases s) simp_all

lemma octet_value_0: "octet_value 0 p = base_value 10 (digit_values p)"
  by (simp add: octet_value_def)

lemma inet_spec_from: "inet_spec s = inet_from 0 0 0 s"
  by (cases "split_dots s") (auto simp: inet_spec_def inet_from_def octet_ok_def octet_value_0 [abs_def] Let_def)

lemma inet_from_digit:
  assumes "is_digit c" and "0 \<le> v"
  shows "inet_from addr v n (c # s) =
    (if v * 10 + (uint c - 48) > 255 then INADDR_NONE else inet_from addr (v * 10 + (uint c - 48)) n s)"
proof -
  let ?w = "v * 10 + (uint c - 48)"
  have c: "c \<noteq> 46" "48 \<le> uint c" using is_digit_range [OF assms(1)] by auto
  have "?w \<le> octet_value ?w (hd (split_dots s))" if "\<forall>c\<in>set (hd (split_dots s)). is_digit c"
    using c(2) assms(2) that by (intro octet_value_ge) simp_all
  then have "255 < ?w \<Longrightarrow> \<forall>c\<in>set (hd (split_dots s)). is_digit c \<Longrightarrow>
      \<not> octet_value ?w (hd (split_dots s)) \<le> 255" by fastforce
  then show ?thesis using c(1) assms(1) by (auto simp: inet_from_def Let_def)
qed

lemma inet_from_dot:
  assumes "v \<le> 255"
  shows "inet_from addr v n (46 # s) = inet_from (push_bit 8 addr + word_of_int v) 0 (n + 1) s"
  using assms by (cases "split_dots s") (auto simp: inet_from_def inet_fold_def octet_ok_def octet_value_0 Let_def)

lemma inet_from_word:
  assumes "uint (octet :: u64) \<le> 255"
  shows "inet_from addr (uint octet) n (46 # s) = inet_from (push_bit 8 addr + ucast octet) 0 (n + 1) s"
    and "inet_from addr (uint octet) n [] = (if n = 3 then htonl (push_bit 8 addr + ucast octet) else INADDR_NONE)"
proof -
  show "inet_from addr (uint octet) n (46 # s) = inet_from (push_bit 8 addr + ucast octet) 0 (n + 1) s"
    unfolding ucast_eq by (rule inet_from_dot [OF assms])
  show "inet_from addr (uint octet) n [] = (if n = 3 then htonl (push_bit 8 addr + ucast octet) else INADDR_NONE)"
    unfolding ucast_eq using assms by (auto simp: inet_from_def inet_fold_def Let_def)
qed

lemma octet_step:
  assumes "uint octet \<le> 255" and "is_digit c"
  shows "uint (octet * 10 + (ucast c - 48) :: u64) = uint octet * 10 + (uint c - 48)"
proof -
  note d = is_digit_range [OF assms(2)]
  have "uint (octet * 10 + (ucast c - 48) :: u64) = (uint octet * 10 + (uint c - 48)) mod 2 ^ 64"
    by (simp add: uint_word_ariths mod_simps)
  also have "\<dots> = uint octet * 10 + (uint c - 48)"
    using d assms(1) uint_nonnegative [of octet] by (intro mod_pos_pos_trivial) simp_all
  finally show ?thesis .
qed

lemma inet_addr_loop_spec:
  assumes "len \<le> length p" and "uint octet \<le> 255"
  shows "inet_addr_loop p len addr octet n = Some (inet_from addr (uint octet) n (take len p))"
  using assms
proof (induction p len addr octet n rule: inet_addr_loop.induct)
  case (3 c p len addr octet n)
  show ?case
  proof (cases "is_digit c")
    case True
    then have r: "48 \<le> c \<and> c \<le> 57" by (simp add: is_digit_def not_less)
    note step = octet_step [OF 3(4) True]
    have test: "255 < octet * 10 + (ucast c - 48) \<longleftrightarrow> 255 < uint octet * 10 + (uint c - 48)"
      by (simp add: word_less_def step)
    have "\<not> 255 < octet * 10 + (ucast c - 48) \<Longrightarrow>
        inet_addr_loop p len addr (octet * 10 + (ucast c - 48)) n =
        Some (inet_from addr (uint octet * 10 + (uint c - 48)) n (take len p))"
      using 3(1) [OF r refl] 3(3) unfolding test step by simp
    then show ?thesis
      using r inet_from_digit [OF True, of "uint octet" addr n "take len p"] test by (simp add: Let_def)
  next
    case False
    then have r: "\<not> (48 \<le> c \<and> c \<le> 57)" by (simp add: is_digit_def not_less)
    show ?thesis
    proof (cases "c = 46")
      case True
      then show ?thesis using 3(2) [OF r True] 3(3,4)
        by (simp add: inet_from_word)
    next
      case dot: False
      have "inet_from addr (uint octet) n (take (Suc len) (c # p)) = INADDR_NONE"
        using False dot by (simp add: inet_from_def Let_def)
      then show ?thesis using r dot by auto
    qed
  qed
qed (simp_all add: inet_from_word)

lemma split_dots_digits:
  "\<forall>c\<in>set p. is_digit c \<Longrightarrow> split_dots (p @ 46 # s) = p # split_dots s"
  "\<forall>c\<in>set p. is_digit c \<Longrightarrow> split_dots p = [p]"
  by (induction p) (auto simp: is_digit_def)

lemma byte_octet_ok: "octet_ok (dec_text (unat (b :: byte)))"
  using dec_text_value [of "unat b"] uint_byte_lt [of b] by (auto simp: octet_ok_def simp del: uint_byte_lt)

lemma inet_spec_dotted:
  "inet_spec (dotted [a, b, c, d]) = htonl (inet_fold 0 (map uint [a, b, c, d]))"
proof -
  have digits: "\<forall>x\<in>set (dec_text (unat (b :: byte))). is_digit x" for b using dec_text_value by blast
  have "split_dots (dotted [a, b, c, d]) = map (\<lambda>b. dec_text (unat b)) [a, b, c, d]"
    using digits by (simp add: dotted_def split_dots_digits)
  then show ?thesis
    using dec_text_value byte_octet_ok by (simp add: inet_spec_def Let_def)
qed

lemma push_8_add_byte: "push_bit 8 (w :: u32) + ucast (b :: byte) = push_bit 8 w OR ucast b"
  by (rule disjunctive_add) (auto simp: bit_simps dest: bit_imp_le_length)

lemma byte_masks: "(0xff0000 :: u32) = push_bit 16 (mask 8)" "(0xff00 :: u32) = push_bit 8 (mask 8)"
  by (simp_all add: mask_eq_exp_minus_1)

lemma bit_htonl:
  "bit (htonl w) n \<longleftrightarrow> n < 32 \<and>
     bit w (if n < 8 then 24 + n else if n < 16 then 8 + n else if n < 24 then n - 8 else n - 24)"
  using bit_imp_le_length [of w "24 + n"] bit_imp_le_length [of w "8 + n"]
  by (auto simp: htonl_def byte_masks bit_simps)

lemma htonl_htonl [simp]: "htonl (htonl w) = w"
  by (rule bit_word_eqI) (auto simp: bit_htonl)

lemma htonl_bytes: "inet_fold 0 (map uint [mem_byte a 0, mem_byte a 1, mem_byte a 2, mem_byte a 3]) = htonl a"
proof -
  have "inet_fold 0 (map uint [mem_byte a 0, mem_byte a 1, mem_byte a 2, mem_byte a 3]) =
      push_bit 8 (push_bit 8 (push_bit 8 (push_bit 8 0 OR ucast (mem_byte a 0)) OR ucast (mem_byte a 1))
        OR ucast (mem_byte a 2)) OR ucast (mem_byte a 3)"
    by (simp only: inet_fold_def list.map foldl.simps ucast_eq [symmetric] push_8_add_byte)
  also have "\<dots> = htonl a"
    by (rule bit_word_eqI) (auto simp: bit_htonl mem_byte_def bit_simps)
  finally show ?thesis .
qed

text \<open>
  C17: \<open>hky_inet_addr\<close> never reads beyond the text and agrees with a reference that splits the text at
  its dots (so an empty octet is accepted and stands for 0, and 255.255.255.255 cannot be told
  from an error); it reads back every address that \<open>hky_sock_ntop\<close> writes without a port, and that
  text has at most \<open>HKY_INET_ADDRSTRLEN\<close> bytes.
\<close>

theorem inet_addr_correct:
  assumes "n \<le> length text"
  shows "hky_inet_addr text n = Some (inet_spec (take n text)) \<and>
    (\<exists>t. hky_sock_ntop (Sin port a) socklen buf HKY_INET_ADDRSTRLEN False = Some (t, length t) \<and>
       length t \<le> HKY_INET_ADDRSTRLEN \<and> hky_inet_addr t (length t) = Some a)"
proof
  show "hky_inet_addr text n = Some (inet_spec (take n text))"
    unfolding hky_inet_addr_def inet_spec_from using inet_addr_loop_spec [OF assms, of 0 0 0] by simp
next
  let ?t = "dotted [mem_byte a 0, mem_byte a 1, mem_byte a 2, mem_byte a 3]"
  have "hky_sock_ntop (Sin port a) socklen buf HKY_INET_ADDRSTRLEN False = Some (?t, length ?t)"
    using dotted_format_loop [of 15 "mem_byte a 0" "mem_byte a 1" "mem_byte a 2" "mem_byte a 3"]
    by (simp add: hky_sock_ntop_def hky_snprintf_def hky_vslprintf_def hky_consts del: vslprintf_loop.simps)
  moreover have "hky_inet_addr ?t (length ?t) = Some (inet_spec ?t)"
    unfolding hky_inet_addr_def inet_spec_from using inet_addr_loop_spec [OF order.refl, of 0 ?t 0 0] by simp
  ultimately show "\<exists>t. hky_sock_ntop (Sin port a) socklen buf HKY_INET_ADDRSTRLEN False = Some (t, length t) \<and>
       length t \<le> HKY_INET_ADDRSTRLEN \<and> hky_inet_addr t (length t) = Some a"
    using dotted_length by (auto simp: inet_spec_dotted htonl_bytes [simplified] hky_consts)
qed

theorem inet_addr_correct_witness:
  "hky_inet_addr (bytes_of ''127.0.0.1:80'') 9 = Some 0x0100007f"
proof -
  have "(9::nat) \<le> length (bytes_of ''127.0.0.1:80'')" by simp
  from inet_addr_correct [OF this] have "hky_inet_addr (bytes_of ''127.0.0.1:80'') 9 =
      Some (inet_spec (take 9 (bytes_of ''127.0.0.1:80'')))" by blast
  then show ?thesis by (simp only:) code_simp
qed

section \<open>Reading and writing IPv6 addresses\<close>

subsection \<open>The parser on the texts of words\<close>

definition word_text :: "byte list \<Rightarrow> nat \<Rightarrow> byte list" where
  "word_text p i = hex_text hex_lower (unat (word_at p i))"

lemma unat_word_at: "unat (word_at p i) = unat (p ! i) * 256 + unat (p ! (i + 1))"
proof -
  have "unat (p ! i) * 256 + unat (p ! (i + 1)) < 256 * 256"
    using unat_byte_lt [of "p ! i"] unat_byte_lt [of "p ! (i + 1)"] by linarith
  then have "unat (p ! i) * 256 + unat (p ! (i + 1)) < 2 ^ 64" by (rule order.strict_trans) simp
  then show ?thesis by (simp add: word_at_def unat_word_ariths)
qed

lemma word_at_less: "unat (word_at p i) < 65536"
  using unat_byte_lt [of "p ! i"] unat_byte_lt [of "p ! (i + 1)"] unfolding unat_word_at by linarith

lemma word_at_or: "word_at p i = push_bit 8 (ucast (p ! i)) OR ucast (p ! (i + 1))"
proof -
  have "word_at p i = push_bit 8 (ucast (p ! i)) + ucast (p ! (i + 1))"
    by (simp add: word_at_def push_bit_eq_mult)
  also have "\<dots> = push_bit 8 (ucast (p ! i)) OR ucast (p ! (i + 1))"
    by (rule disjunctive_add) (auto simp: bit_simps dest: bit_imp_le_length)
  finally show ?thesis .
qed

lemma word_bytes_at: "word_bytes (word_at p i) = [p ! i, p ! (i + 1)]"
proof -
  have m: "(0xff :: u64) = mask 8" by (simp add: mask_eq_exp_minus_1)
  have "ucast (drop_bit 8 (word_at p i)) = p ! i"
    by (rule bit_word_eqI) (auto simp: word_at_or bit_simps dest: bit_imp_le_length)
  moreover have "ucast (word_at p i AND 0xff) = p ! (i + 1)"
    unfolding m by (rule bit_word_eqI) (auto simp: word_at_or bit_simps)
  ultimately show ?thesis by (simp add: word_bytes_def)
qed

lemma word_text_length: "length (word_text p i) \<le> 4"
  using hex_text_length [of "unat (word_at p i)" 3 hex_lower] word_at_less [of p i]
  by (simp add: word_text_def)

lemma word_text_ne: "word_text p i \<noteq> []"
  by (simp add: word_text_def hex_text_value)

lemma hex_not_punct: "hex_digit c \<noteq> None \<Longrightarrow> c \<noteq> 58 \<and> c \<noteq> 46"
  by (auto simp: hex_digit_def)

lemma inet6_loop_digit:
  assumes "hex_digit c = Some d" and "i6_nibbles s < 4"
  shows "inet6_loop (c # p) (Suc len) s =
    inet6_loop p len (s\<lparr>i6_nibbles := i6_nibbles s + 1, i6_word := i6_word s * 16 + word_of_int d\<rparr>)"
proof (cases "48 \<le> c \<and> c \<le> 57")
  case True
  then have d: "d = uint c - 48" using assms(1) by (simp add: hex_digit_def)
  have "(ucast c - 48 :: u64) = word_of_int d" unfolding d ucast_eq by simp
  then show ?thesis using True assms hex_not_punct [of c] by (simp add: Let_def)
next
  case False
  then have c: "97 \<le> c OR 0x20 \<and> c OR 0x20 \<le> 102" "d = uint (c OR 0x20) - 97 + 10"
    using assms(1) unfolding hex_digit_fold [of c] Let_def by (auto split: if_splits)
  have "(ucast (c OR 0x20) :: u64) = word_of_int d + 87" unfolding c(2) ucast_eq by simp
  then show ?thesis using False c(1) assms hex_not_punct [of c] by (auto simp: Let_def)
qed

lemma inet6_loop_digits:
  assumes "\<forall>c\<in>set ds. hex_digit c \<noteq> None" and "i6_nibbles s + length ds \<le> 4"
  shows "inet6_loop (ds @ p) (length ds + len) s =
    inet6_loop p len (s\<lparr>i6_nibbles := i6_nibbles s + length ds,
      i6_word := i6_word s * 16 ^ length ds + word_of_int (hex_value ds)\<rparr>)"
  using assms
proof (induction ds arbitrary: s)
  case (Cons c ds)
  obtain d where d: "hex_digit c = Some d" using Cons.prems(1) by auto
  have "inet6_loop ((c # ds) @ p) (length (c # ds) + len) s = inet6_loop (ds @ p) (length ds + len)
      (s\<lparr>i6_nibbles := i6_nibbles s + 1, i6_word := i6_word s * 16 + word_of_int d\<rparr>)"
    using inet6_loop_digit [OF d, of s "ds @ p" "length ds + len"] Cons.prems(2) by (simp del: inet6_loop.simps)
  also have "\<dots> = inet6_loop p len (s\<lparr>i6_nibbles := i6_nibbles s + length (c # ds),
      i6_word := i6_word s * 16 ^ length (c # ds) + word_of_int (hex_value (c # ds))\<rparr>)"
    using Cons.prems by (subst Cons.IH) (simp_all add: d algebra_simps)
  finally show ?case .
qed simp

text \<open>The state between two words.\<close>

abbreviation between :: "byte list \<Rightarrow> nat option \<Rightarrow> (byte list \<times> nat) option \<Rightarrow> nat \<Rightarrow> inet6_state" where
  "between out zero dg n \<equiv>
     \<lparr>i6_addr = out, i6_zero = zero, i6_digit = dg, i6_nibbles = 0, i6_word = 0, i6_n = n\<rparr>"

lemma inet6_loop_word:
  "inet6_loop (word_text p i @ q) (length (word_text p i) + len) (between out zero dg n) =
   inet6_loop q len ((between out zero dg n)\<lparr>i6_nibbles := length (word_text p i), i6_word := word_at p i\<rparr>)"
  using hex_text_value [of hex_lower "unat (word_at p i)"] word_text_length [of p i]
  by (subst inet6_loop_digits) (auto simp: word_text_def)

lemma inet6_loop_colon:
  assumes "1 < n"
  shows "\<exists>dg'. inet6_loop (word_text p i @ 58 # q) (length (word_text p i) + Suc len) (between out zero dg n) =
    inet6_loop q len (between (out @ [p ! i, p ! (i + 1)]) zero dg' (n - 1))"
  unfolding inet6_loop_word using assms word_text_ne [of p i] by (auto simp: Let_def word_bytes_at)

text \<open>The words of the bytes from \<open>i\<close> up to \<open>e\<close>, each followed by a colon.\<close>

fun colon_words :: "byte list \<Rightarrow> nat \<Rightarrow> nat \<Rightarrow> byte list" where
  "colon_words p i 0 = []"
| "colon_words p i (Suc k) = word_text p i @ 58 # colon_words p (i + 2) k"

lemma take_two_more:
  assumes "Suc i < length p"
  shows "take (i + 2) p = take i p @ [p ! i, p ! (i + 1)]"
  using assms by (simp add: take_Suc_conv_app_nth)

lemma inet6_loop_colons:
  assumes "k < n" and "i + 2 * k \<le> length p"
  shows "\<exists>dg'. inet6_loop (colon_words p i k @ q) (length (colon_words p i k) + len) (between out zero dg n) =
    inet6_loop q len (between (out @ take (2 * k) (drop i p)) zero dg' (n - k))"
  using assms
proof (induction k arbitrary: i out dg n)
  case 0
  then show ?case by auto
next
  case (Suc k)
  let ?q = "colon_words p (i + 2) k @ q" and ?len = "length (colon_words p (i + 2) k) + len"
  obtain dg1 where 1: "inet6_loop (word_text p i @ 58 # ?q) (length (word_text p i) + Suc ?len) (between out zero dg n) =
      inet6_loop ?q ?len (between (out @ [p ! i, p ! (i + 1)]) zero dg1 (n - 1))"
    using inet6_loop_colon [of n p i ?q ?len out zero dg] Suc.prems(1) by auto
  have c: "k < n - 1" "i + 2 + 2 * k \<le> length p" using Suc.prems by simp_all
  obtain dg2 where 2: "inet6_loop ?q ?len (between (out @ [p ! i, p ! (i + 1)]) zero dg1 (n - 1)) =
      inet6_loop q len (between ((out @ [p ! i, p ! (i + 1)]) @ take (2 * k) (drop (i + 2) p)) zero dg2 (n - 1 - k))"
    using Suc.IH [OF c, of "out @ [p ! i, p ! (i + 1)]" dg1] by blast
  have "take (2 * Suc k) (drop i p) = [p ! i, p ! (i + 1)] @ take (2 * k) (drop (i + 2) p)"
    using Suc.prems(2) by (simp add: drop_eq_Cons_nth)
  then show ?case using 1 2 by (intro exI [of _ dg2]) (simp add: add.assoc)
qed

text \<open>The words from byte \<open>i\<close> to the end, separated by colons; \<open>k\<close> of them.\<close>

definition words_text :: "byte list \<Rightarrow> nat \<Rightarrow> byte list" where
  "words_text p k = (if k = 0 then [] else colon_words p (16 - 2 * k) (k - 1) @ word_text p 14)"

lemma inet6_loop_words:
  assumes "k \<le> n" and "0 < k" "k \<le> 8" and "length p = 16"
  shows "\<exists>s. inet6_loop (words_text p k) (length (words_text p k)) (between out zero dg n) = Some (I6_end s) \<and>
    i6_addr s @ word_bytes (i6_word s) = out @ drop (16 - 2 * k) p \<and> i6_zero s = zero \<and> i6_n s = n - (k - 1)
    \<and> i6_nibbles s \<noteq> 0"
proof -
  let ?out = "out @ take (2 * (k - 1)) (drop (16 - 2 * k) p)"
  have c: "k - 1 < n" "16 - 2 * k + 2 * (k - 1) \<le> length p" using assms by simp_all
  obtain dg' where 1: "inet6_loop (words_text p k) (length (words_text p k)) (between out zero dg n) =
      inet6_loop (word_text p 14) (length (word_text p 14)) (between ?out zero dg' (n - (k - 1)))"
    using inet6_loop_colons [OF c, of "word_text p 14" "length (word_text p 14)" out zero dg] assms(2)
    by (auto simp: words_text_def)
  have 2: "inet6_loop (word_text p 14) (length (word_text p 14)) (between ?out zero dg' (n - (k - 1))) =
      Some (I6_end ((between ?out zero dg' (n - (k - 1)))\<lparr>i6_nibbles := length (word_text p 14), i6_word := word_at p 14\<rparr>))"
    using inet6_loop_word [of p 14 "[]" 0 ?out zero dg' "n - (k - 1)"] by simp
  have k14: "2 * (k - 1) + (16 - 2 * k) = 14" using assms(2,3) by simp
  have "drop (16 - 2 * k) p = take (2 * (k - 1)) (drop (16 - 2 * k) p) @ drop 14 p"
    using append_take_drop_id [of "2 * (k - 1)" "drop (16 - 2 * k) p"] unfolding drop_drop k14 by simp
  moreover have "drop 14 p = [p ! 14, p ! (14 + 1)]" using assms(4) by (simp add: drop_eq_Cons_nth)
  ultimately show ?thesis unfolding 1 2 using word_text_ne [of p 14] by (simp add: word_bytes_at)
qed

subsection \<open>The longest run of zero words\<close>

text \<open>\<open>mx\<close> zero words from byte \<open>2 * g\<close> on.\<close>

definition zero_run :: "byte list \<Rightarrow> nat \<Rightarrow> nat \<Rightarrow> bool" where
  "zero_run p g mx \<longleftrightarrow> (\<forall>j. 2 * g \<le> j \<longrightarrow> j < 2 * (g + mx) \<longrightarrow> p ! j = 0)"

definition good_run :: "byte list \<Rightarrow> nat \<Rightarrow> nat option \<Rightarrow> nat \<Rightarrow> bool" where
  "good_run p k zero mx \<longleftrightarrow>
     (case zero of None \<Rightarrow> mx = 1 | Some z \<Rightarrow> \<exists>g. z = 2 * g \<and> 2 \<le> mx \<and> g + mx \<le> k \<and> zero_run p g mx)"

lemma zero_run_Suc:
  "zero_run p g n \<Longrightarrow> p ! (2 * (g + n)) = 0 \<Longrightarrow> p ! (2 * (g + n) + 1) = 0 \<Longrightarrow> zero_run p g (n + 1)"
  unfolding zero_run_def by (metis Suc_eq_plus1 add_Suc_right less_Suc_eq mult_Suc_right add_2_eq_Suc)

lemma good_run_mono: "good_run p k zero mx \<Longrightarrow> k \<le> k' \<Longrightarrow> good_run p k' zero mx"
  by (fastforce simp: good_run_def split: option.splits)

lemma ntop_scan_good:
  assumes "ntop_scan p i zero lst mx n = (zero', mx')" and "i = 2 * k" "k \<le> 8"
    and "good_run p k zero mx" and "n > 0 \<Longrightarrow> n \<le> k \<and> lst = Some (2 * (k - n)) \<and> zero_run p (k - n) n" and "1 \<le> mx"
  shows "good_run p 8 zero' mx'"
  using assms
proof (induction p i zero lst mx n arbitrary: k rule: ntop_scan.induct)
  case (1 p i zero lst mx n)
  have best: "good_run p k lst n" if "mx < n" using 1(8,9) that by (auto simp: good_run_def)
  show ?case
  proof (cases "i < 16")
    case False
    then have "k = 8" using 1(5,6) by simp
    then show ?thesis using 1(4,7) best False by (auto simp: ntop_scan.simps [of p i] split: if_splits)
  next
    case True
    then have k: "k + 1 \<le> 8" "i + 2 = 2 * (k + 1)" using 1(5) by simp_all
    show ?thesis
    proof (cases "p ! i \<noteq> 0 \<or> p ! (i + 1) \<noteq> 0")
      case nz: True
      show ?thesis
      proof (cases "mx < n")
        case less: True
        show ?thesis
          by (rule 1(1) [OF True nz less, of "k + 1"])
            (use 1(4) True nz less k best good_run_mono [OF best] in \<open>auto simp: ntop_scan.simps [of p i]\<close>)
      next
        case False
        show ?thesis
          by (rule 1(2) [OF True nz False, of "k + 1"])
            (use 1(4,7,9) True nz False k good_run_mono [OF 1(7)] in \<open>auto simp: ntop_scan.simps [of p i]\<close>)
      qed
    next
      case z: False
      have run: "zero_run p (k - n) (n + 1)"
        using 1(5,8) z by (cases "n = 0") (auto intro!: zero_run_Suc simp: zero_run_def less_Suc_eq)
      have "ntop_scan p (i + 2) zero (if n = 0 then Some i else lst) mx (n + 1) = (zero', mx')"
        using 1(4) True z by (simp add: ntop_scan.simps [of p i])
      then show ?thesis
        by (rule 1(3) [OF True z, of "k + 1"])
          (use 1(5,7,8,9) k run good_run_mono [OF 1(7)] in auto)
    qed
  qed
qed

subsection \<open>The text of an address\<close>

lemma sprintf_word:
  assumes "dst + 5 < 2 ^ 64"
  shows "hky_sprintf dst (bytes_of ''%xd'' @ [0]) [VInt (word_at p i)] = Some (word_text p i)"
proof -
  have "uint (word_at p i) < 2 ^ 32" using word_at_less [of p i] unfolding uint_nat by (simp del: int_nat_eq of_nat_unat)
  moreover have "length (word_text p i) \<le> 2 ^ 64 - 1 - dst" using word_text_length [of p i] assms by simp
  ultimately show ?thesis
    using assms by (simp add: hky_sprintf_def hky_vslprintf_def format_xd low_uint_id num_digits_text
        word_text_def Let_def del: vslprintf_loop.simps)
qed

lemma words_text_Suc:
  "k \<le> 7 \<Longrightarrow> words_text p (Suc k) = word_text p (14 - 2 * k) @ (if k = 0 then [] else 58 # words_text p k)"
proof (cases k)
  case (Suc m)
  assume "k \<le> 7"
  then have e: "14 - 2 * k + 2 = 16 - 2 * k" "16 - 2 * Suc k = 14 - 2 * k" using Suc by simp_all
  have "colon_words p (14 - 2 * k) k = word_text p (14 - 2 * k) @ 58 # colon_words p (14 - 2 * k + 2) m"
    by (simp add: Suc)
  then show ?thesis unfolding e(1) by (simp add: words_text_def e(2) del: mult_Suc_right) (simp add: Suc)
qed (simp add: words_text_def)

lemma ntop_words_step:
  assumes "i < n" "zero \<noteq> Some i" "dst + 5 < 2 ^ 64" "colon = (if i < 14 then [58] else [])"
  shows "ntop_words p zero mx n i dst = map_option (\<lambda>t. word_text p i @ colon @ t)
    (ntop_words p zero mx n (i + 2) (dst + length (word_text p i) + length colon))"
  using assms(1,2) sprintf_word [OF assms(3), of p i]
  by (subst ntop_words.simps, cases "ntop_words p zero mx n (i + 2) (dst + length (word_text p i) + length colon)")
    (simp_all add: Let_def assms(4))

lemma ntop_words_end: "n \<le> i \<Longrightarrow> ntop_words p zero mx n i dst = Some []"
  by (simp add: ntop_words.simps)

lemma ntop_words_tail:
  assumes "k \<le> 8" and "dst + 5 * k < 2 ^ 64" and "\<And>z. zero = Some z \<Longrightarrow> z < 16 - 2 * k"
  shows "ntop_words p zero mx 16 (16 - 2 * k) dst = Some (words_text p k)"
  using assms
proof (induction k arbitrary: dst)
  case 0
  then show ?case by (simp add: ntop_words_end words_text_def)
next
  case (Suc k)
  obtain i where i: "i = 16 - 2 * Suc k" by simp
  obtain colon :: "byte list" where colon: "colon = (if i < 14 then [58] else [])" by simp
  have c: "i < 16" "zero \<noteq> Some i" "i + 2 = 16 - 2 * k" "i = 14 - 2 * k" "i < 14 \<longleftrightarrow> k \<noteq> 0" "dst + 5 < 2 ^ 64"
    using Suc.prems i by auto
  have len: "length (word_text p i) + length colon \<le> 5" using word_text_length [of p i] by (simp add: colon)
  have "ntop_words p zero mx 16 (i + 2) (dst + length (word_text p i) + length colon) = Some (words_text p k)"
    unfolding c(3) using Suc.prems len by (intro Suc.IH) fastforce+
  then have "ntop_words p zero mx 16 i dst = Some (word_text p i @ colon @ words_text p k)"
    using ntop_words_step [OF c(1,2,6) colon] by simp
  also have "word_text p i @ colon @ words_text p k = words_text p (Suc k)"
    using Suc.prems(1) c(4,5) by (simp add: words_text_Suc colon) (simp add: words_text_def)
  finally show ?case unfolding i .
qed

lemma ntop_words_head:
  assumes "2 \<le> mx" "g + mx \<le> 8" and "d \<le> g" and "dst + 5 * (8 - (g - d)) < 2 ^ 64"
  shows "ntop_words p (Some (2 * g)) mx 16 (2 * (g - d)) dst =
    Some (colon_words p (2 * (g - d)) d @ 58 # words_text p (8 - g - mx))"
  using assms
proof (induction d arbitrary: dst)
  case 0
  have skip: "2 * g + (mx - 1) * 2 + 2 = 16 - 2 * (8 - g - mx)" using 0(1,2) by simp
  have "ntop_words p (Some (2 * g)) mx 16 (16 - 2 * (8 - g - mx)) (dst + 1) = Some (words_text p (8 - g - mx))"
    using 0 by (intro ntop_words_tail) auto
  moreover have "2 * g < 16" using 0(1,2) by simp
  ultimately show ?case unfolding skip [symmetric] by (subst ntop_words.simps) simp
next
  case (Suc d)
  obtain i where i: "i = 2 * (g - Suc d)" by simp
  have c: "i < 16" "Some (2 * g) \<noteq> Some i" "i + 2 = 2 * (g - d)" "[58] = (if i < 14 then [58 :: byte] else [])"
    "dst + 5 < 2 ^ 64"
    using Suc.prems i by auto
  have "ntop_words p (Some (2 * g)) mx 16 (i + 2) (dst + length (word_text p i) + 1) =
      Some (colon_words p (i + 2) d @ 58 # words_text p (8 - g - mx))"
    unfolding c(3) using Suc.prems word_text_length [of p i] by (intro Suc.IH) auto
  then show ?case
    unfolding i [symmetric] using ntop_words_step [OF c(1,2,5,4), of p mx] by simp
qed

lemma word_text_head: "\<exists>c r. word_text p i = c # r \<and> c \<noteq> 58 \<and> c \<noteq> 46"
proof -
  obtain c r where cr: "word_text p i = c # r" using word_text_ne [of p i] by (cases "word_text p i") auto
  then have "hex_digit c \<noteq> None"
    using hex_text_value [of hex_lower "unat (word_at p i)"] by (simp add: word_text_def)
  from cr hex_not_punct [OF this] show ?thesis by blast
qed

lemma inet6_init_between: "inet6_init = between [] None None 8"
  by (simp add: inet6_init_def)

lemma read_full:
  assumes "length p = 16"
  shows "hky_inet6_addr (words_text p 8) (length (words_text p 8)) = Some (HKY_OK, p)"
proof -
  obtain c r where w: "words_text p 8 = c # r" "c \<noteq> 58"
    using word_text_head [of p 0] words_text_Suc [of 7 p] by auto
  obtain s where s: "inet6_loop (words_text p 8) (length (words_text p 8)) (between [] None None 8) = Some (I6_end s)"
      "i6_addr s @ word_bytes (i6_word s) = p" "i6_zero s = None" "i6_n s = 1" "i6_nibbles s \<noteq> 0"
    using inet6_loop_words [of 8 8 p "[]" None None] assms by auto
  then have "inet6_finish s = (HKY_OK, p)" by (simp add: inet6_finish_def Let_def)
  then show ?thesis using w s(1) by (simp add: hky_inet6_addr_def inet6_init_between Let_def)
qed

lemma zero_run_split:
  assumes "zero_run p g mx" "g + mx \<le> 8" "length p = 16"
  shows "take (2 * g) p @ replicate (2 * mx) 0 @ drop (2 * (g + mx)) p = p"
proof -
  have "take (2 * mx) (drop (2 * g) p) = replicate (2 * mx) 0"
    using assms by (intro nth_equalityI) (auto simp: zero_run_def)
  then have "drop (2 * g) p = replicate (2 * mx) 0 @ drop (2 * (g + mx)) p"
    by (metis append_take_drop_id drop_drop add_mult_distrib2 add.commute)
  then show ?thesis by (metis append_take_drop_id)
qed

lemma read_compressed:
  assumes run: "zero_run p g mx" "g + mx \<le> 8" "2 \<le> mx" and p: "length p = 16"
    and t: "t = colon_words p 0 g @ 58 # words_text p (8 - g - mx)"
  shows "\<exists>s. inet6_loop t (length t) inet6_init = Some (I6_end s) \<and> inet6_finish s = (HKY_OK, p)"
proof -
  let ?k = "8 - g - mx" and ?out = "take (2 * g) p"
  obtain dg' where 1: "inet6_loop t (length t) inet6_init =
      inet6_loop (58 # words_text p ?k) (Suc (length (words_text p ?k))) (between ?out None dg' (8 - g))"
    using inet6_loop_colons [of g 8 0 p "58 # words_text p ?k" "Suc (length (words_text p ?k))" "[]" None None]
      run p by (auto simp: t inet6_init_between)
  obtain dg where 2: "inet6_loop t (length t) inet6_init =
      inet6_loop (words_text p ?k) (length (words_text p ?k)) (between ?out (Some (2 * g)) dg (8 - g))"
    using 1 p run by (simp add: min_absorb2)
  show ?thesis
  proof (cases "?k = 0")
    case True
    then have m: "2 * mx = 2 * (7 - g) + 2" "drop (2 * (g + mx)) p = []" "7 - g \<noteq> 0" "mx = 8 - g" using run p by simp_all
    have "replicate (2 * mx) 0 = replicate (2 * (7 - g)) 0 @ [0, 0 :: byte]"
      unfolding m(1) replicate_add by (simp add: numeral_2_eq_2)
    then have "?out @ replicate (2 * (7 - g)) 0 @ [0, 0] = p"
      using zero_run_split [OF run(1,2) p] m(2) by simp
    moreover have "word_bytes 0 = [0, 0]" by (simp add: word_bytes_def)
    ultimately show ?thesis
      using True m(3) p run(2) unfolding 2
      by (simp add: words_text_def inet6_finish_def Let_def mult.commute min_absorb2)
  next
    case False
    have c1: "?k \<le> 8 - g" and c2: "0 < ?k" using False by simp_all
    obtain s where s: "inet6_loop (words_text p ?k) (length (words_text p ?k)) (between ?out (Some (2 * g)) dg (8 - g)) = Some (I6_end s)"
        "i6_addr s @ word_bytes (i6_word s) = ?out @ drop (16 - 2 * ?k) p" "i6_zero s = Some (2 * g)"
        "i6_n s = 8 - g - (?k - 1)" "i6_nibbles s \<noteq> 0"
      using inet6_loop_words [of ?k "8 - g" p ?out "Some (2 * g)" dg, OF c1 c2 _ p] by auto
    have "16 - 2 * ?k = 2 * (g + mx)" "i6_n s - 1 = mx" using False run s(4) by simp_all
    then show ?thesis
      using s zero_run_split [OF run(1,2) p] run p unfolding 2
      by (simp add: inet6_finish_def Let_def mult.commute min_absorb2)
  qed
qed

lemma read_run:
  assumes "zero_run p g mx" "g + mx \<le> 8" "2 \<le> mx" "length p = 16"
    and "t = (if g = 0 then [58] else []) @ colon_words p 0 g @ 58 # words_text p (8 - g - mx)"
  shows "hky_inet6_addr t (length t) = Some (HKY_OK, p)"
proof -
  obtain s where s: "inet6_loop (colon_words p 0 g @ 58 # words_text p (8 - g - mx))
      (length (colon_words p 0 g @ 58 # words_text p (8 - g - mx))) inet6_init = Some (I6_end s)"
      "inet6_finish s = (HKY_OK, p)"
    using read_compressed [OF assms(1-4) refl] by blast
  show ?thesis
  proof (cases g)
    case 0
    then show ?thesis using s assms(5) by (simp add: hky_inet6_addr_def)
  next
    case (Suc g')
    obtain c r where "word_text p 0 = c # r" "c \<noteq> 58" using word_text_head by blast
    then show ?thesis using s assms(5) Suc by (simp add: hky_inet6_addr_def del: inet6_loop.simps)
  qed
qed

lemma colon_words_length: "length (colon_words p i k) \<le> 5 * k"
proof (induction k arbitrary: i)
  case (Suc k)
  show ?case using word_text_length [of p i] Suc.IH [of "i + 2"] by simp
qed simp

lemma words_text_length: "length (words_text p k) \<le> 5 * k"
proof (cases k)
  case (Suc m)
  show ?thesis using colon_words_length [of p "16 - 2 * k" m] word_text_length [of p 14] by (simp add: words_text_def Suc)
qed (simp add: words_text_def)

lemma dotted_dot: "46 \<in> set (dotted [a, b, c, d])"
  by (simp add: dotted_def)

text \<open>The text with a dotted tail: the words before it are at most one.\<close>

lemma ntop_dotted:
  assumes "5 \<le> mx" and "text + 64 < 2 ^ 64"
  shows "\<exists>w. ntop_words p (Some 0) mx 12 0 text = Some w \<and> length w \<le> 6"
proof -
  have i: "Suc (Suc ((mx - Suc 0) * 2)) = 2 * mx" using assms(1) by simp
  have "ntop_words p (Some 0) mx 12 0 text = map_option ((#) 58) (ntop_words p (Some 0) mx 12 (2 * mx) (text + 1))"
    using assms(1) by (subst ntop_words.simps) (simp add: i)
  moreover have "\<exists>w. ntop_words p (Some 0) mx 12 (2 * mx) (text + 1) = Some w \<and> length w \<le> 5"
  proof (cases "mx = 5")
    case True
    then show ?thesis
      using ntop_words_step [of 10 12 "Some 0" "text + 1" "[58]" p mx] word_text_length [of p 10] assms
      by (simp add: ntop_words_end)
  next
    case False
    then show ?thesis using assms by (simp add: ntop_words_end)
  qed
  ultimately show ?thesis by auto
qed

lemma ntop_text_dotted:
  assumes "ntop_limit p zero mx = 12" and "text + 128 < 2 ^ 64"
  shows "\<exists>t. ntop_text p zero mx 12 text = Some t \<and> length t \<le> HKY_INET6_ADDRSTRLEN \<and> 46 \<in> set t"
proof -
  have z: "zero = Some 0" "5 \<le> mx" using assms(1) by (auto simp: ntop_limit_def split: if_splits)
  obtain w where w: "ntop_words p (Some 0) mx 12 0 (text + 1) = Some w" "length w \<le> 6"
    using ntop_dotted [of mx "text + 1" p] z(2) assms(2) by auto
  have "15 \<le> 2 ^ 64 - 1 - (text + 1 + length w)" using w(2) assms(2) by simp
  from dotted_format_loop [OF this, of "p ! 12" "p ! 13" "p ! 14" "p ! 15"]
  show ?thesis
    using w dotted_dot dotted_length [of "p ! 12" "p ! 13" "p ! 14" "p ! 15"]
    by (simp add: ntop_text_def z(1) hky_sprintf_def hky_vslprintf_def hky_consts del: vslprintf_loop.simps)
qed

lemma ntop_text_words:
  assumes "good_run p 8 zero mx" and p: "length p = 16" and "text + 128 < 2 ^ 64"
  shows "\<exists>t. ntop_text p zero mx 16 text = Some t \<and> length t \<le> HKY_INET6_ADDRSTRLEN \<and>
    hky_inet6_addr t (length t) = Some (HKY_OK, p)"
proof (cases "zero")
  case None
  have "ntop_words p None mx 16 0 text = Some (words_text p 8)"
    using ntop_words_tail [of 8 "text" None p mx] assms(3) by simp
  then show ?thesis
    using read_full [OF p] words_text_length [of p 8] by (simp add: ntop_text_def None hky_consts)
next
  case (Some z)
  then obtain g where g: "z = 2 * g" "2 \<le> mx" "g + mx \<le> 8" "zero_run p g mx"
    using assms(1) by (auto simp: good_run_def)
  let ?colon = "if g = 0 then [58 :: byte] else []" and ?w = "colon_words p 0 g @ 58 # words_text p (8 - g - mx)"
  have "ntop_words p (Some (2 * g)) mx 16 0 (text + length ?colon) = Some ?w"
    using ntop_words_head [OF g(2,3) order.refl, of "text + length ?colon" p] assms(3) by simp
  then have "ntop_text p zero mx 16 text = Some (?colon @ ?w)" by (simp add: ntop_text_def Some g(1))
  moreover have "length (?colon @ ?w) \<le> HKY_INET6_ADDRSTRLEN"
  proof -
    have "length (?colon @ ?w) \<le> 2 + (length (colon_words p 0 g) + length (words_text p (8 - g - mx)))" by simp
    also have "\<dots> \<le> 2 + (5 * g + 5 * (8 - g - mx))"
      by (intro add_mono order.refl colon_words_length words_text_length)
    also have "\<dots> \<le> 45" using g(2,3) by simp
    finally show ?thesis by (simp only: hky_consts)
  qed
  ultimately show ?thesis using read_run [OF g(4,3,2) p refl] by blast
qed

text \<open>
  C18: \<open>hky_inet6_ntop\<close> with a buffer of \<open>HKY_INET6_ADDRSTRLEN\<close> bytes always produces a text that fits
  it, and \<open>hky_inet6_addr\<close> reads that text back as the same address, whichever run of zero words
  was left out, as long as the text has no dotted tail. A dotted tail is read wrongly: the first
  two of its bytes are multiplied by 0xff.
\<close>

theorem inet6_round_trip:
  assumes p: "length p = 16" and len: "HKY_INET6_ADDRSTRLEN \<le> len" and addr: "text + 128 < 2 ^ 64"
  shows "(\<exists>t. hky_inet6_ntop p text len = Some t \<and> length t \<le> HKY_INET6_ADDRSTRLEN \<and>
      (46 \<in> set t \<or> hky_inet6_addr t (length t) = Some (HKY_OK, p))) \<and>
    hky_inet6_addr (bytes_of ''::ffff:1.2.3.4'') 14 = Some (HKY_OK, replicate 10 0 @ [255, 255, 255, 254, 3, 4])"
proof
  obtain zero mx where scan: "ntop_scan p 0 None None 1 0 = (zero, mx)" by fastforce
  have good: "good_run p 8 zero mx" using ntop_scan_good [OF scan, of 0] by (simp add: good_run_def)
  have ntop: "hky_inet6_ntop p text len = ntop_text p zero mx (ntop_limit p zero mx) text"
    using len scan by (simp add: hky_inet6_ntop_def)
  have "ntop_limit p zero mx = 12 \<or> ntop_limit p zero mx = 16" by (simp add: ntop_limit_def)
  then show "\<exists>t. hky_inet6_ntop p text len = Some t \<and> length t \<le> HKY_INET6_ADDRSTRLEN \<and>
      (46 \<in> set t \<or> hky_inet6_addr t (length t) = Some (HKY_OK, p))"
    unfolding ntop using ntop_text_dotted [OF _ addr, of p zero mx] ntop_text_words [OF good p addr] by auto
next
  show "hky_inet6_addr (bytes_of ''::ffff:1.2.3.4'') 14 = Some (HKY_OK, replicate 10 0 @ [255, 255, 255, 254, 3, 4])"
    by code_simp
qed

theorem inet6_round_trip_witness:
  "\<exists>t. hky_inet6_ntop (0x20 # 0x01 # replicate 13 0 @ [1]) 4096 64 = Some t \<and> length t \<le> HKY_INET6_ADDRSTRLEN \<and>
    (46 \<in> set t \<or> hky_inet6_addr t (length t) = Some (HKY_OK, 0x20 # 0x01 # replicate 13 0 @ [1]))"
  using inet6_round_trip [of "0x20 # 0x01 # replicate 13 0 @ [1]" 64 4096] by (simp add: hky_consts)

text \<open>
  \<open>hky_cmp_sockaddr\<close> tells addresses of different families apart and compares IPv4 addresses
  exactly (the port only on request), but two IPv6 addresses are always equal for it, since the
  case leaves the switch before the comparison.
\<close>

theorem cmp_sockaddr_correct:
  "hky_cmp_sockaddr (Sin port1 addr1) slen1 (Sin port2 addr2) slen2 cmp_port =
     Some (if addr1 = addr2 \<and> (if cmp_port then port1 = port2 else True) then HKY_OK else HKY_DECLINED) \<and>
   hky_cmp_sockaddr (Sin6 port1 a) slen1 (Sin6 port2 b) slen2 cmp_port = Some HKY_OK \<and>
   hky_cmp_sockaddr (Sin port1 addr1) slen1 (Sin6 port2 b) slen2 cmp_port = Some HKY_DECLINED"
  by (simp add: hky_cmp_sockaddr_def hky_consts Let_def)

end
