(* ===== verification/Hky_Url.thy ===== *)
theory Hky_Url
  imports Hky_Inet
begin

text \<open>
  URLs of sockets, second part of src/core/hky_inet.c: \<open>hky_parse_url\<close> with its three parsers and
  the two variants of \<open>hky_inet_resolve_host\<close>.

  An \<open>hky_url_t\<close> is a record; its \<open>hky_str_t\<close> members, which point into the URL, are the byte
  lists they denote, and positions in the URL are offsets. The union \<open>sockaddr\<close> of the record is
  cleared by the caller (hky_syslog.c), so setting its family gives an otherwise zero address.
  Memory comes from the pool of \<open>Hky_Palloc\<close>, every failed allocation included; the addresses
  stored in the chunks are the values of \<open>u_addrs\<close>. The system's \<open>getaddrinfo\<close> and
  \<open>gethostbyname\<close> are parameters. \<open>the\<close> is only applied to calls that cannot read out of bounds:
  \<open>hky_atoi\<close> and \<open>hky_inet_addr\<close> get the length of their list.
\<close>

section \<open>The record\<close>

record hky_addr =
  ha_sockaddr :: sockaddr
  ha_socklen :: nat
  ha_name :: "byte list"

record hky_url =
  u_url :: "byte list"
  u_host :: "byte list"
  u_port_text :: "byte list"
  u_uri :: "byte list"
  u_port :: u16
  u_default_port :: u16
  u_family :: nat
  u_listen :: bool
  u_uri_part :: bool
  u_no_resolve :: bool
  u_no_port :: bool
  u_wildcard :: bool
  u_socklen :: nat
  u_sockaddr :: sockaddr
  u_addrs :: "hky_addr list"
  u_naddrs :: nat
  u_err :: string

definition sizeof_addr :: nat where [hky_consts]: "sizeof_addr = 32"
definition sizeof_sockaddr_un :: nat where [hky_consts]: "sizeof_sockaddr_un = 110"

text \<open>\<open>IN6_IS_ADDR_UNSPECIFIED\<close> and \<open>INADDR_ANY\<close>.\<close>

fun is_wildcard :: "sockaddr \<Rightarrow> bool" where
  "is_wildcard (Sin _ a) = (a = INADDR_ANY)"
| "is_wildcard (Sin6 _ a) = (a = replicate 16 0)"
| "is_wildcard (Sun _) = False"
| "is_wildcard (Sa_other _ _ a) = (a = INADDR_ANY)"

section \<open>Resolving a host name\<close>

record addrinfo =
  ai_family :: nat
  ai_addr :: sockaddr
  ai_addrlen :: nat

definition set_sa_port :: "u16 \<Rightarrow> sockaddr \<Rightarrow> sockaddr" where
  "set_sa_port port sa =
     (case sa of Sin _ a \<Rightarrow> Sin port a | Sin6 _ a \<Rightarrow> Sin6 port a | sa \<Rightarrow> sa)"

definition sizeof_port_text :: nat where [hky_consts]: "sizeof_port_text = 6"

text \<open>One of the two loops over the results: those of family \<open>family\<close> are copied to the pool.\<close>

fun resolve_loop ::
  "allocator \<Rightarrow> nat \<Rightarrow> nat \<Rightarrow> u16 \<Rightarrow> addrinfo list \<Rightarrow> hky_url \<Rightarrow> hky_pool \<Rightarrow> int \<times> hky_url \<times> hky_pool" where
  "resolve_loop os family strlen port [] u pool = (HKY_OK, u, pool)"
| "resolve_loop os family strlen port (rp # res) u pool =
     (if ai_family rp \<noteq> family then resolve_loop os family strlen port res u pool
      else let (sin, pool) = hky_pcalloc os (ai_addrlen rp) pool in
        if sin = 0 then (HKY_ERROR, u, pool)
        else
          let sa = set_sa_port port (ai_addr rp);
              (p, pool) = hky_pnalloc os strlen pool
          in if p = 0 then (HKY_ERROR, u, pool)
          else
            let (name, len) = the (hky_sock_ntop sa (ai_addrlen rp) p strlen True);
                a = \<lparr>ha_sockaddr = sa, ha_socklen = ai_addrlen rp, ha_name = take len name\<rparr>
            in resolve_loop os family strlen port res (u\<lparr>u_addrs := u_addrs u @ [a]\<rparr>) pool)"

text \<open>The variant with \<open>getaddrinfo\<close>, and the older one with \<open>gethostbyname\<close>.\<close>

definition resolve_getaddrinfo ::
  "allocator \<Rightarrow> (byte list \<Rightarrow> addrinfo list option) \<Rightarrow> hky_url \<Rightarrow> hky_pool \<Rightarrow> int \<times> hky_url \<times> hky_pool" where
  "resolve_getaddrinfo os getaddrinfo u pool =
     (let port = htons (u_port u);
          (host, pool) = hky_alloc os (length (u_host u) + 1) pool
      in if host = 0 then (HKY_ERROR, u, pool)
      else case getaddrinfo (u_host u) of
        None \<Rightarrow> (HKY_ERROR, u\<lparr>u_err := ''host not found''\<rparr>, hky_free host pool)
      | Some res \<Rightarrow>
          let pool = hky_free host pool;
              i = length (filter (\<lambda>rp. ai_family rp = AF_INET \<or> ai_family rp = AF_INET6) res)
          in if i = 0 then (HKY_ERROR, u\<lparr>u_err := ''host not found''\<rparr>, pool)
          else
            let (addrs, pool) = hky_pcalloc os (i * sizeof_addr) pool in
            if addrs = 0 then (HKY_ERROR, u\<lparr>u_addrs := []\<rparr>, pool)
            else
              case resolve_loop os AF_INET (HKY_INET_ADDRSTRLEN + sizeof_port_text) port res
                     (u\<lparr>u_addrs := [], u_naddrs := i\<rparr>) pool of (rc, u, pool) \<Rightarrow>
              if rc \<noteq> HKY_OK then (HKY_ERROR, u, pool)
              else resolve_loop os AF_INET6 (HKY_INET6_ADDRSTRLEN + (sizeof_port_text + 2)) port res u pool)"

text \<open>Both name a numeric or resolved IPv4 address with \<open>\<open>%V:%d\<close>\<close> or \<open>hky_sock_ntop\<close>.\<close>

definition host_port_name :: "nat \<Rightarrow> byte list \<Rightarrow> u16 \<Rightarrow> byte list" where
  "host_port_name p host port = the (hky_sprintf p (bytes_of ''%V:%d'' @ [0]) [VStr host, VInt (ucast port)])"

definition resolve_gethostbyname ::
  "allocator \<Rightarrow> (byte list \<Rightarrow> u32 list option) \<Rightarrow> hky_url \<Rightarrow> hky_pool \<Rightarrow> int \<times> hky_url \<times> hky_pool" where
  "resolve_gethostbyname os gethostbyname u pool =
     (let port = htons (u_port u);
          in_addr = the (hky_inet_addr (u_host u) (length (u_host u)))
      in if in_addr = INADDR_NONE then
        let (host, pool) = hky_alloc os (length (u_host u) + 1) pool in
        if host = 0 then (HKY_ERROR, u, pool)
        else let pool' = hky_free host pool in
          case gethostbyname (u_host u) of
            None \<Rightarrow> (HKY_ERROR, u\<lparr>u_err := ''host not found''\<rparr>, pool')
          | Some [] \<Rightarrow> (HKY_ERROR, u\<lparr>u_err := ''host not found''\<rparr>, pool')
          | Some addrs \<Rightarrow>
              let (a, pool) = hky_pcalloc os (length addrs * sizeof_addr) pool' in
              if a = 0 then (HKY_ERROR, u\<lparr>u_addrs := []\<rparr>, pool)
              else resolve_loop os AF_INET (HKY_INET_ADDRSTRLEN + sizeof_port_text) port
                (map (\<lambda>a. \<lparr>ai_family = AF_INET, ai_addr = Sin 0 a, ai_addrlen = sizeof_sockaddr_in\<rparr>) addrs)
                (u\<lparr>u_addrs := [], u_naddrs := length addrs\<rparr>) pool
      else
        let (addrs, pool) = hky_pcalloc os sizeof_addr pool in
        if addrs = 0 then (HKY_ERROR, u\<lparr>u_addrs := []\<rparr>, pool)
        else let (sin, pool) = hky_pcalloc os sizeof_sockaddr_in pool in
          if sin = 0 then (HKY_ERROR, u, pool)
          else let u = u\<lparr>u_naddrs := 1\<rparr>; (p, pool) = hky_pnalloc os (length (u_host u) + sizeof_port_text) pool in
            if p = 0 then (HKY_ERROR, u, pool)
            else (HKY_OK, u\<lparr>u_addrs := [\<lparr>ha_sockaddr = Sin port in_addr, ha_socklen = sizeof_sockaddr_in,
                    ha_name = host_port_name p (u_host u) (htons port)\<rparr>]\<rparr>, pool))"

section \<open>The parsers\<close>

text \<open>A stage of a parser returns from the function or goes on.\<close>

datatype 'a stage = Return int hky_url | Go 'a

definition fail_with :: "string \<Rightarrow> hky_url \<Rightarrow> 'a stage" where
  "fail_with err u = Return HKY_ERROR (u\<lparr>u_err := err\<rparr>)"

definition slice :: "byte list \<Rightarrow> nat \<Rightarrow> nat \<Rightarrow> byte list" where
  "slice s a b = take (b - a) (drop a s)"

text \<open>
  The common end of the two internet parsers: one address, its copy and its name. The name is
  written to \<open>p\<close>, for which \<open>sizeof(":65535") - 1\<close> bytes are added to the length of the host.
\<close>

definition url_single_addr :: "allocator \<Rightarrow> nat \<Rightarrow> hky_url \<Rightarrow> hky_pool \<Rightarrow> int \<times> hky_url \<times> hky_pool" where
  "url_single_addr os socklen u pool =
     (let u = u\<lparr>u_naddrs := 1\<rparr>;
          (addrs, pool) = hky_pcalloc os sizeof_addr pool
      in if addrs = 0 then (HKY_ERROR, u\<lparr>u_addrs := []\<rparr>, pool)
      else let (sin, pool) = hky_pcalloc os socklen pool in
        if sin = 0 then (HKY_ERROR, u, pool)
        else let (p, pool) = hky_pnalloc os (length (u_host u) + sizeof_port_text) pool in
          if p = 0 then (HKY_ERROR, u, pool)
          else (HKY_OK, u\<lparr>u_addrs := [\<lparr>ha_sockaddr = u_sockaddr u, ha_socklen = socklen,
                  ha_name = host_port_name p (u_host u) (u_port u)\<rparr>]\<rparr>, pool))"

text \<open>Unix domain sockets: \<open>unix:path[:uri]\<close>.\<close>

definition hky_parse_unix_domain_url :: "allocator \<Rightarrow> hky_url \<Rightarrow> hky_pool \<Rightarrow> int \<times> hky_url \<times> hky_pool" where
  "hky_parse_unix_domain_url os u pool =
     (let path = drop 5 (u_url u);
          (len, u) = (case (if u_uri_part u then hky_strlchr path 58 else None) of
              None \<Rightarrow> (length path, u)
            | Some uri \<Rightarrow> (uri, u\<lparr>u_uri := drop (uri + 1) path\<rparr>))
      in if len = 0 then (HKY_ERROR, u\<lparr>u_err := ''no path in the unix domain socket''\<rparr>, pool)
      else let u = u\<lparr>u_host := take len path\<rparr>; len = len + 1 in
        if len > sizeof_sun_path then (HKY_ERROR, u\<lparr>u_err := ''too long path in the unix domain socket''\<rparr>, pool)
        else
          let written = fst (the (hky_cpystrn path len));
              saun = Sun (written @ replicate (sizeof_sun_path - length written) 0);
              u = u\<lparr>u_socklen := sizeof_sockaddr_un, u_sockaddr := saun\<rparr>;
              (addrs, pool) = hky_pcalloc os sizeof_addr pool
          in if addrs = 0 then (HKY_ERROR, u\<lparr>u_addrs := []\<rparr>, pool)
          else let (p, pool) = hky_pcalloc os sizeof_sockaddr_un pool in
            if p = 0 then (HKY_ERROR, u, pool)
            else (HKY_OK, u\<lparr>u_family := AF_UNIX, u_naddrs := 1,
                    u_addrs := [\<lparr>ha_sockaddr = saun, ha_socklen = sizeof_sockaddr_un,
                      ha_name = take (len + 4) (u_url u)\<rparr>]\<rparr>, pool))"

text \<open>
  IPv4 addresses and names: \<open>host[:port][/uri]\<close>. The URI starts at the first slash or question
  mark; a colon behind it does not start a port.
\<close>

definition inet_url_uri :: "byte list \<Rightarrow> nat option" where
  "inet_url_uri host =
     (let uri = hky_strlchr host 47; args = hky_strlchr host 63 in
      case args of None \<Rightarrow> uri
      | Some a \<Rightarrow> (case uri of None \<Rightarrow> Some a | Some s \<Rightarrow> if a < s then Some a else uri))"

definition url_uri_stage :: "nat option \<Rightarrow> hky_url \<Rightarrow> (hky_url \<times> nat) stage" where
  "url_uri_stage uri u =
     (case uri of None \<Rightarrow> Go (u, length (u_url u))
      | Some k \<Rightarrow>
          if u_listen u \<or> \<not> u_uri_part u then fail_with ''invalid host'' u
          else Go (u\<lparr>u_uri := drop k (u_url u)\<rparr>, k))"

definition port_range :: "int \<Rightarrow> bool" where
  "port_range n \<longleftrightarrow> \<not> (n < 1 \<or> n > 65535)"

definition set_port :: "int \<Rightarrow> byte list \<Rightarrow> hky_url \<Rightarrow> hky_url" where
  "set_port n txt u = u\<lparr>u_port := word_of_int n, u_sockaddr := set_sa_port (htons (word_of_int n)) (u_sockaddr u),
     u_port_text := txt\<rparr>"

definition set_no_port :: "hky_url \<Rightarrow> hky_url" where
  "set_no_port u = u\<lparr>u_no_port := True, u_port := u_default_port u,
     u_sockaddr := set_sa_port (htons (u_default_port u)) (u_sockaddr u)\<rparr>"

definition inet_port_stage :: "nat option \<Rightarrow> nat option \<Rightarrow> nat \<Rightarrow> hky_url \<Rightarrow> (hky_url \<times> nat) stage" where
  "inet_port_stage uri port lst u =
     (case port of
        Some k \<Rightarrow>
          let txt = slice (u_url u) (k + 1) lst; n = the (hky_atoi txt (length txt)) in
          if \<not> port_range n then fail_with ''invalid port'' u
          else Go (set_port n txt u, k)
      | None \<Rightarrow>
          if uri = None \<and> u_listen u then
            let txt = take lst (u_url u); n = the (hky_atoi txt (length txt)) in
            if n \<noteq> HKY_ERROR then
              if \<not> port_range n then fail_with ''invalid port'' u
              else Return HKY_OK ((set_port n txt u)\<lparr>u_wildcard := True\<rparr>)
            else Go (set_no_port u, lst)
          else Go (set_no_port u, lst))"

definition set_sin_addr :: "u32 \<Rightarrow> hky_url \<Rightarrow> hky_url" where
  "set_sin_addr a u = u\<lparr>u_sockaddr := Sin (sa_port (u_sockaddr u)) a\<rparr>"

definition inet_host_stage ::
  "(hky_url \<Rightarrow> hky_pool \<Rightarrow> int \<times> hky_url \<times> hky_pool) \<Rightarrow> allocator \<Rightarrow> nat \<Rightarrow> hky_url \<Rightarrow> hky_pool \<Rightarrow> int \<times> hky_url \<times> hky_pool" where
  "inet_host_stage resolve os lst u pool =
     (if lst = 0 then (HKY_ERROR, u\<lparr>u_err := ''no host''\<rparr>, pool)
      else
        let host = take lst (u_url u); u = u\<lparr>u_host := host\<rparr> in
        if u_listen u \<and> host = [42] then (HKY_OK, (set_sin_addr INADDR_ANY u)\<lparr>u_wildcard := True\<rparr>, pool)
        else
          let a = the (hky_inet_addr host (length host)); u = set_sin_addr a u in
          if a \<noteq> INADDR_NONE then
            url_single_addr os sizeof_sockaddr_in (if a = INADDR_ANY then u\<lparr>u_wildcard := True\<rparr> else u) pool
          else if u_no_resolve u then (HKY_OK, u, pool)
          else case resolve u pool of (rc, u, pool) \<Rightarrow>
            if rc \<noteq> HKY_OK then (HKY_ERROR, u, pool)
            else
              let a = hd (u_addrs u);
                  u = u\<lparr>u_family := sa_family_of (ha_sockaddr a), u_socklen := ha_socklen a, u_sockaddr := ha_sockaddr a\<rparr>
              in (HKY_OK, (if is_wildcard (u_sockaddr u) then u\<lparr>u_wildcard := True\<rparr> else u), pool))"

definition hky_parse_inet_url ::
  "(hky_url \<Rightarrow> hky_pool \<Rightarrow> int \<times> hky_url \<times> hky_pool) \<Rightarrow> allocator \<Rightarrow> hky_url \<Rightarrow> hky_pool \<Rightarrow> int \<times> hky_url \<times> hky_pool" where
  "hky_parse_inet_url resolve os u pool =
     (let u = u\<lparr>u_socklen := sizeof_sockaddr_in, u_sockaddr := Sin 0 0, u_family := AF_INET\<rparr>;
          port = hky_strlchr (u_url u) 58; uri = inet_url_uri (u_url u)
      in case url_uri_stage uri u of
           Return rc u \<Rightarrow> (rc, u, pool)
         | Go (u, lst) \<Rightarrow>
             let port = (case (uri, port) of (Some a, Some b) \<Rightarrow> if a < b then None else port | _ \<Rightarrow> port) in
             case inet_port_stage uri port lst u of
               Return rc u \<Rightarrow> (rc, u, pool)
             | Go (u, lst) \<Rightarrow> inet_host_stage resolve os lst u pool)"

text \<open>IPv6 addresses in brackets: \<open>[addr][:port][/uri]\<close>.\<close>

definition inet6_port_stage :: "nat \<Rightarrow> nat \<Rightarrow> hky_url \<Rightarrow> hky_url stage" where
  "inet6_port_stage port lst u =
     (if port < lst then
        if u_url u ! port \<noteq> 58 then fail_with ''invalid host'' u
        else
          let txt = slice (u_url u) (port + 1) lst; n = the (hky_atoi txt (length txt)) in
          if \<not> port_range n then fail_with ''invalied port'' u
          else Go (set_port n txt u)
      else Go (set_no_port u))"

definition inet6_host_stage :: "allocator \<Rightarrow> nat \<Rightarrow> hky_url \<Rightarrow> hky_pool \<Rightarrow> int \<times> hky_url \<times> hky_pool" where
  "inet6_host_stage os p u pool =
     (let len = p - 1 in
      if len = 0 then (HKY_ERROR, u\<lparr>u_err := ''no host''\<rparr>, pool)
      else
        let u = u\<lparr>u_host := take (len + 2) (u_url u)\<rparr>; host = slice (u_url u) 1 p;
            (rc, addr) = the (hky_inet6_addr host len)
        in if rc \<noteq> HKY_OK then (HKY_ERROR, u\<lparr>u_err := ''invalid IPv6 address''\<rparr>, pool)
        else
          let u = u\<lparr>u_sockaddr := Sin6 (sa_port (u_sockaddr u)) addr\<rparr>;
              u = (if is_wildcard (u_sockaddr u) then u\<lparr>u_wildcard := True\<rparr> else u)
          in url_single_addr os sizeof_sockaddr_in6 (u\<lparr>u_family := AF_INET6\<rparr>) pool)"

definition hky_parse_inet6_url :: "allocator \<Rightarrow> hky_url \<Rightarrow> hky_pool \<Rightarrow> int \<times> hky_url \<times> hky_pool" where
  "hky_parse_inet6_url os u pool =
     (let u = u\<lparr>u_socklen := sizeof_sockaddr_in6, u_sockaddr := Sin6 0 (replicate 16 0)\<rparr> in
      case hky_strlchr (drop 1 (u_url u)) 93 of
        None \<Rightarrow> (HKY_ERROR, u\<lparr>u_err := ''invalid host''\<rparr>, pool)
      | Some k \<Rightarrow>
          let p = k + 1; port = p + 1; uri = map_option ((+) port) (hky_strlchr (drop port (u_url u)) 47) in
          case url_uri_stage uri u of
            Return rc u \<Rightarrow> (rc, u, pool)
          | Go (u, lst) \<Rightarrow>
              case inet6_port_stage port lst u of
                Return rc u \<Rightarrow> (rc, u, pool)
              | Go u \<Rightarrow> inet6_host_stage os p u pool)"

definition hky_parse_url ::
  "(hky_url \<Rightarrow> hky_pool \<Rightarrow> int \<times> hky_url \<times> hky_pool) \<Rightarrow> allocator \<Rightarrow> hky_url \<Rightarrow> hky_pool \<Rightarrow> int \<times> hky_url \<times> hky_pool" where
  "hky_parse_url resolve os u pool =
     (let p = u_url u; len = length p in
      if len \<ge> 5 \<and> hky_strncasecmp p (bytes_of ''unix:'' @ [0]) 5 = Some 0 then hky_parse_unix_domain_url os u pool
      else if len > 0 \<and> p ! 0 = 91 then hky_parse_inet6_url os u pool
      else hky_parse_inet_url resolve os u pool)"

section \<open>Memory\<close>

text \<open>A function that only allocates keeps the chunks in use and may add some.\<close>

definition grows :: "('s \<Rightarrow> region list \<Rightarrow> bool) \<Rightarrow> 's \<Rightarrow> 's \<Rightarrow> bool" where
  "grows I s s' \<longleftrightarrow> (\<forall>cs. I s cs \<longrightarrow> (\<exists>new. I s' (new @ cs)))"

lemma grows_refl [simp, intro]: "grows I s s"
  by (auto simp: grows_def intro: exI [of _ "[]"])

lemma grows_trans [trans]: "grows I s t \<Longrightarrow> grows I t u \<Longrightarrow> grows I s u"
  unfolding grows_def by (metis append.assoc)

context pool_allocator
begin

lemma alloc_grows: "alloc sz s = (r, s') \<Longrightarrow> grows inv s s'"
  unfolding grows_def
  by (cases "r = 0") (metis alloc_null append_Nil, metis alloc_fresh append_Cons append_Nil)

end

lemma pool_inv_store: "palloc_inv_of os (p\<lparr>sys_store := m\<rparr>) cs = palloc_inv_of os p cs"
  by (simp add: palloc_inv_of_def pool_inv_def pool_ok_def chunk_ok_def)

lemma pcalloc_grows: "hky_pcalloc os sz p = (r, p') \<Longrightarrow> grows (palloc_inv_of os) p p'"
  using palloc.alloc_grows [of os sz p]
  by (auto simp: hky_pcalloc_def hky_memzero_def grows_def pool_inv_store split: prod.splits if_splits)

lemma pnalloc_grows: "hky_pnalloc os sz p = (r, p') \<Longrightarrow> grows (palloc_inv_of os) p p'"
  by (rule pnalloc.alloc_grows)

lemma hky_alloc_grows: "hky_alloc os sz p = (r, p') \<Longrightarrow> grows (palloc_inv_of os) p p'"
proof -
  assume call: "hky_alloc os sz p = (r, p')"
  obtain q live where q: "hky_memalign os 16 sz p = (q, live)" by fastforce
  have "palloc_inv_of os p' cs" if "palloc_inv_of os p cs" for cs
  proof -
    from that obtain n where n: "pool_inv n p cs" "lawful_os os" by (auto simp: palloc_inv_of_def)
    note m = memalign_live [OF _ n(2) q]
    have l: "live_ok (sys_live p)" using n(1) by (simp add: pool_inv_def pool_ok_def)
    have "p' = live" using call q by (simp add: hky_alloc_def)
    then show ?thesis using pool_inv_live [OF n(1) m(1,2) [OF l]] m(3) [OF l] n(2) by (metis palloc_inv_of_def)
  qed
  then show ?thesis unfolding grows_def by (metis append_Nil)
qed

text \<open>\<open>hky_alloc\<close> never succeeds, so no name is ever looked up.\<close>

lemma resolve_getaddrinfo_fails:
  "resolve_getaddrinfo os gai u pool = (rc, u', pool') \<Longrightarrow>
     rc = HKY_ERROR \<and> u' = u \<and> grows (palloc_inv_of os) pool pool'"
  using hky_alloc_fails hky_alloc_grows
  by (fastforce simp: resolve_getaddrinfo_def Let_def split: prod.splits if_splits)

lemma url_single_addr_grows:
  "url_single_addr os socklen u pool = (rc, u', pool') \<Longrightarrow> grows (palloc_inv_of os) pool pool'"
  by (auto simp: url_single_addr_def Let_def split: prod.splits if_splits dest!: pcalloc_grows pnalloc_grows
      intro: grows_trans)

lemma parse_unix_grows:
  "hky_parse_unix_domain_url os u pool = (rc, u', pool') \<Longrightarrow> grows (palloc_inv_of os) pool pool'"
  by (auto simp: hky_parse_unix_domain_url_def Let_def split: prod.splits if_splits option.splits
      dest!: pcalloc_grows intro: grows_trans)

lemma inet_host_grows:
  assumes "inet_host_stage (resolve_getaddrinfo os gai) os lst u pool = (rc, u', pool')"
  shows "grows (palloc_inv_of os) pool pool'"
  using assms by (auto simp: inet_host_stage_def Let_def split: prod.splits if_splits
      dest: resolve_getaddrinfo_fails url_single_addr_grows)

text \<open>
  Whatever the URL and whichever allocations fail, \<open>hky_parse_url\<close> keeps the invariant of the pool:
  every chunk in use stays so and the new ones are disjoint from them.
\<close>

theorem parse_url_keeps_pool:
  assumes "hky_parse_url (resolve_getaddrinfo os gai) os u pool = (rc, u', pool')"
    and "lawful_os os" and "pool_inv n pool cs"
  shows "\<exists>new n'. pool_inv n' pool' (new @ cs)"
proof -
  have "grows (palloc_inv_of os) pool pool'"
    using assms(1) parse_unix_grows inet_host_grows url_single_addr_grows
    by (fastforce simp: hky_parse_url_def hky_parse_inet_url_def hky_parse_inet6_url_def inet6_host_stage_def Let_def
        split: if_splits stage.splits option.splits prod.splits)
  then show ?thesis using assms(2,3) unfolding grows_def palloc_inv_of_def by blast
qed

text \<open>An empty URL record with the given text.\<close>

definition url_of :: "byte list \<Rightarrow> hky_url" where
  "url_of s = \<lparr>u_url = s, u_host = [], u_port_text = [], u_uri = [], u_port = 0, u_default_port = 0,
     u_family = 0, u_listen = False, u_uri_part = False, u_no_resolve = False, u_no_port = False, u_wildcard = False,
     u_socklen = 0, u_sockaddr = Sin 0 0, u_addrs = [], u_naddrs = 0, u_err = []\<rparr>"

theorem parse_url_keeps_pool_witness:
  "\<exists>new n'. pool_inv n' (snd (snd (hky_parse_url (resolve_getaddrinfo bump_os (\<lambda>host. None)) bump_os
     (url_of (bytes_of ''127.0.0.1:80'')) sample_pool))) (new @ [])"
  by (rule parse_url_keeps_pool [OF _ lawful_bump_os sample_pool_inv]) (auto simp: prod_eq_iff)

section \<open>What the parser finds\<close>

lemma strlchr_None: "c \<notin> set s \<Longrightarrow> c < 128 \<Longrightarrow> hky_strlchr s c = None"
  by (induction s) (auto simp: sint_low_byte)

lemma strlchr_append: "c \<notin> set s \<Longrightarrow> c < 128 \<Longrightarrow> hky_strlchr (s @ c # r) c = Some (length s)"
  by (induction s) (auto simp: sint_low_byte)

lemma host_port_name:
  assumes "p + length host + 6 < 2 ^ 64"
  shows "host_port_name p host port = host @ 58 # dec_text (unat port)"
proof -
  have u: "uint (ucast port :: u64) = uint port" by (rule uint_up_ucast) (simp add: is_up)
  then have u': "unat (ucast port :: u64) = unat port" by (metis unat_eq_nat_uint)
  have p: "uint port < 65536" "unat port < 65536" using unsigned_less [of port] uint_bounded [of port] by simp_all
  have low: "low_int (ucast port) = ucast port" by (rule low_int_id) (use u p(1) in simp)
  have sgn: "0 \<le> sint (ucast port :: u64)" using u p(1) by (subst sint_u64_small) simp_all
  have len: "length (dec_text (unat port)) \<le> 5" using dec_text_length [of "unat port" 4] p(2) by simp
  have "vslprintf_loop (2 ^ 64 - 1 - p) (bytes_of ''%V:%d'' @ [0]) [VStr host, VInt (ucast port)] =
      Some (host @ 58 # dec_text (unat port))"
    using assms len sgn
    by (simp add: format_V format_text format_d low num_digits_text u' Let_def del: vslprintf_loop.simps)
  then show ?thesis by (simp add: host_port_name_def hky_sprintf_def hky_vslprintf_def)
qed

lemma chunk_in_memory:
  assumes "pool_inv n p ((r, sz) # cs)" "0 < sz"
  shows "r + sz < 2 ^ 64"
proof -
  have ok: "pool_ok n p" and "chunk_ok p (r, sz)" using assms(1) by (simp_all add: pool_inv_def)
  then consider (block) i where "i < length (p_blocks p)" "inside (r, sz) (used_region i (p_blocks p ! i))"
    | (large) "(r, sz) \<in> set (sys_live p)" by (auto simp: chunk_ok_def)
  then show ?thesis
  proof cases
    case block
    note b = pool_okD(5) [OF ok block(1)]
    have "block_region (p_blocks p ! i) \<in> set (sys_live p)" using block(1) by (intro pool_okD(8) [OF ok]) simp
    then have "fst (block_region (p_blocks p ! i)) + snd (block_region (p_blocks p ! i)) < 2 ^ 64"
      using pool_okD(6) [OF ok] by (simp add: live_ok_def)
    moreover have "inside (r, sz) (block_region (p_blocks p ! i))"
      using block(2) used_inside_block [OF b] by (auto simp: inside_def used_region_def)
    ultimately show ?thesis using assms(2) by (auto simp: inside_def)
  next
    case large
    then show ?thesis using pool_okD(6) [OF ok] by (auto simp: live_ok_def)
  qed
qed

text \<open>On success the single address is the socket address of the record, under the name \<open>host:port\<close>.\<close>

lemma url_single_addr_spec:
  assumes call: "url_single_addr os socklen u pool = (rc, u', pool')" and os: "lawful_os os" and inv: "pool_inv n pool cs"
  shows "u_host u' = u_host u" "u_port u' = u_port u" "u_port_text u' = u_port_text u" "u_sockaddr u' = u_sockaddr u"
    "u_wildcard u' = u_wildcard u" "rc = HKY_OK \<or> rc = HKY_ERROR"
    "rc = HKY_OK \<Longrightarrow> u_addrs u' = [\<lparr>ha_sockaddr = u_sockaddr u, ha_socklen = socklen,
       ha_name = u_host u @ 58 # dec_text (unat (u_port u))\<rparr>]"
proof -
  have g: "palloc_inv_of os pool cs" using os inv by (auto simp: palloc_inv_of_def)
  have name: "host_port_name p (u_host u) (u_port u) = u_host u @ 58 # dec_text (unat (u_port u))"
    if "hky_pcalloc os a pool = (r1, p1)" "hky_pcalloc os b p1 = (r2, p2)"
      "hky_pnalloc os (length (u_host u) + 6) p2 = (p, p3)" "p \<noteq> 0" for a b r1 p1 r2 p2 p p3
  proof -
    have "grows (palloc_inv_of os) pool p2" using that(1,2) by (blast intro: grows_trans pcalloc_grows)
    then obtain cs2 where "palloc_inv_of os p2 cs2" using g by (auto simp: grows_def)
    from pnalloc.alloc_fresh [OF this that(3,4)] obtain n' where
      "pool_inv n' p3 ((p, length (u_host u) + 6) # cs2)" by (auto simp: palloc_inv_of_def)
    from chunk_in_memory [OF this] show ?thesis by (intro host_port_name) simp
  qed
  show "rc = HKY_OK \<Longrightarrow> u_addrs u' = [\<lparr>ha_sockaddr = u_sockaddr u, ha_socklen = socklen,
       ha_name = u_host u @ 58 # dec_text (unat (u_port u))\<rparr>]"
    using call name by (auto simp: url_single_addr_def Let_def hky_consts split: prod.splits if_splits)
qed (use call in \<open>auto simp: url_single_addr_def Let_def split: prod.splits if_splits\<close>)

lemma inet_host_numeric:
  assumes "inet_host_stage resolve os lst u pool = (rc, u', pool')" and "take lst (u_url u) = host" "lst \<noteq> 0"
    and "host \<noteq> [42]" and "inet_spec host \<noteq> INADDR_NONE"
  shows "\<exists>v. url_single_addr os sizeof_sockaddr_in v pool = (rc, u', pool') \<and> u_host v = host \<and>
    u_port v = u_port u \<and> u_port_text v = u_port_text u \<and> u_sockaddr v = Sin (sa_port (u_sockaddr u)) (inet_spec host) \<and>
    u_wildcard v = (u_wildcard u \<or> inet_spec host = INADDR_ANY)"
proof -
  let ?v = "set_sin_addr (inet_spec host) (u\<lparr>u_host := host\<rparr>)"
  have "hky_inet_addr host (length host) = Some (inet_spec host)"
    using inet_addr_loop_spec [of "length host" host 0 0 0] by (simp add: hky_inet_addr_def inet_spec_from)
  then have "url_single_addr os sizeof_sockaddr_in
      (if inet_spec host = INADDR_ANY then ?v\<lparr>u_wildcard := True\<rparr> else ?v) pool = (rc, u', pool')"
    using assms by (simp add: inet_host_stage_def Let_def split: if_splits)
  then show ?thesis
    by (intro exI [of _ "if inet_spec host = INADDR_ANY then ?v\<lparr>u_wildcard := True\<rparr> else ?v"])
      (auto simp: set_sin_addr_def)
qed

lemma inet_host_name:
  assumes "inet_host_stage (resolve_getaddrinfo os gai) os lst u pool = (rc, u', pool')"
    and "take lst (u_url u) = host" "lst \<noteq> 0" and "host \<noteq> [42]" and "inet_spec host = INADDR_NONE"
  shows "rc = (if u_no_resolve u then HKY_OK else HKY_ERROR) \<and> u_host u' = host \<and>
    u_port u' = u_port u \<and> u_port_text u' = u_port_text u \<and> u_sockaddr u' = Sin (sa_port (u_sockaddr u)) (inet_spec host) \<and>
    u_wildcard u' = u_wildcard u"
proof -
  have "hky_inet_addr host (length host) = Some (inet_spec host)"
    using inet_addr_loop_spec [of "length host" host 0 0 0] by (simp add: hky_inet_addr_def inet_spec_from)
  then show ?thesis
    using assms by (auto simp: inet_host_stage_def Let_def set_sin_addr_def hky_consts
        split: if_splits prod.splits dest!: resolve_getaddrinfo_fails)
qed

text \<open>The state of the parser behind the port of \<open>host:ptext\<close>.\<close>

lemma parse_url_port:
  assumes url: "u_url u = host @ 58 # ptext" and host: "host \<noteq> []" "hd host \<noteq> 91" "set host \<inter> {58, 47, 63} = {}"
    and ptext: "set ptext \<inter> {47, 63} = {}" and unix: "map hky_tolower (take 5 (u_url u)) \<noteq> bytes_of ''unix:''"
    and n: "n = dec_spec HKY_MAX_INT_T_VALUE ptext"
  shows "hky_parse_url resolve os u pool =
    (let v = u\<lparr>u_socklen := sizeof_sockaddr_in, u_sockaddr := Sin 0 0, u_family := AF_INET\<rparr> in
     if port_range n then inet_host_stage resolve os (length host) (set_port n ptext v) pool
     else (HKY_ERROR, v\<lparr>u_err := ''invalid port''\<rparr>, pool))"
proof -
  have "hky_strncasecmp (u_url u) (bytes_of ''unix:'' @ [0]) 5 \<noteq> Some 0" if "5 \<le> length (u_url u)"
    using hky_strncasecmp_eq_iff [of "bytes_of ''unix:''" 5 "u_url u" "[0]"] that unix
    by (auto simp: hky_tolower_def)
  moreover have "u_url u ! 0 \<noteq> 91" using url host(1,2) by (cases host) auto
  ultimately have "hky_parse_url resolve os u pool = hky_parse_inet_url resolve os u pool"
    by (auto simp: hky_parse_url_def Let_def)
  moreover have "hky_strlchr (u_url u) 58 = Some (length host)"
    unfolding url using host(3) by (intro strlchr_append) auto
  moreover have "inet_url_uri (u_url u) = None"
    using host(3) ptext by (auto simp: inet_url_uri_def url strlchr_None Let_def)
  moreover have "slice (u_url u) (length host + 1) (length (u_url u)) = ptext" by (simp add: slice_def url)
  ultimately show ?thesis
    by (simp add: hky_parse_inet_url_def url_uri_stage_def inet_port_stage_def atoi_spec n fail_with_def Let_def)
qed

text \<open>
  C19: \<open>host:port\<close> (host and port free of colons, slashes and question marks, host neither a bracket
  nor an asterisk nor \<open>unix\<close>): the port is the decimal value of its text if that is from 1 to
  65535, otherwise the error is ``invalid port'' and no memory is taken. For a numeric host the
  socket address is the one of host and port, marked as a wildcard if it is 0.0.0.0, and on
  success it is the single entry, named \<open>host:port\<close>. A host that is not numeric is an error unless
  resolving is switched off: \<open>hky_inet_resolve_host\<close> never gets memory from \<open>hky_alloc\<close>.
\<close>

theorem parse_url_host_port:
  assumes url: "u_url u = host @ 58 # ptext" and host: "host \<noteq> []" "hd host \<noteq> 91" "set host \<inter> {58, 47, 63} = {}" "host \<noteq> [42]"
    and ptext: "set ptext \<inter> {47, 63} = {}" and unix: "map hky_tolower (take 5 (u_url u)) \<noteq> bytes_of ''unix:''"
    and call: "hky_parse_url (resolve_getaddrinfo os gai) os u pool = (rc, u', pool')"
    and os: "lawful_os os" and inv: "pool_inv m pool cs"
    and n: "n = dec_spec HKY_MAX_INT_T_VALUE ptext" and a: "a = inet_spec host"
  shows "if \<not> (1 \<le> n \<and> n \<le> 65535) then rc = HKY_ERROR \<and> u_err u' = ''invalid port'' \<and> pool' = pool
    else u_host u' = host \<and> u_port_text u' = ptext \<and> uint (u_port u') = n \<and> u_sockaddr u' = Sin (htons (u_port u')) a \<and>
      u_wildcard u' = (u_wildcard u \<or> a = INADDR_ANY) \<and>
      (if a = INADDR_NONE then rc = (if u_no_resolve u then HKY_OK else HKY_ERROR)
       else rc = HKY_ERROR \<or> rc = HKY_OK \<and>
         u_addrs u' = [\<lparr>ha_sockaddr = u_sockaddr u', ha_socklen = 16, ha_name = host @ 58 # dec_text (nat n)\<rparr>])"
proof (cases "1 \<le> n \<and> n \<le> 65535")
  case True
  let ?v = "u\<lparr>u_socklen := sizeof_sockaddr_in, u_sockaddr := Sin 0 0, u_family := AF_INET\<rparr>"
  let ?w = "set_port n ptext ?v"
  have un: "uint (word_of_int n :: u16) = n" using True by (simp add: uint_word_of_int)
  then have un': "unat (word_of_int n :: u16) = nat n" by (metis unat_eq_nat_uint)
  have stage: "inet_host_stage (resolve_getaddrinfo os gai) os (length host) ?w pool = (rc, u', pool')"
    using call True unfolding parse_url_port [OF url host(1-3) ptext unix n] Let_def by (simp add: port_range_def)
  have w: "take (length host) (u_url ?w) = host" "u_port ?w = word_of_int n" "u_port_text ?w = ptext"
    "u_sockaddr ?w = Sin (htons (word_of_int n)) 0" "u_wildcard ?w = u_wildcard u" "u_no_resolve ?w = u_no_resolve u"
    using url by (simp_all add: set_port_def set_sa_port_def)
  have l: "length host \<noteq> 0" using host(1) by simp
  show ?thesis
  proof (cases "a = INADDR_NONE")
    case none: True
    show ?thesis using inet_host_name [OF stage w(1) l host(4) none [unfolded a]] True none w un a
      by (simp add: hky_consts)
  next
    case False
    obtain v where v: "url_single_addr os sizeof_sockaddr_in v pool = (rc, u', pool')" "u_host v = host"
        "u_port v = word_of_int n" "u_port_text v = ptext" "u_sockaddr v = Sin (htons (word_of_int n)) a"
        "u_wildcard v = (u_wildcard u \<or> a = INADDR_ANY)"
      using inet_host_numeric [OF stage w(1) l host(4) False [unfolded a]] w a by auto
    show ?thesis
      using url_single_addr_spec [OF v(1) os inv] v(2-6) True False un un' by (auto simp: sizeof_sockaddr_in_def)
  qed
next
  case False
  then show ?thesis
    using call unfolding parse_url_port [OF url host(1-3) ptext unix n] Let_def by (auto simp: port_range_def)
qed

theorem parse_url_host_port_witness:
  "\<exists>u'. u' = fst (snd (hky_parse_url (resolve_getaddrinfo bump_os (\<lambda>host. None)) bump_os
       (url_of (bytes_of ''127.0.0.1:80'')) sample_pool)) \<and>
     u_host u' = bytes_of ''127.0.0.1'' \<and> uint (u_port u') = 80 \<and> sin_addr (u_sockaddr u') = 0x0100007f"
proof -
  obtain rc u' pool' where call: "hky_parse_url (resolve_getaddrinfo bump_os (\<lambda>host. None)) bump_os
       (url_of (bytes_of ''127.0.0.1:80'')) sample_pool = (rc, u', pool')" by (metis prod.exhaust)
  have n: "80 = dec_spec HKY_MAX_INT_T_VALUE (bytes_of ''80'')" by (simp add: dec_spec_def is_digit_def hky_consts)
  have a: "0x0100007f = inet_spec (bytes_of ''127.0.0.1'')" by code_simp
  have "u_host u' = bytes_of ''127.0.0.1'' \<and> uint (u_port u') = 80 \<and> u_sockaddr u' = Sin (htons (u_port u')) 0x0100007f"
    using parse_url_host_port [OF _ _ _ _ _ _ _ call lawful_bump_os sample_pool_inv n a]
    by (simp add: url_of_def hky_tolower_def)
  then show ?thesis using call by simp
qed

end
