(* ===== verification/Hky_Times.thy ===== *)
theory Hky_Times
  imports Husky_Base Hky_Printf
begin

text \<open>
  src/core/hky_times.c and the conversions of src/unix/hky_time.c: the calendar (\<open>hky_gmtime\<close>) and the cached time and its
  five texts, which readers take without a lock while \<open>hky_time_update\<close> writes the next of
  the 64 slots.

  The numbers of \<open>hky_gmtime\<close> are \<open>nat\<close>s and \<open>yday\<close> an \<open>int\<close>: \<open>days\<close> is cut to 2932896 before it
  is used, so nothing comes near the limits of \<open>hky_uint_t\<close>; the subtraction for \<open>yday\<close> wraps to a
  negative \<open>hky_int_t\<close> as it does in \<open>int\<close>, and \<open>days - (31 + 28) + 719527\<close>, which wraps twice in the
  first 59 days, is \<open>days + 719527 - (31 + 28)\<close>.
\<close>

section \<open>The calendar\<close>

record hky_tm =
  tm_sec :: nat
  tm_min :: nat
  tm_hour :: nat
  tm_mday :: nat
  tm_mon :: nat
  tm_year :: nat
  tm_wday :: nat

definition gm_leap :: "nat \<Rightarrow> bool" where
  "gm_leap year \<longleftrightarrow> year mod 4 = 0 \<and> (year mod 100 \<noteq> 0 \<or> year mod 400 = 0)"

text \<open>Year and day of the year, counted from March 1; \<open>days\<close> from March 1 of the year 0.\<close>

definition gm_year_day :: "nat \<Rightarrow> nat \<times> int" where
  "gm_year_day days =
     (let year = (days + 2) * 400 div (365 * 400 + 100 - 4 + 1);
          yday = int days - int (365 * year + year div 4 - year div 100 + year div 400)
      in if yday < 0 then (year - 1, 365 + of_bool (gm_leap year) + yday) else (year, yday))"

text \<open>Day and second of the day; year, month and day of a day.\<close>

definition gm_clock :: "int \<Rightarrow> nat \<times> nat" where
  "gm_clock t =
     (let t = (if t < 0 then 0 else t); days = nat (t div 86400); sec = nat (t mod 86400)
      in if days > 2932896 then (2932896, 86399) else (days, sec))"

definition gm_date :: "nat \<Rightarrow> nat \<times> nat \<times> nat" where
  "gm_date days =
     (let (year, yday) = gm_year_day (days + 719527 - (31 + 28));
          mon = nat ((yday + 31) * 10 div 306);
          mday = nat (yday - (367 * int mon div 12 - 30) + 1)
      in if yday \<ge> 306 then (year + 1, mon - 10, mday) else (year, mon + 2, mday))"

definition hky_gmtime :: "int \<Rightarrow> hky_tm" where
  "hky_gmtime t =
     (let (days, sec) = gm_clock t;
          wday = (4 + days) mod 7;
          hour = sec div 3600; sec = sec mod 3600; min = sec div 60; sec = sec mod 60;
          (year, mon, mday) = gm_date days
      in \<lparr>tm_sec = sec, tm_min = min, tm_hour = hour, tm_mday = mday, tm_mon = mon, tm_year = year, tm_wday = wday\<rparr>)"

text \<open>The reference: the days since the first day of 1970, by adding up years and months.\<close>

definition month_length :: "nat \<Rightarrow> nat \<Rightarrow> nat" where
  "month_length y m = (if m = 2 then 28 + of_bool (gm_leap y) else if m \<in> {4, 6, 9, 11} then 30 else 31)"

definition days_since_epoch :: "nat \<Rightarrow> nat \<Rightarrow> nat \<Rightarrow> nat" where
  "days_since_epoch y m d =
     (\<Sum>y'\<leftarrow>[1970..<y]. 365 + of_bool (gm_leap y')) + (\<Sum>m'\<leftarrow>[1..<m]. month_length y m') + (d - 1)"

subsection \<open>Years\<close>

text \<open>The leap years up to \<open>y\<close>.\<close>

definition leaps :: "nat \<Rightarrow> nat" where
  "leaps y = y div 4 - y div 100 + y div 400"

lemma div_Suc_step: "0 < k \<Longrightarrow> (y + 1) div k = y div k + of_bool ((y + 1) mod k = (0 :: nat))"
  by (simp add: div_Suc)

lemma div_div_le: "y div 100 \<le> y div (4 :: nat)"
  by (rule div_le_mono2) simp_all

lemma leaps_Suc: "leaps (y + 1) = leaps y + of_bool (gm_leap (y + 1))"
proof -
  have q: "(y + 1) div 4 = y div 4 + of_bool ((y + 1) mod 4 = 0)"
    "(y + 1) div 100 = y div 100 + of_bool ((y + 1) mod 100 = 0)"
    "(y + 1) div 400 = y div 400 + of_bool ((y + 1) mod 400 = 0)" by (rule div_Suc_step, simp)+
  have "(y + 1) mod 400 = 0 \<Longrightarrow> (y + 1) mod 100 = 0" "(y + 1) mod 100 = 0 \<Longrightarrow> (y + 1) mod 4 = 0"
    using mod_mod_cancel [of 100 400 "y + 1"] mod_mod_cancel [of 4 100 "y + 1"] by auto
  then show ?thesis
    using div_div_le [of y] unfolding leaps_def gm_leap_def q
    by (cases "(y + 1) mod 4 = 0"; cases "(y + 1) mod 100 = 0"; cases "(y + 1) mod 400 = 0")
      (simp_all add: Suc_diff_le trans_le_add1)
qed

lemma years_sum:
  "1970 \<le> y \<Longrightarrow> (\<Sum>y'\<leftarrow>[1970..<y]. 365 + of_bool (gm_leap y')) + 477 + 365 * 1970 = 365 * y + leaps (y - 1)"
proof (induction y rule: dec_induct)
  case base
  then show ?case by (simp add: leaps_def)
next
  case (step y)
  then show ?case using leaps_Suc [of "y - 1"] by simp
qed

lemma quotient: "0 < k \<Longrightarrow> \<exists>q r. (n :: nat) = k * q + r \<and> r < k"
  by (metis mult_div_mod_eq mod_less_divisor)

lemma year_parts:
  "\<exists>a b c e. y = 400 * a + 100 * b + 4 * c + e \<and> b \<le> 3 \<and> c \<le> 24 \<and> e \<le> 3 \<and> leaps y = 97 * a + 24 * b + c"
proof -
  obtain a r where a: "y = 400 * a + r" "r < 400" using quotient [of 400 y] by auto
  obtain b s where b: "r = 100 * b + s" "s < 100" using quotient [of 100 r] by auto
  obtain c e where c: "s = 4 * c + e" "e < 4" using quotient [of 4 s] by auto
  have "y div 4 = 100 * a + 25 * b + c" "y div 100 = 4 * a + b" "y div 400 = a"
    using a b c by simp_all
  then have "leaps y = 97 * a + 24 * b + c" unfolding leaps_def by simp
  moreover have "y = 400 * a + 100 * b + 4 * c + e" "b \<le> 3" "c \<le> 24" "e \<le> 3" using a b c by simp_all
  ultimately show ?thesis by blast
qed

lemma year_estimate:
  assumes "d \<le> 365"
  shows "146097 * y \<le> (365 * y + leaps y + d + 2) * 400 \<and> (365 * y + leaps y + d + 2) * 400 < 146097 * (y + 2)"
proof -
  obtain a b c e where "y = 400 * a + 100 * b + 4 * c + e" "b \<le> 3" "c \<le> 24" "e \<le> 3"
    "leaps y = 97 * a + 24 * b + c" using year_parts by blast
  then show ?thesis using assms by simp
qed

lemma gm_year_day_spec:
  assumes "d < 365 + of_bool (gm_leap (y + 1))"
  shows "gm_year_day (365 * y + leaps y + d) = (y, int d)"
proof -
  let ?n = "365 * y + leaps y + d"
  have "d \<le> 365" using assms by (cases "gm_leap (y + 1)") simp_all
  from year_estimate [OF this, of y]
  have "y \<le> (?n + 2) * 400 div 146097" "(?n + 2) * 400 div 146097 < y + 2"
    by (simp_all only: less_eq_div_iff_mult_less_eq div_less_iff_less_mult zero_less_numeral mult.commute)
  then have "(?n + 2) * 400 div 146097 = y \<or> (?n + 2) * 400 div 146097 = y + 1" by linarith
  moreover have e: "365 * year + year div 4 - year div 100 + year div 400 = 365 * year + leaps year" for year
    using div_div_le [of year] by (simp only: leaps_def add.assoc Nat.add_diff_assoc2 Nat.diff_add_assoc)
  ultimately show ?thesis
    using assms leaps_Suc [of y] by (auto simp: gm_year_day_def e Let_def)
qed

subsection \<open>Months\<close>

lemma month_cases:
  assumes "m \<in> {1..12}" "P 1" "P 2" "P 3" "P 4" "P 5" "P 6" "P 7" "P 8" "P 9" "P 10" "P 11" "P (12 :: nat)"
  shows "P m"
proof -
  have "m \<in> set [1..<13]" using assms(1) by simp
  also have "[1..<13] = [1, 2, 3, 4, 5, 6, 7, 8, 9, 10, 11, 12 :: nat]" by code_simp
  finally show ?thesis using assms(2-) by auto
qed

lemma months_sum:
  assumes "m \<in> {1..12}"
  shows "(\<Sum>m'\<leftarrow>[1..<m]. month_length y m') =
     (if m \<le> 2 then 31 * (m - 1) else 59 + of_bool (gm_leap y) + [0, 31, 61, 92, 122, 153, 184, 214, 245, 275] ! (m - 3))"
  by (rule month_cases [OF assms]) (simp_all add: upt_rec month_length_def)

text \<open>The day of a year that starts with March, and the year it belongs to.\<close>

definition march_day :: "nat \<Rightarrow> nat \<Rightarrow> nat" where
  "march_day m d = [306, 337, 0, 31, 61, 92, 122, 153, 184, 214, 245, 275] ! (m - 1) + (d - 1)"

definition march_year :: "nat \<Rightarrow> nat \<Rightarrow> nat" where
  "march_year y m = (if m \<le> 2 then y - 1 else y)"

lemma days_from_march:
  assumes "1970 \<le> y" "m \<in> {1..12}" "1 \<le> d" "d \<le> month_length y m"
  shows "days_since_epoch y m d + 719527 - (31 + 28) =
      365 * march_year y m + leaps (march_year y m) + march_day m d \<and>
    march_day m d < 365 + of_bool (gm_leap (march_year y m + 1))"
proof -
  have "days_since_epoch y m d + 719527 - (31 + 28) =
      365 * march_year y m + leaps (march_year y m) + march_day m d"
    using years_sum [OF assms(1)] leaps_Suc [of "y - 1"] assms(1,3) unfolding days_since_epoch_def months_sum [OF assms(2)]
    by (rule_tac month_cases [OF assms(2)]) (simp_all add: march_year_def march_day_def)
  moreover have "1970 \<le> y \<longrightarrow> 1 \<le> d \<longrightarrow> d \<le> month_length y m \<longrightarrow>
      march_day m d < 365 + of_bool (gm_leap (march_year y m + 1))"
    by (rule month_cases [OF assms(2)]) (auto simp: march_year_def march_day_def month_length_def of_bool_def)
  ultimately show ?thesis using assms by simp
qed

lemma march_month:
  assumes "m \<in> {1..12}" "1 \<le> d" "d \<le> month_length y m"
  shows "nat ((int (march_day m d) + 31) * 10 div 306) = (if m \<le> 2 then m + 10 else m - 2) \<and>
    nat (int (march_day m d) - (367 * int (if m \<le> 2 then m + 10 else m - 2) div 12 - 30) + 1) = d \<and>
    (306 \<le> march_day m d \<longleftrightarrow> m \<le> 2)"
proof -
  have "1 \<le> d \<longrightarrow> d \<le> month_length y m \<longrightarrow>
    nat ((int (march_day m d) + 31) * 10 div 306) = (if m \<le> 2 then m + 10 else m - 2) \<and>
    nat (int (march_day m d) - (367 * int (if m \<le> 2 then m + 10 else m - 2) div 12 - 30) + 1) = d \<and>
    (306 \<le> march_day m d \<longleftrightarrow> m \<le> 2)"
    by (rule month_cases [OF assms(1)]) (auto simp: march_day_def month_length_def of_bool_def)
  then show ?thesis using assms(2,3) by simp
qed

lemma leaps_mono: "y \<le> z \<Longrightarrow> leaps y \<le> leaps z"
  by (rule lift_Suc_mono_le [of leaps]) (use leaps_Suc in simp_all)

lemma days_bound:
  assumes "1970 \<le> y" "y \<le> 9999" "m \<in> {1..12}" "1 \<le> d" "d \<le> month_length y m"
  shows "days_since_epoch y m d \<le> 2932896"
proof -
  note march = days_from_march [OF assms(1,3-5)]
  have "leaps (march_year y m) \<le> leaps 9999" using assms(2) by (intro leaps_mono) (auto simp: march_year_def)
  then have "leaps (march_year y m) \<le> 2424" by (simp add: leaps_def)
  then show ?thesis
    using march march_month [OF assms(3-5)] assms(2)
    by (cases "m \<le> 2") (auto simp: march_year_def of_bool_def split: if_splits)
qed

lemma gm_clock_spec:
  assumes "n \<le> 2932896" "s < 86400"
  shows "gm_clock (int n * 86400 + int s) = (n, s)"
proof -
  have "(int n * 86400 + int s) div 86400 = int n" "(int n * 86400 + int s) mod 86400 = int s"
    using assms(2) by simp_all
  then show ?thesis using assms(1) by (simp add: gm_clock_def Let_def)
qed

lemma gm_clock_ends:
  "gm_clock (- int k) = gm_clock 0"
  "gm_clock (253402300800 + int k) = gm_clock 253402300799"
proof -
  have "2932897 \<le> (253402300800 + int k) div 86400" by simp
  then show "gm_clock (253402300800 + int k) = gm_clock 253402300799" by (simp add: gm_clock_def Let_def)
qed (simp add: gm_clock_def)

text \<open>
  C20: \<open>hky_gmtime\<close> inverts the calendar: for every date from 1970 to 9999 and every second of its
  day it returns that date, time of day and weekday. Negative times count as 0, and every later
  time is the last second of the year 9999.
\<close>

theorem gmtime_correct:
  assumes "1970 \<le> y" "y \<le> 9999" "m \<in> {1..12}" "1 \<le> d" "d \<le> month_length y m" and "s < 86400"
  shows "hky_gmtime (int (days_since_epoch y m d) * 86400 + int s) =
    \<lparr>tm_sec = s mod 60, tm_min = s mod 3600 div 60, tm_hour = s div 3600, tm_mday = d, tm_mon = m, tm_year = y,
     tm_wday = (4 + days_since_epoch y m d) mod 7\<rparr> \<and>
    hky_gmtime (- int k) = hky_gmtime 0 \<and>
    hky_gmtime (253402300800 + int k) = hky_gmtime 253402300799"
proof (intro conjI)
  let ?n = "days_since_epoch y m d"
  note march = days_from_march [OF assms(1,3-5)]
  have day: "gm_year_day (?n + 719527 - (31 + 28)) = (march_year y m, int (march_day m d))"
    using march gm_year_day_spec by simp
  note mon = march_month [OF assms(3-5)]
  have "gm_date ?n = (y, m, d)"
    unfolding gm_date_def day Let_def using mon assms(1,3) by (simp only: prod.case) (auto simp: march_year_def)
  then show "hky_gmtime (int ?n * 86400 + int s) =
    \<lparr>tm_sec = s mod 60, tm_min = s mod 3600 div 60, tm_hour = s div 3600, tm_mday = d, tm_mon = m, tm_year = y,
     tm_wday = (4 + ?n) mod 7\<rparr>"
    by (simp add: hky_gmtime_def gm_clock_spec [OF days_bound [OF assms(1-5)] assms(6)] mod_mod_cancel)
qed (simp_all add: hky_gmtime_def gm_clock_ends)

theorem gmtime_correct_witness:
  "tm_mday (hky_gmtime 951782400) = 29 \<and> tm_mon (hky_gmtime 951782400) = 2 \<and> tm_year (hky_gmtime 951782400) = 2000"
proof -
  have "days_since_epoch 2000 2 29 = 11016"
    using years_sum [of 2000] months_sum [of 2 2000] by (simp add: days_since_epoch_def leaps_def)
  then show ?thesis using gmtime_correct [of 2000 2 29 0] by (simp add: month_length_def gm_leap_def)
qed

section \<open>The cached time\<close>

record hky_time =
  t_sec :: int
  t_msec :: nat
  t_gmtoff :: int

definition HKY_TIME_SLOTS :: nat where [hky_consts]: "HKY_TIME_SLOTS = 64"

text \<open>
  The static variables: the lock, the last slot written, the arrays, and what readers see (the
  index of a slot for \<open>hky_cached_time\<close> and for the \<open>data\<close> of the five strings).
\<close>

record time_cache =
  time_lock :: bool
  slot :: nat
  cached_time :: "hky_time list"
  cached_http_time :: "byte list list"
  cached_err_log_time :: "byte list list"
  cached_http_log_time :: "byte list list"
  cached_http_log_iso8601 :: "byte list list"
  cached_syslog_time :: "byte list list"
  current_msec :: u64
  pub_time :: nat
  pub_http_time :: "nat option"
  pub_err_log_time :: "nat option"
  pub_http_log_time :: "nat option"
  pub_http_log_iso8601 :: "nat option"
  pub_syslog_time :: "nat option"

definition week :: "byte list list" where
  "week = map bytes_of [''Sun'', ''Mon'', ''Tue'', ''Wed'', ''Thu'', ''Fri'', ''Sat'']"

definition months :: "byte list list" where
  "months = map bytes_of [''Jan'', ''Feb'', ''Mar'', ''Apr'', ''May'', ''Jun'', ''Jul'', ''Aug'', ''Sep'', ''Oct'', ''Nov'', ''Dec'']"

abbreviation c_int :: "nat \<Rightarrow> va_arg" where "c_int n \<equiv> VInt (word_of_nat n)"
abbreviation c_str :: "byte list \<Rightarrow> va_arg" where "c_str s \<equiv> VMem (s @ [0])"

text \<open>The texts; \<open>p\<close> is the address of the slot.\<close>

definition http_time_text :: "nat \<Rightarrow> hky_tm \<Rightarrow> byte list option" where
  "http_time_text p gmt = hky_sprintf p (bytes_of ''%s, %02d %s %4d %02d:%02d:%02d GMT'' @ [0])
     [c_str (week ! tm_wday gmt), c_int (tm_mday gmt), c_str (months ! (tm_mon gmt - 1)), c_int (tm_year gmt),
      c_int (tm_hour gmt), c_int (tm_min gmt), c_int (tm_sec gmt)]"

definition err_log_time_text :: "nat \<Rightarrow> hky_tm \<Rightarrow> byte list option" where
  "err_log_time_text p tm = hky_sprintf p (bytes_of ''%4d/%02d/%02d %02d:%02d:%02d'' @ [0])
     [c_int (tm_year tm), c_int (tm_mon tm), c_int (tm_mday tm), c_int (tm_hour tm), c_int (tm_min tm), c_int (tm_sec tm)]"

definition gmtoff_args :: "int \<Rightarrow> va_arg list" where
  "gmtoff_args off = [VInt (if off < 0 then 45 else 43), c_int (nat \<bar>off\<bar> div 60), c_int (nat \<bar>off\<bar> mod 60)]"

definition http_log_time_text :: "nat \<Rightarrow> hky_tm \<Rightarrow> int \<Rightarrow> byte list option" where
  "http_log_time_text p tm off = hky_sprintf p (bytes_of ''%02d/%s/%d:%02d:%02d:%02d %c%02i%02i'' @ [0])
     ([c_int (tm_mday tm), c_str (months ! (tm_mon tm - 1)), c_int (tm_year tm), c_int (tm_hour tm), c_int (tm_min tm),
       c_int (tm_sec tm)] @ gmtoff_args off)"

definition iso8601_text :: "nat \<Rightarrow> hky_tm \<Rightarrow> int \<Rightarrow> byte list option" where
  "iso8601_text p tm off = hky_sprintf p (bytes_of ''%4d-%02d-%02dT%02d:%02d:%02d%c%02i:%02i'' @ [0])
     ([c_int (tm_year tm), c_int (tm_mon tm), c_int (tm_mday tm), c_int (tm_hour tm), c_int (tm_min tm), c_int (tm_sec tm)]
       @ gmtoff_args off)"

definition syslog_time_text :: "nat \<Rightarrow> hky_tm \<Rightarrow> byte list option" where
  "syslog_time_text p tm = hky_sprintf p (bytes_of ''%s %2d %02d:%02d:%02d'' @ [0])
     [c_str (months ! (tm_mon tm - 1)), c_int (tm_mday tm), c_int (tm_hour tm), c_int (tm_min tm), c_int (tm_sec tm)]"

text \<open>
  \<open>hky_localtime\<close> on top of the C library's \<open>localtime_r\<close>, which also gives \<open>tm_gmtoff\<close> (in
  seconds; the branch \<open>HKY_HAVE_GMTOFF\<close>). C's division truncates toward zero.
\<close>

definition hky_localtime :: "(int \<Rightarrow> hky_tm \<times> int) \<Rightarrow> int \<Rightarrow> hky_tm \<times> int" where
  "hky_localtime localtime_r s =
     (case localtime_r s of (tm, off) \<Rightarrow> (tm\<lparr>tm_mon := tm_mon tm + 1, tm_year := tm_year tm + 1900\<rparr>, off))"

definition hky_trylock_time :: "time_cache \<Rightarrow> (bool \<times> time_cache)" where
  "hky_trylock_time s = (if time_lock s then (False, s) else (True, s\<lparr>time_lock := True\<rparr>))"

definition c_div60 :: "int \<Rightarrow> int" where "c_div60 x = (if x < 0 then - (- x div 60) else x div 60)"

text \<open>The part behind the test of the second: the next slot is filled, then published.\<close>

definition time_refresh ::
  "(nat \<Rightarrow> nat) \<Rightarrow> (int \<Rightarrow> hky_tm \<times> int) \<Rightarrow> int \<Rightarrow> nat \<Rightarrow> time_cache \<Rightarrow> time_cache" where
  "time_refresh addr localtime_r sec msec s =
     (let k = (if slot s = HKY_TIME_SLOTS - 1 then 0 else slot s + 1);
          gmt = hky_gmtime sec;
          (tm, off) = hky_localtime localtime_r sec;
          gmtoff = c_div60 off;
          s = s\<lparr>slot := k,
                cached_time := (cached_time s)[k := \<lparr>t_sec = sec, t_msec = msec, t_gmtoff = gmtoff\<rparr>],
                cached_http_time := (cached_http_time s)[k := the (http_time_text (addr 0) gmt)],
                cached_err_log_time := (cached_err_log_time s)[k := the (err_log_time_text (addr 1) tm)],
                cached_http_log_time := (cached_http_log_time s)[k := the (http_log_time_text (addr 2) tm gmtoff)],
                cached_http_log_iso8601 := (cached_http_log_iso8601 s)[k := the (iso8601_text (addr 3) tm gmtoff)],
                cached_syslog_time := (cached_syslog_time s)[k := the (syslog_time_text (addr 4) tm)]\<rparr>
      in s\<lparr>pub_time := k, pub_http_time := Some k, pub_err_log_time := Some k, pub_http_log_time := Some k,
           pub_http_log_iso8601 := Some k, pub_syslog_time := Some k\<rparr>)"

text \<open>\<open>now\<close> is what \<open>gettimeofday\<close> returns: seconds and microseconds.\<close>

definition hky_time_update ::
  "(nat \<Rightarrow> nat) \<Rightarrow> (int \<Rightarrow> hky_tm \<times> int) \<Rightarrow> int \<times> nat \<Rightarrow> time_cache \<Rightarrow> time_cache" where
  "hky_time_update addr localtime_r now s =
     (case hky_trylock_time s of
        (False, s) \<Rightarrow> s
      | (True, s) \<Rightarrow>
          let sec = fst now; msec = snd now div 1000;
              s = s\<lparr>current_msec := word_of_int (sec * 1000 + int msec)\<rparr>;
              tp = cached_time s ! slot s
          in if t_sec tp = sec
             then s\<lparr>cached_time := (cached_time s)[slot s := tp\<lparr>t_msec := msec\<rparr>], time_lock := False\<rparr>
             else (time_refresh addr localtime_r sec msec s)\<lparr>time_lock := False\<rparr>)"

definition hky_time_init ::
  "(nat \<Rightarrow> nat) \<Rightarrow> (int \<Rightarrow> hky_tm \<times> int) \<Rightarrow> int \<times> nat \<Rightarrow> time_cache \<Rightarrow> time_cache" where
  "hky_time_init addr localtime_r now s = hky_time_update addr localtime_r now (s\<lparr>pub_time := 0\<rparr>)"

section \<open>Updating the cached time\<close>

text \<open>The text of \<open>hky_cached_http_time\<close>, 29 bytes.\<close>

definition http_date :: "hky_tm \<Rightarrow> byte list" where
  "http_date gmt = week ! tm_wday gmt @ [44, 32] @ digits2 (tm_mday gmt) @ [32] @ months ! (tm_mon gmt - 1) @ [32] @
     digits2 (tm_year gmt div 100) @ digits2 (tm_year gmt mod 100) @ [32] @
     digits2 (tm_hour gmt) @ [58] @ digits2 (tm_min gmt) @ [58] @ digits2 (tm_sec gmt) @ [32, 71, 77, 84]"

lemma week_name: "k < 7 \<Longrightarrow> length (week ! k) = 3 \<and> 0 \<notin> set (week ! k)"
proof -
  assume "k < 7"
  then have "k = 0 \<or> k = 1 \<or> k = 2 \<or> k = 3 \<or> k = 4 \<or> k = 5 \<or> k = 6" by linarith
  then show ?thesis by (auto simp: week_def)
qed

lemma month_name: "m \<in> {1..12} \<Longrightarrow> length (months ! (m - 1)) = 3 \<and> 0 \<notin> set (months ! (m - 1))"
  by (rule month_cases [of m]) (simp_all add: months_def)

definition tm_ok :: "hky_tm \<Rightarrow> bool" where
  "tm_ok tm \<longleftrightarrow> tm_sec tm < 60 \<and> tm_min tm < 60 \<and> tm_hour tm < 24 \<and> tm_mday tm < 100 \<and> tm_mon tm \<in> {1..12} \<and>
     1000 \<le> tm_year tm \<and> tm_year tm < 10000 \<and> tm_wday tm < 7"

lemma http_time_text_spec:
  assumes "tm_ok gmt" and "p + 64 < 2 ^ 64"
  shows "http_time_text p gmt = Some (http_date gmt)" "length (http_date gmt) = 29"
proof -
  note w = week_name [of "tm_wday gmt"] and m = month_name [of "tm_mon gmt"]
  show "http_time_text p gmt = Some (http_date gmt)"
    using assms w m
    by (simp add: tm_ok_def http_time_text_def http_date_def hky_sprintf_def hky_vslprintf_def format_s format_02d format_4d
        format_text copy_cstr_text del: vslprintf_loop.simps)
  show "length (http_date gmt) = 29" using assms(1) w m by (simp add: tm_ok_def http_date_def)
qed

definition err_log_date :: "hky_tm \<Rightarrow> byte list" where
  "err_log_date tm = digits2 (tm_year tm div 100) @ digits2 (tm_year tm mod 100) @ [47] @ digits2 (tm_mon tm) @ [47] @
     digits2 (tm_mday tm) @ [32] @ digits2 (tm_hour tm) @ [58] @ digits2 (tm_min tm) @ [58] @ digits2 (tm_sec tm)"

lemma err_log_time_text_spec:
  assumes "tm_ok tm" and "p + 64 < 2 ^ 64"
  shows "err_log_time_text p tm = Some (err_log_date tm)" "length (err_log_date tm) = 19"
  using assms
  by (simp_all add: tm_ok_def err_log_time_text_def err_log_date_def hky_sprintf_def hky_vslprintf_def format_02d
      format_4d format_text del: vslprintf_loop.simps)

lemma format_c:
  "0 < room \<Longrightarrow> vslprintf_loop room (37 # 99 # fmt) (VInt v # args) =
   map_option ((@) [ucast (v AND 0xff)]) (vslprintf_loop (room - 1) fmt args)"
  by (simp add: fmt_start_def fmt_conv_def)

lemma format_02i:
  assumes "2 \<le> room" "n < 100"
  shows "vslprintf_loop room (37 # 48 # 50 # 105 # fmt) (VInt (word_of_nat n) # args) =
    map_option ((@) (digits2 n)) (vslprintf_loop (room - 2) fmt args)"
proof -
  have n: "n < 2 ^ 31" using assms(2) by simp
  have "length (dec_text n) \<le> 2" using dec_text_length [of n 1] assms(2) by simp
  then have "hky_sprintf_num room (word_of_nat n) 48 0 2 = digits2 n"
    using sprintf_num_text [of 2 room "word_of_nat n" 0 48] assms by (simp add: num_digits_nat [OF n] dec_text_2)
  then show ?thesis
    using assms(1) sint_nat [OF n] by (simp add: fmt_start_def fmt_conv_def fmt_int_def fmt_signed_def Let_def not_less)
qed

definition sign_char :: "int \<Rightarrow> byte" where "sign_char off = (if off < 0 then 45 else 43)"

definition iso8601_date :: "hky_tm \<Rightarrow> int \<Rightarrow> byte list" where
  "iso8601_date tm off = digits2 (tm_year tm div 100) @ digits2 (tm_year tm mod 100) @ [45] @ digits2 (tm_mon tm) @ [45] @
     digits2 (tm_mday tm) @ [84] @ digits2 (tm_hour tm) @ [58] @ digits2 (tm_min tm) @ [58] @ digits2 (tm_sec tm) @
     [sign_char off] @ digits2 (nat \<bar>off\<bar> div 60) @ [58] @ digits2 (nat \<bar>off\<bar> mod 60)"

lemma iso8601_text_spec:
  assumes "tm_ok tm" and "nat \<bar>off\<bar> < 6000" and "p + 64 < 2 ^ 64"
  shows "iso8601_text p tm off = Some (iso8601_date tm off)" "length (iso8601_date tm off) = 25"
proof -
  have b: "nat \<bar>off\<bar> div 60 < 100" "nat \<bar>off\<bar> mod 60 < 100" "tm_mon tm < 100"
    using assms(1,2) by (simp_all add: tm_ok_def less_mult_imp_div_less less_trans [OF mod_less_divisor])
  have s: "ucast ((if off < 0 then 45 else 43 :: u64) AND 0xff) = sign_char off" by (simp add: sign_char_def)
  show "iso8601_text p tm off = Some (iso8601_date tm off)"
    using assms b unfolding iso8601_text_def gmtoff_args_def iso8601_date_def hky_sprintf_def hky_vslprintf_def
    by (simp add: tm_ok_def format_02d format_4d format_02i format_c s format_text del: vslprintf_loop.simps)
  show "length (iso8601_date tm off) = 25" by (simp add: iso8601_date_def)
qed

text \<open>All arrays have their 64 slots.\<close>

definition cache_ok :: "time_cache \<Rightarrow> bool" where
  "cache_ok s \<longleftrightarrow> slot s < HKY_TIME_SLOTS \<and> length (cached_time s) = HKY_TIME_SLOTS \<and>
     length (cached_http_time s) = HKY_TIME_SLOTS \<and> length (cached_err_log_time s) = HKY_TIME_SLOTS \<and>
     length (cached_http_log_time s) = HKY_TIME_SLOTS \<and> length (cached_http_log_iso8601 s) = HKY_TIME_SLOTS \<and>
     length (cached_syslog_time s) = HKY_TIME_SLOTS"

text \<open>The two states agree on slot \<open>j\<close> of every array.\<close>

definition same_slot :: "nat \<Rightarrow> time_cache \<Rightarrow> time_cache \<Rightarrow> bool" where
  "same_slot j s t \<longleftrightarrow> cached_time t ! j = cached_time s ! j \<and> cached_http_time t ! j = cached_http_time s ! j \<and>
     cached_err_log_time t ! j = cached_err_log_time s ! j \<and> cached_http_log_time t ! j = cached_http_log_time s ! j \<and>
     cached_http_log_iso8601 t ! j = cached_http_log_iso8601 s ! j \<and> cached_syslog_time t ! j = cached_syslog_time s ! j"

lemma next_slot:
  "slot s < HKY_TIME_SLOTS \<Longrightarrow> (if slot s = HKY_TIME_SLOTS - 1 then 0 else slot s + 1) = (slot s + 1) mod 64"
  by (auto simp: hky_consts)

lemma time_refresh_spec:
  assumes ok: "cache_ok s" and date: "tm_ok (hky_gmtime sec)" "tm_ok tm" and l: "hky_localtime lt sec = (tm, off)"
    and off: "nat \<bar>c_div60 off\<bar> < 6000" and addr: "\<And>i. addr i + 64 < 2 ^ 64"
    and t: "t = time_refresh addr lt sec msec s" and k: "k = (slot s + 1) mod 64"
  shows "slot t = k" "cache_ok t" "time_lock t = time_lock s"
    "cached_time t ! k = \<lparr>t_sec = sec, t_msec = msec, t_gmtoff = c_div60 off\<rparr>"
    "cached_http_time t ! k = http_date (hky_gmtime sec)" "cached_err_log_time t ! k = err_log_date tm"
    "cached_http_log_iso8601 t ! k = iso8601_date tm (c_div60 off)"
    "pub_time t = k" "pub_http_time t = Some k" "pub_err_log_time t = Some k" "pub_http_log_time t = Some k"
    "pub_http_log_iso8601 t = Some k" "pub_syslog_time t = Some k"
    "j \<noteq> k \<Longrightarrow> same_slot j s t"
proof -
  have s: "slot s < HKY_TIME_SLOTS" using ok by (simp add: cache_ok_def)
  note e = t [unfolded time_refresh_def Let_def l prod.case next_slot [OF s], folded k]
  show "cached_http_time t ! k = http_date (hky_gmtime sec)" "cached_err_log_time t ! k = err_log_date tm"
    "cached_http_log_iso8601 t ! k = iso8601_date tm (c_div60 off)"
    using ok k http_time_text_spec(1) [OF date(1) addr] err_log_time_text_spec(1) [OF date(2) addr]
      iso8601_text_spec(1) [OF date(2) off addr] by (simp_all add: e cache_ok_def hky_consts)
  show "slot t = k" "cache_ok t" "time_lock t = time_lock s"
    "cached_time t ! k = \<lparr>t_sec = sec, t_msec = msec, t_gmtoff = c_div60 off\<rparr>"
    "pub_time t = k" "pub_http_time t = Some k" "pub_err_log_time t = Some k" "pub_http_log_time t = Some k"
    "pub_http_log_iso8601 t = Some k" "pub_syslog_time t = Some k" "j \<noteq> k \<Longrightarrow> same_slot j s t"
    using ok k by (simp_all add: e cache_ok_def same_slot_def hky_consts)
qed

text \<open>
  C21: When the lock is free and a new second has come, \<open>hky_time_update\<close> fills the next of the 64
  slots, publishes it and frees the lock: the HTTP time is the RFC 1123 text of the date, exactly as
  long as the length set by \<open>hky_time_init\<close>, and every other slot is unchanged, so a text taken by a
  reader stays valid for 63 more seconds. When the lock is taken nothing is written, and within the
  same second only the milliseconds are.
\<close>

theorem time_update_correct:
  assumes ok: "cache_ok s" "\<not> time_lock s" and sec: "t_sec (cached_time s ! slot s) \<noteq> sec"
    and date: "sec = int (days_since_epoch y m d) * 86400 + int r" "1970 \<le> y" "y \<le> 9999" "m \<in> {1..12}" "1 \<le> d"
      "d \<le> month_length y m" "r < 86400"
    and l: "hky_localtime lt sec = (tm, off)" "tm_ok tm" "nat \<bar>c_div60 off\<bar> < 6000"
    and addr: "\<And>i. addr i + 64 < 2 ^ 64"
    and t: "t = hky_time_update addr lt (sec, usec) s" and k: "k = (slot s + 1) mod 64"
  shows "slot t = k \<and> cache_ok t \<and> \<not> time_lock t \<and> pub_time t = k \<and> pub_http_time t = Some k \<and>
    pub_err_log_time t = Some k \<and>
    cached_time t ! k = \<lparr>t_sec = sec, t_msec = usec div 1000, t_gmtoff = c_div60 off\<rparr> \<and>
    cached_http_time t ! k = http_date \<lparr>tm_sec = r mod 60, tm_min = r mod 3600 div 60, tm_hour = r div 3600,
      tm_mday = d, tm_mon = m, tm_year = y, tm_wday = (4 + days_since_epoch y m d) mod 7\<rparr> \<and>
    length (cached_http_time t ! k) = 29 \<and> length (cached_err_log_time t ! k) = 19 \<and>
    length (cached_http_log_iso8601 t ! k) = 25 \<and> (\<forall>j. j \<noteq> k \<longrightarrow> same_slot j s t) \<and>
    hky_time_update addr lt now (s\<lparr>time_lock := True\<rparr>) = s\<lparr>time_lock := True\<rparr> \<and>
    hky_time_update addr lt (t_sec (cached_time s ! slot s), usec) s =
      s\<lparr>current_msec := word_of_int (t_sec (cached_time s ! slot s) * 1000 + int (usec div 1000)),
        cached_time := (cached_time s)[slot s := (cached_time s ! slot s)\<lparr>t_msec := usec div 1000\<rparr>]\<rparr>"
proof -
  let ?s = "s\<lparr>time_lock := True, current_msec := word_of_int (sec * 1000 + int (usec div 1000))\<rparr>"
  let ?t = "time_refresh addr lt sec (usec div 1000) ?s"
  have t': "t = ?t\<lparr>time_lock := False\<rparr>"
    using ok sec by (simp add: t hky_time_update_def hky_trylock_time_def Let_def)
  have gm: "hky_gmtime sec = \<lparr>tm_sec = r mod 60, tm_min = r mod 3600 div 60, tm_hour = r div 3600,
      tm_mday = d, tm_mon = m, tm_year = y, tm_wday = (4 + days_since_epoch y m d) mod 7\<rparr>"
    unfolding date(1) using gmtime_correct [OF date(2-7), of 0] by blast
  have "d \<le> 31" using date(6) by (auto simp: month_length_def of_bool_def split: if_splits)
  then have g: "tm_ok (hky_gmtime sec)"
    unfolding gm tm_ok_def using date(2-5,7) by (auto simp: less_mult_imp_div_less)
  have s': "cache_ok ?s" using ok(1) by (simp add: cache_ok_def)
  have k': "k = (slot ?s + 1) mod 64" by (simp add: k)
  note r = time_refresh_spec [OF s' g l(2,1,3) addr refl k']
  have same: "same_slot j s t" if "j \<noteq> k" for j
    using r(14) [of j] that k by (simp add: t' same_slot_def)
  show ?thesis
    using r(1-13) same k http_time_text_spec(2) [OF g addr] err_log_time_text_spec(2) [OF l(2) addr]
      iso8601_text_spec(2) [OF l(2,3) addr] ok(2)
    by (simp add: t' cache_ok_def gm hky_time_update_def hky_trylock_time_def Let_def)
qed

text \<open>The state before the first update, and a zone without an offset.\<close>

definition time_boot :: time_cache where
  "time_boot = \<lparr>time_lock = False, slot = 0, cached_time = replicate 64 \<lparr>t_sec = 0, t_msec = 0, t_gmtoff = 0\<rparr>,
     cached_http_time = replicate 64 [], cached_err_log_time = replicate 64 [], cached_http_log_time = replicate 64 [],
     cached_http_log_iso8601 = replicate 64 [], cached_syslog_time = replicate 64 [], current_msec = 0, pub_time = 0,
     pub_http_time = None, pub_err_log_time = None, pub_http_log_time = None, pub_http_log_iso8601 = None,
     pub_syslog_time = None\<rparr>"

definition leap_day :: "int \<Rightarrow> hky_tm \<times> int" where
  "leap_day s = (\<lparr>tm_sec = 0, tm_min = 0, tm_hour = 0, tm_mday = 29, tm_mon = 1, tm_year = 100, tm_wday = 2\<rparr>, 0)"

theorem time_update_correct_witness:
  "length (cached_http_time (hky_time_update (\<lambda>i. 4096 * i mod 8192) leap_day (951782400, 5000) time_boot) ! 1) = 29"
proof -
  have d: "days_since_epoch 2000 2 29 = 11016"
    using years_sum [of 2000] months_sum [of 2 2000] by (simp add: days_since_epoch_def leaps_def)
  obtain t where t: "t = hky_time_update (\<lambda>i. 4096 * i mod 8192) leap_day (951782400, 5000) time_boot" by simp
  have a: "4096 * i mod 8192 + 64 < (2 :: nat) ^ 64" for i
    by (rule less_trans [of _ "8192 + 64"]) simp_all
  have s: "cache_ok time_boot" "\<not> time_lock time_boot" "t_sec (cached_time time_boot ! slot time_boot) \<noteq> 951782400"
    "1 = (slot time_boot + 1) mod 64" by (simp_all add: time_boot_def cache_ok_def hky_consts)
  have date: "(951782400 :: int) = int (days_since_epoch 2000 2 29) * 86400 + int 0" "(1970 :: nat) \<le> 2000"
    "(2000 :: nat) \<le> 9999" "(2 :: nat) \<in> {1..12}" "(1 :: nat) \<le> 29" "29 \<le> month_length 2000 2" "(0 :: nat) < 86400"
    by (simp_all add: d month_length_def gm_leap_def)
  have l: "hky_localtime leap_day 951782400 = (\<lparr>tm_sec = 0, tm_min = 0, tm_hour = 0, tm_mday = 29, tm_mon = 2,
      tm_year = 2000, tm_wday = 2\<rparr>, 0)"
    "tm_ok \<lparr>tm_sec = 0, tm_min = 0, tm_hour = 0, tm_mday = 29, tm_mon = 2, tm_year = 2000, tm_wday = 2\<rparr>"
    "nat \<bar>c_div60 0\<bar> < 6000" by (simp_all add: hky_localtime_def leap_day_def tm_ok_def c_div60_def)
  have "length (cached_http_time t ! 1) = 29"
    using time_update_correct [OF s(1-3) date l a t s(4)] by blast
  then show ?thesis by (simp add: t)
qed

end
