(* ===== verification/Hky_Conf_Lex.thy ===== *)
theory Hky_Conf_Lex
  imports Husky_Base
begin

text \<open>
  The lexer of the configuration, \<open>hky_conf_read_token\<close> in src/core/hky_conf_file.c, with
  \<open>hky_read_file\<close> of src/unix/hky_files.c: it reads one directive, the words up to a semicolon or
  a brace, through a buffer of \<open>HKY_CONF_BUFFER\<close> bytes that is refilled while a word may be half read.

  The model keeps the structure of the loop: \<open>conf_fill\<close> is the part for an empty buffer,
  \<open>conf_char\<close> the part for a character, with \<open>conf_start\<close> where a word may start and \<open>conf_word\<close>
  inside a word. The variable \<open>start\<close> is an offset into the buffer; what \<open>conf_char\<close> does to it is a
  value of \<open>start_move\<close>. The words are the elements of \<open>cf->args\<close>; whether the array and the pool
  have memory for the next one is the parameter \<open>mem\<close>, and \<open>pread\<close> is the system call. Messages
  are values of \<open>conf_error\<close>.
\<close>

section \<open>State\<close>

definition HKY_CONF_BUFFER :: nat where [hky_consts]: "HKY_CONF_BUFFER = 4096"
definition HKY_CONF_BLOCK_START :: int where [hky_consts]: "HKY_CONF_BLOCK_START = 1"
definition HKY_CONF_BLOCK_DONE :: int where [hky_consts]: "HKY_CONF_BLOCK_DONE = 2"
definition HKY_CONF_FILE_DONE :: int where [hky_consts]: "HKY_CONF_FILE_DONE = 3"

text \<open>
  \<open>cf->conf_file\<close>: the file (its size, the offset of the next read, its descriptor), the line, and the buffer as the bytes from \<open>start\<close> to \<open>last\<close>, the position and the capacity.
\<close>

record conf_file =
  cf_size :: nat
  cf_offset :: nat
  cf_fd :: int
  cf_line :: nat
  cf_buf :: "byte list"
  cf_pos :: nat
  cf_cap :: nat
  cf_dump :: "byte list option"

definition HKY_INVALID_FILE :: int where [hky_consts]: "HKY_INVALID_FILE = -1"

abbreviation cf_param :: "conf_file \<Rightarrow> bool" where
  "cf_param f \<equiv> cf_fd f = HKY_INVALID_FILE"

datatype conf_error =
    End_of_parameter
  | End_of_file
  | Too_long_parameter "byte list"
  | Missing_quote byte
  | Read_failed
  | Short_read nat nat
  | Unexpected byte
  | Unexpected_start
  | No_memory
  | Over_read

text \<open>The flags of the function and the words read so far.\<close>

record lex =
  need_space :: bool
  last_space :: bool
  sharp_comment :: bool
  variable :: bool
  quoted :: bool
  s_quoted :: bool
  d_quoted :: bool
  start_line :: nat
  args :: "byte list list"

definition lex_init :: "nat \<Rightarrow> lex" where
  "lex_init line = \<lparr>need_space = False, last_space = True, sharp_comment = False, variable = False, quoted = False,
     s_quoted = False, d_quoted = False, start_line = line, args = []\<rparr>"

datatype start_move = Keep | At_char | After_char

datatype lex_step = Go start_move lex | Stop "conf_error + int" lex

section \<open>A character\<close>

definition blank :: "byte \<Rightarrow> bool" where
  "blank ch \<longleftrightarrow> ch = 32 \<or> ch = 9 \<or> ch = CR \<or> ch = LF"

text \<open>
  The copy loop over the bytes from \<open>start\<close> to \<open>b->pos\<close>; it stops before the last of them, the
  character that ended the word, but may look at it.
\<close>

fun conf_unescape :: "byte list \<Rightarrow> byte list" where
  "conf_unescape [] = []"
| "conf_unescape [ch] = []"
| "conf_unescape (c # d # src) =
     (if c = 92 then
        if d = 34 \<or> d = 39 \<or> d = 92 then d # conf_unescape src
        else if d = 116 then 9 # conf_unescape src
        else if d = 114 then 13 # conf_unescape src
        else if d = 110 then 10 # conf_unescape src
        else c # conf_unescape (d # src)
      else c # conf_unescape (d # src))"

definition conf_start :: "nat \<Rightarrow> lex \<Rightarrow> byte \<Rightarrow> lex_step" where
  "conf_start line l ch =
     (if blank ch then Go Keep l
      else let l = l\<lparr>start_line := line\<rparr> in
        if ch = 59 \<or> ch = 123 \<comment> \<open>semicolon, opening brace\<close> then
          if args l = [] then Stop (Inl Unexpected_start) l
          else if ch = 123 then Stop (Inr HKY_CONF_BLOCK_START) l
          else Stop (Inr HKY_OK) l
        else if ch = 125 \<comment> \<open>closing brace\<close> then
          if args l \<noteq> [] then Stop (Inl (Unexpected 125)) l else Stop (Inr HKY_CONF_BLOCK_DONE) l
        else if ch = 35 \<comment> \<open>hash\<close> then Go At_char (l\<lparr>sharp_comment := True\<rparr>)
        else if ch = 92 \<comment> \<open>backslash\<close> then Go At_char (l\<lparr>quoted := True, last_space := False\<rparr>)
        else if ch = 34 then Go After_char (l\<lparr>d_quoted := True, last_space := False\<rparr>)
        else if ch = 39 then Go After_char (l\<lparr>s_quoted := True, last_space := False\<rparr>)
        else if ch = 36 \<comment> \<open>dollar\<close> then Go At_char (l\<lparr>variable := True, last_space := False\<rparr>)
        else Go At_char (l\<lparr>last_space := False\<rparr>))"

definition conf_found :: "lex \<Rightarrow> byte \<Rightarrow> lex option" where
  "conf_found l ch =
     (if d_quoted l then
        if ch = 34 then Some (l\<lparr>d_quoted := False, need_space := True\<rparr>) else None
      else if s_quoted l then
        if ch = 39 then Some (l\<lparr>s_quoted := False, need_space := True\<rparr>) else None
      else if blank ch \<or> ch = 59 \<or> ch = 123 then Some (l\<lparr>last_space := True\<rparr>) else None)"

definition conf_word ::
  "(byte list list \<Rightarrow> nat \<Rightarrow> bool) \<Rightarrow> lex \<Rightarrow> byte \<Rightarrow> byte list \<Rightarrow> lex_step" where
  "conf_word mem l ch raw =
     (if ch = 123 \<and> variable l then Go Keep l
      else let l = l\<lparr>variable := False\<rparr> in
        if ch = 92 then Go Keep (l\<lparr>quoted := True\<rparr>)
        else if ch = 36 then Go Keep (l\<lparr>variable := True\<rparr>)
        else case conf_found l ch of
          None \<Rightarrow> Go Keep l
        | Some l \<Rightarrow>
            if \<not> mem (args l) (length raw + 1) then Stop (Inl No_memory) l
            else let l = l\<lparr>args := args l @ [conf_unescape (raw @ [ch])]\<rparr> in
              if ch = 59 then Stop (Inr HKY_OK) l
              else if ch = 123 then Stop (Inr HKY_CONF_BLOCK_START) l
              else Go Keep l)"

definition conf_char ::
  "(byte list list \<Rightarrow> nat \<Rightarrow> bool) \<Rightarrow> nat \<Rightarrow> lex \<Rightarrow> byte \<Rightarrow> byte list \<Rightarrow> lex_step" where
  "conf_char mem line l ch raw =
     (let l = (if ch = LF \<and> sharp_comment l then l\<lparr>sharp_comment := False\<rparr> else l) in
      if sharp_comment l then Go Keep l
      else if quoted l then Go Keep (l\<lparr>quoted := False\<rparr>)
      else if need_space l then
        if blank ch then Go Keep (l\<lparr>last_space := True, need_space := False\<rparr>)
        else if ch = 59 then Stop (Inr HKY_OK) l
        else if ch = 123 then Stop (Inr HKY_CONF_BLOCK_START) l
        else if ch = 41 \<comment> \<open>closing parenthesis\<close> then
          conf_start line (l\<lparr>last_space := True, need_space := False\<rparr>) ch
        else Stop (Inl (Unexpected ch)) l
      else if last_space l then conf_start line l ch
      else conf_word mem l ch raw)"

section \<open>The buffer\<close>

type_synonym reader = "nat \<Rightarrow> nat \<Rightarrow> byte list option"

text \<open>\<open>hky_read_file\<close> with \<open>pread (size, offset)\<close>: the bytes read, or \<open>None\<close> for \<open>HKY_ERROR\<close>.\<close>

definition hky_read_file :: "reader \<Rightarrow> nat \<Rightarrow> nat \<Rightarrow> conf_file \<Rightarrow> byte list option \<times> conf_file" where
  "hky_read_file pread n off f =
     (case pread n off of
        None \<Rightarrow> (None, f)
      | Some bs \<Rightarrow> (Some bs, f\<lparr>cf_offset := cf_offset f + length bs\<rparr>))"

definition conf_end :: "bool \<Rightarrow> lex \<Rightarrow> conf_error + int" where
  "conf_end param l =
     (if args l \<noteq> [] \<or> \<not> last_space l then Inl (if param then End_of_parameter else End_of_file)
      else Inr HKY_CONF_FILE_DONE)"

definition conf_too_long :: "lex \<Rightarrow> byte list \<Rightarrow> conf_error" where
  "conf_too_long l tok =
     (if d_quoted l then Missing_quote 34
      else if s_quoted l then Missing_quote 39
      else Too_long_parameter (take 10 tok))"

text \<open>The bytes from \<open>start\<close> to \<open>b->pos\<close>.\<close>

definition conf_raw :: "nat \<Rightarrow> conf_file \<Rightarrow> byte list" where
  "conf_raw start f = take (cf_pos f - start) (drop start (cf_buf f))"

text \<open>The new \<open>start\<close>, or the end of the function.\<close>

definition conf_fill ::
  "reader \<Rightarrow> lex \<Rightarrow> nat \<Rightarrow> conf_file \<Rightarrow> ((conf_error + int) + nat) \<times> conf_file" where
  "conf_fill pread l start f =
     (if cf_pos f < length (cf_buf f) then (Inr start, f)
      else if cf_offset f \<ge> cf_size f then (Inl (conf_end (cf_param f) l), f)
      else
        let tok = conf_raw start f; len = length tok in
        if len = HKY_CONF_BUFFER then (Inl (Inl (conf_too_long l tok)), f\<lparr>cf_line := start_line l\<rparr>)
        else
          let sz = min (cf_size f - cf_offset f) (cf_cap f - len) in
          case hky_read_file pread sz (cf_offset f) f of
            (None, f) \<Rightarrow> (Inl (Inl Read_failed), f)
          | (Some bs, f) \<Rightarrow>
              if length bs \<noteq> sz then (Inl (Inl (Short_read (length bs) sz)), f)
              else
                let f = f\<lparr>cf_buf := tok @ bs, cf_pos := len, cf_dump := map_option (\<lambda>d. d @ bs) (cf_dump f)\<rparr>
                in if bs = [] then (Inl (Inl Over_read), f) else (Inr 0, f))"

section \<open>The loop\<close>

definition conf_left :: "conf_file \<Rightarrow> nat" where
  "conf_left f = (length (cf_buf f) - cf_pos f) + (cf_size f - cf_offset f)"

lemma conf_fill_left:
  "conf_fill pread l start f = (Inr start', f') \<Longrightarrow> cf_pos f' < length (cf_buf f') \<and> conf_left f' = conf_left f"
  by (auto simp: conf_fill_def hky_read_file_def conf_left_def Let_def simp flip: length_greater_0_conv
      split: if_splits option.splits prod.splits)

definition move_start :: "start_move \<Rightarrow> nat \<Rightarrow> nat \<Rightarrow> nat" where
  "move_start mv start pos = (case mv of Keep \<Rightarrow> start | At_char \<Rightarrow> pos - 1 | After_char \<Rightarrow> pos)"

function read_token_loop ::
  "reader \<Rightarrow> (byte list list \<Rightarrow> nat \<Rightarrow> bool) \<Rightarrow> lex \<Rightarrow> nat \<Rightarrow> conf_file \<Rightarrow> (conf_error + int) \<times> lex \<times> conf_file" where
  "read_token_loop pread mem l start f =
     (case conf_fill pread l start f of
        (Inl r, f) \<Rightarrow> (r, l, f)
      | (Inr start, f) \<Rightarrow>
          let ch = cf_buf f ! cf_pos f;
              raw = conf_raw start f;
              f = f\<lparr>cf_pos := cf_pos f + 1, cf_line := (if ch = LF then cf_line f + 1 else cf_line f)\<rparr>
          in case conf_char mem (cf_line f) l ch raw of
               Stop r l \<Rightarrow> (r, l, f)
             | Go mv l \<Rightarrow> read_token_loop pread mem l (move_start mv start (cf_pos f)) f)"
  by pat_completeness auto
termination
proof (relation "measure (\<lambda>(pread, mem, l, start, f). conf_left f)", goal_cases)
  case (2 pread mem l start f x f2 s ch raw f3 mv l2)
  then have "cf_pos f2 < length (cf_buf f2)" "conf_left f2 = conf_left f"
    using conf_fill_left [of pread l start f s f2] by auto
  then show ?case using 2 by (auto simp: conf_left_def)
qed simp

declare read_token_loop.simps [simp del]

definition hky_conf_read_token ::
  "reader \<Rightarrow> (byte list list \<Rightarrow> nat \<Rightarrow> bool) \<Rightarrow> conf_file \<Rightarrow> (conf_error + int) \<times> lex \<times> conf_file" where
  "hky_conf_read_token pread mem f = read_token_loop pread mem (lex_init (cf_line f)) (cf_pos f) f"

section \<open>The lexer on the whole text\<close>

text \<open>
  The specification: the same steps over the rest of the file as one list of bytes, with the bytes
  since \<open>start\<close> as an accumulator. It knows nothing of the buffer.
\<close>

definition move_raw :: "start_move \<Rightarrow> byte list \<Rightarrow> byte \<Rightarrow> byte list" where
  "move_raw mv raw ch = (case mv of Keep \<Rightarrow> raw @ [ch] | At_char \<Rightarrow> [ch] | After_char \<Rightarrow> [])"

definition line_after :: "nat \<Rightarrow> byte \<Rightarrow> nat" where
  "line_after line ch = (if ch = LF then line + 1 else line)"

fun lex_stream ::
  "(byte list list \<Rightarrow> nat \<Rightarrow> bool) \<Rightarrow> bool \<Rightarrow> nat \<Rightarrow> lex \<Rightarrow> byte list \<Rightarrow> byte list
     \<Rightarrow> (conf_error + int) \<times> lex \<times> nat \<times> byte list" where
  "lex_stream mem param line l raw [] = (conf_end param l, l, line, [])"
| "lex_stream mem param line l raw (ch # rest) =
     (case conf_char mem (line_after line ch) l ch raw of
        Stop r l \<Rightarrow> (r, l, line_after line ch, rest)
      | Go mv l \<Rightarrow> lex_stream mem param (line_after line ch) l (move_raw mv raw ch) rest)"

text \<open>No word of the run, with what follows it up to the next one, is as long as the buffer.\<close>

fun words_fit ::
  "(byte list list \<Rightarrow> nat \<Rightarrow> bool) \<Rightarrow> nat \<Rightarrow> lex \<Rightarrow> byte list \<Rightarrow> byte list \<Rightarrow> bool" where
  "words_fit mem line l raw [] \<longleftrightarrow> True"
| "words_fit mem line l raw (ch # rest) \<longleftrightarrow> length raw < HKY_CONF_BUFFER \<and>
     (case conf_char mem (line_after line ch) l ch raw of
        Stop r l \<Rightarrow> True
      | Go mv l \<Rightarrow> words_fit mem (line_after line ch) l (move_raw mv raw ch) rest)"

text \<open>A \<open>pread\<close> that serves the bytes of a file, whatever the calls, and the state over that file.\<close>

definition serves :: "reader \<Rightarrow> byte list \<Rightarrow> bool" where
  "serves pread data \<longleftrightarrow> (\<forall>n off. 0 < n \<and> off + n \<le> length data \<longrightarrow> pread n off = Some (take n (drop off data)))"

definition conf_wf :: "byte list \<Rightarrow> conf_file \<Rightarrow> bool" where
  "conf_wf data f \<longleftrightarrow> cf_size f = length data \<and> cf_offset f \<le> cf_size f \<and>
     cf_pos f \<le> length (cf_buf f) \<and> length (cf_buf f) \<le> cf_cap f \<and>
     (cf_offset f < cf_size f \<longrightarrow> cf_cap f = HKY_CONF_BUFFER)"

definition conf_rest :: "byte list \<Rightarrow> conf_file \<Rightarrow> byte list" where
  "conf_rest data f = drop (cf_pos f) (cf_buf f) @ drop (cf_offset f) data"

lemma conf_fill_at_char:
  assumes "conf_wf data f" "cf_pos f < length (cf_buf f)"
  shows "conf_fill pread l start f = (Inr start, f)"
  using assms by (simp add: conf_fill_def)

lemma conf_fill_at_end:
  assumes "conf_wf data f" "conf_rest data f = []"
  shows "conf_fill pread l start f = (Inl (conf_end (cf_param f) l), f)"
  using assms by (simp add: conf_fill_def conf_rest_def conf_wf_def)

lemma conf_raw_prefix: "cf_buf g = tok @ bs \<Longrightarrow> cf_pos g = length tok \<Longrightarrow> conf_raw 0 g = tok"
  by (simp add: conf_raw_def)

lemma conf_fill_refill:
  assumes wf: "conf_wf data f" and sv: "serves pread data" and "start \<le> cf_pos f"
    and e: "\<not> cf_pos f < length (cf_buf f)" and ne: "conf_rest data f \<noteq> []"
    and fit: "length (conf_raw start f) < HKY_CONF_BUFFER"
  obtains f2 where "conf_fill pread l start f = (Inr 0, f2)" "conf_wf data f2"
    "conf_rest data f2 = conf_rest data f" "conf_raw 0 f2 = conf_raw start f"
    "cf_line f2 = cf_line f" "cf_param f2 = cf_param f"
proof -
  let ?sz = "min (cf_size f - cf_offset f) (cf_cap f - length (conf_raw start f))"
  let ?bs = "take ?sz (drop (cf_offset f) data)"
  have lt: "cf_offset f < cf_size f" using ne e wf by (auto simp: conf_rest_def conf_wf_def)
  then have cap: "cf_cap f = HKY_CONF_BUFFER" using wf by (simp add: conf_wf_def)
  have rd: "pread ?sz (cf_offset f) = Some ?bs"
    using sv wf lt cap fit unfolding serves_def by (auto simp: conf_wf_def)
  have len: "length ?bs = ?sz" using wf by (simp add: conf_wf_def)
  have pos: "?bs \<noteq> []" using lt fit cap wf by (auto simp: conf_wf_def)
  let ?f2 = "f\<lparr>cf_offset := cf_offset f + ?sz, cf_buf := conf_raw start f @ ?bs,
               cf_pos := length (conf_raw start f), cf_dump := map_option (\<lambda>d. d @ ?bs) (cf_dump f)\<rparr>"
  show ?thesis
  proof
    show "conf_fill pread l start f = (Inr 0, ?f2)"
      using e lt fit pos len rd unfolding conf_fill_def hky_read_file_def by (simp add: Let_def)
    show "conf_wf data ?f2" using wf cap fit lt by (auto simp: conf_wf_def)
    have "?bs @ drop (cf_offset f + ?sz) data = drop (cf_offset f) data"
      by (metis append_take_drop_id drop_drop add.commute)
    then show "conf_rest data ?f2 = conf_rest data f" using e by (simp add: conf_rest_def)
    show "conf_raw 0 ?f2 = conf_raw start f" by (rule conf_raw_prefix) simp_all
  qed simp_all
qed

text \<open>Whether or not the buffer was refilled, the loop sees the next character of the text.\<close>

lemma conf_fill_next:
  assumes "conf_wf data f" "serves pread data" "start \<le> cf_pos f"
    and "conf_rest data f = ch # rest" "length (conf_raw start f) < HKY_CONF_BUFFER"
  obtains start2 f2 where "conf_fill pread l start f = (Inr start2, f2)" "conf_wf data f2"
    "start2 \<le> cf_pos f2" "cf_pos f2 < length (cf_buf f2)" "conf_rest data f2 = ch # rest"
    "conf_raw start2 f2 = conf_raw start f" "cf_line f2 = cf_line f" "cf_param f2 = cf_param f"
proof (cases "cf_pos f < length (cf_buf f)")
  case True
  then show ?thesis using assms by (intro that [of start f]) (auto simp: conf_fill_at_char)
next
  case False
  obtain f2 where f2: "conf_fill pread l start f = (Inr 0, f2)" "conf_wf data f2"
    "conf_rest data f2 = conf_rest data f" "conf_raw 0 f2 = conf_raw start f"
    "cf_line f2 = cf_line f" "cf_param f2 = cf_param f"
    using conf_fill_refill [OF assms(1-3) False _ assms(5)] assms(4) by auto
  then show ?thesis
    using conf_fill_left [OF f2(1)] assms(4) by (intro that [of 0 f2]) auto
qed

lemma conf_raw_step:
  assumes "start \<le> cf_pos f" "cf_pos f < length (cf_buf f)"
  shows "conf_raw (move_start mv start (cf_pos f + 1)) (f\<lparr>cf_pos := cf_pos f + 1, cf_line := n\<rparr>)
    = move_raw mv (conf_raw start f) (cf_buf f ! cf_pos f)"
proof (cases mv)
  case Keep
  have "take (cf_pos f + 1 - start) (drop start (cf_buf f))
      = take (cf_pos f - start) (drop start (cf_buf f)) @ [drop start (cf_buf f) ! (cf_pos f - start)]"
    using assms take_Suc_conv_app_nth [of "cf_pos f - start" "drop start (cf_buf f)"] by (simp add: Suc_diff_le)
  then show ?thesis using assms Keep by (simp add: conf_raw_def move_start_def move_raw_def)
qed (use assms in \<open>auto simp: conf_raw_def move_start_def move_raw_def take_Suc_conv_app_nth hd_drop_conv_nth\<close>)

lemma conf_rest_step:
  assumes "cf_pos f < length (cf_buf f)" "conf_rest data f = ch # rest"
  shows "cf_buf f ! cf_pos f = ch" "conf_rest data (f\<lparr>cf_pos := cf_pos f + 1, cf_line := n\<rparr>) = rest"
  using assms by (simp_all add: conf_rest_def flip: Cons_nth_drop_Suc)

lemma conf_wf_step:
  "conf_wf data f \<Longrightarrow> cf_pos f < length (cf_buf f) \<Longrightarrow> conf_wf data (f\<lparr>cf_pos := cf_pos f + 1, cf_line := n\<rparr>)"
  by (simp add: conf_wf_def)

lemma move_start_le: "start \<le> p \<Longrightarrow> move_start mv start (p + 1) \<le> p + 1"
  by (cases mv) (auto simp: move_start_def)

lemma read_token_loop_stream:
  assumes "conf_wf data f" "serves pread data" "start \<le> cf_pos f"
    and "words_fit mem (cf_line f) l (conf_raw start f) (conf_rest data f)"
  shows "\<exists>r l' f'. read_token_loop pread mem l start f = (r, l', f') \<and> conf_wf data f' \<and>
    cf_param f' = cf_param f \<and>
    lex_stream mem (cf_param f) (cf_line f) l (conf_raw start f) (conf_rest data f)
      = (r, l', cf_line f', conf_rest data f')"
  using assms
proof (induction "conf_rest data f" arbitrary: l start f)
  case Nil
  then show ?case
    by (subst read_token_loop.simps) (simp add: conf_fill_at_end [OF Nil.prems(1) Nil.hyps [symmetric]] flip: Nil.hyps)
next
  case (Cons ch rest)
  have fit: "length (conf_raw start f) < HKY_CONF_BUFFER"
    using Cons.prems(4) by (simp flip: Cons.hyps(2))
  obtain s2 f2 where f2: "conf_fill pread l start f = (Inr s2, f2)" "conf_wf data f2" "s2 \<le> cf_pos f2"
    "cf_pos f2 < length (cf_buf f2)" "conf_rest data f2 = ch # rest"
    "conf_raw s2 f2 = conf_raw start f" "cf_line f2 = cf_line f" "cf_param f2 = cf_param f"
    using conf_fill_next [OF Cons.prems(1-3) Cons.hyps(2) [symmetric] fit, of l] by metis
  let ?f3 = "f2\<lparr>cf_pos := cf_pos f2 + 1, cf_line := line_after (cf_line f) ch\<rparr>"
  note rest = conf_rest_step [OF f2(4,5)]
  have loop: "read_token_loop pread mem l start f =
      (case conf_char mem (line_after (cf_line f) ch) l ch (conf_raw start f) of
         Stop r l \<Rightarrow> (r, l, ?f3)
       | Go mv l \<Rightarrow> read_token_loop pread mem l (move_start mv s2 (cf_pos f2 + 1)) ?f3)"
    using f2(6,7) rest(1)
    by (subst read_token_loop.simps)
      (simp add: f2(1) line_after_def conf_raw_def Let_def split: lex_step.split)
  show ?case
  proof (cases "conf_char mem (line_after (cf_line f) ch) l ch (conf_raw start f)")
    case (Stop r l2)
    then show ?thesis
      using loop rest(2) conf_wf_step [OF f2(2,4)] f2(8) by (simp flip: Cons.hyps(2))
  next
    case (Go mv l2)
    have raw: "conf_raw (move_start mv s2 (cf_pos f2 + 1)) ?f3 = move_raw mv (conf_raw start f) ch"
      using conf_raw_step [OF f2(3,4), of mv] f2(6) rest(1) by simp
    have "\<exists>r l' f'. read_token_loop pread mem l2 (move_start mv s2 (cf_pos f2 + 1)) ?f3 = (r, l', f') \<and>
        conf_wf data f' \<and> cf_param f' = cf_param ?f3 \<and>
        lex_stream mem (cf_param ?f3) (cf_line ?f3) l2 (conf_raw (move_start mv s2 (cf_pos f2 + 1)) ?f3)
          (conf_rest data ?f3) = (r, l', cf_line f', conf_rest data f')"
    proof (rule Cons.hyps(1))
      show "rest = conf_rest data ?f3" using rest(2) by simp
      show "conf_wf data ?f3" by (rule conf_wf_step [OF f2(2,4)])
      show "serves pread data" by (rule Cons.prems(2))
      show "move_start mv s2 (cf_pos f2 + 1) \<le> cf_pos ?f3" using move_start_le [OF f2(3)] by simp
      show "words_fit mem (cf_line ?f3) l2 (conf_raw (move_start mv s2 (cf_pos f2 + 1)) ?f3) (conf_rest data ?f3)"
        using Cons.prems(4) Go raw rest(2) by (simp flip: Cons.hyps(2))
    qed
    then show ?thesis using loop Go raw rest(2) f2(8) by (simp flip: Cons.hyps(2))
  qed
qed


section \<open>Directives\<close>

text \<open>
  A directive as a configuration would write it: every word in double quotes after a blank, with
  a backslash before each quote and backslash in it, then a semicolon or an opening brace.
\<close>

fun escape_word :: "byte list \<Rightarrow> byte list" where
  "escape_word [] = []"
| "escape_word (c # w) = (if c = 34 \<or> c = 92 then 92 # c # escape_word w else c # escape_word w)"

definition print_word :: "byte list \<Rightarrow> byte list" where
  "print_word w = [32, 34] @ escape_word w @ [34]"

definition print_directive :: "byte list list \<Rightarrow> byte \<Rightarrow> byte list" where
  "print_directive ws stop = concat (map print_word ws) @ [stop]"

lemma unescape_escape: "conf_unescape (escape_word w @ [34]) = w"
proof (induction w)
  case (Cons c w)
  show ?case
  proof (cases "c = 34 \<or> c = 92")
    case False
    obtain d rest where r: "escape_word w @ [34] = d # rest" by (cases "escape_word w") auto
    then show ?thesis using False Cons by simp
  qed (use Cons in auto)
qed simp

text \<open>Between two words, and inside a quoted one.\<close>

definition between :: "lex \<Rightarrow> bool" where
  "between l \<longleftrightarrow> \<not> sharp_comment l \<and> \<not> quoted l \<and> \<not> need_space l \<and> last_space l \<and> \<not> d_quoted l \<and> \<not> s_quoted l
     \<and> \<not> variable l"

definition in_string :: "lex \<Rightarrow> bool" where
  "in_string l \<longleftrightarrow> \<not> sharp_comment l \<and> \<not> quoted l \<and> \<not> need_space l \<and> \<not> last_space l \<and> d_quoted l \<and> \<not> s_quoted l"

definition after_string :: "lex \<Rightarrow> bool" where
  "after_string l \<longleftrightarrow> \<not> sharp_comment l \<and> \<not> quoted l \<and> need_space l \<and> \<not> d_quoted l \<and> \<not> s_quoted l \<and> \<not> variable l"

text \<open>A part of a run that stays in the function: the characters read and the state before and after.\<close>

inductive lex_run ::
  "(byte list list \<Rightarrow> nat \<Rightarrow> bool) \<Rightarrow> nat \<Rightarrow> lex \<Rightarrow> byte list \<Rightarrow> byte list \<Rightarrow> nat \<Rightarrow> lex \<Rightarrow> byte list \<Rightarrow> bool"
  for mem where
  lex_stay: "lex_run mem line l raw [] line l raw"
| lex_go: "length raw < HKY_CONF_BUFFER \<Longrightarrow> conf_char mem (line_after line ch) l ch raw = Go mv l2 \<Longrightarrow>
    lex_run mem (line_after line ch) l2 (move_raw mv raw ch) cs line' l' raw' \<Longrightarrow>
    lex_run mem line l raw (ch # cs) line' l' raw'"

lemma lex_run_stream:
  "lex_run mem line l raw cs line' l' raw' \<Longrightarrow>
    lex_stream mem param line l raw (cs @ rest) = lex_stream mem param line' l' raw' rest"
  by (induction rule: lex_run.induct) auto

lemma lex_run_fit:
  "lex_run mem line l raw cs line' l' raw' \<Longrightarrow> words_fit mem line' l' raw' rest \<Longrightarrow>
    words_fit mem line l raw (cs @ rest)"
  by (induction rule: lex_run.induct) auto

lemma lex_run_append:
  "lex_run mem line l raw cs line1 l1 raw1 \<Longrightarrow> lex_run mem line1 l1 raw1 ds line' l' raw' \<Longrightarrow>
    lex_run mem line l raw (cs @ ds) line' l' raw'"
  by (induction rule: lex_run.induct) (auto intro: lex_go)

abbreviation lines_after :: "nat \<Rightarrow> byte list \<Rightarrow> nat" where
  "lines_after \<equiv> foldl line_after"

lemma string_char:
  assumes "in_string l" "c \<noteq> 34" "c \<noteq> 92"
  obtains v where "conf_char mem line l c raw = Go Keep (l\<lparr>variable := v\<rparr>)"
proof
  show "conf_char mem line l c raw = Go Keep (l\<lparr>variable := (if c = 123 then variable l else c = 36)\<rparr>)"
    using assms by (cases l) (auto simp: conf_char_def conf_word_def conf_found_def in_string_def Let_def)
qed

lemma string_escape:
  assumes "in_string l"
  shows "conf_char mem line l 92 raw = Go Keep (l\<lparr>variable := False, quoted := True\<rparr>)"
    and "conf_char mem line (l\<lparr>variable := False, quoted := True\<rparr>) c raw2 = Go Keep (l\<lparr>variable := False\<rparr>)"
  using assms by (cases l; simp add: conf_char_def conf_word_def in_string_def Let_def)+

lemma string_run:
  assumes "in_string l" "length raw + length (escape_word w) \<le> HKY_CONF_BUFFER"
  shows "\<exists>v. lex_run mem line l raw (escape_word w) (lines_after line (escape_word w)) (l\<lparr>variable := v\<rparr>)
    (raw @ escape_word w)"
  using assms
proof (induction w arbitrary: line l raw)
  case Nil
  have "l = l\<lparr>variable := variable l\<rparr>" by simp
  then show ?case using lex_stay [of mem line l raw] by (metis append_Nil2 escape_word.simps(1) foldl_Nil)
next
  case (Cons c w)
  show ?case
  proof (cases "c = 34 \<or> c = 92")
    case True
    let ?l = "l\<lparr>variable := False\<rparr>"
    obtain v where v: "lex_run mem (line_after (line_after line 92) c) ?l (raw @ [92, c]) (escape_word w)
        (lines_after (line_after (line_after line 92) c) (escape_word w)) (?l\<lparr>variable := v\<rparr>)
        ((raw @ [92, c]) @ escape_word w)"
      using Cons.IH [of ?l "raw @ [92, c]"] Cons.prems True by (auto simp: in_string_def)
    have "lex_run mem line l raw (92 # c # escape_word w)
        (lines_after (line_after (line_after line 92) c) (escape_word w)) (?l\<lparr>variable := v\<rparr>)
        (raw @ 92 # c # escape_word w)"
      using v Cons.prems True string_escape [OF Cons.prems(1)]
      by (intro lex_go) (auto simp: move_raw_def)
    then show ?thesis using True by auto
  next
    case False
    obtain u where u: "conf_char mem (line_after line c) l c raw = Go Keep (l\<lparr>variable := u\<rparr>)"
      using string_char Cons.prems(1) False by metis
    obtain v where v: "lex_run mem (line_after line c) (l\<lparr>variable := u\<rparr>) (raw @ [c]) (escape_word w)
        (lines_after (line_after line c) (escape_word w)) (l\<lparr>variable := u, variable := v\<rparr>)
        ((raw @ [c]) @ escape_word w)"
      using Cons.IH [of "l\<lparr>variable := u\<rparr>" "raw @ [c]"] Cons.prems False by (auto simp: in_string_def)
    have "lex_run mem line l raw (c # escape_word w)
        (lines_after (line_after line c) (escape_word w)) (l\<lparr>variable := u, variable := v\<rparr>) (raw @ c # escape_word w)"
      using v u Cons.prems False by (intro lex_go) (auto simp: move_raw_def)
    then show ?thesis using False by auto
  qed
qed

text \<open>A printed word, read where a word may start.\<close>

definition ready :: "lex \<Rightarrow> bool" where
  "ready l \<longleftrightarrow> between l \<or> after_string l"

lemma ready_blank:
  assumes "ready l"
  obtains l2 where "conf_char mem line l 32 raw = Go Keep l2" "between l2" "args l2 = args l"
  using assms by (cases l) (auto simp: ready_def between_def after_string_def conf_char_def conf_start_def blank_def)

lemma open_quote:
  assumes "between l"
  obtains l2 where "conf_char mem line l 34 raw = Go After_char l2" "in_string l2" "args l2 = args l"
  using assms by (cases l) (auto simp: between_def in_string_def conf_char_def conf_start_def blank_def Let_def)

lemma close_quote:
  assumes "in_string l"
  obtains l2 where "conf_char (\<lambda>_ _. True) line l 34 (escape_word w) = Go Keep l2" "after_string l2"
    "args l2 = args l @ [w]"
  using assms by (cases l)
    (auto simp: in_string_def after_string_def conf_char_def conf_word_def conf_found_def Let_def unescape_escape)

lemma word_run:
  assumes "ready l" "length raw + 1 < HKY_CONF_BUFFER" "length (escape_word w) + 2 < HKY_CONF_BUFFER"
  obtains l' where "lex_run (\<lambda>_ _. True) line l raw (print_word w) (lines_after line (print_word w)) l' (escape_word w @ [34])"
    "after_string l'" "args l' = args l @ [w]"
proof -
  let ?mem = "\<lambda>_ _. True"
  obtain l1 where l1: "conf_char ?mem (line_after line 32) l 32 raw = Go Keep l1" "between l1" "args l1 = args l"
    using ready_blank assms(1) by blast
  obtain l2 where l2: "conf_char ?mem (line_after line 34) l1 34 (raw @ [32]) = Go After_char l2" "in_string l2"
    "args l2 = args l"
    using open_quote l1(2,3) by metis
  have eq: "line_after line 32 = line" "\<And>n. line_after n 34 = n" by (simp_all add: line_after_def)
  have "\<exists>v. lex_run ?mem line l2 [] (escape_word w) (lines_after line (escape_word w)) (l2\<lparr>variable := v\<rparr>)
      ([] @ escape_word w)"
    by (rule string_run) (use l2(2) assms(3) in auto)
  then obtain v where v: "lex_run ?mem line l2 [] (escape_word w) (lines_after line (escape_word w)) (l2\<lparr>variable := v\<rparr>)
      (escape_word w)"
    by auto
  have str: "in_string (l2\<lparr>variable := v\<rparr>)" using l2(2) by (simp add: in_string_def)
  obtain l3 where l3: "conf_char ?mem (lines_after line (escape_word w)) (l2\<lparr>variable := v\<rparr>) 34 (escape_word w) = Go Keep l3"
    "after_string l3" "args l3 = args l @ [w]"
    using close_quote [OF str] l2(3) by (metis lex.select_convs(9) lex.surjective lex.update_convs(4))
  have "lex_run ?mem (lines_after line (escape_word w)) (l2\<lparr>variable := v\<rparr>) (escape_word w) [34]
      (lines_after line (escape_word w)) l3 (escape_word w @ [34])"
    using l3(1) assms(3) by (intro lex_go) (auto simp: eq move_raw_def intro: lex_stay)
  then have tail: "lex_run ?mem line l2 [] (escape_word w @ [34]) (lines_after line (escape_word w)) l3 (escape_word w @ [34])"
    using lex_run_append v by blast
  have "lex_run ?mem line l raw (print_word w) (lines_after line (escape_word w)) l3 (escape_word w @ [34])"
    using l1(1) l2(1) tail assms(2) unfolding print_word_def
    by (auto intro!: lex_go simp: eq move_raw_def)
  moreover have "lines_after line (print_word w) = lines_after line (escape_word w)"
    by (simp add: print_word_def eq)
  ultimately show ?thesis using l3(2,3) that by simp
qed

lemma words_run:
  assumes "ready l" "length raw + 1 < HKY_CONF_BUFFER"
    and "list_all (\<lambda>w. length (escape_word w) + 2 < HKY_CONF_BUFFER) ws"
  shows "\<exists>l' raw'. lex_run (\<lambda>_ _. True) line l raw (concat (map print_word ws))
      (lines_after line (concat (map print_word ws))) l' raw'
    \<and> ready l' \<and> (ws \<noteq> [] \<or> after_string l \<longrightarrow> after_string l') \<and> length raw' + 1 < HKY_CONF_BUFFER \<and> args l' = args l @ ws"
  using assms
proof (induction ws arbitrary: line l raw)
  case Nil
  then show ?case using lex_stay by fastforce
next
  case (Cons w ws)
  obtain l1 where l1: "lex_run (\<lambda>_ _. True) line l raw (print_word w) (lines_after line (print_word w)) l1 (escape_word w @ [34])"
    "after_string l1" "args l1 = args l @ [w]"
    using word_run [OF Cons.prems(1,2), of w] Cons.prems(3) by auto
  obtain l' raw' where l': "lex_run (\<lambda>_ _. True) (lines_after line (print_word w)) l1 (escape_word w @ [34])
      (concat (map print_word ws)) (lines_after (lines_after line (print_word w)) (concat (map print_word ws))) l' raw'"
    "ready l'" "ws \<noteq> [] \<or> after_string l1 \<longrightarrow> after_string l'" "length raw' + 1 < HKY_CONF_BUFFER" "args l' = args l1 @ ws"
    using Cons.IH [of l1 "escape_word w @ [34]" "lines_after line (print_word w)"] l1(2) Cons.prems(3)
    by (auto simp: ready_def)
  have "lex_run (\<lambda>_ _. True) line l raw (print_word w @ concat (map print_word ws))
      (lines_after (lines_after line (print_word w)) (concat (map print_word ws))) l' raw'"
    by (rule lex_run_append [OF l1(1) l'(1)])
  then show ?case
    using l'(2-5) l1(2,3) by (intro exI [of _ l'] exI [of _ raw']) auto
qed

lemma directive_stop:
  assumes "after_string l" "stop = 59 \<or> stop = 123"
  shows "conf_char mem line l stop raw = Stop (Inr (if stop = 123 then HKY_CONF_BLOCK_START else HKY_OK)) l"
  using assms by (cases l) (auto simp: after_string_def conf_char_def blank_def)

lemma directive_run:
  assumes "ready l" "length raw + 1 < HKY_CONF_BUFFER" "ws \<noteq> []" "stop = 59 \<or> stop = 123"
    and "list_all (\<lambda>w. length (escape_word w) + 2 < HKY_CONF_BUFFER) ws"
  shows "words_fit (\<lambda>_ _. True) line l raw (print_directive ws stop @ rest)"
    and "\<exists>l' line'. lex_stream (\<lambda>_ _. True) param line l raw (print_directive ws stop @ rest)
      = (Inr (if stop = 123 then HKY_CONF_BLOCK_START else HKY_OK), l', line', rest) \<and> args l' = args l @ ws"
proof -
  obtain l' raw' line' where run: "lex_run (\<lambda>_ _. True) line l raw (concat (map print_word ws)) line' l' raw'"
    and l': "after_string l'" "length raw' + 1 < HKY_CONF_BUFFER" "args l' = args l @ ws"
    using words_run [OF assms(1,2,5)] assms(3) by blast
  note stop = directive_stop [OF l'(1) assms(4)]
  show "words_fit (\<lambda>_ _. True) line l raw (print_directive ws stop @ rest)"
    unfolding print_directive_def append_assoc by (rule lex_run_fit [OF run]) (use l'(2) in \<open>simp add: stop\<close>)
  show "\<exists>l' line'. lex_stream (\<lambda>_ _. True) param line l raw (print_directive ws stop @ rest)
      = (Inr (if stop = 123 then HKY_CONF_BLOCK_START else HKY_OK), l', line', rest) \<and> args l' = args l @ ws"
    unfolding print_directive_def append_assoc lex_run_stream [OF run] using l'(3) by (simp add: stop)
qed

lemma lex_init_ready: "ready (lex_init line)" "args (lex_init line) = []"
  by (simp_all add: ready_def between_def lex_init_def)

lemma conf_raw_start: "conf_wf data f \<Longrightarrow> conf_raw (cf_pos f) f = []"
  by (simp add: conf_raw_def)

text \<open>The function on the whole text, and its result for one directive.\<close>

lemma read_token_stream:
  assumes "conf_wf data f" "serves pread data"
    and "words_fit mem (cf_line f) (lex_init (cf_line f)) [] (conf_rest data f)"
  shows "case hky_conf_read_token pread mem f of (r, l, f') \<Rightarrow> conf_wf data f' \<and> cf_param f' = cf_param f \<and>
    lex_stream mem (cf_param f) (cf_line f) (lex_init (cf_line f)) [] (conf_rest data f)
      = (r, l, cf_line f', conf_rest data f')"
  using read_token_loop_stream [of data f pread "cf_pos f" mem "lex_init (cf_line f)"] assms
  by (auto simp: hky_conf_read_token_def conf_raw_start)

lemma read_token_directive:
  assumes "conf_wf data f" "serves pread data"
    and "conf_rest data f = print_directive ws stop @ rest" "ws \<noteq> []" "stop = 59 \<or> stop = 123"
    and "list_all (\<lambda>w. length (escape_word w) + 2 < HKY_CONF_BUFFER) ws"
  shows "case hky_conf_read_token pread (\<lambda>_ _. True) f of (r, l, f') \<Rightarrow>
    r = Inr (if stop = 123 then HKY_CONF_BLOCK_START else HKY_OK) \<and> args l = ws \<and> conf_wf data f' \<and>
    cf_param f' = cf_param f \<and> conf_rest data f' = rest"
proof -
  have s: "length ([]::byte list) + 1 < HKY_CONF_BUFFER" by (simp add: HKY_CONF_BUFFER_def)
  note run = directive_run [OF lex_init_ready(1) [of "cf_line f"] s assms(4-6), where rest = rest]
  obtain l' line' where "lex_stream (\<lambda>_ _. True) (cf_param f) (cf_line f) (lex_init (cf_line f)) [] (conf_rest data f)
      = (Inr (if stop = 123 then HKY_CONF_BLOCK_START else HKY_OK), l', line', rest)" "args l' = ws"
    using run(2) [where line = "cf_line f" and param = "cf_param f"] unfolding assms(3) lex_init_ready(2) by auto
  moreover have "words_fit (\<lambda>_ _. True) (cf_line f) (lex_init (cf_line f)) [] (conf_rest data f)"
    unfolding assms(3) by (rule run(1))
  ultimately show ?thesis
    using read_token_stream [OF assms(1,2), of "\<lambda>_ _. True"]
    by (auto split: prod.splits)
qed

text \<open>A file and its \<open>pread\<close>, as the callers of the lexer open it.\<close>

definition pread_of :: "byte list \<Rightarrow> reader" where
  "pread_of data n off = Some (take n (drop off data))"

definition conf_open :: "byte list \<Rightarrow> conf_file" where
  "conf_open data = \<lparr>cf_size = length data, cf_offset = 0, cf_fd = 3, cf_line = 1, cf_buf = [], cf_pos = 0,
     cf_cap = HKY_CONF_BUFFER, cf_dump = None\<rparr>"

lemma serves_pread_of: "serves (pread_of data) data"
  by (simp add: serves_def pread_of_def)

lemma conf_open_wf: "conf_wf data (conf_open data)" "conf_rest data (conf_open data) = data"
  by (simp_all add: conf_wf_def conf_open_def conf_rest_def)

text \<open>A directive has a first word whenever the function says so.\<close>

definition named :: "lex \<Rightarrow> bool" where
  "named l \<longleftrightarrow> need_space l \<longrightarrow> args l \<noteq> []"

lemma conf_char_named:
  assumes "named l"
  shows "conf_char mem line l ch raw = Go mv l' \<Longrightarrow> named l'"
    and "conf_char mem line l ch raw = Stop (Inr rc) l' \<Longrightarrow> rc = HKY_OK \<or> rc = HKY_CONF_BLOCK_START \<Longrightarrow> args l' \<noteq> []"
  using assms
  by (auto simp: conf_char_def conf_start_def conf_word_def conf_found_def named_def Let_def hky_consts
      split: if_splits option.splits)

lemma conf_fill_stop:
  "conf_fill pread l start f = (Inl (Inr rc), f') \<Longrightarrow> rc = HKY_CONF_FILE_DONE"
  by (auto simp: conf_fill_def conf_end_def Let_def split: if_splits option.splits prod.splits)

lemma read_token_loop_named:
  "read_token_loop pread mem l start f = (Inr rc, l', f') \<Longrightarrow> named l \<Longrightarrow>
    rc = HKY_OK \<or> rc = HKY_CONF_BLOCK_START \<Longrightarrow> args l' \<noteq> []"
proof (induction pread mem l start f rule: read_token_loop.induct)
  case (1 pread mem l start f)
  show ?case
    using "1.prems" "1.IH" conf_char_named [OF \<open>named l\<close>] conf_fill_stop [of pread l start f]
    by (subst (asm) read_token_loop.simps)
      (fastforce simp: Let_def hky_consts split: prod.splits sum.splits lex_step.splits)
qed

lemma read_token_named:
  "hky_conf_read_token pread mem f = (Inr rc, l', f') \<Longrightarrow> rc = HKY_OK \<or> rc = HKY_CONF_BLOCK_START \<Longrightarrow> args l' \<noteq> []"
  unfolding hky_conf_read_token_def
  by (erule read_token_loop_named) (simp_all add: named_def lex_init_def)

text \<open>Every call that does not end with an error or the end of the text has consumed a character.\<close>

lemma conf_fill_stop_left: "conf_fill pread l start f = (Inl r, f') \<Longrightarrow> conf_left f' \<le> conf_left f"
  by (auto simp: conf_fill_def hky_read_file_def conf_left_def Let_def split: if_splits option.splits prod.splits)

lemma read_token_loop_left:
  "read_token_loop pread mem l start f = (r, l', f') \<Longrightarrow>
    conf_left f' \<le> conf_left f \<and> (\<forall>rc. r = Inr rc \<longrightarrow> rc = HKY_CONF_FILE_DONE \<or> conf_left f' < conf_left f)"
proof (induction pread mem l start f rule: read_token_loop.induct)
  case (1 pread mem l start f)
  show ?case
  proof (cases "conf_fill pread l start f")
    case (Pair fill f2)
    show ?thesis
    proof (cases fill)
      case (Inl s)
      then show ?thesis using "1.prems" Pair conf_fill_stop_left conf_fill_stop
        by (subst (asm) read_token_loop.simps) fastforce
    next
      case (Inr s)
      let ?ch = "cf_buf f2 ! cf_pos f2"
      let ?f3 = "f2\<lparr>cf_pos := cf_pos f2 + 1, cf_line := (if ?ch = LF then cf_line f2 + 1 else cf_line f2)\<rparr>"
      have left: "conf_left ?f3 < conf_left f" using conf_fill_left [of pread l start f s f2] Pair Inr
        by (auto simp: conf_left_def)
      show ?thesis
      proof (cases "conf_char mem (cf_line ?f3) l ?ch (conf_raw s f2)")
        case (Stop r2 l2)
        then show ?thesis using "1.prems" Pair Inr left by (subst (asm) read_token_loop.simps) (auto simp: Let_def)
      next
        case (Go mv l2)
        then have "read_token_loop pread mem l2 (move_start mv s (cf_pos ?f3)) ?f3 = (r, l', f')"
          using "1.prems" Pair Inr by (subst (asm) read_token_loop.simps) (auto simp: Let_def)
        from "1.IH" [OF Pair [symmetric] Inr refl refl refl Go this] show ?thesis using left by fastforce
      qed
    qed
  qed
qed

lemma read_token_left:
  "hky_conf_read_token pread mem f = (r, l', f') \<Longrightarrow> conf_left f' \<le> conf_left f"
  "hky_conf_read_token pread mem f = (Inr rc, l', f') \<Longrightarrow> rc \<noteq> HKY_CONF_FILE_DONE \<Longrightarrow> conf_left f' < conf_left f"
  using read_token_loop_left unfolding hky_conf_read_token_def by blast+

text \<open>
  C22: \<open>hky_conf_read_token\<close> reads through a buffer of 4096 bytes, refilled with \<open>pread\<close> while a word
  may be half read, and yet does what the lexer does on the whole text that is left: the same
  result, words and line, the same rest of the text, and a buffer that is again well formed; as
  long as no word with the blanks or the comment after it is as long as the buffer.
\<close>

theorem conf_read_token_refines:
  assumes "conf_wf data f" "serves pread data"
    and "words_fit mem (cf_line f) (lex_init (cf_line f)) [] (conf_rest data f)"
  shows "case hky_conf_read_token pread mem f of (r, l, f') \<Rightarrow> conf_wf data f' \<and>
    lex_stream mem (cf_param f) (cf_line f) (lex_init (cf_line f)) [] (conf_rest data f)
      = (r, l, cf_line f', conf_rest data f')"
  using read_token_stream [OF assms] by (auto split: prod.splits)

lemma conf_read_token_refines_witness:
  "case hky_conf_read_token (pread_of [97, 32, 98, 59, 10]) (\<lambda>_ _. True) (conf_open [97, 32, 98, 59, 10])
     of (r, l, f') \<Rightarrow> r = Inr HKY_OK \<and> args l = [[97], [98]] \<and> conf_rest [97, 32, 98, 59, 10] f' = [10]"
  using conf_read_token_refines [of "[97, 32, 98, 59, 10]" "conf_open [97, 32, 98, 59, 10]"
      "pread_of [97, 32, 98, 59, 10]" "\<lambda>_ _. True"]
  by (auto simp: conf_open_wf serves_pread_of lex_init_def HKY_CONF_BUFFER_def conf_char_def conf_start_def
      conf_word_def conf_found_def blank_def line_after_def move_raw_def Let_def split: prod.splits)

text \<open>
  C23: A directive printed with its words in double quotes, each quote and backslash in them after a
  backslash, and ended by a semicolon or an opening brace, is read back by \<open>hky_conf_read_token\<close> as
  exactly these words, whatever bytes they hold and wherever the refills of the buffer fall; the
  rest of the file is left for the next call. The words are shorter than the buffer.
\<close>

theorem directive_round_trip:
  assumes "conf_wf data f" "serves pread data"
    and "conf_rest data f = print_directive ws stop @ rest" "ws \<noteq> []" "stop = 59 \<or> stop = 123"
    and "list_all (\<lambda>w. length (escape_word w) + 2 < HKY_CONF_BUFFER) ws"
  shows "case hky_conf_read_token pread (\<lambda>_ _. True) f of (r, l, f') \<Rightarrow>
    r = Inr (if stop = 123 then HKY_CONF_BLOCK_START else HKY_OK) \<and> args l = ws \<and> conf_wf data f' \<and>
    conf_rest data f' = rest"
  using read_token_directive [OF assms] by (auto split: prod.splits)

lemma directive_round_trip_witness:
  "case hky_conf_read_token (pread_of (print_directive [[34, 92, 59], []] 123 @ [125])) (\<lambda>_ _. True)
     (conf_open (print_directive [[34, 92, 59], []] 123 @ [125]))
     of (r, l, f') \<Rightarrow> r = Inr HKY_CONF_BLOCK_START \<and> args l = [[34, 92, 59], []]"
  using directive_round_trip [OF conf_open_wf(1) serves_pread_of conf_open_wf(2),
      where ws = "[[34, 92, 59], []]" and stop = 123 and rest = "[125]"]
  by (auto simp: HKY_CONF_BUFFER_def split: prod.splits)

end
