(* ===== verification/Hky_Conf.thy ===== *)
theory Hky_Conf
  imports Hky_Conf_Lex Hky_Palloc
begin

text \<open>
  The parser of the configuration in src/core/hky_conf_file.c: \<open>hky_conf_handler\<close> looks a directive
  up among the commands of the modules and calls its \<open>set\<close> function, \<open>hky_conf_parse\<close> does so for
  the directives of a file, a block or the command line, \<open>hky_conf_param\<close> is the entry for the
  command line.

  \<open>conf\<close> is \<open>hky_conf_t\<close>; function pointers and the configurations of the modules are addresses. The
  functions behind the pointers and the system calls are the fields of \<open>conf_env\<close>. A \<open>set\<close> function
  gets the parser, because block directives call \<open>hky_conf_parse\<close> again; the parser has fuel for the
  directives, and \<open>None\<close> is no result: no fuel left, or a null pointer read. A \<open>char *\<close> result
  is a \<open>conf_rv\<close>. Every call of \<open>hky_conf_log_error\<close> adds the message and its place to \<open>cx_log\<close>.
\<close>

section \<open>State\<close>

definition HKY_CONF_MAX_ARGS :: nat where "HKY_CONF_MAX_ARGS = 8"

definition HKY_CONF_BLOCK :: u64 where "HKY_CONF_BLOCK = 0x00000100"
definition HKY_CONF_FLAG :: u64 where "HKY_CONF_FLAG = 0x00000200"
definition HKY_CONF_ANY :: u64 where "HKY_CONF_ANY = 0x00000400"
definition HKY_CONF_1MORE :: u64 where "HKY_CONF_1MORE = 0x00000800"
definition HKY_CONF_2MORE :: u64 where "HKY_CONF_2MORE = 0x00001000"
definition HKY_DIRECT_CONF :: u64 where "HKY_DIRECT_CONF = 0x00010000"
definition HKY_MAIN_CONF :: u64 where "HKY_MAIN_CONF = 0x01000000"
definition HKY_CONF_MODULE :: u64 where "HKY_CONF_MODULE = 0x464E4F43"

text \<open>\<open>HKY_CONF_NOARGS\<close>, \<open>HKY_CONF_TAKE1\<close> to \<open>HKY_CONF_TAKE7\<close>.\<close>

definition argument_number :: "u64 list" where
  "argument_number = [0x01, 0x02, 0x04, 0x08, 0x10, 0x20, 0x40, 0x80]"

record hky_command =
  cmd_name :: "byte list"
  cmd_type :: u64
  cmd_set :: nat
  cmd_conf :: nat

record hky_module =
  md_ctx_index :: nat
  md_index :: nat
  md_commands :: "hky_command list option"
  md_type :: u64

text \<open>The array of configurations \<open>cf->ctx\<close>, and the arrays its fields point to, by byte offset.\<close>

record conf_ctx =
  ctx_slot :: "nat \<Rightarrow> nat"
  ctx_block :: "nat \<Rightarrow> (nat \<Rightarrow> nat) option"

datatype conf_arg = No_conf | Conf_ptr nat | Conf_slot nat

datatype conf_rv = Conf_ok | Conf_error | Conf_message "byte list"

datatype parse_error =
    Lex_error conf_error
  | Unexpected_close
  | Expecting_close
  | No_block_in_param
  | Unexpected_open
  | Handler_message "byte list"
  | Not_terminated "byte list"
  | No_opening "byte list"
  | Directive_message "byte list"   \<comment> \<open>prints a literal $s and then the name: the text of the function is never printed\<close>
  | Not_allowed "byte list"
  | Unknown_directive "byte list"
  | Bad_number "byte list"
  | Open_failed "byte list"
  | Info_failed "byte list"
  | Close_failed "byte list"

datatype conf_place = No_place | Command_line | File_line nat

record 'u conf =
  cx_args :: "byte list list"
  cx_modules :: "hky_module list"
  cx_file :: "conf_file option"
  cx_ctx :: "conf_ctx option"
  cx_module_type :: u64
  cx_cmd_type :: u64
  cx_handler :: nat
  cx_dumps :: "byte list list"
  cx_sys :: sys
  cx_log :: "(parse_error \<times> conf_place) list"
  cx_user :: 'u

type_synonym 'u parser = "byte list option \<Rightarrow> 'u conf \<Rightarrow> (conf_rv \<times> 'u conf) option"

record 'u conf_env =
  ev_os :: allocator
  ev_mem :: "byte list list \<Rightarrow> nat \<Rightarrow> bool"
  ev_open :: "byte list \<Rightarrow> int"
  ev_info :: "int \<Rightarrow> bool \<times> nat"
  ev_pread :: "int \<Rightarrow> reader"
  ev_close :: "int \<Rightarrow> bool"
  ev_dump :: bool
  ev_handler :: "nat \<Rightarrow> 'u conf \<Rightarrow> conf_rv \<times> 'u conf"
  ev_set :: "nat \<Rightarrow> 'u parser \<Rightarrow> hky_command \<Rightarrow> conf_arg \<Rightarrow> 'u conf \<Rightarrow> (conf_rv \<times> 'u conf) option"

section \<open>Messages\<close>

definition conf_place_of :: "'u conf \<Rightarrow> conf_place" where
  "conf_place_of cf =
     (case cx_file cf of
        None \<Rightarrow> No_place
      | Some f \<Rightarrow> if cf_fd f = HKY_INVALID_FILE then Command_line else File_line (cf_line f))"

definition hky_conf_log_error :: "parse_error \<Rightarrow> 'u conf \<Rightarrow> 'u conf" where
  "hky_conf_log_error e cf = cf\<lparr>cx_log := cx_log cf @ [(e, conf_place_of cf)]\<rparr>"

section \<open>A directive\<close>

text \<open>Equal lengths, and equal as C strings.\<close>

definition name_matches :: "byte list \<Rightarrow> byte list \<Rightarrow> bool" where
  "name_matches name cmd \<longleftrightarrow> length name = length cmd \<and>
     takeWhile (\<lambda>c. c \<noteq> 0) name = takeWhile (\<lambda>c. c \<noteq> 0) cmd"

text \<open>The commands in the order of the loops: the table of a module ends with an empty name.\<close>

definition module_commands :: "hky_module \<Rightarrow> (hky_module \<times> hky_command) list" where
  "module_commands m = (case md_commands m of
     None \<Rightarrow> [] | Some cmds \<Rightarrow> map (Pair m) (takeWhile (\<lambda>c. cmd_name c \<noteq> []) cmds))"

fun find_command ::
  "byte list \<Rightarrow> u64 \<Rightarrow> u64 \<Rightarrow> bool \<Rightarrow> (hky_module \<times> hky_command) list \<Rightarrow> bool + (hky_module \<times> hky_command)" where
  "find_command name mtype ctype found [] = Inl found"
| "find_command name mtype ctype found ((m, cmd) # cs) =
     (if \<not> name_matches name (cmd_name cmd) then find_command name mtype ctype found cs
      else if md_type m \<noteq> HKY_CONF_MODULE \<and> md_type m \<noteq> mtype then find_command name mtype ctype True cs
      else if cmd_type cmd AND ctype = 0 then find_command name mtype ctype True cs
      else Inr (m, cmd))"

definition number_ok :: "u64 \<Rightarrow> nat \<Rightarrow> bool" where
  "number_ok ty n =
     (if ty AND HKY_CONF_ANY \<noteq> 0 then True
      else if ty AND HKY_CONF_FLAG \<noteq> 0 then n = 2
      else if ty AND HKY_CONF_1MORE \<noteq> 0 then \<not> n < 2
      else if ty AND HKY_CONF_2MORE \<noteq> 0 then \<not> n < 3
      else if n > HKY_CONF_MAX_ARGS then False
      else ty AND argument_number ! (n - 1) \<noteq> 0)"

text \<open>The third argument of \<open>cmd->set\<close>; \<open>None\<close> when \<open>cf->ctx\<close> is read but null.\<close>

definition conf_argument :: "hky_module \<Rightarrow> hky_command \<Rightarrow> 'u conf \<Rightarrow> conf_arg option" where
  "conf_argument m cmd cf =
     (if cmd_type cmd AND HKY_DIRECT_CONF \<noteq> 0 then
        map_option (\<lambda>ctx. Conf_ptr (ctx_slot ctx (md_index m))) (cx_ctx cf)
      else if cmd_type cmd AND HKY_MAIN_CONF \<noteq> 0 then Some (Conf_slot (md_index m))
      else Some (case cx_ctx cf of
          None \<Rightarrow> No_conf
        | Some ctx \<Rightarrow> (case ctx_block ctx (cmd_conf cmd) of
            None \<Rightarrow> No_conf | Some confp \<Rightarrow> Conf_ptr (confp (md_ctx_index m)))))"

text \<open>
  An error is logged and returned. The lexer says nothing more when it is out of memory or
  \<open>hky_read_file\<close> has failed.
\<close>

definition conf_failed :: "parse_error \<Rightarrow> 'u conf \<Rightarrow> (int \<times> 'u conf) option" where
  "conf_failed e cf = Some (HKY_ERROR, hky_conf_log_error e cf)"

definition run_command ::
  "'u conf_env \<Rightarrow> 'u parser \<Rightarrow> hky_module \<Rightarrow> hky_command \<Rightarrow> byte list \<Rightarrow> 'u conf \<Rightarrow> (int \<times> 'u conf) option" where
  "run_command env parse m cmd name cf =
     (case conf_argument m cmd cf of
        None \<Rightarrow> None
      | Some arg \<Rightarrow>
          (case ev_set env (cmd_set cmd) parse cmd arg cf of
             None \<Rightarrow> None
           | Some (Conf_ok, cf) \<Rightarrow> Some (HKY_OK, cf)
           | Some (Conf_error, cf) \<Rightarrow> Some (HKY_ERROR, cf)
           | Some (Conf_message rv, cf) \<Rightarrow> conf_failed (Directive_message name) cf))"

text \<open>
  \<open>cf->args\<close> has a first word whenever the lexer has returned \<open>HKY_OK\<close> or \<open>HKY_CONF_BLOCK_START\<close>
  (lemma \<open>read_token_named\<close>).
\<close>

definition hky_conf_handler ::
  "'u conf_env \<Rightarrow> 'u parser \<Rightarrow> int \<Rightarrow> 'u conf \<Rightarrow> (int \<times> 'u conf) option" where
  "hky_conf_handler env parse last_rc cf =
     (let name = hd (cx_args cf) in
      case find_command name (cx_module_type cf) (cx_cmd_type cf) False (concat (map module_commands (cx_modules cf))) of
        Inl found \<Rightarrow> conf_failed (if found then Not_allowed name else Unknown_directive name) cf
      | Inr (m, cmd) \<Rightarrow>
          if cmd_type cmd AND HKY_CONF_BLOCK = 0 \<and> last_rc \<noteq> HKY_OK then conf_failed (Not_terminated name) cf
          else if cmd_type cmd AND HKY_CONF_BLOCK \<noteq> 0 \<and> last_rc \<noteq> HKY_CONF_BLOCK_START
            then conf_failed (No_opening name) cf
          else if \<not> number_ok (cmd_type cmd) (length (cx_args cf)) then conf_failed (Bad_number name) cf
          else run_command env parse m cmd name cf)"

section \<open>The parser\<close>

definition lex_failed :: "conf_error \<Rightarrow> 'u conf \<Rightarrow> (int \<times> 'u conf) option" where
  "lex_failed e cf = (if e = No_memory \<or> e = Read_failed then Some (HKY_ERROR, cf) else conf_failed (Lex_error e) cf)"

datatype parse_type = Parse_file | Parse_block | Parse_param

text \<open>
  One round of the loop; \<open>again\<close> is the loop. The result is the \<open>rc\<close> at the label \<open>done\<close>.
\<close>

definition parse_round ::
  "'u conf_env \<Rightarrow> (parse_type \<Rightarrow> 'u conf \<Rightarrow> (int \<times> 'u conf) option) \<Rightarrow> 'u parser \<Rightarrow> parse_type \<Rightarrow> 'u conf
     \<Rightarrow> (int \<times> 'u conf) option" where
  "parse_round env again parse ty cf =
     (case cx_file cf of
        None \<Rightarrow> None
      | Some f \<Rightarrow>
          (case hky_conf_read_token (ev_pread env (cf_fd f)) (ev_mem env) f of
             (Inl e, l, f) \<Rightarrow> lex_failed e (cf\<lparr>cx_args := args l, cx_file := Some f\<rparr>)
           | (Inr rc, l, f) \<Rightarrow>
               let cf = cf\<lparr>cx_args := args l, cx_file := Some f\<rparr> in
               if rc = HKY_CONF_BLOCK_DONE then
                 if ty \<noteq> Parse_block then conf_failed Unexpected_close cf else Some (rc, cf)
               else if rc = HKY_CONF_FILE_DONE then
                 if ty = Parse_block then conf_failed Expecting_close cf else Some (rc, cf)
               else if rc = HKY_CONF_BLOCK_START \<and> ty = Parse_param then conf_failed No_block_in_param cf
               else if cx_handler cf \<noteq> 0 then
                 if rc = HKY_CONF_BLOCK_START then conf_failed Unexpected_open cf
                 else
                   (case ev_handler env (cx_handler cf) cf of
                      (Conf_ok, cf) \<Rightarrow> again ty cf
                    | (Conf_error, cf) \<Rightarrow> Some (HKY_ERROR, cf)
                    | (Conf_message rv, cf) \<Rightarrow> conf_failed (Handler_message rv) cf)
               else
                 (case hky_conf_handler env parse rc cf of
                    None \<Rightarrow> None
                  | Some (rc, cf) \<Rightarrow> if rc = HKY_ERROR then Some (HKY_ERROR, cf) else again ty cf)))"

text \<open>The label \<open>done\<close> without and with a file of its own.\<close>

definition parse_rv :: "int \<times> 'u conf \<Rightarrow> conf_rv \<times> 'u conf" where
  "parse_rv = (\<lambda>(rc, cf). (if rc = HKY_ERROR then Conf_error else Conf_ok, cf))"

definition parse_done ::
  "'u conf_env \<Rightarrow> int \<Rightarrow> byte list \<Rightarrow> conf_file option \<Rightarrow> nat \<Rightarrow> int \<times> 'u conf \<Rightarrow> conf_rv \<times> 'u conf" where
  "parse_done env fd filename prev start = (\<lambda>(rc, cf).
     let cf = (if start \<noteq> 0 then cf\<lparr>cx_sys := hky_free start (cx_sys cf)\<rparr> else cf);
         (rc, cf) = (if \<not> ev_close env fd
           then (HKY_ERROR, cf\<lparr>cx_log := cx_log cf @ [(Close_failed filename, No_place)]\<rparr>) else (rc, cf))
     in parse_rv (rc, cf\<lparr>cx_file := prev\<rparr>))"

text \<open>
  \<open>hky_conf_add_dump\<close>: the file is known, or there is no memory for its name, or \<open>cf\<close> itself is
  overwritten with the result of \<open>hky_array_push\<close> and what follows is undefined (\<open>None\<close>).
\<close>

definition hky_conf_add_dump :: "'u conf_env \<Rightarrow> byte list \<Rightarrow> 'u conf \<Rightarrow> (int \<times> 'u conf) option" where
  "hky_conf_add_dump env filename cf =
     (if filename \<in> set (cx_dumps cf)
      then Some (HKY_OK, cf\<lparr>cx_file := map_option (\<lambda>f. f\<lparr>cf_dump := None\<rparr>) (cx_file cf)\<rparr>)
      else if \<not> ev_mem env [] (length filename) then Some (HKY_ERROR, cf)
      else None)"

definition parse_with :: "'u conf_env \<Rightarrow> (parse_type \<Rightarrow> 'u conf \<Rightarrow> (int \<times> 'u conf) option) \<Rightarrow> 'u parser" where
  "parse_with env loop filename cf =
     (case filename of
        None \<Rightarrow>
          (case cx_file cf of
             None \<Rightarrow> None
           | Some f \<Rightarrow> map_option parse_rv (loop (if cf_fd f \<noteq> HKY_INVALID_FILE then Parse_block else Parse_param) cf))
      | Some filename \<Rightarrow>
          let fd = ev_open env filename in
          if fd = HKY_INVALID_FILE then Some (Conf_error, hky_conf_log_error (Open_failed filename) cf)
          else
            let prev = cx_file cf; (info_ok, sz) = ev_info env fd;
                cf = (if info_ok then cf else cf\<lparr>cx_log := cx_log cf @ [(Info_failed filename, No_place)]\<rparr>);
                (start, sys) = hky_alloc (ev_os env) HKY_CONF_BUFFER (cx_sys cf);
                cf = cf\<lparr>cx_sys := sys\<rparr>;
                done = parse_done env fd filename prev start in
            if start = 0 then Some (done (HKY_ERROR, cf))
            else
              let cf = cf\<lparr>cx_file := Some \<lparr>cf_size = sz, cf_offset = 0, cf_fd = fd, cf_line = 1, cf_buf = [],
                                         cf_pos = 0, cf_cap = HKY_CONF_BUFFER, cf_dump = None\<rparr>\<rparr> in
              (case (if ev_dump env then hky_conf_add_dump env filename cf else Some (HKY_OK, cf)) of
                 None \<Rightarrow> None
               | Some (rc, cf) \<Rightarrow>
                   if rc \<noteq> HKY_OK then Some (done (HKY_ERROR, cf)) else map_option done (loop Parse_file cf)))"

fun parse_loop :: "nat \<Rightarrow> 'u conf_env \<Rightarrow> parse_type \<Rightarrow> 'u conf \<Rightarrow> (int \<times> 'u conf) option" where
  "parse_loop 0 env ty cf = None"
| "parse_loop (Suc n) env ty cf =
     parse_round env (parse_loop n env) (parse_with env (parse_loop n env)) ty cf"

definition hky_conf_parse :: "nat \<Rightarrow> 'u conf_env \<Rightarrow> 'u parser" where
  "hky_conf_parse n env = parse_with env (parse_loop n env)"

text \<open>The buffer is the text of the option itself; the zeroed \<open>file.info\<close> says that the file is empty.\<close>

definition hky_conf_param :: "nat \<Rightarrow> 'u conf_env \<Rightarrow> byte list \<Rightarrow> 'u conf \<Rightarrow> (conf_rv \<times> 'u conf) option" where
  "hky_conf_param n env param cf =
     (if param = [] then Some (Conf_ok, cf)
      else
        let f = \<lparr>cf_size = 0, cf_offset = 0, cf_fd = HKY_INVALID_FILE, cf_line = 0, cf_buf = param, cf_pos = 0,
                 cf_cap = length param, cf_dump = None\<rparr>
        in map_option (\<lambda>(rv, cf). (rv, cf\<lparr>cx_file := None\<rparr>)) (hky_conf_parse n env None (cf\<lparr>cx_file := Some f\<rparr>)))"

section \<open>Looking up a directive\<close>

definition allowed :: "u64 \<Rightarrow> u64 \<Rightarrow> hky_module \<times> hky_command \<Rightarrow> bool" where
  "allowed mtype ctype = (\<lambda>(m, cmd). (md_type m = HKY_CONF_MODULE \<or> md_type m = mtype) \<and> cmd_type cmd AND ctype \<noteq> 0)"

definition called :: "byte list \<Rightarrow> hky_module \<times> hky_command \<Rightarrow> bool" where
  "called name = (\<lambda>(m, cmd). name_matches name (cmd_name cmd))"

lemma find_command_spec:
  "find_command name mtype ctype found cs =
     (case filter (\<lambda>x. called name x \<and> allowed mtype ctype x) cs of
        x # _ \<Rightarrow> Inr x
      | [] \<Rightarrow> Inl (found \<or> filter (called name) cs \<noteq> []))"
  by (induction name mtype ctype found cs rule: find_command.induct)
    (auto simp: called_def allowed_def split: list.splits)

lemma number_ok_bits:
  "number_ok ty n \<longleftrightarrow>
     bit ty 10 \<or> (if bit ty 9 then n = 2 else if bit ty 11 then 2 \<le> n else if bit ty 12 then 3 \<le> n
       else n \<le> 8 \<and> bit ty (n - 1))"
proof -
  have p: "HKY_CONF_ANY = 2 ^ 10" "HKY_CONF_FLAG = 2 ^ 9" "HKY_CONF_1MORE = 2 ^ 11" "HKY_CONF_2MORE = 2 ^ 12"
    by (simp_all add: HKY_CONF_ANY_def HKY_CONF_FLAG_def HKY_CONF_1MORE_def HKY_CONF_2MORE_def)
  have a: "argument_number ! k = 2 ^ k" if "k < 8" for k
    using less_8_cases [OF that] by (auto simp: argument_number_def)
  have "(ty AND argument_number ! (n - 1) \<noteq> 0) = bit ty (n - 1)" if "n \<le> 8"
    using that a [of "n - 1"] by (simp add: and_exp_eq_0_iff_not_bit)
  then show ?thesis
    by (auto simp: number_ok_def p HKY_CONF_MAX_ARGS_def and_exp_eq_0_iff_not_bit simp del: power_numeral)
qed

text \<open>
  C24: \<open>hky_conf_handler\<close> serves a directive with the first command, in the order of the modules and
  of their tables, that has its name and is allowed for the current module type and context. The
  directive must end with a brace exactly when the command is a block, and the number of its words
  must be one the type of the command admits (any, two for a flag, at least two or three, or, of at
  most eight, a number whose bit is set). Otherwise the function fails with the message that says
  what is wrong: a wrong end, a wrong number, a name that is only known elsewhere, an unknown name.
\<close>

theorem conf_handler_dispatch:
  "hky_conf_handler env parse last_rc cf =
     (let name = hd (cx_args cf); n = length (cx_args cf); cmds = concat (map module_commands (cx_modules cf)) in
      case filter (\<lambda>x. called name x \<and> allowed (cx_module_type cf) (cx_cmd_type cf) x) cmds of
        [] \<Rightarrow> Some (HKY_ERROR, hky_conf_log_error
                (if filter (called name) cmds = [] then Unknown_directive name else Not_allowed name) cf)
      | (m, cmd) # _ \<Rightarrow>
          let ty = cmd_type cmd; block = bit ty 8 in
          if last_rc \<noteq> (if block then HKY_CONF_BLOCK_START else HKY_OK)
          then Some (HKY_ERROR, hky_conf_log_error (if block then No_opening name else Not_terminated name) cf)
          else if bit ty 10 \<or> (if bit ty 9 then n = 2 else if bit ty 11 then 2 \<le> n else if bit ty 12 then 3 \<le> n
                 else n \<le> 8 \<and> bit ty (n - 1))
          then run_command env parse m cmd name cf
          else Some (HKY_ERROR, hky_conf_log_error (Bad_number name) cf))"
proof -
  let ?name = "hd (cx_args cf)" and ?cmds = "concat (map module_commands (cx_modules cf))"
  let ?found = "filter (\<lambda>x. called ?name x \<and> allowed (cx_module_type cf) (cx_cmd_type cf) x) ?cmds"
  have block: "ty AND HKY_CONF_BLOCK = 0 \<longleftrightarrow> \<not> bit ty 8" for ty
    using and_exp_eq_0_iff_not_bit [of ty 8] by (simp add: HKY_CONF_BLOCK_def)
  note find = find_command_spec [of ?name "cx_module_type cf" "cx_cmd_type cf" False ?cmds]
  show ?thesis
  proof (cases ?found)
    case Nil
    then show ?thesis by (simp only: hky_conf_handler_def Let_def find) (simp add: conf_failed_def)
  next
    case (Cons x xs)
    obtain m cmd where x: "x = (m, cmd)" by fastforce
    show ?thesis
      unfolding hky_conf_handler_def Let_def find Cons x list.case sum.case prod.case block number_ok_bits conf_failed_def
      by (cases "bit (cmd_type cmd) 8";
          cases "bit (cmd_type cmd) 10 \<or> (if bit (cmd_type cmd) 9 then length (cx_args cf) = 2
            else if bit (cmd_type cmd) 11 then 2 \<le> length (cx_args cf)
            else if bit (cmd_type cmd) 12 then 3 \<le> length (cx_args cf)
            else length (cx_args cf) \<le> 8 \<and> bit (cmd_type cmd) (length (cx_args cf) - 1))")
        (simp_all only: if_True if_False simp_thms)
  qed
qed

section \<open>Termination\<close>

text \<open>
  The bytes not yet read. A \<open>set\<close> function keeps its side when it returns, given a parser that
  returns for every text it may be asked to read, and gives back no byte.
\<close>

definition conf_unread :: "'u conf \<Rightarrow> nat" where
  "conf_unread cf = (case cx_file cf of None \<Rightarrow> 0 | Some f \<Rightarrow> conf_left f)"

definition conf_ready :: "'u conf \<Rightarrow> bool" where
  "conf_ready cf \<longleftrightarrow> cx_file cf \<noteq> None \<and> cx_ctx cf \<noteq> None"

definition returns :: "nat \<Rightarrow> (conf_rv \<times> 'u conf) option \<Rightarrow> bool" where
  "returns k res \<longleftrightarrow> (\<exists>rv cf. res = Some (rv, cf) \<and> conf_ready cf \<and> conf_unread cf \<le> k)"

definition sets_return :: "'u conf_env \<Rightarrow> bool" where
  "sets_return env \<longleftrightarrow>
     (\<forall>id parse cmd arg cf. conf_ready cf \<longrightarrow>
        (\<forall>name cf'. conf_ready cf' \<and> conf_unread cf' \<le> conf_unread cf \<longrightarrow> returns (conf_unread cf') (parse name cf')) \<longrightarrow>
        returns (conf_unread cf) (ev_set env id parse cmd arg cf)) \<and>
     (\<forall>id cf. conf_ready cf \<longrightarrow> returns (conf_unread cf) (Some (ev_handler env id cf)))"

definition loop_returns :: "nat \<Rightarrow> (parse_type \<Rightarrow> 'u conf \<Rightarrow> (int \<times> 'u conf) option) \<Rightarrow> bool" where
  "loop_returns n loop \<longleftrightarrow> (\<forall>ty cf. conf_ready cf \<longrightarrow> conf_unread cf < n \<longrightarrow>
     (\<exists>rc cf'. loop ty cf = Some (rc, cf') \<and> conf_ready cf' \<and> conf_unread cf' \<le> conf_unread cf))"

lemma loop_returnsD:
  "loop_returns n loop \<Longrightarrow> conf_ready cf \<Longrightarrow> conf_unread cf < n \<Longrightarrow>
    \<exists>rc cf'. loop ty cf = Some (rc, cf') \<and> conf_ready cf' \<and> conf_unread cf' \<le> conf_unread cf"
  by (simp add: loop_returns_def)

lemma conf_unread_log [simp]:
  "conf_unread (hky_conf_log_error e cf) = conf_unread cf" "conf_ready (hky_conf_log_error e cf) = conf_ready cf"
  by (simp_all add: conf_unread_def conf_ready_def hky_conf_log_error_def)

lemma conf_unread_fields [simp]:
  "conf_unread (cf\<lparr>cx_sys := s\<rparr>) = conf_unread cf" "conf_ready (cf\<lparr>cx_sys := s\<rparr>) = conf_ready cf"
  "conf_unread (cf\<lparr>cx_log := g\<rparr>) = conf_unread cf" "conf_ready (cf\<lparr>cx_log := g\<rparr>) = conf_ready cf"
  "conf_unread (cf\<lparr>cx_args := a, cx_file := Some f\<rparr>) = conf_left f"
  "conf_ready (cf\<lparr>cx_args := a, cx_file := Some f\<rparr>) = (cx_ctx cf \<noteq> None)"
  by (simp_all add: conf_unread_def conf_ready_def)

text \<open>A file of its own is never parsed: the buffer comes from \<open>hky_alloc\<close>.\<close>

lemma parse_with_file:
  "\<exists>cf'. parse_with env loop (Some name) cf = Some (Conf_error, cf') \<and> cx_file cf' = cx_file cf \<and>
    cx_ctx cf' = cx_ctx cf \<and> cx_user cf' = cx_user cf"
proof -
  obtain ok sz where i: "ev_info env (ev_open env name) = (ok, sz)" by fastforce
  obtain s where a: "hky_alloc (ev_os env) HKY_CONF_BUFFER (cx_sys cf) = (0, s)"
    by (metis hky_alloc_fails surj_pair)
  show ?thesis
    by (simp add: parse_with_def Let_def i a parse_done_def parse_rv_def hky_conf_log_error_def)
qed

lemma parse_with_returns:
  assumes "loop_returns n loop" "conf_ready cf" "conf_unread cf < n"
  shows "returns (conf_unread cf) (parse_with env loop name cf)"
proof (cases name)
  case None
  obtain f where f: "cx_file cf = Some f" using assms(2) by (auto simp: conf_ready_def)
  obtain rc cf' where "loop (if cf_fd f \<noteq> HKY_INVALID_FILE then Parse_block else Parse_param) cf = Some (rc, cf')"
    "conf_ready cf'" "conf_unread cf' \<le> conf_unread cf"
    using assms unfolding loop_returns_def by blast
  then show ?thesis using None f by (auto simp: parse_with_def parse_rv_def returns_def)
next
  case (Some fname)
  then show ?thesis using parse_with_file [of env loop fname cf] assms(2)
    by (auto simp: returns_def conf_ready_def conf_unread_def)
qed

lemma hky_conf_handler_returns:
  assumes "sets_return env" "conf_ready cf"
    and "\<forall>name cf'. conf_ready cf' \<and> conf_unread cf' \<le> conf_unread cf \<longrightarrow> returns (conf_unread cf') (parse name cf')"
  shows "\<exists>rc' cf'. hky_conf_handler env parse rc cf = Some (rc', cf') \<and> conf_ready cf' \<and> conf_unread cf' \<le> conf_unread cf"
proof -
  have run: "\<exists>rc' cf'. run_command env parse m cmd name cf = Some (rc', cf') \<and> conf_ready cf' \<and> conf_unread cf' \<le> conf_unread cf"
    for m cmd name
  proof -
    have "conf_argument m cmd cf \<noteq> None" using assms(2) by (simp add: conf_argument_def conf_ready_def)
    then obtain arg where arg: "conf_argument m cmd cf = Some arg" by blast
    have "returns (conf_unread cf) (ev_set env (cmd_set cmd) parse cmd arg cf)"
      using assms unfolding sets_return_def by blast
    then show ?thesis by (auto simp: run_command_def arg returns_def conf_failed_def split: conf_rv.split)
  qed
  show ?thesis
    using run assms(2) unfolding conf_handler_dispatch Let_def by (auto split: list.split)
qed

lemma parse_round_returns:
  assumes env: "sets_return env" and loop: "loop_returns n again" and cf: "conf_ready cf" "conf_unread cf < Suc n"
  shows "\<exists>rc cf'. parse_round env again (parse_with env again) ty cf = Some (rc, cf') \<and> conf_ready cf' \<and>
    conf_unread cf' \<le> conf_unread cf"
proof -
  obtain f where f: "cx_file cf = Some f" "conf_unread cf = conf_left f" and ctx: "cx_ctx cf \<noteq> None"
    using cf(1) by (auto simp: conf_ready_def conf_unread_def)
  obtain r l f' where rd: "hky_conf_read_token (ev_pread env (cf_fd f)) (ev_mem env) f = (r, l, f')"
    by (metis prod_cases3)
  let ?cf = "cf\<lparr>cx_args := args l, cx_file := Some f'\<rparr>"
  have le: "conf_left f' \<le> conf_left f" using read_token_left(1) [OF rd] .
  show ?thesis
  proof (cases r)
    case (Inl e)
    then show ?thesis using f rd le ctx by (auto simp: parse_round_def lex_failed_def conf_failed_def)
  next
    case (Inr rc)
    consider (stop) "rc = HKY_CONF_BLOCK_DONE \<or> rc = HKY_CONF_FILE_DONE"
      | (go) "rc \<noteq> HKY_CONF_BLOCK_DONE" "rc \<noteq> HKY_CONF_FILE_DONE" by blast
    then show ?thesis
    proof cases
      case stop
      then show ?thesis using f rd le ctx Inr
        by (auto simp: parse_round_def conf_failed_def Let_def)
    next
      case go
      have lt: "conf_left f' < conf_left f" using read_token_left(2) rd Inr go(2) by blast
      have again: "\<exists>rc cf''. again ty' cf' = Some (rc, cf'') \<and> conf_ready cf'' \<and> conf_unread cf'' \<le> conf_unread cf"
        if "conf_ready cf'" "conf_unread cf' \<le> conf_left f'" for ty' cf'
      proof -
        have "conf_unread cf' < n" using that(2) lt cf(2) f(2) by linarith
        from loop_returnsD [OF loop that(1) this, of ty'] show ?thesis
          using that(2) le f(2) by (auto intro: order_trans)
      qed
      have handler: "\<exists>rv cf'. ev_handler env id ?cf = (rv, cf') \<and> conf_ready cf' \<and> conf_unread cf' \<le> conf_left f'" for id
      proof -
        have "returns (conf_unread ?cf) (Some (ev_handler env id ?cf))"
          using env ctx unfolding sets_return_def by (metis conf_unread_fields(6))
        then show ?thesis by (auto simp: returns_def)
      qed
      have "\<exists>rc' cf'. hky_conf_handler env (parse_with env again) rc ?cf = Some (rc', cf') \<and> conf_ready cf' \<and>
          conf_unread cf' \<le> conf_unread ?cf"
        using ctx lt cf(2) f(2)
        by (intro hky_conf_handler_returns [OF env] allI impI parse_with_returns [OF loop]) auto
      then obtain rc' cf2 where cmd: "hky_conf_handler env (parse_with env again) rc ?cf = Some (rc', cf2)"
        "conf_ready cf2" "conf_unread cf2 \<le> conf_left f'" by auto
      show ?thesis
      proof (cases "rc = HKY_CONF_BLOCK_START \<and> (ty = Parse_param \<or> cx_handler cf \<noteq> 0)")
        case True
        then show ?thesis using f rd le ctx Inr go by (auto simp: parse_round_def conf_failed_def Let_def)
      next
        case False
        obtain rv cf3 where h: "ev_handler env (cx_handler cf) ?cf = (rv, cf3)" "conf_ready cf3"
          "conf_unread cf3 \<le> conf_left f'" using handler by blast
        show ?thesis
          using False f rd le Inr go h cmd again [OF h(2,3), of ty] again [OF cmd(2,3), of ty]
          by (cases rv) (auto simp: parse_round_def conf_failed_def Let_def)
      qed
    qed
  qed
qed

lemma parse_loop_returns: "sets_return env \<Longrightarrow> loop_returns n (parse_loop n env)"
proof (induction n)
  case (Suc n)
  show ?case
    unfolding loop_returns_def parse_loop.simps
    using Suc.IH [OF Suc.prems] by (intro allI impI parse_round_returns Suc.prems)
qed (simp add: loop_returns_def)

text \<open>
  C25: \<open>hky_conf_parse\<close> ends: with fuel above the number of bytes that are left to read it returns,
  whatever the text, as long as the \<open>set\<close> functions and the handler return when the parser they may
  call does, and give no byte back. (Every round of the loop takes a byte or is the last one.)
\<close>

theorem conf_parse_terminates:
  assumes "sets_return env" "conf_ready cf" "conf_unread cf < n"
  shows "\<exists>rv cf'. hky_conf_parse n env name cf = Some (rv, cf') \<and> conf_unread cf' \<le> conf_unread cf"
  using parse_with_returns [OF parse_loop_returns [OF assms(1)] assms(2,3), where name = name and env = env]
  by (auto simp: hky_conf_parse_def returns_def)

text \<open>
  \<open>hky_conf_parse\<close> never parses a file: whatever the file and the modules, it returns
  \<open>HKY_CONF_ERROR\<close> without calling a \<open>set\<close> function, because the buffer it reads through comes from
  \<open>hky_alloc\<close>, which always returns a null pointer. The previous file is current again.
\<close>

theorem conf_parse_file_fails:
  "\<exists>cf'. hky_conf_parse n env (Some name) cf = Some (Conf_error, cf') \<and> cx_file cf' = cx_file cf \<and>
    cx_ctx cf' = cx_ctx cf \<and> cx_user cf' = cx_user cf"
  unfolding hky_conf_parse_def by (rule parse_with_file)

section \<open>The command line\<close>

text \<open>
  \<open>set\<close> functions of simple directives: they return, keep the handler, and neither call the parser
  nor look at the file they are called from.
\<close>

abbreviation with_file :: "conf_file \<Rightarrow> 'u conf \<Rightarrow> 'u conf" where
  "with_file f cf \<equiv> cf\<lparr>cx_file := Some f\<rparr>"

definition leaf_sets :: "'u conf_env \<Rightarrow> bool" where
  "leaf_sets env \<longleftrightarrow> (\<forall>fn parse parse' cmd arg cf f. \<exists>rv cf'. ev_set env fn parse' cmd arg cf = Some (rv, cf') \<and>
     cx_handler cf' = cx_handler cf \<and> ev_set env fn parse cmd arg (with_file f cf) = Some (rv, with_file f cf'))"

text \<open>The directives of a text, one after the other, up to the first that fails.\<close>

fun exec_directives :: "'u conf_env \<Rightarrow> byte list list list \<Rightarrow> 'u conf \<Rightarrow> (int \<times> 'u conf) option" where
  "exec_directives env [] cf = Some (HKY_CONF_FILE_DONE, cf\<lparr>cx_args := []\<rparr>)"
| "exec_directives env (d # ds) cf =
     (case hky_conf_handler env (\<lambda>_ _. None) HKY_OK (cf\<lparr>cx_args := d\<rparr>) of
        None \<Rightarrow> None
      | Some (rc, cf) \<Rightarrow> if rc = HKY_ERROR then Some (HKY_ERROR, cf) else exec_directives env ds cf)"

definition forget_file :: "(int \<times> 'u conf) option \<Rightarrow> (int \<times> 'u conf) option" where
  "forget_file = map_option (\<lambda>(rc, cf). (rc, cf\<lparr>cx_file := None\<rparr>))"

lemma forget_file_simps [simp]:
  "forget_file None = None" "forget_file (Some (rc, cf)) = Some (rc, cf\<lparr>cx_file := None\<rparr>)"
  by (simp_all add: forget_file_def)

lemma log_on_command_line:
  "cf_fd f = HKY_INVALID_FILE \<Longrightarrow>
    hky_conf_log_error e (with_file f cf) = with_file f (cf\<lparr>cx_log := cx_log cf @ [(e, Command_line)]\<rparr>)"
  by (simp add: hky_conf_log_error_def conf_place_of_def)

lemma conf_argument_frame [simp]: "conf_argument m cmd (with_file h cf) = conf_argument m cmd cf"
  by (simp add: conf_argument_def)

lemma handler_result_frame:
  assumes "leaf_sets env" "cf_fd f = HKY_INVALID_FILE" "cf_fd g = HKY_INVALID_FILE"
  shows "(\<exists>rc cf'. hky_conf_handler env parse last_rc (with_file f cf) = Some (rc, with_file f cf') \<and>
      hky_conf_handler env parse' last_rc (with_file g cf) = Some (rc, with_file g cf') \<and> cx_handler cf' = cx_handler cf) \<or>
    (hky_conf_handler env parse last_rc (with_file f cf) = None \<and> hky_conf_handler env parse' last_rc (with_file g cf) = None)"
proof -
  let ?same = "\<lambda>x y. (\<exists>rc cf'. x = Some (rc, with_file f cf') \<and> y = Some (rc, with_file g cf') \<and> cx_handler cf' = cx_handler cf)
    \<or> (x = None \<and> y = None)"
  have fail: "?same (Some (rc, hky_conf_log_error e (with_file f cf))) (Some (rc, hky_conf_log_error e (with_file g cf)))"
    for rc e unfolding log_on_command_line [OF assms(2)] log_on_command_line [OF assms(3)] by fastforce
  have run: "?same (run_command env parse m cmd name (with_file f cf)) (run_command env parse' m cmd name (with_file g cf))"
    for m cmd name
  proof (cases "conf_argument m cmd cf")
    case None
    then show ?thesis by (simp add: run_command_def)
  next
    case (Some arg)
    obtain rv cf' where base: "ev_set env (cmd_set cmd) parse cmd arg cf = Some (rv, cf')"
      "cx_handler cf' = cx_handler cf" using assms(1) unfolding leaf_sets_def by metis
    have set: "ev_set env (cmd_set cmd) p cmd arg (with_file h cf) = Some (rv, with_file h cf')" for p h
      using assms(1) base(1) unfolding leaf_sets_def by (metis Pair_inject option.inject)
    let ?rc = "if rv = Conf_ok then HKY_OK else HKY_ERROR"
    let ?cf = "case rv of Conf_message s \<Rightarrow> cf'\<lparr>cx_log := cx_log cf' @ [(Directive_message name, Command_line)]\<rparr> | _ \<Rightarrow> cf'"
    have "run_command env p m cmd name (with_file h cf) = Some (?rc, with_file h ?cf)" if "cf_fd h = HKY_INVALID_FILE" for p h
      using that by (cases rv) (simp_all add: run_command_def Some set conf_failed_def log_on_command_line)
    moreover have "cx_handler ?cf = cx_handler cf" using base(2) by (cases rv) simp_all
    ultimately show ?thesis using assms(2,3) by blast
  qed
  show ?thesis
    using fail run unfolding conf_handler_dispatch Let_def by (simp split: list.split)
qed

lemma serves_nothing: "serves pread []"
  by (simp add: serves_def)

abbreviation words_short :: "byte list list \<Rightarrow> bool" where
  "words_short d \<equiv> d \<noteq> [] \<and> list_all (\<lambda>w. length (escape_word w) + 2 < HKY_CONF_BUFFER) d"

lemma read_token_end:
  assumes "conf_wf data f" "serves pread data" "conf_rest data f = []"
  obtains l f' where "hky_conf_read_token pread mem f = (Inr HKY_CONF_FILE_DONE, l, f')" "args l = []"
  using read_token_stream [OF assms(1,2), of mem] assms(3)
  by (auto simp: conf_end_def lex_init_def split: prod.splits)

lemma with_file_args: "(with_file g cf)\<lparr>cx_args := d\<rparr> = with_file g (cf\<lparr>cx_args := d\<rparr>)"
  by simp

lemma param_loop:
  assumes "leaf_sets env" "ev_mem env = (\<lambda>_ _. True)" "cf_fd g = HKY_INVALID_FILE"
    and "conf_wf [] f" "cf_fd f = HKY_INVALID_FILE" "cx_handler cf = 0"
    and "conf_rest [] f = concat (map (\<lambda>d. print_directive d 59) ds)" "list_all words_short ds" "length ds < n"
  shows "forget_file (parse_loop n env Parse_param (with_file f cf)) = forget_file (exec_directives env ds (with_file g cf))"
  using assms(4-)
proof (induction ds arbitrary: f cf n)
  case Nil
  obtain m where n: "n = Suc m" using Nil.prems(6) by (cases n) auto
  have "conf_rest [] f = []" using Nil.prems(4) by simp
  then obtain l f' where "hky_conf_read_token (ev_pread env (cf_fd f)) (ev_mem env) f = (Inr HKY_CONF_FILE_DONE, l, f')"
    "args l = []" using read_token_end [OF Nil.prems(1) serves_nothing] by metis
  then show ?case by (simp add: n parse_round_def Let_def hky_consts)
next
  case (Cons d ds)
  obtain m where n: "n = Suc m" "length ds < m" using Cons.prems(6) by (cases n) auto
  obtain r l f' where rd: "hky_conf_read_token (ev_pread env (cf_fd f)) (ev_mem env) f = (r, l, f')"
    by (metis prod_cases3)
  have "conf_rest [] f = print_directive d 59 @ concat (map (\<lambda>d. print_directive d 59) ds)" "d \<noteq> []"
    "list_all (\<lambda>w. length (escape_word w) + 2 < HKY_CONF_BUFFER) d"
    using Cons.prems(4,5) by simp_all
  note one = read_token_directive [OF Cons.prems(1) serves_nothing this(1,2) _ this(3), of "ev_pread env (cf_fd f)"]
  have "r = Inr HKY_OK \<and> args l = d \<and> conf_wf [] f' \<and> cf_fd f' = HKY_INVALID_FILE \<and>
      conf_rest [] f' = concat (map (\<lambda>d. print_directive d 59) ds)"
    using one Cons.prems(2) rd by (simp add: assms(2))
  then have f': "r = Inr HKY_OK" "args l = d" "conf_wf [] f'" "cf_fd f' = HKY_INVALID_FILE"
    "conf_rest [] f' = concat (map (\<lambda>d. print_directive d 59) ds)" by auto
  let ?cf = "cf\<lparr>cx_args := d\<rparr>"
  let ?p = "parse_with env (parse_loop m env)"
  have round: "parse_loop n env Parse_param (with_file f cf) =
      (case hky_conf_handler env ?p HKY_OK (with_file f' ?cf) of
         None \<Rightarrow> None
       | Some (rc, cf) \<Rightarrow> if rc = HKY_ERROR then Some (HKY_ERROR, cf) else parse_loop m env Parse_param cf)"
    using rd f'(1,2) Cons.prems(3) by (simp add: n parse_round_def Let_def hky_consts)
  consider (none) "hky_conf_handler env ?p HKY_OK (with_file f' ?cf) = None"
      "hky_conf_handler env (\<lambda>_ _. None) HKY_OK (with_file g ?cf) = None"
    | (some) rc cf' where "hky_conf_handler env ?p HKY_OK (with_file f' ?cf) = Some (rc, with_file f' cf')"
      "hky_conf_handler env (\<lambda>_ _. None) HKY_OK (with_file g ?cf) = Some (rc, with_file g cf')"
      "cx_handler cf' = cx_handler ?cf"
    using handler_result_frame [OF assms(1) f'(4) assms(3), of ?p HKY_OK ?cf "\<lambda>_ _. None"] by metis
  then show ?case
  proof cases
    case none
    then show ?thesis using round by (simp add: with_file_args)
  next
    case some
    have "forget_file (parse_loop m env Parse_param (with_file f' cf')) = forget_file (exec_directives env ds (with_file g cf'))"
      using Cons.IH [OF f'(3,4) _ f'(5) _ n(2), of cf'] Cons.prems(3,5) some(3) by simp
    then show ?thesis using round some(1,2) by (simp add: with_file_args)
  qed
qed

text \<open>The file the command line is read from.\<close>

definition param_file :: "byte list \<Rightarrow> conf_file" where
  "param_file param = \<lparr>cf_size = 0, cf_offset = 0, cf_fd = HKY_INVALID_FILE, cf_line = 0, cf_buf = param, cf_pos = 0,
     cf_cap = length param, cf_dump = None\<rparr>"

lemma forget_parse_rv:
  "map_option (\<lambda>(rv, cf). (rv, cf\<lparr>cx_file := None\<rparr>)) (map_option parse_rv res) = map_option parse_rv (forget_file res)"
  by (cases res) (auto simp: parse_rv_def)

text \<open>
  \<open>hky_conf_param\<close> on a text of simple directives, printed with quoted words, executes exactly
  these directives in their order: each is looked up and its \<open>set\<close> function called with its words,
  up to the first that fails, and the result is \<open>HKY_CONF_OK\<close> when none does. Fuel above the number
  of directives is enough.
\<close>

theorem conf_param_executes:
  assumes "leaf_sets env" "ev_mem env = (\<lambda>_ _. True)" "cx_handler cf = 0"
    and "ds \<noteq> []" "list_all words_short ds" "length ds < n"
  shows "hky_conf_param n env (concat (map (\<lambda>d. print_directive d 59) ds)) cf =
    map_option parse_rv (forget_file (exec_directives env ds (with_file (param_file []) cf)))"
proof -
  let ?text = "concat (map (\<lambda>d. print_directive d 59) ds)"
  have ne: "?text \<noteq> []" using assms(4) by (cases ds) (auto simp: print_directive_def)
  have wf: "conf_wf [] (param_file ?text)" "conf_rest [] (param_file ?text) = ?text"
    "cf_fd (param_file ?text) = HKY_INVALID_FILE" "cf_fd (param_file []) = HKY_INVALID_FILE"
    by (simp_all add: conf_wf_def conf_rest_def param_file_def)
  have "hky_conf_param n env ?text cf =
      map_option parse_rv (forget_file (parse_loop n env Parse_param (with_file (param_file ?text) cf)))"
    unfolding hky_conf_param_def hky_conf_parse_def parse_with_def Let_def param_file_def [symmetric] if_not_P [OF ne]
    using wf(3) by (simp add: forget_parse_rv)
  also have "\<dots> = map_option parse_rv (forget_file (exec_directives env ds (with_file (param_file []) cf)))"
    using param_loop [OF assms(1,2) wf(4,1,3) assms(3) wf(2) assms(5,6)] by simp
  finally show ?thesis .
qed

section \<open>Examples\<close>

text \<open>One module with a command \<open>a\<close> of one argument that counts its calls.\<close>

definition demo_env :: "nat conf_env" where
  "demo_env = \<lparr>ev_os = (\<lambda>_ _ _. 0), ev_mem = (\<lambda>_ _. True), ev_open = (\<lambda>_. 3), ev_info = (\<lambda>_. (True, 0)),
     ev_pread = (\<lambda>_ _ _. None), ev_close = (\<lambda>_. True), ev_dump = False, ev_handler = (\<lambda>_ cf. (Conf_ok, cf)),
     ev_set = (\<lambda>fn parse cmd arg cf. Some (Conf_ok, cf\<lparr>cx_user := cx_user cf + 1\<rparr>))\<rparr>"

definition demo_conf :: "nat conf" where
  "demo_conf = \<lparr>cx_args = [], cx_modules = [\<lparr>md_ctx_index = 0, md_index = 0, md_commands = Some
       [\<lparr>cmd_name = bytes_of ''a'', cmd_type = 0x01000002, cmd_set = 0, cmd_conf = 0\<rparr>], md_type = HKY_CONF_MODULE\<rparr>],
     cx_file = None, cx_ctx = Some \<lparr>ctx_slot = (\<lambda>_. 0), ctx_block = (\<lambda>_. None)\<rparr>, cx_module_type = 0,
     cx_cmd_type = HKY_MAIN_CONF, cx_handler = 0, cx_dumps = [], cx_sys = \<lparr>sys_live = [], sys_store = (\<lambda>_. 0)\<rparr>,
     cx_log = [], cx_user = 0\<rparr>"

lemma demo_env_leaf: "leaf_sets demo_env"
  by (simp add: leaf_sets_def demo_env_def)

text \<open>The same with a command 1 that parses a block.\<close>

definition block_env :: "nat conf_env" where
  "block_env = demo_env\<lparr>ev_set := (\<lambda>fn parse cmd arg cf. if fn = 1 then parse None cf
     else Some (Conf_ok, cf\<lparr>cx_user := cx_user cf + 1\<rparr>))\<rparr>"

lemma block_env_returns: "sets_return block_env"
  by (auto simp: sets_return_def returns_def block_env_def demo_env_def conf_ready_def conf_unread_def)

lemma conf_param_executes_witness:
  "hky_conf_param 3 demo_env
     (concat (map (\<lambda>d. print_directive d 59) [map bytes_of [''a'', ''1''], map bytes_of [''a'', ''2'']])) demo_conf
     = Some (Conf_ok, demo_conf\<lparr>cx_user := 2\<rparr>)"
proof -
  have "hky_conf_param 3 demo_env
     (concat (map (\<lambda>d. print_directive d 59) [map bytes_of [''a'', ''1''], map bytes_of [''a'', ''2'']])) demo_conf
     = map_option parse_rv (forget_file (exec_directives demo_env
         [map bytes_of [''a'', ''1''], map bytes_of [''a'', ''2'']] (with_file (param_file []) demo_conf)))"
    by (rule conf_param_executes [OF demo_env_leaf]) (simp_all add: demo_env_def demo_conf_def HKY_CONF_BUFFER_def)
  also have "\<dots> = Some (Conf_ok, demo_conf\<lparr>cx_user := 2\<rparr>)"
    by (simp add: hky_conf_handler_def Let_def demo_conf_def demo_env_def module_commands_def name_matches_def number_ok_def
        run_command_def conf_argument_def argument_number_def parse_rv_def hky_consts
        HKY_MAIN_CONF_def HKY_CONF_BLOCK_def HKY_CONF_ANY_def HKY_CONF_FLAG_def HKY_CONF_1MORE_def HKY_CONF_2MORE_def
        HKY_CONF_MAX_ARGS_def HKY_DIRECT_CONF_def)
  finally show ?thesis .
qed

lemma conf_parse_terminates_witness:
  "\<exists>rv cf'. hky_conf_parse 10 block_env None (with_file (param_file (bytes_of ''a b; {'')) demo_conf) = Some (rv, cf') \<and>
     conf_unread cf' \<le> 6"
proof -
  let ?cf = "with_file (param_file (bytes_of ''a b; {'')) demo_conf"
  have "conf_ready ?cf" "conf_unread ?cf = 6"
    by (simp_all add: conf_ready_def conf_unread_def conf_left_def param_file_def demo_conf_def)
  then show ?thesis using conf_parse_terminates [OF block_env_returns, of ?cf 10 None] by simp
qed

end
