(* ===== verification/Hky_Queue.thy ===== *)
theory Hky_Queue
  imports Husky_Base "HOL-Library.Multiset"
begin

text \<open>
  The queues of src/core/hky_queue.h and hky_queue.c: circular doubly linked lists threaded through
  the elements, with a sentinel node \<open>h\<close>. A node is its address; the heap is the two maps of links.
  The macros are the sequences of their assignments; every expression is evaluated in the heap the
  assignments before it have left.

  \<open>ring s h xs\<close> says that the queue \<open>h\<close> holds the nodes \<open>xs\<close> in this order. Every operation is shown
  to be its counterpart on lists, and \<open>hky_queue_sort\<close> to be the stable sort.
\<close>

section \<open>The operations\<close>

record queue_heap =
  q_prev :: "nat \<Rightarrow> nat"
  q_next :: "nat \<Rightarrow> nat"

definition set_prev :: "nat \<Rightarrow> nat \<Rightarrow> queue_heap \<Rightarrow> queue_heap" where
  "set_prev q v s = s\<lparr>q_prev := (q_prev s)(q := v)\<rparr>"

definition set_next :: "nat \<Rightarrow> nat \<Rightarrow> queue_heap \<Rightarrow> queue_heap" where
  "set_next q v s = s\<lparr>q_next := (q_next s)(q := v)\<rparr>"

definition hky_queue_init :: "nat \<Rightarrow> queue_heap \<Rightarrow> queue_heap" where
  "hky_queue_init q s = set_next q q (set_prev q q s)"

definition hky_queue_empty :: "nat \<Rightarrow> queue_heap \<Rightarrow> bool" where
  "hky_queue_empty h s \<longleftrightarrow> h = q_prev s h"

definition hky_queue_head :: "nat \<Rightarrow> queue_heap \<Rightarrow> nat" where
  "hky_queue_head h s = q_next s h"

definition hky_queue_last :: "nat \<Rightarrow> queue_heap \<Rightarrow> nat" where
  "hky_queue_last h s = q_prev s h"

definition hky_queue_insert_head :: "nat \<Rightarrow> nat \<Rightarrow> queue_heap \<Rightarrow> queue_heap" where
  "hky_queue_insert_head h x s =
     (let s = set_next x (q_next s h) s;
          s = set_prev (q_next s x) x s;
          s = set_prev x h s
      in set_next h x s)"

definition hky_queue_insert_tail :: "nat \<Rightarrow> nat \<Rightarrow> queue_heap \<Rightarrow> queue_heap" where
  "hky_queue_insert_tail h x s =
     (let s = set_prev x (q_prev s h) s;
          s = set_next (q_prev s x) x s;
          s = set_next x h s
      in set_prev h x s)"

definition hky_queue_remove :: "nat \<Rightarrow> queue_heap \<Rightarrow> queue_heap" where
  "hky_queue_remove x s =
     (let s = set_prev (q_next s x) (q_prev s x) s
      in set_next (q_prev s x) (q_next s x) s)"

definition hky_queue_split :: "nat \<Rightarrow> nat \<Rightarrow> nat \<Rightarrow> queue_heap \<Rightarrow> queue_heap" where
  "hky_queue_split h q n s =
     (let s = set_prev n (q_prev s h) s;
          s = set_next (q_prev s n) n s;
          s = set_next n q s;
          s = set_prev h (q_prev s q) s;
          s = set_next (q_prev s h) h s
      in set_prev q n s)"

definition hky_queue_add :: "nat \<Rightarrow> nat \<Rightarrow> queue_heap \<Rightarrow> queue_heap" where
  "hky_queue_add h n s =
     (let s = set_next (q_prev s h) (q_next s n) s;
          s = set_prev (q_next s h) (q_prev s h) s;
          s = set_prev h (q_prev s n) s
      in set_next (q_prev s h) h s)"

fun middle_loop :: "nat \<Rightarrow> nat \<Rightarrow> queue_heap \<Rightarrow> nat \<Rightarrow> nat \<Rightarrow> nat option" where
  "middle_loop 0 h s mid nxt = None"
| "middle_loop (Suc k) h s mid nxt =
     (let mid = q_next s mid; nxt = q_next s nxt in
      if nxt = hky_queue_last h s then Some mid
      else let nxt = q_next s nxt in
        if nxt = hky_queue_last h s then Some mid else middle_loop k h s mid nxt)"

definition hky_queue_middle :: "nat \<Rightarrow> nat \<Rightarrow> queue_heap \<Rightarrow> nat option" where
  "hky_queue_middle k h s =
     (let mid = hky_queue_head h s in
      if mid = hky_queue_last h s then Some mid else middle_loop k h s mid (hky_queue_head h s))"

fun sort_place :: "nat \<Rightarrow> (nat \<Rightarrow> nat \<Rightarrow> int) \<Rightarrow> nat \<Rightarrow> nat \<Rightarrow> queue_heap \<Rightarrow> nat \<Rightarrow> nat option" where
  "sort_place 0 cmp h q s prv = None"
| "sort_place (Suc k) cmp h q s prv =
     (if cmp prv q \<le> 0 then Some prv
      else let prv = q_prev s prv in if prv \<noteq> h then sort_place k cmp h q s prv else Some prv)"

fun queue_sort_loop :: "nat \<Rightarrow> (nat \<Rightarrow> nat \<Rightarrow> int) \<Rightarrow> nat \<Rightarrow> nat \<Rightarrow> queue_heap \<Rightarrow> queue_heap option" where
  "queue_sort_loop 0 cmp h q s = None"
| "queue_sort_loop (Suc k) cmp h q s =
     (if q = h then Some s
      else let prv = q_prev s q; nxt = q_next s q; s = hky_queue_remove q s in
        case sort_place (Suc k) cmp h q s prv of
          None \<Rightarrow> None
        | Some prv \<Rightarrow> queue_sort_loop k cmp h nxt (hky_queue_insert_head prv q s))"

definition hky_queue_sort :: "nat \<Rightarrow> (nat \<Rightarrow> nat \<Rightarrow> int) \<Rightarrow> nat \<Rightarrow> queue_heap \<Rightarrow> queue_heap option" where
  "hky_queue_sort k cmp h s =
     (let q = hky_queue_head h s in
      if q = hky_queue_last h s then Some s else queue_sort_loop k cmp h (q_next s q) s)"

section \<open>Rings\<close>

fun links :: "queue_heap \<Rightarrow> nat \<Rightarrow> nat list \<Rightarrow> nat \<Rightarrow> bool" where
  "links s a [] b \<longleftrightarrow> q_next s a = b \<and> q_prev s b = a"
| "links s a (x # xs) b \<longleftrightarrow> q_next s a = x \<and> q_prev s x = a \<and> links s x xs b"

definition ring :: "queue_heap \<Rightarrow> nat \<Rightarrow> nat list \<Rightarrow> bool" where
  "ring s h xs \<longleftrightarrow> links s h xs h \<and> distinct (h # xs)"

lemma links_append: "links s a (xs @ y # ys) b \<longleftrightarrow> links s a xs y \<and> links s y ys b"
  by (induction xs arbitrary: a) auto

lemma links_next_frame: "p \<notin> set (a # xs) \<Longrightarrow> links (set_next p v s) a xs b \<longleftrightarrow> links s a xs b"
  by (induction xs arbitrary: a) (auto simp: set_next_def)

lemma links_prev_frame: "p \<notin> set (xs @ [b]) \<Longrightarrow> links (set_prev p v s) a xs b \<longleftrightarrow> links s a xs b"
  by (induction xs arbitrary: a) (auto simp: set_prev_def)

lemma links_last: "links s a xs b \<Longrightarrow> q_prev s b = last (a # xs)"
  by (induction xs arbitrary: a) auto

lemma links_first: "links s a xs b \<Longrightarrow> q_next s a = hd (xs @ [b])"
  by (cases xs) auto

lemma heap_reads [simp]:
  "q_prev (set_next p v s) = q_prev s" "q_next (set_prev p v s) = q_next s"
  "q_prev (set_prev p v s) q = (if q = p then v else q_prev s q)"
  "q_next (set_next p v s) q = (if q = p then v else q_next s q)"
  by (simp_all add: set_prev_def set_next_def)


lemma ring_reads:
  assumes "ring s h xs"
  shows "hky_queue_head h s = hd (xs @ [h])" "hky_queue_last h s = last (h # xs)" "hky_queue_empty h s \<longleftrightarrow> xs = []"
proof -
  show "hky_queue_head h s = hd (xs @ [h])"
    using assms links_first by (simp add: ring_def hky_queue_head_def)
  show l: "hky_queue_last h s = last (h # xs)"
    using assms links_last unfolding ring_def hky_queue_last_def by blast
  have "last (h # xs) = h \<longleftrightarrow> xs = []"
    using assms last_in_set [of xs] by (auto simp: ring_def)
  then show "hky_queue_empty h s \<longleftrightarrow> xs = []"
    using l by (auto simp: hky_queue_empty_def hky_queue_last_def)
qed

text \<open>A ring can be read from any of its nodes.\<close>

lemma ring_rotate: "ring s h (xs @ q # ys) \<longleftrightarrow> ring s q (ys @ h # xs)"
  by (auto simp: ring_def links_append)

section \<open>Inserting and removing\<close>

lemma ring_init: "ring (hky_queue_init q s) q []"
  by (simp add: ring_def hky_queue_init_def)

lemma links_start_next:
  assumes "links s a xs b" "p = a" "xs = y # ys"
  shows "q_prev s y = a"
  using assms by simp

lemma ring_insert_head:
  assumes "ring s h xs" "x \<notin> set (h # xs)"
  shows "ring (hky_queue_insert_head h x s) h (x # xs)"
proof (cases xs)
  case Nil
  then show ?thesis using assms by (auto simp: ring_def hky_queue_insert_head_def Let_def)
next
  case (Cons y ys)
  then have "q_next s h = y" "links s y ys h" "x \<noteq> h" "x \<noteq> y" "h \<noteq> y" "x \<notin> set ys" "y \<notin> set ys" "h \<notin> set ys"
    using assms by (auto simp: ring_def)
  then show ?thesis
    using assms Cons
    by (auto simp: ring_def hky_queue_insert_head_def Let_def links_next_frame links_prev_frame)
qed

text \<open>Inserting after any node of the ring is inserting at the head of the ring read from it.\<close>

lemma ring_insert_after:
  assumes "ring s h (xs @ p # ys)" "x \<notin> set (h # xs @ p # ys)"
  shows "ring (hky_queue_insert_head p x s) h (xs @ p # x # ys)"
proof -
  have "ring (hky_queue_insert_head p x s) p (x # (ys @ h # xs))"
    using assms by (intro ring_insert_head) (auto simp: ring_rotate)
  then show ?thesis using ring_rotate [of _ h xs p "x # ys"] by simp
qed

lemma ring_insert_tail:
  assumes "ring s h xs" "x \<notin> set (h # xs)"
  shows "ring (hky_queue_insert_tail h x s) h (xs @ [x])"
proof (cases xs rule: rev_cases)
  case Nil
  then show ?thesis using assms by (auto simp: ring_def hky_queue_insert_tail_def Let_def)
next
  case (snoc ys y)
  then have "q_prev s h = y" "links s h ys y" "q_next s y = h" "x \<noteq> h" "x \<noteq> y" "h \<noteq> y" "x \<notin> set ys" "y \<notin> set ys"
    "h \<notin> set ys" using assms by (auto simp: ring_def links_append)
  then show ?thesis
    using assms snoc
    by (auto simp: ring_def links_append hky_queue_insert_tail_def Let_def links_next_frame links_prev_frame)
qed

lemma ring_remove_head:
  assumes "ring s h (x # ys)"
  shows "ring (hky_queue_remove x s) h ys"
proof (cases ys)
  case Nil
  then show ?thesis using assms by (auto simp: ring_def hky_queue_remove_def Let_def)
next
  case (Cons y zs)
  then show ?thesis using assms
    by (auto simp: ring_def hky_queue_remove_def Let_def links_next_frame links_prev_frame)
qed

lemma ring_remove:
  assumes "ring s h (xs @ x # ys)"
  shows "ring (hky_queue_remove x s) h (xs @ ys)"
proof (cases xs rule: rev_cases)
  case Nil
  then show ?thesis using assms ring_remove_head by simp
next
  case (snoc zs z)
  then have "ring s z (x # ys @ h # zs)" using assms ring_rotate [of s h zs z "x # ys"] by simp
  then have "ring (hky_queue_remove x s) z (ys @ h # zs)" by (rule ring_remove_head)
  then show ?thesis using snoc ring_rotate [of _ h zs z ys] by simp
qed

lemma ring_split:
  assumes "ring s h (xs @ q # ys)" "n \<notin> set (h # xs @ q # ys)"
  shows "ring (hky_queue_split h q n s) h xs" "ring (hky_queue_split h q n s) n (q # ys)"
proof -
  have frame: "links (set_next p v s') a zs b = links s' a zs b" if "p \<noteq> a" "p \<notin> set zs" for p v s' a zs b
    using that by (simp add: links_next_frame)
  have "ring (hky_queue_split h q n s) h xs \<and> ring (hky_queue_split h q n s) n (q # ys)"
    using assms
    by (cases xs rule: rev_cases; cases ys rule: rev_cases)
      (auto simp: ring_def hky_queue_split_def Let_def links_append links_next_frame links_prev_frame)
  then show "ring (hky_queue_split h q n s) h xs" "ring (hky_queue_split h q n s) n (q # ys)" by auto
qed

text \<open>
  \<open>hky_queue_add\<close> writes \<open>(h)->next->prev\<close> where \<open>(n)->next->prev\<close> is meant. Adding to an empty queue
  works, because \<open>(h)->next\<close> is \<open>(n)->next\<close> by then; adding to any other leaves the first node
  that was added with the old sentinel before it.
\<close>

lemma ring_add_empty:
  assumes "ring s h []" "ring s n ys" "ys \<noteq> []" "h \<notin> set (n # ys)"
  shows "ring (hky_queue_add h n s) h ys"
proof -
  obtain y zs where ys: "ys = y # zs" using assms(3) by (cases ys) auto
  show ?thesis
    using assms(1,2,4) unfolding ys
    by (cases zs rule: rev_cases)
      (auto simp: ring_def hky_queue_add_def Let_def links_append links_next_frame links_prev_frame)
qed

lemma ring_add_broken:
  assumes "ring s h xs" "ring s n ys" "xs \<noteq> []" "ys \<noteq> []" "set (h # xs) \<inter> set (n # ys) = {}"
  shows "q_prev (hky_queue_add h n s) (hd ys) = n" "\<not> ring (hky_queue_add h n s) h (xs @ ys)"
proof -
  obtain x xs' y zs where eq: "xs = x # xs'" "ys = y # zs" using assms(3,4) by (cases xs; cases ys) auto
  have n: "q_prev s y = n" "q_next s n = y" using assms(2) eq by (auto simp: ring_def)
  have h: "q_next s h = x" using assms(1) eq by (simp add: ring_def)
  have last: "q_prev s h \<noteq> h" "q_prev s h = last xs"
    using assms(1,3) ring_reads [OF assms(1)] by (auto simp: hky_queue_empty_def hky_queue_last_def)
  show prev: "q_prev (hky_queue_add h n s) (hd ys) = n"
    using n h last assms(5) eq by (auto simp: hky_queue_add_def Let_def)
  show "\<not> ring (hky_queue_add h n s) h (xs @ ys)"
  proof
    assume "ring (hky_queue_add h n s) h (xs @ ys)"
    then have "links (hky_queue_add h n s) h xs y" using eq(2) by (simp add: ring_def links_append)
    then have "n = last (h # xs)" using links_last prev eq(2) by fastforce
    then show False using assms(3,5) last_in_set [of "h # xs"] by auto
  qed
qed

section \<open>The middle\<close>

text \<open>\<open>mid\<close> goes one node for two nodes of \<open>nxt\<close>.\<close>

lemma links_nth: "links s a xs b \<Longrightarrow> k < length xs \<Longrightarrow> q_next s ((a # xs) ! k) = xs ! k"
  by (induction xs arbitrary: a k) (auto simp: nth_Cons split: nat.splits)

lemma ring_next:
  assumes "ring s h xs" "Suc k < length xs"
  shows "q_next s (xs ! k) = xs ! Suc k"
  using links_nth [of s h xs h "Suc k"] assms by (simp add: ring_def)

lemma ring_is_last:
  assumes "ring s h xs" "k < length xs"
  shows "xs ! k = hky_queue_last h s \<longleftrightarrow> Suc k = length xs"
proof -
  have "hky_queue_last h s = xs ! (length xs - 1)"
    using ring_reads(2) [OF assms(1)] assms(2) last_conv_nth [of xs] by (cases xs) auto
  moreover have "distinct xs" using assms(1) by (simp add: ring_def)
  ultimately show ?thesis
    using assms(2) nth_eq_iff_index_eq [of xs k "length xs - 1"] by auto
qed

lemma middle_loop_ok:
  assumes "ring s h xs" "2 * k + 1 < length xs" "length xs \<le> 2 * (k + fuel)"
  shows "middle_loop fuel h s (xs ! k) (xs ! (2 * k)) = Some (xs ! (length xs div 2))"
  using assms(2,3)
proof (induction fuel arbitrary: k)
  case (Suc fuel)
  have one: "q_next s (xs ! k) = xs ! Suc k" "q_next s (xs ! (2 * k)) = xs ! (2 * k + 1)"
    using ring_next [OF assms(1), of k] ring_next [OF assms(1), of "2 * k"] Suc.prems(1) by auto
  consider (even) "length xs = 2 * k + 2" | (odd) "length xs = 2 * k + 3" | (more) "2 * (k + 1) + 1 < length xs"
    using Suc.prems(1) by atomize_elim presburger
  then show ?case
  proof cases
    case even
    then show ?thesis using one ring_is_last [OF assms(1), of "2 * k + 1"] by (simp add: Let_def)
  next
    case odd
    have "q_next s (xs ! (2 * k + 1)) = xs ! (2 * k + 2)" using ring_next [OF assms(1), of "2 * k + 1"] odd by simp
    then show ?thesis using one ring_is_last [OF assms(1), of "2 * k + 1"] ring_is_last [OF assms(1), of "2 * k + 2"] odd
      by (simp add: Let_def)
  next
    case more
    have "q_next s (xs ! (2 * k + 1)) = xs ! (2 * (k + 1))" using ring_next [OF assms(1), of "2 * k + 1"] more by simp
    then show ?thesis
      using one ring_is_last [OF assms(1), of "2 * k + 1"] ring_is_last [OF assms(1), of "2 * (k + 1)"] more
        Suc.IH [of "k + 1"] Suc.prems(2)
      by (simp add: Let_def)
  qed
qed simp

lemma middle_ok:
  assumes "ring s h xs" "xs \<noteq> []" "length xs \<le> 2 * fuel"
  shows "hky_queue_middle fuel h s = Some (xs ! (length xs div 2))"
proof -
  have hd: "hky_queue_head h s = xs ! 0" using ring_reads(1) [OF assms(1)] assms(2) by (cases xs) auto
  show ?thesis
  proof (cases "length xs = 1")
    case True
    then show ?thesis using hd ring_is_last [OF assms(1), of 0] by (simp add: hky_queue_middle_def)
  next
    case False
    then have "2 * 0 + 1 < length xs" using assms(2) by (cases xs) auto
    moreover have "xs ! 0 \<noteq> hky_queue_last h s" using ring_is_last [OF assms(1), of 0] assms(2) False by (cases xs) auto
    ultimately show ?thesis
      using hd middle_loop_ok [OF assms(1), of 0 fuel] assms(3)
      by (auto simp: hky_queue_middle_def Let_def)
  qed
qed

section \<open>Sorting\<close>

text \<open>
  The list counterpart of one round: the new node goes behind the last node that is not greater.
\<close>

definition not_greater :: "(nat \<Rightarrow> nat \<Rightarrow> int) \<Rightarrow> nat \<Rightarrow> nat list \<Rightarrow> nat list" where
  "not_greater cmp q sp = rev (dropWhile (\<lambda>p. \<not> cmp p q \<le> 0) (rev sp))"

definition insert_node :: "(nat \<Rightarrow> nat \<Rightarrow> int) \<Rightarrow> nat list \<Rightarrow> nat \<Rightarrow> nat list" where
  "insert_node cmp sp q = not_greater cmp q sp @ q # drop (length (not_greater cmp q sp)) sp"

lemma not_greater_prefix: "not_greater cmp q sp @ drop (length (not_greater cmp q sp)) sp = sp"
proof -
  have "sp = rev (dropWhile (\<lambda>p. \<not> cmp p q \<le> 0) (rev sp)) @ rev (takeWhile (\<lambda>p. \<not> cmp p q \<le> 0) (rev sp))"
    by (metis rev_append rev_rev_ident takeWhile_dropWhile_id)
  then show ?thesis unfolding not_greater_def by (metis append_eq_conv_conj)
qed

lemma set_insert_node: "set (insert_node cmp sp q) = insert q (set sp)" "length (insert_node cmp sp q) = Suc (length sp)"
proof -
  have "mset (insert_node cmp sp q) = add_mset q (mset (not_greater cmp q sp @ drop (length (not_greater cmp q sp)) sp))"
    by (simp add: insert_node_def)
  then have m: "mset (insert_node cmp sp q) = mset (q # sp)" by (simp only: not_greater_prefix) simp
  then show "set (insert_node cmp sp q) = insert q (set sp)" by (metis list.simps(15) set_mset_mset)
  show "length (insert_node cmp sp q) = Suc (length sp)" using m by (metis length_Cons size_mset)
qed

lemma sort_place_ok:
  assumes "ring s h (front @ p # rest)" "length front < fuel"
  shows "sort_place fuel cmp h q s p = Some (last (h # not_greater cmp q (front @ [p])))"
  using assms
proof (induction front arbitrary: p rest fuel rule: rev_induct)
  case Nil
  then show ?case by (cases fuel) (auto simp: not_greater_def ring_def Let_def)
next
  case (snoc p' front)
  obtain k where k: "fuel = Suc k" "length front < k" using snoc.prems(2) by (cases fuel) auto
  have prev: "q_prev s p = p'" "p' \<noteq> h" using snoc.prems(1) by (auto simp: ring_def links_append)
  have IH: "sort_place k cmp h q s p' = Some (last (h # not_greater cmp q (front @ [p'])))"
    using snoc.IH [of p' "p # rest" k] snoc.prems(1) k(2) by simp
  show ?case using prev IH k(1) by (auto simp: not_greater_def Let_def)
qed

lemma ring_insert_behind:
  assumes "ring s h (us @ vs)" "q \<notin> set (h # us @ vs)"
  shows "ring (hky_queue_insert_head (last (h # us)) q s) h (us @ q # vs)"
proof (cases us rule: rev_cases)
  case Nil
  then show ?thesis using ring_insert_head assms by simp
next
  case (snoc us' u)
  then show ?thesis using ring_insert_after [of s h us' u vs q] assms by simp
qed

lemma queue_sort_loop_ok:
  assumes "ring s h (sp @ qs)" "sp \<noteq> []" "length sp + 2 * length qs \<le> k"
  shows "\<exists>s'. queue_sort_loop k cmp h (hd (qs @ [h])) s = Some s' \<and> ring s' h (foldl (insert_node cmp) sp qs)"
  using assms
proof (induction qs arbitrary: sp s k)
  case Nil
  then show ?case by (cases k) auto
next
  case (Cons q qs)
  obtain m where m: "k = Suc m" "length sp \<le> Suc m" "Suc (length sp) + 2 * length qs \<le> m"
    using Cons.prems(3) by (cases k) auto
  obtain front p where sp: "sp = front @ [p]" using Cons.prems(2) by (cases sp rule: rev_cases) auto
  have q: "q \<noteq> h" "q \<notin> set (sp @ qs)" using Cons.prems(1) by (auto simp: ring_def)
  have prv: "q_prev s q = p" using Cons.prems(1) sp by (auto simp: ring_def links_append)
  have nxt: "q_next s q = hd (qs @ [h])"
    using Cons.prems(1) links_first by (auto simp: ring_def links_append)
  let ?s = "hky_queue_remove q s" and ?us = "not_greater cmp q sp"
  have rm: "ring ?s h (sp @ qs)" using ring_remove [OF Cons.prems(1)] .
  have place: "sort_place k cmp h q ?s p = Some (last (h # ?us))"
    using sort_place_ok [of ?s h front p qs k cmp q] rm sp m(1,2) by simp
  have "ring ?s h (?us @ (drop (length ?us) sp @ qs))"
    using rm not_greater_prefix [of cmp q sp] by (metis append_assoc)
  moreover have "q \<notin> set (h # ?us @ drop (length ?us) sp @ qs)"
    using q not_greater_prefix [of cmp q sp] by (metis UnE append_assoc list.set_intros(2) set_ConsD)
  ultimately have "ring (hky_queue_insert_head (last (h # ?us)) q ?s) h (insert_node cmp sp q @ qs)"
    using ring_insert_behind [of ?s h ?us "drop (length ?us) sp @ qs" q] by (simp add: insert_node_def)
  then obtain s' where "queue_sort_loop m cmp h (hd (qs @ [h])) (hky_queue_insert_head (last (h # ?us)) q ?s) = Some s'"
    "ring s' h (foldl (insert_node cmp) (insert_node cmp sp q) qs)"
    using Cons.IH [of _ "insert_node cmp sp q" m] m(3) set_insert_node [of cmp sp q] by fastforce
  then show ?case using q(1) place prv nxt m(1) by (simp add: Let_def)
qed

lemma sort_ok:
  assumes "ring s h xs" "2 * length xs \<le> k"
  shows "\<exists>s'. hky_queue_sort k cmp h s = Some s' \<and> ring s' h (foldl (insert_node cmp) [] xs)"
proof (cases "\<exists>x y ys. xs = x # y # ys")
  case False
  then have "xs = [] \<or> (\<exists>x. xs = [x])" by (metis list.exhaust)
  then show ?thesis
    using assms(1) by (auto simp: hky_queue_sort_def ring_def hky_queue_head_def hky_queue_last_def insert_node_def not_greater_def)
next
  case True
  then obtain x y ys where xs: "xs = x # y # ys" by blast
  have r: "q_next s h = x" "q_next s x = y" "x \<noteq> q_prev s h"
    using assms(1) links_last [of s h xs h] xs by (auto simp: ring_def)
  have "\<exists>s'. queue_sort_loop k cmp h (hd ((y # ys) @ [h])) s = Some s' \<and> ring s' h (foldl (insert_node cmp) [x] (y # ys))"
    by (rule queue_sort_loop_ok) (use assms xs in auto)
  then show ?thesis
    using r xs by (simp add: hky_queue_sort_def hky_queue_head_def hky_queue_last_def insert_node_def [of cmp "[]"] not_greater_def)
qed

text \<open>When \<open>cmp\<close> compares keys this is the stable sort.\<close>

lemma not_greater_sorted:
  assumes "\<And>a b. cmp a b \<le> 0 \<longleftrightarrow> key a \<le> (key b :: 'k::linorder)" "sorted (map key sp)"
  shows "not_greater cmp q sp = takeWhile (\<lambda>p. key p \<le> key q) sp"
  using assms(2)
proof (induction sp rule: rev_induct)
  case (snoc p sp)
  show ?case
  proof (cases "key p \<le> key q")
    case True
    then have "\<forall>x\<in>set (sp @ [p]). key x \<le> key q" using snoc.prems by (auto simp: sorted_append intro: order_trans)
    then show ?thesis using True by (simp add: not_greater_def assms(1) takeWhile_eq_all_conv)
  next
    case False
    have "takeWhile (\<lambda>p. key p \<le> key q) (sp @ [p]) = takeWhile (\<lambda>p. key p \<le> key q) sp"
      using False by (induction sp) auto
    then show ?thesis using False snoc by (simp add: not_greater_def assms(1) sorted_append)
  qed
qed (simp add: not_greater_def)

lemma sorted_insert_middle:
  "sorted (map key us) \<Longrightarrow> sorted (map key vs) \<Longrightarrow> \<forall>x\<in>set us. key x \<le> key q \<Longrightarrow>
    \<forall>x\<in>set vs. key q < key x \<Longrightarrow> sorted (map key (us @ q # vs))"
  by (fastforce simp: sorted_append)

lemma insert_node_sorted:
  assumes "\<And>a b. cmp a b \<le> 0 \<longleftrightarrow> key a \<le> (key b :: 'k::linorder)" "sorted (map key sp)"
  shows "sorted (map key (insert_node cmp sp q))" "mset (insert_node cmp sp q) = add_mset q (mset sp)"
    "filter (\<lambda>x. c = key x) (insert_node cmp sp q) = filter (\<lambda>x. c = key x) (sp @ [q])"
proof -
  let ?le = "\<lambda>p. key p \<le> key q"
  have eq: "insert_node cmp sp q = takeWhile ?le sp @ q # dropWhile ?le sp"
    unfolding insert_node_def not_greater_sorted [OF assms] by (simp add: dropWhile_eq_drop)
  have split: "sorted (map key (takeWhile ?le sp @ dropWhile ?le sp))" using assms(2) by simp
  have le: "\<forall>x\<in>set (takeWhile ?le sp). key x \<le> key q" by (auto dest: set_takeWhileD)
  have gt: "\<forall>x\<in>set (dropWhile ?le sp). key q < key x"
  proof (cases "dropWhile ?le sp")
    case (Cons d ds)
    then have "\<not> key d \<le> key q" by (metis hd_dropWhile list.distinct(1) list.sel(1))
    moreover have "\<forall>x\<in>set (d # ds). key d \<le> key x" using split Cons by (auto simp: sorted_append)
    ultimately show ?thesis using Cons by fastforce
  next
    case Nil
    show ?thesis unfolding Nil by simp
  qed
  show "sorted (map key (insert_node cmp sp q))"
  proof -
    have "sorted (map key (takeWhile ?le sp))" "sorted (map key (dropWhile ?le sp))"
      using split unfolding map_append sorted_append by auto
    then show ?thesis unfolding eq using le gt by (rule sorted_insert_middle)
  qed
  show "mset (insert_node cmp sp q) = add_mset q (mset sp)"
    unfolding eq by (metis mset.simps(2) mset_append takeWhile_dropWhile_id union_mset_add_mset_right)
  have "filter (\<lambda>x. c = key x) sp = filter (\<lambda>x. c = key x) (takeWhile ?le sp) @ filter (\<lambda>x. c = key x) (dropWhile ?le sp)"
    unfolding filter_append [symmetric] by simp
  moreover have "filter (\<lambda>x. c = key x) (dropWhile ?le sp) = []" if "c = key q"
    using gt that by (auto simp: filter_empty_conv)
  ultimately show "filter (\<lambda>x. c = key x) (insert_node cmp sp q) = filter (\<lambda>x. c = key x) (sp @ [q])"
    unfolding eq by auto
qed

lemma fold_insert_node:
  assumes "\<And>a b. cmp a b \<le> 0 \<longleftrightarrow> key a \<le> (key b :: 'k::linorder)"
  shows "foldl (insert_node cmp) [] xs = sort_key key xs"
proof -
  have "sorted (map key (foldl (insert_node cmp) sp xs)) \<and>
      mset (foldl (insert_node cmp) sp xs) = mset (sp @ xs) \<and>
      (\<forall>c. filter (\<lambda>x. c = key x) (foldl (insert_node cmp) sp xs) = filter (\<lambda>x. c = key x) (sp @ xs))"
    if "sorted (map key sp)" for sp
    using that
  proof (induction xs arbitrary: sp)
    case (Cons x xs)
    show ?case using Cons.IH [OF insert_node_sorted(1) [OF assms Cons.prems]] insert_node_sorted [OF assms Cons.prems]
      by simp
  qed simp
  from this [of "[]"] show ?thesis by (intro properties_for_sort_key [symmetric]) auto
qed

text \<open>
  The operations of hky_queue.h are those of lists: on a queue that holds \<open>xs\<close>, inserting at the
  head and at the tail, the first and the last node, the test for emptiness, the middle node,
  removing any node and splitting the queue at any node. Only \<open>hky_queue_add\<close> is wrong: it appends
  another queue to an empty one, but to a queue with nodes it leaves the first node that was added
  with a link back to the other sentinel, so that the result is no queue.
\<close>

theorem queue_operations:
  assumes "ring s h xs" "x \<notin> set (h # xs)"
  shows "ring (hky_queue_insert_head h x s) h (x # xs) \<and> ring (hky_queue_insert_tail h x s) h (xs @ [x]) \<and>
    hky_queue_head h s = hd (xs @ [h]) \<and> hky_queue_last h s = last (h # xs) \<and> (hky_queue_empty h s \<longleftrightarrow> xs = []) \<and>
    (xs \<noteq> [] \<longrightarrow> hky_queue_middle (length xs) h s = Some (xs ! (length xs div 2))) \<and>
    (\<forall>us y vs. xs = us @ y # vs \<longrightarrow> ring (hky_queue_remove y s) h (us @ vs) \<and>
       ring (hky_queue_split h y x s) h us \<and> ring (hky_queue_split h y x s) x (y # vs)) \<and>
    (\<forall>ys. ys \<noteq> [] \<and> ring s x ys \<and> set (h # xs) \<inter> set ys = {} \<longrightarrow>
       (if xs = [] then ring (hky_queue_add h x s) h ys
        else q_prev (hky_queue_add h x s) (hd ys) = x \<and> \<not> ring (hky_queue_add h x s) h (xs @ ys)))"
  using assms ring_insert_head ring_insert_tail ring_reads middle_ok [of s h xs "length xs"] ring_remove ring_split
    ring_add_empty [of s h x] ring_add_broken [of s h xs x]
  by auto

text \<open>
  C28: \<open>hky_queue_sort\<close> with a \<open>cmp\<close> that compares the keys of the nodes leaves the queue well linked
  and holding the same nodes sorted by their keys, nodes of equal keys in their old order. It ends:
  fuel for twice the number of nodes is enough.
\<close>

theorem queue_sort_correct:
  fixes key :: "nat \<Rightarrow> 'k::linorder"
  assumes "ring s h xs" "\<And>a b. cmp a b \<le> 0 \<longleftrightarrow> key a \<le> key b" "2 * length xs \<le> fuel"
  shows "\<exists>s'. hky_queue_sort fuel cmp h s = Some s' \<and> ring s' h (sort_key key xs)"
  using sort_ok [OF assms(1,3), of cmp] fold_insert_node [of cmp key, OF assms(2)] by simp

definition sample_queue :: queue_heap where
  "sample_queue = fold (hky_queue_insert_tail 1) [7, 4, 5] (hky_queue_init 1 \<lparr>q_prev = (\<lambda>_. 0), q_next = (\<lambda>_. 0)\<rparr>)"

lemma sample_queue_ring: "ring sample_queue 1 [7, 4, 5]"
  by (simp add: sample_queue_def ring_def hky_queue_insert_tail_def hky_queue_init_def Let_def)

lemma queue_operations_witness:
  "ring (hky_queue_remove 4 sample_queue) 1 [7, 5] \<and> hky_queue_middle 3 1 sample_queue = Some 4"
proof -
  have "\<forall>us y vs. [7, 4, 5] = us @ y # vs \<longrightarrow> ring (hky_queue_remove y sample_queue) 1 (us @ vs)"
    "hky_queue_middle 3 1 sample_queue = Some ([7, 4, 5] ! (length [7, 4, 5::nat] div 2))"
    using queue_operations [OF sample_queue_ring, of 9] by (auto simp: numeral_3_eq_3)
  from this(2) spec [OF spec [OF spec [OF this(1), of "[7]"], of 4], of "[5]"] show ?thesis by simp
qed

lemma queue_sort_correct_witness:
  "\<exists>s'. hky_queue_sort 6 (\<lambda>a b. int (a div 2) - int (b div 2)) 1 sample_queue = Some s' \<and> ring s' 1 [4, 5, 7]"
  using queue_sort_correct [OF sample_queue_ring, of "\<lambda>a b. int (a div 2) - int (b div 2)" "\<lambda>a. a div 2" 6] by simp

end
