(* ===== verification/Hky_Crc32.thy ===== *)
theory Hky_Crc32
  imports Husky_Base
begin

text \<open>
  The checksum of src/core/hky_crc32.h and its table in hky_crc32.c. (The header declares the table
  as \<open>hky_crc32_table256\<close>, the source defines it as \<open>ngx_crc32_table256\<close>; the model takes them to
  be the same table.) It is shown to be the CRC of the reflected polynomial 0xedb88320, computed
  bit by bit.
\<close>

definition hky_crc32_table256 :: "u32 list" where
  "hky_crc32_table256 = [
    0x00000000, 0x77073096, 0xee0e612c, 0x990951ba, 0x076dc419, 0x706af48f, 0xe963a535, 0x9e6495a3,
    0x0edb8832, 0x79dcb8a4, 0xe0d5e91e, 0x97d2d988, 0x09b64c2b, 0x7eb17cbd, 0xe7b82d07, 0x90bf1d91,
    0x1db71064, 0x6ab020f2, 0xf3b97148, 0x84be41de, 0x1adad47d, 0x6ddde4eb, 0xf4d4b551, 0x83d385c7,
    0x136c9856, 0x646ba8c0, 0xfd62f97a, 0x8a65c9ec, 0x14015c4f, 0x63066cd9, 0xfa0f3d63, 0x8d080df5,
    0x3b6e20c8, 0x4c69105e, 0xd56041e4, 0xa2677172, 0x3c03e4d1, 0x4b04d447, 0xd20d85fd, 0xa50ab56b,
    0x35b5a8fa, 0x42b2986c, 0xdbbbc9d6, 0xacbcf940, 0x32d86ce3, 0x45df5c75, 0xdcd60dcf, 0xabd13d59,
    0x26d930ac, 0x51de003a, 0xc8d75180, 0xbfd06116, 0x21b4f4b5, 0x56b3c423, 0xcfba9599, 0xb8bda50f,
    0x2802b89e, 0x5f058808, 0xc60cd9b2, 0xb10be924, 0x2f6f7c87, 0x58684c11, 0xc1611dab, 0xb6662d3d,
    0x76dc4190, 0x01db7106, 0x98d220bc, 0xefd5102a, 0x71b18589, 0x06b6b51f, 0x9fbfe4a5, 0xe8b8d433,
    0x7807c9a2, 0x0f00f934, 0x9609a88e, 0xe10e9818, 0x7f6a0dbb, 0x086d3d2d, 0x91646c97, 0xe6635c01,
    0x6b6b51f4, 0x1c6c6162, 0x856530d8, 0xf262004e, 0x6c0695ed, 0x1b01a57b, 0x8208f4c1, 0xf50fc457,
    0x65b0d9c6, 0x12b7e950, 0x8bbeb8ea, 0xfcb9887c, 0x62dd1ddf, 0x15da2d49, 0x8cd37cf3, 0xfbd44c65,
    0x4db26158, 0x3ab551ce, 0xa3bc0074, 0xd4bb30e2, 0x4adfa541, 0x3dd895d7, 0xa4d1c46d, 0xd3d6f4fb,
    0x4369e96a, 0x346ed9fc, 0xad678846, 0xda60b8d0, 0x44042d73, 0x33031de5, 0xaa0a4c5f, 0xdd0d7cc9,
    0x5005713c, 0x270241aa, 0xbe0b1010, 0xc90c2086, 0x5768b525, 0x206f85b3, 0xb966d409, 0xce61e49f,
    0x5edef90e, 0x29d9c998, 0xb0d09822, 0xc7d7a8b4, 0x59b33d17, 0x2eb40d81, 0xb7bd5c3b, 0xc0ba6cad,
    0xedb88320, 0x9abfb3b6, 0x03b6e20c, 0x74b1d29a, 0xead54739, 0x9dd277af, 0x04db2615, 0x73dc1683,
    0xe3630b12, 0x94643b84, 0x0d6d6a3e, 0x7a6a5aa8, 0xe40ecf0b, 0x9309ff9d, 0x0a00ae27, 0x7d079eb1,
    0xf00f9344, 0x8708a3d2, 0x1e01f268, 0x6906c2fe, 0xf762575d, 0x806567cb, 0x196c3671, 0x6e6b06e7,
    0xfed41b76, 0x89d32be0, 0x10da7a5a, 0x67dd4acc, 0xf9b9df6f, 0x8ebeeff9, 0x17b7be43, 0x60b08ed5,
    0xd6d6a3e8, 0xa1d1937e, 0x38d8c2c4, 0x4fdff252, 0xd1bb67f1, 0xa6bc5767, 0x3fb506dd, 0x48b2364b,
    0xd80d2bda, 0xaf0a1b4c, 0x36034af6, 0x41047a60, 0xdf60efc3, 0xa867df55, 0x316e8eef, 0x4669be79,
    0xcb61b38c, 0xbc66831a, 0x256fd2a0, 0x5268e236, 0xcc0c7795, 0xbb0b4703, 0x220216b9, 0x5505262f,
    0xc5ba3bbe, 0xb2bd0b28, 0x2bb45a92, 0x5cb36a04, 0xc2d7ffa7, 0xb5d0cf31, 0x2cd99e8b, 0x5bdeae1d,
    0x9b64c2b0, 0xec63f226, 0x756aa39c, 0x026d930a, 0x9c0906a9, 0xeb0e363f, 0x72076785, 0x05005713,
    0x95bf4a82, 0xe2b87a14, 0x7bb12bae, 0x0cb61b38, 0x92d28e9b, 0xe5d5be0d, 0x7cdcefb7, 0x0bdbdf21,
    0x86d3d2d4, 0xf1d4e242, 0x68ddb3f8, 0x1fda836e, 0x81be16cd, 0xf6b9265b, 0x6fb077e1, 0x18b74777,
    0x88085ae6, 0xff0f6a70, 0x66063bca, 0x11010b5c, 0x8f659eff, 0xf862ae69, 0x616bffd3, 0x166ccf45,
    0xa00ae278, 0xd70dd2ee, 0x4e048354, 0x3903b3c2, 0xa7672661, 0xd06016f7, 0x4969474d, 0x3e6e77db,
    0xaed16a4a, 0xd9d65adc, 0x40df0b66, 0x37d83bf0, 0xa9bcae53, 0xdebb9ec5, 0x47b2cf7f, 0x30b5ffe9,
    0xbdbdf21c, 0xcabac28a, 0x53b39330, 0x24b4a3a6, 0xbad03605, 0xcdd70693, 0x54de5729, 0x23d967bf,
    0xb3667a2e, 0xc4614ab8, 0x5d681b02, 0x2a6f2b94, 0xb40bbe37, 0xc30c8ea1, 0x5a05df1b, 0x2d02ef8d
  ]"

text \<open>The loop; \<open>None\<close> is a read beyond the end of \<open>p\<close>.\<close>

fun crc32_loop :: "u32 \<Rightarrow> byte list \<Rightarrow> nat \<Rightarrow> u32 option" where
  "crc32_loop crc p 0 = Some crc"
| "crc32_loop crc [] (Suc len) = None"
| "crc32_loop crc (c # p) (Suc len) =
     crc32_loop (hky_crc32_table256 ! unat ((crc XOR ucast c) AND 0xff) XOR drop_bit 8 crc) p len"

definition hky_crc32_long :: "byte list \<Rightarrow> nat \<Rightarrow> u32 option" where
  "hky_crc32_long p len = map_option (\<lambda>crc. crc XOR 0xffffffff) (crc32_loop 0xffffffff p len)"

section \<open>Bit by bit\<close>

definition crc_bit :: "u32 \<Rightarrow> u32" where
  "crc_bit c = drop_bit 1 c XOR (if bit c 0 then 0xedb88320 else 0)"

definition crc_byte :: "u32 \<Rightarrow> byte \<Rightarrow> u32" where
  "crc_byte crc c = (crc_bit ^^ 8) (crc XOR ucast c)"

lemma crc_byte_unfold:
  "crc_byte crc c = crc_bit (crc_bit (crc_bit (crc_bit (crc_bit (crc_bit (crc_bit (crc_bit (crc XOR ucast c))))))))"
  by (simp add: crc_byte_def numeral_eq_Suc)

definition crc32_spec :: "byte list \<Rightarrow> u32" where
  "crc32_spec p = foldl crc_byte 0xffffffff p XOR 0xffffffff"

text \<open>The entries, checked in four parts.\<close>

definition crc_entry :: "nat \<Rightarrow> u32" where
  "crc_entry i = (crc_bit ^^ 8) (word_of_nat i)"

lemma crc_entry_unfold:
  "crc_entry i = crc_bit (crc_bit (crc_bit (crc_bit (crc_bit (crc_bit (crc_bit (crc_bit (word_of_nat i))))))))"
  by (simp add: crc_entry_def numeral_eq_Suc)

lemma crc_part_1: "map crc_entry [0..<64] = take 64 (drop 0 hky_crc32_table256)"
  by (simp add: upt_rec hky_crc32_table256_def) (simp add: crc_entry_unfold crc_bit_def)

lemma crc_part_2: "map crc_entry [64..<128] = take 64 (drop 64 hky_crc32_table256)"
  by (simp add: upt_rec_numeral hky_crc32_table256_def) (simp add: crc_entry_unfold crc_bit_def)

lemma crc_part_3: "map crc_entry [128..<192] = take 64 (drop 128 hky_crc32_table256)"
  by (simp add: upt_rec_numeral hky_crc32_table256_def) (simp add: crc_entry_unfold crc_bit_def)

lemma crc_part_4: "map crc_entry [192..<256] = take 64 (drop 192 hky_crc32_table256)"
  by (simp add: upt_rec_numeral hky_crc32_table256_def) (simp add: crc_entry_unfold crc_bit_def)

lemma crc_table_entries: "hky_crc32_table256 = map crc_entry [0..<256]"
proof -
  let ?t = "hky_crc32_table256"
  have part: "take k xs @ take m (drop k xs) = take (k + m) xs" for k m :: nat and xs :: "u32 list"
    by (simp add: take_add)
  have "[0..<256::nat] = [0..<64] @ [64..<256]" "[64..<256::nat] = [64..<128] @ [128..<256]"
    "[128..<256::nat] = [128..<192] @ [192..<256]"
    using upt_add_eq_append [of 0 64 192] upt_add_eq_append [of 64 128 128] upt_add_eq_append [of 128 192 64]
    by (simp_all del: upt_rec_numeral)
  then have "map crc_entry [0..<256] = take 64 (drop 0 ?t) @ take 64 (drop 64 ?t) @ take 64 (drop 128 ?t) @ take 64 (drop 192 ?t)"
    by (simp only: map_append crc_part_1 crc_part_2 crc_part_3 crc_part_4)
  also have "\<dots> = take 256 ?t"
    using part [of 64 ?t 64] part [of 128 ?t 64] part [of 192 ?t 64] by (simp flip: append_assoc)
  also have "\<dots> = ?t" by (simp add: hky_crc32_table256_def)
  finally show ?thesis ..
qed

lemma crc_table: "i < 256 \<Longrightarrow> hky_crc32_table256 ! i = (crc_bit ^^ 8) (word_of_nat i)"
  by (simp add: crc_table_entries crc_entry_def)

lemma crc_bit_xor: "crc_bit (a XOR b) = crc_bit a XOR crc_bit b"
  by (rule bit_word_eqI) (auto simp: crc_bit_def bit_simps)

lemma crc_bits_xor: "(crc_bit ^^ n) (a XOR b) = (crc_bit ^^ n) a XOR (crc_bit ^^ n) b"
  by (induction n) (simp_all add: crc_bit_xor)

lemma crc_bit_even: "\<not> bit c 0 \<Longrightarrow> crc_bit c = drop_bit 1 c"
  by (simp add: crc_bit_def)

lemma crc_bits_zero: "(\<And>k. k < n \<Longrightarrow> \<not> bit a k) \<Longrightarrow> (crc_bit ^^ n) a = drop_bit n a"
proof (induction n)
  case (Suc n)
  then have "(crc_bit ^^ n) a = drop_bit n a" by simp
  moreover have "\<not> bit (drop_bit n a) 0" using Suc.prems [of n] by (simp add: bit_simps)
  ultimately show ?case by (simp add: crc_bit_even drop_bit_drop_bit)
qed simp

lemma low_byte_split: "(x :: u32) = (x AND 0xff) XOR (x AND NOT 0xff)"
  by (rule bit_word_eqI) (auto simp: bit_simps)

lemma crc_byte_table: "hky_crc32_table256 ! unat ((crc XOR ucast c) AND 0xff) XOR drop_bit 8 crc = crc_byte crc c"
proof -
  let ?x = "crc XOR ucast c"
  have mask: "(0xff :: u32) = mask 8" by (simp add: mask_eq_exp_minus_1)
  have lt: "unat (?x AND 0xff) < 256"
    unfolding mask take_bit_eq_mask [symmetric] unsigned_take_bit_eq using take_bit_nat_less_exp [of 8 "unat ?x"] by simp
  have "crc_byte crc c = (crc_bit ^^ 8) (?x AND 0xff) XOR (crc_bit ^^ 8) (?x AND NOT 0xff)"
    unfolding crc_byte_def by (subst low_byte_split) (rule crc_bits_xor)
  also have "(crc_bit ^^ 8) (?x AND NOT 0xff) = drop_bit 8 (?x AND NOT 0xff)"
    by (rule crc_bits_zero) (simp add: mask bit_simps)
  also have "drop_bit 8 (?x AND NOT 0xff) = drop_bit 8 crc"
    by (rule bit_word_eqI) (auto simp: mask bit_simps bit_byte_beyond dest: bit_imp_le_length)
  also have "(crc_bit ^^ 8) (?x AND 0xff) = hky_crc32_table256 ! unat (?x AND 0xff)"
    using crc_table [OF lt] by simp
  finally show ?thesis by simp
qed

lemma crc32_loop_spec: "n \<le> length p \<Longrightarrow> crc32_loop crc p n = Some (foldl crc_byte crc (take n p))"
  by (induction crc p n rule: crc32_loop.induct) (simp_all add: crc_byte_table)

text \<open>
  C29: \<open>hky_crc32_long\<close>, which reads a table of 256 entries, computes the cyclic redundancy check of
  the first \<open>len\<close> bytes with the reflected polynomial 0xedb88320, bit by bit.
\<close>

theorem crc32_correct:
  assumes "len \<le> length p"
  shows "hky_crc32_long p len = Some (crc32_spec (take len p))"
  using assms by (simp add: hky_crc32_long_def crc32_loop_spec crc32_spec_def)

text \<open>The check value of the standard.\<close>

lemma crc32_correct_witness: "hky_crc32_long (bytes_of ''123456789'') 9 = Some 0xcbf43926"
proof -
  have "crc32_spec (bytes_of ''123456789'') = 0xcbf43926"
    by (simp add: crc32_spec_def crc_byte_unfold crc_bit_def)
  then show ?thesis using crc32_correct [of 9 "bytes_of ''123456789''"] by simp
qed

end
