(* ===== verification/Hky_Lock.thy ===== *)
theory Hky_Lock
  imports Husky_Base "HOL-Library.Multiset"
begin

text \<open>
  The locks of src/unix/hky_atomic.h and src/core/hky_shmtx.c. \<open>hky_trylock\<close> reads the lock word and
  then compares and swaps it, two accesses to memory between which other processes may run;
  \<open>hky_unlock\<close> stores zero. The model is a step relation of any number of processes that share one
  lock word: each step is one access. \<open>hky_atomic_cmp_set\<close> and \<open>hky_atomic_fetch_add\<close> are what
  cmpxchgq and xaddq do in hky_gcc_atomic_amd64.h, each in one step; the other branches with atomic
  instructions or libraries do the same at their own width of the word. Not covered is the last
  branch of hky_atomic.h, for a build without atomic operations: there both are plain C functions
  of several accesses, and shared mutexes are lock files. \<open>hky_shmtx_create\<close> and
  \<open>hky_shmtx_destroy\<close> are modelled in both their variants.
\<close>

section \<open>Atomic operations\<close>

definition hky_atomic_cmp_set :: "u64 \<Rightarrow> u64 \<Rightarrow> u64 \<Rightarrow> bool \<times> u64" where
  "hky_atomic_cmp_set lock old new = (if lock = old then (True, new) else (False, lock))"

definition hky_atomic_fetch_add :: "u64 \<Rightarrow> u64 \<Rightarrow> u64 \<times> u64" where
  "hky_atomic_fetch_add value add = (value, value + add)"

section \<open>Processes\<close>

text \<open>
  Where a process is: not holding the lock and not asking for it, in \<open>hky_trylock\<close> after it has read
  a zero, and holding the lock.
\<close>

datatype lock_place = Outside | Seen_free | Inside

type_synonym lock_state = "(nat \<Rightarrow> lock_place) \<times> u64"

inductive lock_step :: "lock_state \<Rightarrow> lock_state \<Rightarrow> bool" where
  read_busy: "at p = Outside \<Longrightarrow> lock \<noteq> 0 \<Longrightarrow> lock_step (at, lock) (at, lock)"
| read_free: "at p = Outside \<Longrightarrow> lock = 0 \<Longrightarrow> lock_step (at, lock) (at(p := Seen_free), lock)"
| swap: "at p = Seen_free \<Longrightarrow> hky_atomic_cmp_set lock 0 1 = (got, lock') \<Longrightarrow>
    lock_step (at, lock) (at(p := if got then Inside else Outside), lock')"
| unlock: "at p = Inside \<Longrightarrow> lock_step (at, lock) (at(p := Outside), 0)"

inductive_cases lock_stepE: "lock_step (at, lock) s"

inductive reachable :: "lock_state \<Rightarrow> bool" where
  start: "reachable (\<lambda>p. Outside, 0)"
| run: "reachable s \<Longrightarrow> lock_step s s' \<Longrightarrow> reachable s'"

definition lock_inv :: "lock_state \<Rightarrow> bool" where
  "lock_inv = (\<lambda>(at, lock). lock = 0 \<and> (\<forall>p. at p \<noteq> Inside) \<or> lock = 1 \<and> (\<exists>q. \<forall>p. at p = Inside \<longleftrightarrow> p = q))"

lemma lock_inv_step: "lock_step s s' \<Longrightarrow> lock_inv s \<Longrightarrow> lock_inv s'"
proof (induction rule: lock_step.induct)
  case (swap at p lock got lock')
  have other: "at q \<noteq> Inside \<or> q \<noteq> p" for q using swap.hyps(1) by auto
  show ?case
    using swap other by (auto simp: lock_inv_def hky_atomic_cmp_set_def split: if_splits) metis
qed (auto simp: lock_inv_def)

lemma lock_inv_reachable: "reachable s \<Longrightarrow> lock_inv s"
proof (induction rule: reachable.induct)
  case (run s s')
  then show ?case using lock_inv_step by blast
qed (simp add: lock_inv_def)

text \<open>
  C27: Mutual exclusion: however the accesses of any number of processes interleave, at most one of
  them is inside between a successful \<open>hky_trylock\<close> and its \<open>hky_unlock\<close>, and the lock word is 1 while
  there is one and 0 otherwise. The lock cannot get lost: when it is free a process that runs
  \<open>hky_trylock\<close> undisturbed gets it.
\<close>

theorem trylock_mutual_exclusion:
  assumes "reachable (at, lock)"
  shows "(\<forall>p q. at p = Inside \<and> at q = Inside \<longrightarrow> p = q) \<and> lock = (if \<exists>p. at p = Inside then 1 else 0) \<and>
    (\<forall>p. lock = 0 \<and> at p = Outside \<longrightarrow> (\<exists>s. lock_step (at, lock) s \<and> lock_step s (at(p := Inside), 1)))"
proof (intro conjI allI impI)
  note inv = lock_inv_reachable [OF assms]
  show "p = q" if "at p = Inside \<and> at q = Inside" for p q using inv that by (auto simp: lock_inv_def)
  show "lock = (if \<exists>p. at p = Inside then 1 else 0)" using inv by (auto simp: lock_inv_def)
  fix p assume p: "lock = 0 \<and> at p = Outside"
  have "lock_step (at(p := Seen_free), 0) ((at(p := Seen_free))(p := if True then Inside else Outside), 1)"
    by (rule swap) (simp_all add: hky_atomic_cmp_set_def)
  then show "\<exists>s. lock_step (at, lock) s \<and> lock_step s (at(p := Inside), 1)"
    using p read_free [of at p lock] by (intro exI [of _ "(at(p := Seen_free), 0)"]) simp
qed

text \<open>Two processes see the free lock, one gets it.\<close>

lemma two_processes: "reachable ((\<lambda>p. Outside)(1 := Inside, 2 := Outside), 1)"
proof -
  let ?a = "\<lambda>p::nat. Outside"
  have "reachable (?a(1 := Seen_free), 0)" by (rule run [OF start]) (simp add: read_free)
  then have "reachable (?a(1 := Seen_free, 2 := Seen_free), 0)" by (rule run) (simp add: read_free)
  then have "reachable (?a(1 := Seen_free, 2 := Seen_free, 1 := Inside), 1)"
    by (rule run) (use swap [of "?a(1 := Seen_free, 2 := Seen_free)" 1 0 True 1] in \<open>simp add: hky_atomic_cmp_set_def\<close>)
  then have "reachable (?a(1 := Seen_free, 2 := Seen_free, 1 := Inside, 2 := Outside), 1)"
    by (rule run) (use swap [of "?a(1 := Seen_free, 2 := Seen_free, 1 := Inside)" 2 1 False 1] in
      \<open>simp add: hky_atomic_cmp_set_def\<close>)
  then show ?thesis by (simp add: fun_upd_twist)
qed

lemma trylock_mutual_exclusion_witness:
  "{p::nat. ((\<lambda>p. Outside)(1 := Inside, 2 := Outside)) p = Inside} = {1}"
proof -
  note one = trylock_mutual_exclusion [OF two_processes, THEN conjunct1, rule_format]
  show ?thesis
  proof (intro equalityI subsetI)
    fix p assume p: "p \<in> {p::nat. ((\<lambda>p. Outside)(1 := Inside, 2 := Outside)) p = Inside}"
    have "1 = p" by (rule one) (use p in simp)
    then show "p \<in> {1}" by simp
  qed simp
qed

section \<open>Shared mutexes\<close>

text \<open>
  \<open>hky_shmtx_t\<close> with atomic operations: the address of the lock word, the number of spins, and with
  POSIX semaphores whether there is one. \<open>sem_init\<close> and \<open>sem_destroy\<close> are replies; the second result
  says whether an alert was logged.
\<close>

record hky_shmtx =
  mtx_lock :: nat
  mtx_wait :: nat
  mtx_semaphore :: bool
  mtx_spin :: u64

definition hky_shmtx_create :: "bool \<Rightarrow> bool \<Rightarrow> nat \<Rightarrow> nat \<Rightarrow> hky_shmtx \<Rightarrow> int \<times> bool \<times> hky_shmtx" where
  "hky_shmtx_create posix_sem sem_init lock_addr wait_addr mtx =
     (let mtx = mtx\<lparr>mtx_lock := lock_addr\<rparr> in
      if mtx_spin mtx = -1 then (HKY_OK, False, mtx)
      else let mtx = mtx\<lparr>mtx_spin := 2048\<rparr> in
        if \<not> posix_sem then (HKY_OK, False, mtx)
        else let mtx = mtx\<lparr>mtx_wait := wait_addr\<rparr> in
          if \<not> sem_init then (HKY_OK, True, mtx) else (HKY_OK, False, mtx\<lparr>mtx_semaphore := True\<rparr>))"

definition hky_shmtx_destroy :: "bool \<Rightarrow> bool \<Rightarrow> hky_shmtx \<Rightarrow> bool" where
  "hky_shmtx_destroy posix_sem sem_destroy mtx \<longleftrightarrow> posix_sem \<and> mtx_semaphore mtx \<and> \<not> sem_destroy"

text \<open>
  The variant on a file, which is opened and unlinked; \<open>fm_name\<close> is the name of the mutex, if any.
  The first parameter of \<open>shmtx_create_file\<close> is the result of \<open>close\<close> for an old descriptor, the
  others those of \<open>open\<close> and \<open>unlink\<close>; the number is that of the alerts and errors logged.
\<close>

record file_mtx =
  fm_fd :: int
  fm_name :: "byte list option"

definition shmtx_destroy_file :: "bool \<Rightarrow> nat" where
  "shmtx_destroy_file closed = (if closed then 0 else 1)"

definition shmtx_create_file :: "bool \<Rightarrow> int \<Rightarrow> bool \<Rightarrow> byte list \<Rightarrow> file_mtx \<Rightarrow> int \<times> nat \<times> file_mtx" where
  "shmtx_create_file closed fd unlinked name mtx =
     (if fm_name mtx = Some name then (HKY_OK, 0, mtx\<lparr>fm_name := Some name\<rparr>)
      else
        let n = (if fm_name mtx = None then 0 else shmtx_destroy_file closed);
            mtx = mtx\<lparr>fm_fd := fd\<rparr>
        in if fd = -1 then (HKY_ERROR, n + 1, mtx)
           else (HKY_OK, (if unlinked then n else n + 1), mtx\<lparr>fm_name := Some name\<rparr>))"

end
