(* ===== verification/Hky_Timer.thy ===== *)
theory Hky_Timer
  imports Hky_Rbtree_Insert Hky_Rbtree_Delete
begin

text \<open>
  The timers of src/event/hky_event_timer.h: \<open>hky_event_timer_rbtree\<close> is a tree of hky_rbtree.c with
  the callback for timers, its nodes are the \<open>timer\<close> fields of events, and the key of a node is its
  deadline in milliseconds, a 64-bit number that wraps around. An event is the address of its node.
\<close>

section \<open>State and operations\<close>

record timers =
  tm_tree :: rb
  tm_set :: "addr \<Rightarrow> bool"
  tm_now :: u64

definition HKY_TIMER_LAZY_DELAY :: int where "HKY_TIMER_LAZY_DELAY = 300"

definition hky_abs :: "int \<Rightarrow> int" where
  "hky_abs v = (if v \<ge> 0 then v else wrap_s64 (- v))"

definition hky_event_del_timer :: "addr \<Rightarrow> timers \<Rightarrow> timers option" where
  "hky_event_del_timer ev s =
     map_option (\<lambda>t. s\<lparr>tm_tree := t, tm_set := (tm_set s)(ev := False)\<rparr>) (hky_rbtree_delete ev (tm_tree s))"

definition timer_insert :: "addr \<Rightarrow> u64 \<Rightarrow> timers \<Rightarrow> timers option" where
  "timer_insert ev key s =
     (let t = (tm_tree s)\<lparr>ky := (ky (tm_tree s))(ev := key)\<rparr> in
      map_option (\<lambda>t. s\<lparr>tm_tree := t, tm_set := (tm_set s)(ev := True)\<rparr>)
        (hky_rbtree_insert hky_rbtree_insert_timer_value ev t))"

definition hky_event_add_timer :: "addr \<Rightarrow> u64 \<Rightarrow> timers \<Rightarrow> timers option" where
  "hky_event_add_timer ev timer s =
     (let key = tm_now s + timer in
      if tm_set s ev then
        let diff = sint (key - ky (tm_tree s) ev) in
        if hky_abs diff < HKY_TIMER_LAZY_DELAY then Some s
        else (case hky_event_del_timer ev s of None \<Rightarrow> None | Some s \<Rightarrow> timer_insert ev key s)
      else timer_insert ev key s)"

section \<open>The invariant\<close>

text \<open>
  The tree is a red-black tree, sorted by the time from \<open>base\<close> to the deadlines, and holds exactly
  the events whose timer is set; all deadlines lie in half the range of the clock from \<open>base\<close>.
\<close>

definition timers_ok :: "u64 \<Rightarrow> rtree \<Rightarrow> timers \<Rightarrow> bool" where
  "timers_ok base t s \<longleftrightarrow> rb_rel (tm_tree s) t \<and> rb_ok t \<and>
     sorted (map (\<lambda>x. ky (tm_tree s) x - base) (addrs t)) \<and>
     (\<forall>ev. tm_set s ev \<longleftrightarrow> ev \<in> set (addrs t)) \<and>
     (\<forall>ev\<in>set (addrs t). ky (tm_tree s) ev - base < 0x8000000000000000)"

text \<open>Changing the key of a node that is in no tree.\<close>

lemma heap_tree_ky: "heap_tree (s\<lparr>ky := k\<rparr>) q p t = heap_tree s q p t"
  by (induction t arbitrary: q p) auto

lemma rb_rel_ky: "rb_rel (s\<lparr>ky := k\<rparr>) t = rb_rel s t"
  by (simp add: rb_rel_def focus_def heap_tree_ky)

lemma sorted_other_key: "sorted (map f xs) \<Longrightarrow> \<forall>x\<in>set xs. f x = g x \<Longrightarrow> sorted (map g xs)"
  by (simp cong: map_cong)

lemma rb_rel_distinct: "rb_rel s t \<Longrightarrow> distinct (addrs t) \<and> sentinel s \<notin> set (addrs t)"
  using heap_tree_notin by (auto simp: rb_rel_def focus_def)

text \<open>Inserting an event that is not in the tree.\<close>

lemma timer_insert_ok:
  assumes ok: "timers_ok base t s" and ev: "\<not> tm_set s ev" "ev \<noteq> sentinel (tm_tree s)"
    and key: "key - base < 0x8000000000000000"
  shows "\<exists>s' t'. timer_insert ev key s = Some s' \<and> timers_ok base t' s' \<and> tm_set s' = (tm_set s)(ev := True) \<and>
    ky (tm_tree s') = (ky (tm_tree s))(ev := key) \<and> tm_now s' = tm_now s \<and> sentinel (tm_tree s') = sentinel (tm_tree s)"
proof -
  let ?r = "(tm_tree s)\<lparr>ky := (ky (tm_tree s))(ev := key)\<rparr>"
  have new: "ev \<notin> set (addrs t)" using ok ev(1) by (simp add: timers_ok_def)
  have eq: "\<forall>x\<in>set (addrs t). ky (tm_tree s) x - base = ky ?r x - base" using new by auto
  have "sorted (map (\<lambda>x. ky ?r x - base) (addrs t))"
    using ok eq by (intro sorted_other_key [OF _ eq]) (simp add: timers_ok_def)
  moreover have "\<forall>x\<in>set (ev # addrs t). ky ?r x - base < 0x8000000000000000"
    using ok key by (auto simp: timers_ok_def)
  ultimately obtain r' t' where r': "hky_rbtree_insert hky_rbtree_insert_timer_value ev ?r = Some r'" "rb_rel r' t'"
    "rb_ok t'" "set (addrs t') = insert ev (set (addrs t))" "ky r' = ky ?r"
    "sorted (map (\<lambda>x. ky r' x - base) (addrs t'))" "sentinel r' = sentinel ?r"
    using insert_timer_ok [of ?r t base ev] ok new ev(2) by (auto simp: timers_ok_def rb_rel_ky)
  let ?s = "s\<lparr>tm_tree := r', tm_set := (tm_set s)(ev := True)\<rparr>"
  have "timers_ok base t' ?s" using r' ok key by (auto simp: timers_ok_def)
  moreover have "timer_insert ev key s = Some ?s" using r'(1) by (simp add: timer_insert_def Let_def)
  ultimately show ?thesis using r'(5,7) by (intro exI [of _ ?s] exI [of _ t']) simp
qed

lemma del_timer_ok:
  assumes ok: "timers_ok base t s" and ev: "tm_set s ev"
  shows "\<exists>s' t'. hky_event_del_timer ev s = Some s' \<and> timers_ok base t' s' \<and> tm_set s' = (tm_set s)(ev := False) \<and>
    ky (tm_tree s') = (ky (tm_tree s))(ev := 0) \<and> tm_now s' = tm_now s \<and> sentinel (tm_tree s') = sentinel (tm_tree s)"
proof -
  have "ev \<in> set (addrs t)" using ok ev by (simp add: timers_ok_def)
  then obtain us vs where t: "addrs t = us @ ev # vs" by (meson split_list)
  have d: "distinct (us @ ev # vs)" using rb_rel_distinct ok t by (metis timers_ok_def)
  obtain r' t' where r': "hky_rbtree_delete ev (tm_tree s) = Some r'" "rb_rel r' t'" "rb_ok t'" "addrs t' = us @ vs"
    "ky r' = (ky (tm_tree s))(ev := 0)" "sentinel r' = sentinel (tm_tree s)"
    using delete_ok [of "tm_tree s" t us ev vs] ok t by (auto simp: timers_ok_def)
  let ?s = "s\<lparr>tm_tree := r', tm_set := (tm_set s)(ev := False)\<rparr>"
  have "sorted (map (\<lambda>x. ky (tm_tree s) x - base) (us @ vs))"
    using ok t by (simp add: timers_ok_def sorted_append)
  then have "sorted (map (\<lambda>x. ky r' x - base) (us @ vs))"
    by (rule sorted_other_key) (use d r'(5) in auto)
  then have "timers_ok base t' ?s" using r' ok t d by (auto simp: timers_ok_def)
  then show ?thesis using r' by (intro exI [of _ ?s] exI [of _ t']) (simp add: hky_event_del_timer_def)
qed

lemma window_diff:
  assumes "(a :: u64) - base < 0x8000000000000000" "b - base < 0x8000000000000000"
  shows "sint (a - b) = uint (a - base) - uint (b - base)"
proof -
  define x y where "x = a - base" and "y = b - base"
  have b: "uint x < 9223372036854775808" "uint y < 9223372036854775808" "0 \<le> uint x" "0 \<le> uint y"
    using assms by (auto simp: x_def y_def word_less_def)
  have "sint (x - y) = wrap_s64 (uint x - uint y)"
    using b by (simp add: sint_word_ariths(2) wrap_s64_def sint_u64_small)
  also have "\<dots> = uint x - uint y" using b by (intro wrap_s64_id) linarith+
  finally show ?thesis by (simp add: x_def y_def)
qed

lemma hky_abs_window:
  assumes "(a :: u64) - base < 0x8000000000000000" "b - base < 0x8000000000000000"
  shows "hky_abs (sint (a - b)) = \<bar>sint (a - b)\<bar>"
proof -
  have "uint (a - base) < 9223372036854775808" "uint (b - base) < 9223372036854775808"
    using assms by (auto simp: word_less_def)
  then have "wrap_s64 (uint (b - base) - uint (a - base)) = uint (b - base) - uint (a - base)"
    using uint_nonnegative [of "a - base"] uint_nonnegative [of "b - base"] by (intro wrap_s64_id; linarith)
  then show ?thesis using window_diff [OF assms] by (simp add: hky_abs_def)
qed

lemma add_timer_ok:
  assumes ok: "timers_ok base t s" and ev: "ev \<noteq> sentinel (tm_tree s)"
    and key: "tm_now s + timer - base < 0x8000000000000000"
  shows "\<exists>s' t'. hky_event_add_timer ev timer s = Some s' \<and> timers_ok base t' s' \<and> tm_set s' = (tm_set s)(ev := True) \<and>
    (\<forall>x. x \<noteq> ev \<longrightarrow> ky (tm_tree s') x = ky (tm_tree s) x) \<and>
    (if tm_set s ev \<and> \<bar>sint (tm_now s + timer - ky (tm_tree s) ev)\<bar> < HKY_TIMER_LAZY_DELAY then s' = s
     else ky (tm_tree s') ev = tm_now s + timer)"
proof (cases "tm_set s ev")
  case False
  then show ?thesis
    using timer_insert_ok [OF ok False ev key] by (fastforce simp: hky_event_add_timer_def Let_def)
next
  case True
  have "ky (tm_tree s) ev - base < 0x8000000000000000" using ok True by (auto simp: timers_ok_def)
  note abs = hky_abs_window [OF key this]
  show ?thesis
  proof (cases "hky_abs (sint (tm_now s + timer - ky (tm_tree s) ev)) < HKY_TIMER_LAZY_DELAY")
    case lazy: True
    have "(tm_set s)(ev := True) = tm_set s" using True by (simp add: fun_upd_idem_iff)
    then show ?thesis using lazy True ok abs by (intro exI [of _ s] exI [of _ t]) (simp add: hky_event_add_timer_def Let_def)
  next
    case move: False
    obtain s1 t1 where s1: "hky_event_del_timer ev s = Some s1" "timers_ok base t1 s1" "tm_set s1 = (tm_set s)(ev := False)"
      "ky (tm_tree s1) = (ky (tm_tree s))(ev := 0)" "tm_now s1 = tm_now s" "sentinel (tm_tree s1) = sentinel (tm_tree s)"
      using del_timer_ok [OF ok True] by blast
    obtain s' t' where s': "timer_insert ev (tm_now s + timer) s1 = Some s'" "timers_ok base t' s'"
      "tm_set s' = (tm_set s1)(ev := True)" "ky (tm_tree s') = (ky (tm_tree s1))(ev := tm_now s + timer)"
      using timer_insert_ok [OF s1(2), of ev "tm_now s + timer"] s1(3,6) ev key by auto
    have "hky_event_add_timer ev timer s = Some s'"
      using True move s1(1) s'(1) by (simp add: hky_event_add_timer_def Let_def)
    then show ?thesis using s' s1(3,4) move abs by (intro exI [of _ s'] exI [of _ t']) simp
  qed
qed

text \<open>
  C26: \<open>hky_event_add_timer\<close> and \<open>hky_event_del_timer\<close> keep the tree of timers: it stays a red-black
  tree sorted by deadline that holds exactly the events with \<open>timer_set\<close>, although the clock wraps
  around. Adding an event that is in the tree with a deadline less than 300 milliseconds away from
  the one asked for changes nothing at all; in every other case, the moved event included, the event
  is in the tree afterwards with exactly the deadline asked for. A deleted event is out. Neither
  operation changes the deadline of another event, or whether it is set.
\<close>

theorem event_timers_correct:
  assumes "timers_ok base t s" "ev \<noteq> sentinel (tm_tree s)" "tm_now s + timer - base < 0x8000000000000000"
  shows "(\<exists>s' t'. hky_event_add_timer ev timer s = Some s' \<and> timers_ok base t' s' \<and> tm_set s' = (tm_set s)(ev := True) \<and>
      (\<forall>x. x \<noteq> ev \<longrightarrow> ky (tm_tree s') x = ky (tm_tree s) x) \<and>
      (if tm_set s ev \<and> \<bar>sint (tm_now s + timer - ky (tm_tree s) ev)\<bar> < HKY_TIMER_LAZY_DELAY then s' = s
       else ky (tm_tree s') ev = tm_now s + timer)) \<and>
    (tm_set s ev \<longrightarrow> (\<exists>s' t'. hky_event_del_timer ev s = Some s' \<and> timers_ok base t' s' \<and>
      tm_set s' = (tm_set s)(ev := False) \<and> (\<forall>x. x \<noteq> ev \<longrightarrow> ky (tm_tree s') x = ky (tm_tree s) x)))"
  using add_timer_ok [OF assms] del_timer_ok [OF assms(1), of ev] by fastforce

text \<open>An empty tree, with node 1 as its sentinel, just before the clock wraps around.\<close>

definition sample_timers :: timers where
  "sample_timers = \<lparr>tm_tree = \<lparr>lft = (\<lambda>_. 0), rgt = (\<lambda>_. 0), par = (\<lambda>_. 0), ky = (\<lambda>_. 0), clr = (\<lambda>_. False), root = 1, sentinel = 1\<rparr>,
     tm_set = (\<lambda>_. False), tm_now = -100\<rparr>"

lemma event_timers_correct_witness:
  "\<exists>s' t'. hky_event_add_timer 5 600 sample_timers = Some s' \<and> timers_ok (-100) t' s' \<and> ky (tm_tree s') 5 = 500 \<and> tm_set s' 5"
proof -
  have "timers_ok (-100) Leaf sample_timers"
    by (simp add: timers_ok_def sample_timers_def rb_rel_def focus_def rb_ok_def)
  from event_timers_correct [OF this, of 5 600] show ?thesis
    by (auto simp: sample_timers_def)
qed

end
