(* ===== verification/Hky_Base64.thy ===== *)
theory Hky_Base64
  imports Husky_Base
begin

text \<open>
  The base64 coders of src/core/hky_string.c: \<open>hky_encode_base64_internal\<close>,
  \<open>hky_decode_base64_internal\<close>, their alphabets and the four entry points. The lemmas show
  that decoding inverts encoding for both alphabets, with the output sizes that the macros of
  src/core/hky_string.h promise to the callers that allocate \<open>dst\<close>.
\<close>

section \<open>The coders\<close>

fun hky_encode_base64_internal :: "byte list \<Rightarrow> byte list \<Rightarrow> bool \<Rightarrow> byte list" where
  "hky_encode_base64_internal (s0 # s1 # s2 # s) basis padding =
     basis ! unat (drop_bit 2 s0 AND 0x3f)
     # basis ! unat (push_bit 4 (s0 AND 3) OR drop_bit 4 s1)
     # basis ! unat (push_bit 2 (s1 AND 0x0f) OR drop_bit 6 s2)
     # basis ! unat (s2 AND 0x3f)
     # hky_encode_base64_internal s basis padding"
| "hky_encode_base64_internal [s0, s1] basis padding =
     [basis ! unat (drop_bit 2 s0 AND 0x3f),
      basis ! unat (push_bit 4 (s0 AND 3) OR drop_bit 4 s1),
      basis ! unat (push_bit 2 (s1 AND 0x0f))] @ (if padding then [61] else [])"
| "hky_encode_base64_internal [s0] basis padding =
     [basis ! unat (drop_bit 2 s0 AND 0x3f), basis ! unat (push_bit 4 (s0 AND 3))]
     @ (if padding then [61] else []) @ (if padding then [61] else [])"
| "hky_encode_base64_internal [] basis padding = []"

text \<open>
  The first loop of the decoder: \<open>None\<close> for the \<open>HKY_ERROR\<close> return, \<open>Some len\<close> for the
  number of characters before the padding.
\<close>

fun base64_scan :: "byte list \<Rightarrow> byte list \<Rightarrow> nat option" where
  "base64_scan basis [] = Some 0"
| "base64_scan basis (c # s) =
     (if c = 61 then Some 0
      else if basis ! unat c = 77 then None
      else map_option Suc (base64_scan basis s))"

text \<open>The second loop and its tail, on the \<open>len\<close> characters that were scanned.\<close>

fun base64_unpack :: "byte list \<Rightarrow> byte list \<Rightarrow> byte list" where
  "base64_unpack basis (s0 # s1 # s2 # s3 # s) =
     (push_bit 2 (basis ! unat s0) OR drop_bit 4 (basis ! unat s1))
     # (push_bit 4 (basis ! unat s1) OR drop_bit 2 (basis ! unat s2))
     # (push_bit 6 (basis ! unat s2) OR basis ! unat s3)
     # base64_unpack basis s"
| "base64_unpack basis [s0, s1, s2] =
     [push_bit 2 (basis ! unat s0) OR drop_bit 4 (basis ! unat s1),
      push_bit 4 (basis ! unat s1) OR drop_bit 2 (basis ! unat s2)]"
| "base64_unpack basis [s0, s1] = [push_bit 2 (basis ! unat s0) OR drop_bit 4 (basis ! unat s1)]"
| "base64_unpack basis [s0] = []"
| "base64_unpack basis [] = []"

text \<open>\<open>None\<close> is \<open>HKY_ERROR\<close>, \<open>Some dst\<close> is \<open>HKY_OK\<close> with the decoded bytes.\<close>

definition hky_decode_base64_internal :: "byte list \<Rightarrow> byte list \<Rightarrow> byte list option" where
  "hky_decode_base64_internal src basis =
     (case base64_scan basis src of
        None \<Rightarrow> None
      | Some len \<Rightarrow> if len mod 4 = 1 then None else Some (base64_unpack basis (take len src)))"

definition basis64_encode :: "byte list" where
  "basis64_encode = bytes_of ''ABCDEFGHIJKLMNOPQRSTUVWXYZabcdefghijklmnopqrstuvwxyz0123456789+/''"

definition basis64url_encode :: "byte list" where
  "basis64url_encode = bytes_of ''ABCDEFGHIJKLMNOPQRSTUVWXYZabcdefghijklmnopqrstuvwxyz0123456789-_''"

definition hky_encode_base64 :: "byte list \<Rightarrow> byte list" where
  "hky_encode_base64 src = hky_encode_base64_internal src basis64_encode True"

definition hky_encode_base64url :: "byte list \<Rightarrow> byte list" where
  "hky_encode_base64url src = hky_encode_base64_internal src basis64url_encode False"

definition basis64_decode :: "byte list" where
  "basis64_decode = [
    77, 77, 77, 77, 77, 77, 77, 77, 77, 77, 77, 77, 77, 77, 77, 77,
    77, 77, 77, 77, 77, 77, 77, 77, 77, 77, 77, 77, 77, 77, 77, 77,
    77, 77, 77, 77, 77, 77, 77, 77, 77, 77, 77, 62, 77, 77, 77, 63,
    52, 53, 54, 55, 56, 57, 58, 59, 60, 61, 77, 77, 77, 77, 77, 77,
    77,  0,  1,  2,  3,  4,  5,  6,  7,  8,  9, 10, 11, 12, 13, 14,
    15, 16, 17, 18, 19, 20, 21, 22, 23, 24, 25, 77, 77, 77, 77, 77,
    77, 26, 27, 28, 29, 30, 31, 32, 33, 34, 35, 36, 37, 38, 39, 40,
    41, 42, 43, 44, 45, 46, 47, 48, 49, 50, 51, 77, 77, 77, 77, 77,
    77, 77, 77, 77, 77, 77, 77, 77, 77, 77, 77, 77, 77, 77, 77, 77,
    77, 77, 77, 77, 77, 77, 77, 77, 77, 77, 77, 77, 77, 77, 77, 77,
    77, 77, 77, 77, 77, 77, 77, 77, 77, 77, 77, 77, 77, 77, 77, 77,
    77, 77, 77, 77, 77, 77, 77, 77, 77, 77, 77, 77, 77, 77, 77, 77,
    77, 77, 77, 77, 77, 77, 77, 77, 77, 77, 77, 77, 77, 77, 77, 77,
    77, 77, 77, 77, 77, 77, 77, 77, 77, 77, 77, 77, 77, 77, 77, 77,
    77, 77, 77, 77, 77, 77, 77, 77, 77, 77, 77, 77, 77, 77, 77, 77,
    77, 77, 77, 77, 77, 77, 77, 77, 77, 77, 77, 77, 77, 77, 77, 77]"

definition basis64url_decode :: "byte list" where
  "basis64url_decode = [
    77, 77, 77, 77, 77, 77, 77, 77, 77, 77, 77, 77, 77, 77, 77, 77,
    77, 77, 77, 77, 77, 77, 77, 77, 77, 77, 77, 77, 77, 77, 77, 77,
    77, 77, 77, 77, 77, 77, 77, 77, 77, 77, 77, 77, 77, 62, 77, 77,
    52, 53, 54, 55, 56, 57, 58, 59, 60, 61, 77, 77, 77, 77, 77, 77,
    77,  0,  1,  2,  3,  4,  5,  6,  7,  8,  9, 10, 11, 12, 13, 14,
    15, 16, 17, 18, 19, 20, 21, 22, 23, 24, 25, 77, 77, 77, 77, 63,
    77, 26, 27, 28, 29, 30, 31, 32, 33, 34, 35, 36, 37, 38, 39, 40,
    41, 42, 43, 44, 45, 46, 47, 48, 49, 50, 51, 77, 77, 77, 77, 77,
    77, 77, 77, 77, 77, 77, 77, 77, 77, 77, 77, 77, 77, 77, 77, 77,
    77, 77, 77, 77, 77, 77, 77, 77, 77, 77, 77, 77, 77, 77, 77, 77,
    77, 77, 77, 77, 77, 77, 77, 77, 77, 77, 77, 77, 77, 77, 77, 77,
    77, 77, 77, 77, 77, 77, 77, 77, 77, 77, 77, 77, 77, 77, 77, 77,
    77, 77, 77, 77, 77, 77, 77, 77, 77, 77, 77, 77, 77, 77, 77, 77,
    77, 77, 77, 77, 77, 77, 77, 77, 77, 77, 77, 77, 77, 77, 77, 77,
    77, 77, 77, 77, 77, 77, 77, 77, 77, 77, 77, 77, 77, 77, 77, 77,
    77, 77, 77, 77, 77, 77, 77, 77, 77, 77, 77, 77, 77, 77, 77, 77]"

definition hky_decode_base64 :: "byte list \<Rightarrow> byte list option" where
  "hky_decode_base64 src = hky_decode_base64_internal src basis64_decode"

definition hky_decode_base64url :: "byte list \<Rightarrow> byte list option" where
  "hky_decode_base64url src = hky_decode_base64_internal src basis64url_decode"

text \<open>The size macros.\<close>

definition hky_base64_encoded_length :: "nat \<Rightarrow> nat" where
  "hky_base64_encoded_length len = (len + 2) div 3 * 4"

definition hky_base64_decoded_length :: "nat \<Rightarrow> nat" where
  "hky_base64_decoded_length len = (len + 3) div 4 * 3"

section \<open>Splitting bytes into sextets\<close>

lemma sextets:
  fixes s0 s1 s2 :: byte
  shows "drop_bit 2 s0 AND 0x3f < 64"
    "push_bit 4 (s0 AND 3) OR drop_bit 4 s1 < 64"
    "push_bit 2 (s1 AND 0x0f) OR drop_bit 6 s2 < 64"
    "s2 AND 0x3f < 64"
    "push_bit 4 (s0 AND 3) < 64"
    "push_bit 2 (s1 AND 0x0f) < 64"
  by (rule byte_less_64I; simp add: bit_simps bit_byte_beyond)+

lemma sextets_join:
  fixes s0 s1 s2 :: byte
  shows "push_bit 2 (drop_bit 2 s0 AND 0x3f) OR drop_bit 4 (push_bit 4 (s0 AND 3) OR drop_bit 4 s1) = s0"
    "push_bit 4 (push_bit 4 (s0 AND 3) OR drop_bit 4 s1) OR
       drop_bit 2 (push_bit 2 (s1 AND 0x0f) OR drop_bit 6 s2) = s1"
    "push_bit 6 (push_bit 2 (s1 AND 0x0f) OR drop_bit 6 s2) OR (s2 AND 0x3f) = s2"
    "push_bit 4 (push_bit 4 (s0 AND 3) OR drop_bit 4 s1) OR drop_bit 2 (push_bit 2 (s1 AND 0x0f)) = s1"
    "push_bit 2 (drop_bit 2 s0 AND 0x3f) OR drop_bit 4 (push_bit 4 (s0 AND 3)) = s0"
  by (rule byte_bits_eqI; simp add: bit_simps bit_byte_beyond)+

section \<open>Sizes and induction by blocks of three\<close>

lemma triples_induct [case_names more two one nil]:
  fixes P :: "byte list \<Rightarrow> bool"
  assumes "\<And>a b c s. P s \<Longrightarrow> P (a # b # c # s)" "\<And>a b. P [a, b]" "\<And>a. P [a]" "P []"
  shows "P s"
  using hky_encode_base64_internal.induct [of "\<lambda>s _ _. P s"] assms by blast

lemma add_3_div_mod:
  "Suc (Suc (Suc n)) div 3 = Suc (n div 3)" "Suc (Suc (Suc n)) mod 3 = n mod 3"
  "(3 + n) div 3 = Suc (n div 3)" "(3 + n) mod 3 = n mod 3"
  "(5 + n) div 3 = Suc ((n + 2) div 3)" "(7 + n) div 4 = Suc ((n + 3) div 4)"
  "(Suc (Suc (Suc (Suc n))) + 3) div 4 = Suc ((n + 3) div 4)"
  by presburger+

lemma encode_padding:
  "hky_encode_base64_internal s basis padding =
   hky_encode_base64_internal s basis False @
   replicate (if padding then (3 - length s mod 3) mod 3 else 0) 61"
  by (induction s rule: triples_induct) (simp_all add: add_3_div_mod numeral_2_eq_2)

lemma length_encode_unpadded:
  "length (hky_encode_base64_internal s basis False) = length s div 3 * 4 + (if length s mod 3 = 0 then 0 else length s mod 3 + 1)"
  by (induction s rule: triples_induct) (simp_all add: add_3_div_mod)

lemma length_encode_padded:
  "length (hky_encode_base64_internal s basis True) = (length s + 2) div 3 * 4"
  by (induction s rule: triples_induct) (simp_all add: add_3_div_mod)

lemma length_unpack: "length (base64_unpack basis s) \<le> (length s + 3) div 4 * 3"
  by (induction basis s rule: base64_unpack.induct) (simp_all add: add_3_div_mod)

lemma scan_le: "base64_scan basis s = Some n \<Longrightarrow> n \<le> length s"
  by (induction s arbitrary: n) (auto split: if_splits)

lemma length_decode:
  assumes "hky_decode_base64_internal src basis = Some d"
  shows "length d \<le> hky_base64_decoded_length (length src)"
proof -
  obtain n where n: "base64_scan basis src = Some n" "d = base64_unpack basis (take n src)"
    using assms by (auto simp: hky_decode_base64_internal_def split: option.splits if_splits)
  then have "length d \<le> (n + 3) div 4 * 3"
    using length_unpack [of basis "take n src"] scan_le [OF n(1)] by (simp add: min_absorb2)
  also have "\<dots> \<le> (length src + 3) div 4 * 3"
    using scan_le [OF n(1)] by (intro mult_le_mono1 div_le_mono) simp
  finally show ?thesis by (simp add: hky_base64_decoded_length_def)
qed

section \<open>The alphabets are inverse tables\<close>

text \<open>A pair of tables of which the second decodes every character of the first.\<close>

locale base64_alphabet =
  fixes enc dec :: "byte list"
  assumes dec_enc: "k < 64 \<Longrightarrow> dec ! unat (enc ! k) = word_of_nat k"
    and enc_not_pad: "k < 64 \<Longrightarrow> enc ! k \<noteq> 61"
begin

lemma dec_enc_byte: "w < 64 \<Longrightarrow> dec ! unat (enc ! unat w) = (w :: byte)"
  using dec_enc [of "unat w"] by (simp add: word_less_nat_alt)

lemma encode_chars: "set (hky_encode_base64_internal s enc False) \<subseteq> {enc ! unat w | w :: byte. w < 64}"
  by (induction s rule: triples_induct)
     (simp_all only: hky_encode_base64_internal.simps if_False append_Nil2 append_Nil set_simps insert_subset
       empty_subsetI, (use sextets in blast)+)

lemma scan_chars:
  assumes "set t \<subseteq> {enc ! unat w | w :: byte. w < 64}"
  shows "base64_scan dec (t @ replicate n 61) = Some (length t)"
  using assms
proof (induction t)
  case Nil
  then show ?case by (cases n) simp_all
next
  case (Cons c t)
  then obtain w :: byte where w: "w < 64" "c = enc ! unat w" by auto
  then have "w \<noteq> 77" by auto
  then have "c \<noteq> 61" "dec ! unat c \<noteq> 77"
    using w enc_not_pad [of "unat w"] dec_enc_byte [of w] by (auto simp: word_less_nat_alt)
  then show ?case using Cons by simp
qed

lemma unpack_encode: "base64_unpack dec (hky_encode_base64_internal s enc False) = s"
  by (induction s rule: triples_induct)
     (simp_all only: hky_encode_base64_internal.simps base64_unpack.simps if_False append_Nil2 append_Nil
       append_Cons dec_enc_byte sextets sextets_join)

text \<open>Decoding the encoding of \<open>s\<close>, padded or not, gives \<open>s\<close> back.\<close>

lemma decode_encode:
  "hky_decode_base64_internal (hky_encode_base64_internal s enc padding) dec = Some s"
proof -
  define t where "t = hky_encode_base64_internal s enc False"
  have "base64_scan dec (hky_encode_base64_internal s enc padding) = Some (length t)"
    unfolding encode_padding [of s enc padding] t_def by (rule scan_chars [OF encode_chars])
  moreover have "take (length t) (hky_encode_base64_internal s enc padding) = t"
    unfolding encode_padding [of s enc padding] t_def by simp
  moreover have "length t mod 4 \<noteq> 1"
    by (simp add: t_def length_encode_unpadded)
  ultimately show ?thesis
    by (simp add: hky_decode_base64_internal_def t_def unpack_encode)
qed

end

section \<open>The two alphabets of the source\<close>

lemma all_sextets: "(\<forall>k<64. P k) \<longleftrightarrow> list_all P [0..<64]"
  by (auto simp: list_all_iff)

interpretation std: base64_alphabet basis64_encode basis64_decode
proof
  have "\<forall>k<64. basis64_decode ! unat (basis64_encode ! k) = word_of_nat k \<and> basis64_encode ! k \<noteq> 61"
    unfolding all_sextets by (simp add: upt_conv_Cons basis64_encode_def basis64_decode_def)
  then show "k < 64 \<Longrightarrow> basis64_decode ! unat (basis64_encode ! k) = word_of_nat k"
    and "k < 64 \<Longrightarrow> basis64_encode ! k \<noteq> 61" for k by auto
qed

interpretation url: base64_alphabet basis64url_encode basis64url_decode
proof
  have "\<forall>k<64. basis64url_decode ! unat (basis64url_encode ! k) = word_of_nat k \<and> basis64url_encode ! k \<noteq> 61"
    unfolding all_sextets by (simp add: upt_conv_Cons basis64url_encode_def basis64url_decode_def)
  then show "k < 64 \<Longrightarrow> basis64url_decode ! unat (basis64url_encode ! k) = word_of_nat k"
    and "k < 64 \<Longrightarrow> basis64url_encode ! k \<noteq> 61" for k by auto
qed

text \<open>
  C4: Decoding inverts encoding for both base64 alphabets, and the output sizes are what the
  size macros tell callers to allocate: the padded encoding has exactly
  \<open>hky_base64_encoded_length\<close> characters, the unpadded one at most as many, and no input,
  valid or not, decodes to more than \<open>hky_base64_decoded_length\<close> bytes.
\<close>

theorem base64_round_trip:
  "hky_decode_base64 (hky_encode_base64 s) = Some s \<and>
   hky_decode_base64url (hky_encode_base64url s) = Some s \<and>
   length (hky_encode_base64 s) = hky_base64_encoded_length (length s) \<and>
   length (hky_encode_base64url s) \<le> hky_base64_encoded_length (length s) \<and>
   list_all (\<lambda>d. length d \<le> hky_base64_decoded_length (length t))
     (List.map_filter (\<lambda>d. d) [hky_decode_base64 t, hky_decode_base64url t])"
proof (intro conjI)
  show "hky_decode_base64 (hky_encode_base64 s) = Some s"
    by (simp add: hky_decode_base64_def hky_encode_base64_def std.decode_encode)
  show "hky_decode_base64url (hky_encode_base64url s) = Some s"
    by (simp add: hky_decode_base64url_def hky_encode_base64url_def url.decode_encode)
  show "length (hky_encode_base64 s) = hky_base64_encoded_length (length s)"
    by (simp add: hky_encode_base64_def hky_base64_encoded_length_def length_encode_padded)
  show "length (hky_encode_base64url s) \<le> hky_base64_encoded_length (length s)"
    unfolding hky_encode_base64url_def hky_base64_encoded_length_def length_encode_unpadded
    by (auto split: if_splits) presburger+
  show "list_all (\<lambda>d. length d \<le> hky_base64_decoded_length (length t))
     (List.map_filter (\<lambda>d. d) [hky_decode_base64 t, hky_decode_base64url t])"
    by (auto simp: hky_decode_base64_def hky_decode_base64url_def map_filter_simps
        dest: length_decode split: option.splits)
qed

end
