(* ===== verification/Hky_Escape.thy ===== *)
theory Hky_Escape
  imports Hky_Number
begin

text \<open>
  The escaping routines of src/core/hky_string.c: \<open>hky_escape_uri\<close> with its seven character
  sets, \<open>hky_unescape_uri\<close>, \<open>hky_escape_html\<close> and \<open>hky_escape_json\<close>. Each escaper has two
  modes, selected by \<open>dst == NULL\<close>: counting the characters that escaping adds, and writing
  the escaped text; they are two definitions here. The lemmas show that the counts are what
  the writers add, and that the escaped texts decode to the original. The \<open>size\<close> argument is
  the length of the list.
\<close>

section \<open>URI escaping\<close>

text \<open>The seven bitmaps of \<open>hky_escape_uri\<close>, in the order of its \<open>map\<close> array.\<close>

definition uri_escape_uri :: "u32 list" where
  "uri_escape_uri =
     [0xffffffff, 0x80000029, 0x00000000, 0x80000000, 0xffffffff, 0xffffffff, 0xffffffff, 0xffffffff]"

definition uri_escape_args :: "u32 list" where
  "uri_escape_args =
     [0xffffffff, 0x88000869, 0x00000000, 0x80000000, 0xffffffff, 0xffffffff, 0xffffffff, 0xffffffff]"

definition uri_escape_component :: "u32 list" where
  "uri_escape_component =
     [0xffffffff, 0xfc009fff, 0x78000001, 0xb8000001, 0xffffffff, 0xffffffff, 0xffffffff, 0xffffffff]"

definition uri_escape_html :: "u32 list" where
  "uri_escape_html =
     [0xffffffff, 0x000000ad, 0x00000000, 0x80000000, 0xffffffff, 0xffffffff, 0xffffffff, 0xffffffff]"

definition uri_escape_refresh :: "u32 list" where
  "uri_escape_refresh =
     [0xffffffff, 0x00000085, 0x00000000, 0x80000000, 0xffffffff, 0xffffffff, 0xffffffff, 0xffffffff]"

definition uri_escape_memcached :: "u32 list" where
  "uri_escape_memcached =
     [0xffffffff, 0x00000021, 0x00000000, 0x00000000, 0x00000000, 0x00000000, 0x00000000, 0x00000000]"

definition uri_escape_map :: "u32 list list" where
  "uri_escape_map =
     [uri_escape_uri, uri_escape_args, uri_escape_component, uri_escape_html, uri_escape_refresh,
      uri_escape_memcached, uri_escape_memcached]"

lemmas uri_tables = uri_escape_map_def uri_escape_uri_def uri_escape_args_def
  uri_escape_component_def uri_escape_html_def uri_escape_refresh_def uri_escape_memcached_def

text \<open>The bit test \<open>escape[*src >> 5] & (1U << (*src & 0x1f))\<close>.\<close>

definition escape_bit :: "u32 list \<Rightarrow> byte \<Rightarrow> bool" where
  "escape_bit escape c \<longleftrightarrow> escape ! unat (drop_bit 5 c) AND push_bit (unat (c AND 0x1f)) 1 \<noteq> 0"

fun escape_uri_count :: "u32 list \<Rightarrow> byte list \<Rightarrow> nat" where
  "escape_uri_count escape [] = 0"
| "escape_uri_count escape (c # src) =
     (if escape_bit escape c then Suc (escape_uri_count escape src) else escape_uri_count escape src)"

fun escape_uri_write :: "u32 list \<Rightarrow> byte list \<Rightarrow> byte list" where
  "escape_uri_write escape [] = []"
| "escape_uri_write escape (c # src) =
     (if escape_bit escape c
      then 37 # hex_upper ! unat (drop_bit 4 c) # hex_upper ! unat (c AND 0xf) # escape_uri_write escape src
      else c # escape_uri_write escape src)"

definition hky_escape_uri_count :: "byte list \<Rightarrow> nat \<Rightarrow> nat" where
  "hky_escape_uri_count src type = escape_uri_count (uri_escape_map ! type) src"

definition hky_escape_uri :: "byte list \<Rightarrow> nat \<Rightarrow> byte list" where
  "hky_escape_uri src type = escape_uri_write (uri_escape_map ! type) src"

definition HKY_ESCAPE_REFRESH :: nat where [hky_consts]: "HKY_ESCAPE_REFRESH = 4"

section \<open>URI unescaping\<close>

datatype unescape_state = sw_usual | sw_quoted | sw_quoted_second

definition HKY_UNESCAPE_URI :: u64 where [hky_consts]: "HKY_UNESCAPE_URI = 1"
definition HKY_UNESCAPE_REDIRECT :: u64 where [hky_consts]: "HKY_UNESCAPE_REDIRECT = 2"

text \<open>
  The loop of \<open>hky_unescape_uri\<close>: the written bytes and the unread rest of the source (which
  is not empty after \<open>goto done\<close>). \<open>prev\<close> is the byte read before the current one, the
  \<open>*(s - 2)\<close> of the C code.
\<close>

fun unescape_loop ::
  "u64 \<Rightarrow> unescape_state \<Rightarrow> byte \<Rightarrow> byte \<Rightarrow> byte list \<Rightarrow> byte list \<times> byte list" where
  "unescape_loop type st decoded prev [] = ([], [])"
| "unescape_loop type sw_usual decoded prev (ch # s) =
     (if ch = 63 \<and> type AND (HKY_UNESCAPE_URI OR HKY_UNESCAPE_REDIRECT) \<noteq> 0 then ([ch], s)
      else if ch = 37 then unescape_loop type sw_quoted decoded ch s
      else apfst ((#) ch) (unescape_loop type sw_usual decoded ch s))"
| "unescape_loop type sw_quoted decoded prev (ch # s) =
     (if ch \<ge> 48 \<and> ch \<le> 57 then unescape_loop type sw_quoted_second (ch - 48) ch s
      else let c = ch OR 0x20 in
        if c \<ge> 97 \<and> c \<le> 102 then unescape_loop type sw_quoted_second (c - 97 + 10) ch s
        else apfst ((#) ch) (unescape_loop type sw_usual decoded ch s))"
| "unescape_loop type sw_quoted_second decoded prev (ch # s) =
     (if ch \<ge> 48 \<and> ch \<le> 57 then
        let x = push_bit 4 decoded + (ch - 48) in
        if type AND HKY_UNESCAPE_REDIRECT \<noteq> 0 then
          if x > 37 \<and> x < 0x7f then apfst ((#) x) (unescape_loop type sw_usual decoded ch s)
          else apfst (\<lambda>d. 37 # prev # ch # d) (unescape_loop type sw_usual decoded ch s)
        else apfst ((#) x) (unescape_loop type sw_usual decoded ch s)
      else let c = ch OR 0x20 in
        if c \<ge> 97 \<and> c \<le> 102 then
          let x = push_bit 4 decoded + (c - 97) + 10 in
          if type AND HKY_UNESCAPE_URI \<noteq> 0 then
            if x = 63 then ([x], s) else apfst ((#) x) (unescape_loop type sw_usual decoded ch s)
          else if type AND HKY_UNESCAPE_REDIRECT \<noteq> 0 then
            if x = 63 then ([x], s)
            else if x > 37 \<and> x < 0x7f then apfst ((#) x) (unescape_loop type sw_usual decoded ch s)
            else apfst (\<lambda>d. 37 # prev # ch # d) (unescape_loop type sw_usual decoded ch s)
          else apfst ((#) x) (unescape_loop type sw_usual decoded ch s)
        else unescape_loop type sw_usual decoded ch s)"

definition hky_unescape_uri :: "byte list \<Rightarrow> u64 \<Rightarrow> byte list \<times> byte list" where
  "hky_unescape_uri src type = unescape_loop type sw_usual 0 0 src"

section \<open>HTML escaping\<close>

fun hky_escape_html_count :: "byte list \<Rightarrow> nat" where
  "hky_escape_html_count [] = 0"
| "hky_escape_html_count (ch # src) =
     (if ch = 60 then 3 else if ch = 62 then 3 else if ch = 38 then 4 else if ch = 34 then 5 else 0)
     + hky_escape_html_count src"

fun hky_escape_html :: "byte list \<Rightarrow> byte list" where
  "hky_escape_html [] = []"
| "hky_escape_html (ch # src) =
     (if ch = 60 then bytes_of ''&lt;''
      else if ch = 62 then bytes_of ''&gt;''
      else if ch = 38 then bytes_of ''&amp;''
      else if ch = 34 then bytes_of ''&quot;''
      else [ch]) @ hky_escape_html src"

section \<open>JSON escaping\<close>

fun hky_escape_json_count :: "byte list \<Rightarrow> nat" where
  "hky_escape_json_count [] = 0"
| "hky_escape_json_count (ch # src) =
     (if ch = 92 \<or> ch = 34 then 1
      else if ch \<le> 0x1f then
        (if ch = 10 \<or> ch = 13 \<or> ch = 9 \<or> ch = 8 \<or> ch = 12 then 1 else 5)
      else 0) + hky_escape_json_count src"

fun hky_escape_json :: "byte list \<Rightarrow> byte list" where
  "hky_escape_json [] = []"
| "hky_escape_json (ch # src) =
     (if ch > 0x1f then (if ch = 92 \<or> ch = 34 then [92, ch] else [ch])
      else 92 #
       (if ch = 10 then bytes_of ''n''
        else if ch = 13 then bytes_of ''r''
        else if ch = 9 then bytes_of ''t''
        else if ch = 8 then bytes_of ''b''
        else if ch = 12 then bytes_of ''f''
        else bytes_of ''u00'' @ [48 + drop_bit 4 ch,
          let ch = ch AND 0xf in if ch < 10 then 48 + ch else 65 + ch - 10]))
     @ hky_escape_json src"

section \<open>The counting modes agree with the writing modes\<close>

lemma escape_uri_length: "length (escape_uri_write e s) = length s + 2 * escape_uri_count e s"
  by (induction s) simp_all

lemma escape_html_length: "length (hky_escape_html s) = length s + hky_escape_html_count s"
  by (induction s) simp_all

lemma escape_json_length: "length (hky_escape_json s) = length s + hky_escape_json_count s"
  by (induction s) (auto simp: word_le_def word_less_def not_less)

text \<open>
  The counting mode of every escaper (\<open>dst == NULL\<close>) announces exactly what the writing
  mode adds: two bytes per counted character for a URI, one byte per unit for HTML and JSON,
  so a destination of that size is filled and never overrun.
\<close>

theorem escape_counts_exact:
  "length (hky_escape_uri s type) = length s + 2 * hky_escape_uri_count s type \<and>
   length (hky_escape_html s) = length s + hky_escape_html_count s \<and>
   length (hky_escape_json s) = length s + hky_escape_json_count s"
  by (simp add: hky_escape_uri_def hky_escape_uri_count_def escape_uri_length escape_html_length
      escape_json_length)

section \<open>Unescaping inverts URI escaping\<close>

lemma percent_escaped:
  assumes "type < 7" and "type \<noteq> HKY_ESCAPE_REFRESH"
  shows "escape_bit (uri_escape_map ! type) 37"
proof -
  have "\<forall>t\<in>set [0, 1, 2, 3, 5, 6]. escape_bit (uri_escape_map ! t) 37"
    by (simp add: escape_bit_def uri_tables)
  moreover have "type \<in> set [0, 1, 2, 3, 5, 6]" using assms by (auto simp: hky_consts)
  ultimately show ?thesis by blast
qed

lemma all_nibbles: "(\<forall>k<16. P k) \<longleftrightarrow> list_all P [0..<16]"
  by (auto simp: list_all_iff)

lemma hex_upper_digit:
  assumes "k < 16"
  shows "let ch = hex_upper ! k; c = ch OR 0x20 in
    (if ch \<ge> 48 \<and> ch \<le> 57 then ch - 48 = word_of_nat k
     else c \<ge> 97 \<and> c \<le> 102 \<and> c - 97 + 10 = word_of_nat k)"
proof -
  have "\<forall>k<16. let ch = hex_upper ! k; c = ch OR 0x20 in
    (if ch \<ge> 48 \<and> ch \<le> 57 then ch - 48 = word_of_nat k
     else c \<ge> 97 \<and> c \<le> 102 \<and> c - 97 + 10 = word_of_nat k)"
    unfolding all_nibbles by (simp add: upt_conv_Cons hex_upper_def Let_def)
  then show ?thesis using assms by blast
qed

lemma unescape_first_digit:
  "k < 16 \<Longrightarrow> unescape_loop type sw_quoted decoded prev (hex_upper ! k # s) =
    unescape_loop type sw_quoted_second (word_of_nat k) (hex_upper ! k) s"
  using hex_upper_digit [of k] by (auto simp: Let_def split: if_splits)

lemma unescape_second_digit:
  "k < 16 \<Longrightarrow> unescape_loop 0 sw_quoted_second decoded prev (hex_upper ! k # s) =
    apfst ((#) (push_bit 4 decoded + word_of_nat k)) (unescape_loop 0 sw_usual decoded (hex_upper ! k) s)"
  using hex_upper_digit [of k] by (auto simp: Let_def add.assoc split: if_splits)

lemma nibbles:
  fixes c :: byte
  shows "unat (drop_bit 4 c) < 16" "unat (c AND 0xf) < 16"
    "push_bit 4 (drop_bit 4 c) + (c AND 0xf) = c"
proof -
  have a: "c AND 0xf = take_bit 4 c" by (simp add: take_bit_eq_mask mask_eq_exp_minus_1)
  show "unat (drop_bit 4 c) < 16"
    using unat_byte_lt [of c] by (simp add: unat_drop_bit_eq) (simp add: drop_bit_eq_div less_mult_imp_div_less)
  show "unat (c AND 0xf) < 16"
    unfolding a using take_bit_nat_less_exp [of 4 "unat c"] by (simp add: unsigned_take_bit_eq)
  show "push_bit 4 (drop_bit 4 c) + (c AND 0xf) = c"
    unfolding a by (metis bits_ident)
qed

lemma unescape_escaped_byte:
  "unescape_loop 0 sw_quoted decoded prev (hex_upper ! unat (drop_bit 4 c) # hex_upper ! unat (c AND 0xf) # s)
   = apfst ((#) c) (unescape_loop 0 sw_usual (drop_bit 4 c) (hex_upper ! unat (c AND 0xf)) s)"
proof -
  have "word_of_nat (unat w) = w" for w :: byte by simp
  then show ?thesis by (simp only: unescape_first_digit unescape_second_digit nibbles)
qed

lemma unescape_write:
  assumes "escape_bit e 37"
  shows "unescape_loop 0 sw_usual decoded prev (escape_uri_write e s) = (s, [])"
  using assms
proof (induction s arbitrary: decoded prev)
  case (Cons c s)
  show ?case
  proof (cases "escape_bit e c")
    case True
    then show ?thesis using Cons
      by (simp del: unescape_loop.simps add: unescape_loop.simps(1,2) unescape_escaped_byte hky_consts)
  next
    case False
    then have "c \<noteq> 37" using Cons.prems by auto
    then show ?thesis using False Cons by simp
  qed
qed simp

text \<open>
  C5: \<open>hky_unescape_uri\<close> with type 0 inverts \<open>hky_escape_uri\<close> for each of its character sets
  but \<open>HKY_ESCAPE_REFRESH\<close>, and reads its whole input. The exclusion is needed: the bitmap of
  \<open>HKY_ESCAPE_REFRESH\<close> does not have the percent sign that its comment lists, so it writes
  the text \<open>%41\<close> unchanged, which decodes to \<open>A\<close>.
\<close>

theorem unescape_escape_uri:
  assumes "type < 7" and "type \<noteq> HKY_ESCAPE_REFRESH"
  shows "hky_unescape_uri (hky_escape_uri s type) 0 = (s, [])"
  using percent_escaped [OF assms] by (simp add: hky_unescape_uri_def hky_escape_uri_def unescape_write)

theorem unescape_escape_uri_witness:
  "hky_unescape_uri (hky_escape_uri (bytes_of ''a b%'') 2) 0 = (bytes_of ''a b%'', []) \<and>
   hky_unescape_uri (hky_escape_uri (bytes_of ''%41'') 4) 0 = (bytes_of ''A'', [])"
  using unescape_escape_uri [of 2 "bytes_of ''a b%''"]
  by (simp add: hky_consts) (simp add: hky_unescape_uri_def hky_escape_uri_def escape_bit_def uri_tables)

section \<open>Unescaping in place\<close>

text \<open>
  The bytes written so far plus the unread rest never exceed what was read: a pending
  \<open>%\<close> counts one, a pending \<open>%\<close> and digit two. With \<open>dst\<close> and \<open>src\<close> the same buffer, as the
  URI parsers of a server call it, the write pointer therefore stays behind the read pointer.
\<close>

fun pending :: "unescape_state \<Rightarrow> nat" where
  "pending sw_usual = 0"
| "pending sw_quoted = 1"
| "pending sw_quoted_second = 2"

definition in_place :: "byte list \<Rightarrow> nat \<Rightarrow> byte list \<times> byte list \<Rightarrow> bool" where
  "in_place s credit r \<longleftrightarrow>
     length (fst r) + length (snd r) \<le> length s + credit \<and> (\<exists>x. s = x @ snd r)"

lemma in_place_if: "in_place s n a \<Longrightarrow> in_place s n b \<Longrightarrow> in_place s n (if P then a else b)"
  by simp

lemma in_place_step:
  "in_place s m r \<Longrightarrow> m \<le> Suc n \<Longrightarrow> in_place (ch # s) n r"
  "in_place s m r \<Longrightarrow> m \<le> n \<Longrightarrow> in_place (ch # s) n (apfst ((#) x) r)"
  "in_place s m r \<Longrightarrow> Suc (Suc m) \<le> n \<Longrightarrow> in_place (ch # s) n (apfst (\<lambda>d. x # y # z # d) r)"
  "in_place (ch # s) n ([x], s)"
  unfolding in_place_def by (auto intro: exI [of _ "ch # _"])

lemma unescape_loop_in_place: "in_place s (pending st) (unescape_loop type st decoded prev s)"
proof (induction s arbitrary: st decoded prev)
  case Nil
  then show ?case by (simp add: in_place_def)
next
  case (Cons ch s)
  show ?case
    by (cases st; simp only: unescape_loop.simps Let_def)
       ((intro in_place_if in_place_step(4) in_place_step(1) [OF Cons.IH] in_place_step(2) [OF Cons.IH]
          in_place_step(3) [OF Cons.IH]; simp)+)
qed

text \<open>
  \<open>hky_unescape_uri\<close>, whatever its type, writes no more than it reads and leaves a suffix
  of its input unread, so it can decode a buffer in place.
\<close>

theorem unescape_uri_in_place:
  "length (fst (hky_unescape_uri s type)) + length (snd (hky_unescape_uri s type)) \<le> length s \<and>
   (\<exists>x. s = x @ snd (hky_unescape_uri s type))"
  using unescape_loop_in_place [of s sw_usual type 0 0] by (simp add: hky_unescape_uri_def in_place_def)

section \<open>HTML and JSON escaping is injective and safe\<close>

lemma html_escape_inj: "hky_escape_html s = hky_escape_html t \<Longrightarrow> s = t"
proof (induction s arbitrary: t)
  case Nil
  then show ?case by (cases t) (auto split: if_splits)
next
  case (Cons c s)
  then obtain d t' where t: "t = d # t'" by (cases t) (auto split: if_splits)
  have "c = d \<and> hky_escape_html s = hky_escape_html t'"
    using Cons.prems unfolding t by (auto split: if_splits)
  then show ?case using Cons.IH t by simp
qed

text \<open>The string part of a JSON lexer: the text closes no string literal it is put into.\<close>

fun json_closed :: "byte list \<Rightarrow> bool" where
  "json_closed [] = True"
| "json_closed [c] = (c > 0x1f \<and> c \<noteq> 34 \<and> c \<noteq> 92)"
| "json_closed (c # d # s) =
     (if c = 92 then json_closed s \<and> d > 0x1f else c > 0x1f \<and> c \<noteq> 34 \<and> json_closed (d # s))"

lemma json_closed_Cons: "c > 0x1f \<Longrightarrow> c \<noteq> 34 \<Longrightarrow> c \<noteq> 92 \<Longrightarrow> json_closed (c # s) = json_closed s"
  by (cases s) simp_all

text \<open>What one source byte becomes, and a reader of the first byte of an escaped text.\<close>

definition json_code :: "byte \<Rightarrow> byte list" where
  "json_code ch = hky_escape_json [ch]"

lemma escape_json_Cons: "hky_escape_json (ch # s) = json_code ch @ hky_escape_json s"
  by (simp add: json_code_def)

definition json_first :: "byte list \<Rightarrow> byte" where
  "json_first t =
     (if t ! 0 \<noteq> 92 then t ! 0
      else if t ! 1 = 110 then 10 else if t ! 1 = 114 then 13 else if t ! 1 = 116 then 9
      else if t ! 1 = 98 then 8 else if t ! 1 = 102 then 12
      else if t ! 1 = 117 then
        push_bit 4 (t ! 4 - 48) + (if t ! 5 \<le> 57 then t ! 5 - 48 else t ! 5 - 55)
      else t ! 1)"

lemma control_bytes:
  assumes "list_all (\<lambda>k. P (word_of_nat k)) [0..<32]" and "(c::byte) \<le> 0x1f"
  shows "P c"
proof -
  have lt: "unat c < 32" using assms(2) by (simp add: word_le_nat_alt)
  have all: "\<forall>k\<in>set [0..<32]. P (word_of_nat k)" using assms(1) by (simp add: list_all_iff)
  have "P (word_of_nat (unat c))" by (rule bspec [OF all, of "unat c"]) (use lt in simp)
  then show ?thesis by simp
qed

lemma json_code_control:
  assumes "c \<le> 0x1f"
  shows "(\<forall>r. json_first (json_code c @ r) = c) \<and> (\<forall>r. json_closed (json_code c @ r) = json_closed r)"
  by (rule control_bytes [OF _ assms])
     (simp add: upt_conv_Cons json_first_def json_code_def json_closed_Cons Let_def)

lemma json_code_inverse: "json_first (json_code c @ r) = c"
proof (cases "c \<le> 0x1f")
  case False
  then show ?thesis by (auto simp: json_code_def json_first_def not_le)
qed (simp add: json_code_control)

lemma json_code_closed: "json_closed (json_code c @ r) = json_closed r"
proof (cases "c \<le> 0x1f")
  case False
  then show ?thesis by (auto simp: json_code_def json_closed_Cons not_le)
qed (simp add: json_code_control)

lemma json_closed_escape: "json_closed (hky_escape_json s)"
  by (induction s) (simp_all only: escape_json_Cons json_code_closed, simp)

lemma json_escape_inj: "hky_escape_json s = hky_escape_json t \<Longrightarrow> s = t"
proof (induction s arbitrary: t)
  case Nil
  then show ?case by (cases t) (auto split: if_splits)
next
  case (Cons c s)
  then obtain d t' where t: "t = d # t'" by (cases t) (auto split: if_splits)
  have "c = d"
    using Cons.prems json_code_inverse unfolding t escape_json_Cons by metis
  then show ?case using Cons by (simp only: t escape_json_Cons append_same_eq same_append_eq)
qed

lemma html_escape_safe: "c \<in> set (hky_escape_html s) \<Longrightarrow> c \<noteq> 60 \<and> c \<noteq> 62 \<and> c \<noteq> 34"
  by (induction s) (auto split: if_splits)

text \<open>
  C6: HTML and JSON escaping lose nothing and let nothing through: no two texts have the same
  escaped form; an HTML-escaped text has no angle bracket and no double quote; a JSON-escaped
  text, read as the inside of a string literal, has no control character, no unescaped quote
  and no dangling backslash.
\<close>

theorem escape_html_json_safe:
  "inj hky_escape_html \<and> inj hky_escape_json \<and> json_closed (hky_escape_json s) \<and>
   set (hky_escape_html s) \<inter> {60, 62, 34} = {}"
proof (intro conjI json_closed_escape)
  show "inj hky_escape_html" by (rule injI) (rule html_escape_inj)
  show "inj hky_escape_json" by (rule injI) (rule json_escape_inj)
  show "set (hky_escape_html s) \<inter> {60, 62, 34} = {}" using html_escape_safe [of _ s] by blast
qed

end
