(* ===== verification/Hky_Utf8.thy ===== *)
theory Hky_Utf8
  imports Husky_Base
begin

text \<open>
  The UTF-8 routines of src/core/hky_string.c: \<open>hky_utf8_decode\<close>, \<open>hky_utf8_length\<close> and
  \<open>hky_utf8_cpystrn\<close>. Positions are the list of bytes from the pointer on. The lemmas relate
  them to the standard encoding of code points, \<open>utf8_encode\<close>.
\<close>

section \<open>The code\<close>

text \<open>
  The loop of the decoder over the \<open>len\<close> continuation bytes: \<open>None\<close> is a read past the
  object, the first component is \<open>None\<close> after a byte below 0x80.
\<close>

fun utf8_continue :: "byte list \<Rightarrow> nat \<Rightarrow> u32 \<Rightarrow> (u32 option \<times> byte list) option" where
  "utf8_continue p 0 u = Some (Some u, p)"
| "utf8_continue [] (Suc len) u = None"
| "utf8_continue (c # p) (Suc len) u =
     (let i = ucast c :: u32 in
      if i < 0x80 then Some (None, p)
      else utf8_continue p len (push_bit 6 u OR (i AND 0x3f)))"

text \<open>The leading byte: \<open>u\<close> with its marker removed, \<open>valid\<close> and \<open>len\<close>.\<close>

definition utf8_lead :: "byte \<Rightarrow> (u32 \<times> u32 \<times> nat) option" where
  "utf8_lead c =
     (let u = ucast c :: u32 in
      if u \<ge> 0xf0 then Some (u AND 0x07, 0xffff, 3)
      else if u \<ge> 0xe0 then Some (u AND 0x0f, 0x7ff, 2)
      else if u \<ge> 0xc2 then Some (u AND 0x1f, 0x7f, 1)
      else None)"

definition hky_utf8_decode :: "byte list \<Rightarrow> u64 \<Rightarrow> (u32 \<times> byte list) option" where
  "hky_utf8_decode p n =
     (case p of [] \<Rightarrow> None
      | c # p' \<Rightarrow>
        (case utf8_lead c of
           None \<Rightarrow> Some (0xffffffff, p')
         | Some (u, valid, len) \<Rightarrow>
             if n - 1 < word_of_nat len then Some (0xfffffffe, p)
             else (case utf8_continue p' len u of
                 None \<Rightarrow> None
               | Some (None, q) \<Rightarrow> Some (0xffffffff, q)
               | Some (Some u, q) \<Rightarrow> if u > valid then Some (u, q) else Some (0xffffffff, q))))"

lemma utf8_continue_length:
  "utf8_continue p len u = Some (r, q) \<Longrightarrow> length q \<le> length p"
  by (induction p len u rule: utf8_continue.induct) (auto simp: Let_def split: if_splits)

lemma hky_utf8_decode_shorter:
  "hky_utf8_decode p n = Some (u, q) \<Longrightarrow> u \<le> 0x10ffff \<Longrightarrow> length q < length p"
  unfolding hky_utf8_decode_def
  by (auto split: list.splits option.splits prod.splits if_splits dest: utf8_continue_length)

text \<open>
  \<open>hky_utf8_length\<close>: \<open>m\<close> is \<open>last - p\<close>, or 0 once \<open>p\<close> has passed \<open>last\<close>. The decoder is
  called with \<open>n\<close>, the size of the whole text, as the source has it.
\<close>

function utf8_length_loop :: "nat \<Rightarrow> byte list \<Rightarrow> nat \<Rightarrow> nat \<Rightarrow> nat option" where
  "utf8_length_loop n p m len =
     (if m = 0 then Some len
      else case p of [] \<Rightarrow> None
      | c # p' \<Rightarrow>
        if c < 0x80 then utf8_length_loop n p' (m - 1) (Suc len)
        else (case hky_utf8_decode p (word_of_nat n) of
            None \<Rightarrow> None
          | Some (u, q) \<Rightarrow>
              if u > 0x10ffff then Some n
              else utf8_length_loop n q (m - (length p - length q)) (Suc len)))"
  by pat_completeness auto

termination
  by (relation "measure (\<lambda>(n, p, m, len). length p)")
     (auto simp: not_less dest!: hky_utf8_decode_shorter)

declare utf8_length_loop.simps [simp del]

definition hky_utf8_length :: "byte list \<Rightarrow> nat \<Rightarrow> nat option" where
  "hky_utf8_length p n = utf8_length_loop n p n 0"

text \<open>
  \<open>hky_utf8_cpystrn\<close>: the bytes stored from \<open>dst\<close> on, the terminating zero included. The
  loop's first argument is \<open>n\<close> after the decrement of its test.
\<close>

fun utf8_cpystrn_loop :: "nat \<Rightarrow> byte list \<Rightarrow> u64 \<Rightarrow> byte list option" where
  "utf8_cpystrn_loop 0 src len = Some [0]"
| "utf8_cpystrn_loop (Suc n) src len =
     (case src of [] \<Rightarrow> None
      | c # src' \<Rightarrow>
        if c < 0x80 then
          (if c \<noteq> 0 then map_option ((#) c) (utf8_cpystrn_loop n src' (len - 1)) else Some [0])
        else (case hky_utf8_decode src len of
            None \<Rightarrow> None
          | Some (u, next) \<Rightarrow>
              if u > 0x10ffff then Some [0]
              else let k = length src - length next in
                map_option ((@) (take k src)) (utf8_cpystrn_loop n next (len - word_of_nat k))))"

definition hky_utf8_cpystrn :: "byte list \<Rightarrow> nat \<Rightarrow> u64 \<Rightarrow> byte list option" where
  "hky_utf8_cpystrn src n len = (if n = 0 then Some [] else utf8_cpystrn_loop (n - 1) src len)"

section \<open>The standard encoding\<close>

definition utf8_encode :: "nat \<Rightarrow> byte list" where
  "utf8_encode u =
     (if u < 0x80 then [word_of_nat u]
      else if u < 0x800 then [word_of_nat (0xc0 + u div 64), word_of_nat (0x80 + u mod 64)]
      else if u < 0x10000 then
        [word_of_nat (0xe0 + u div 4096), word_of_nat (0x80 + u div 64 mod 64), word_of_nat (0x80 + u mod 64)]
      else
        [word_of_nat (0xf0 + u div 262144), word_of_nat (0x80 + u div 4096 mod 64),
         word_of_nat (0x80 + u div 64 mod 64), word_of_nat (0x80 + u mod 64)])"

lemma unat_ucast_byte32: "unat (ucast (c :: byte) :: u32) = unat c"
proof -
  have "uint (ucast c :: u32) = uint c" by (rule uint_up_ucast) (simp add: is_up)
  then show ?thesis by (metis nat_uint_eq)
qed

lemma unat_ucast_of_nat: "k < 256 \<Longrightarrow> unat (ucast (word_of_nat k :: byte) :: u32) = k"
  unfolding unat_ucast_byte32 by (simp add: unat_of_nat_small)

lemma continuation_step:
  assumes "k < 64" "unat u < 67108864"
  shows "utf8_continue (word_of_nat (128 + k) # p) (Suc len) u =
    utf8_continue p len (word_of_nat (unat u * 64 + k))"
proof -
  let ?i = "ucast (word_of_nat (128 + k) :: byte) :: u32"
  have m: "(128 + k) mod 64 = k" using assms(1) mod_mult_self1 [of k 2 64] by (simp add: add.commute)
  have i: "unat ?i = 128 + k" using assms by (intro unat_ucast_of_nat) simp
  have a: "?i AND 0x3f = take_bit 6 ?i" by (simp add: take_bit_eq_mask mask_eq_exp_minus_1)
  have k: "unat (?i AND 0x3f) = k"
    unfolding a unsigned_take_bit_eq i using m by (simp add: take_bit_eq_mod)
  have "push_bit 6 u OR (?i AND 0x3f) = push_bit 6 u + (?i AND 0x3f)"
    unfolding a by (rule disjunctive_add [symmetric]) (auto simp: bit_simps)
  moreover have "push_bit 6 u + (?i AND 0x3f) = word_of_nat (unat u * 64 + k)"
  proof (rule word_unat_eq_iff [THEN iffD2])
    have p: "unat (push_bit 6 u) = unat u * 64"
      using assms(2) unat_mult_lem [of u "64 :: u32"] by (simp add: push_bit_eq_mult)
    have s: "unat (push_bit 6 u + (?i AND 0x3f)) = unat u * 64 + k"
      using unat_add_lem [of "push_bit 6 u" "?i AND 0x3f"] assms unfolding p k by simp
    show "unat (push_bit 6 u + (?i AND 0x3f)) = unat (word_of_nat (unat u * 64 + k) :: u32)"
      unfolding s by (rule unat_of_nat_small [symmetric]) (use assms in simp)
  qed
  ultimately have "push_bit 6 u OR (?i AND 0x3f) = word_of_nat (unat u * 64 + k)" by (rule trans)
  moreover have "\<not> ?i < 0x80" using i by (simp add: word_less_nat_alt)
  ultimately show ?thesis by (simp add: Let_def)
qed

lemma all_below: "list_all P [m..<n] \<Longrightarrow> m \<le> k \<Longrightarrow> k < n \<Longrightarrow> P (k :: nat)"
  by (simp add: list_all_iff)

lemma utf8_lead_2: "2 \<le> k \<Longrightarrow> k < 32 \<Longrightarrow> utf8_lead (word_of_nat (0xc0 + k)) = Some (word_of_nat k, 0x7f, 1)"
  by (rule all_below [of _ 2 32]) (simp_all add: upt_conv_Cons utf8_lead_def)

lemma utf8_lead_3: "k < 16 \<Longrightarrow> utf8_lead (word_of_nat (0xe0 + k)) = Some (word_of_nat k, 0x7ff, 2)"
  by (rule all_below [of _ 0 16]) (simp_all add: upt_conv_Cons utf8_lead_def)

lemma utf8_lead_4: "k < 8 \<Longrightarrow> utf8_lead (word_of_nat (0xf0 + k)) = Some (word_of_nat k, 0xffff, 3)"
  by (rule all_below [of _ 0 8]) (simp_all add: upt_conv_Cons utf8_lead_def)

lemma n_minus_1:
  assumes "len < m" "m < 2 ^ 64"
  shows "\<not> (word_of_nat m :: u64) - 1 < word_of_nat len"
proof -
  have "(word_of_nat m :: u64) - 1 = word_of_nat (m - 1)" using assms(1) by (simp add: of_nat_diff)
  then show ?thesis using assms by (simp add: word_less_nat_alt unat_of_nat_small del: of_nat_diff)
qed

lemma unat_of_nat32: "k < 4294967296 \<Longrightarrow> unat (word_of_nat k :: u32) = k"
  by (simp add: unat_of_nat_small)

lemma decode_2:
  assumes "2 \<le> a" "a < 32" "b < 64" "1 < m" "m < 2 ^ 64"
  shows "hky_utf8_decode (word_of_nat (0xc0 + a) # word_of_nat (0x80 + b) # r) (word_of_nat m) =
    Some (word_of_nat (a * 64 + b), r)"
proof -
  have "utf8_continue (word_of_nat (0x80 + b) # r) 1 (word_of_nat a) = Some (Some (word_of_nat (a * 64 + b)), r)"
    using continuation_step [of b "word_of_nat a" r 0] assms unat_of_nat32 [of a] by simp
  moreover have "(0x7f :: u32) < word_of_nat (a * 64 + b)"
    using assms unat_of_nat32 [of "a * 64 + b"] by (simp add: word_less_nat_alt del: of_nat_add of_nat_mult)
  ultimately show ?thesis
    using n_minus_1 [OF assms(4,5)] utf8_lead_2 [OF assms(1,2)] 
    by (simp add: hky_utf8_decode_def del: of_nat_add of_nat_mult utf8_continue.simps)
qed

lemma decode_3:
  assumes "a < 16" "b < 64" "c < 64" "0x800 \<le> (a * 64 + b) * 64 + c" "2 < m" "m < 2 ^ 64"
  shows "hky_utf8_decode (word_of_nat (0xe0 + a) # word_of_nat (0x80 + b) # word_of_nat (0x80 + c) # r) (word_of_nat m) =
    Some (word_of_nat ((a * 64 + b) * 64 + c), r)"
proof -
  have "utf8_continue (word_of_nat (0x80 + b) # word_of_nat (0x80 + c) # r) 2 (word_of_nat a) =
    Some (Some (word_of_nat ((a * 64 + b) * 64 + c)), r)"
    using continuation_step [of b "word_of_nat a" _ 1] continuation_step [of c "word_of_nat (a * 64 + b)" r 0]
      assms unat_of_nat32 [of a] unat_of_nat32 [of "a * 64 + b"]
    by (simp add: numeral_2_eq_2 del: of_nat_add of_nat_mult)
  moreover have "(0x7ff :: u32) < word_of_nat ((a * 64 + b) * 64 + c)"
    using assms unat_of_nat32 [of "(a * 64 + b) * 64 + c"] by (simp add: word_less_nat_alt del: of_nat_add of_nat_mult)
  ultimately show ?thesis
    using n_minus_1 [OF assms(5,6)] utf8_lead_3 [OF assms(1)]
    by (simp add: hky_utf8_decode_def del: of_nat_add of_nat_mult utf8_continue.simps)
qed

lemma decode_4:
  assumes "a < 8" "b < 64" "c < 64" "d < 64" "0x10000 \<le> ((a * 64 + b) * 64 + c) * 64 + d" "3 < m" "m < 2 ^ 64"
  shows "hky_utf8_decode (word_of_nat (0xf0 + a) # word_of_nat (0x80 + b) # word_of_nat (0x80 + c) #
      word_of_nat (0x80 + d) # r) (word_of_nat m) =
    Some (word_of_nat (((a * 64 + b) * 64 + c) * 64 + d), r)"
proof -
  have "utf8_continue (word_of_nat (0x80 + b) # word_of_nat (0x80 + c) # word_of_nat (0x80 + d) # r) 3 (word_of_nat a) =
    Some (Some (word_of_nat (((a * 64 + b) * 64 + c) * 64 + d)), r)"
    using continuation_step [of b "word_of_nat a" _ 2] continuation_step [of c "word_of_nat (a * 64 + b)" _ 1]
      continuation_step [of d "word_of_nat ((a * 64 + b) * 64 + c)" r 0]
      assms unat_of_nat32 [of a] unat_of_nat32 [of "a * 64 + b"] unat_of_nat32 [of "(a * 64 + b) * 64 + c"]
    by (simp add: numeral_2_eq_2 numeral_3_eq_3 del: of_nat_add of_nat_mult)
  moreover have "(0xffff :: u32) < word_of_nat (((a * 64 + b) * 64 + c) * 64 + d)"
    using assms unat_of_nat32 [of "((a * 64 + b) * 64 + c) * 64 + d"]
    by (simp add: word_less_nat_alt del: of_nat_add of_nat_mult)
  ultimately show ?thesis
    using n_minus_1 [OF assms(6,7)] utf8_lead_4 [OF assms(1)]
    by (simp add: hky_utf8_decode_def del: of_nat_add of_nat_mult utf8_continue.simps)
qed

lemma div_div: "u div 4096 = u div 64 div (64::nat)" "u div 262144 = u div 64 div 64 div (64::nat)"
  by (simp_all flip: div_mult2_eq)

lemma utf8_decode_encode:
  assumes "0x80 \<le> u" "u \<le> 0x10ffff" "length (utf8_encode u) \<le> m" "m < 2 ^ 64"
  shows "hky_utf8_decode (utf8_encode u @ r) (word_of_nat m) = Some (word_of_nat u, r)"
proof -
  consider "u < 0x800" | "0x800 \<le> u" "u < 0x10000" | "0x10000 \<le> u" by linarith
  then show ?thesis
  proof cases
    case 1
    have e: "u div 64 * 64 + u mod 64 = u"
      by (simp only: div_div div_mult_mod_eq)
    have v: "utf8_encode u = [word_of_nat (0xc0 + u div 64), word_of_nat (0x80 + u mod 64)]"
      using 1 assms(1) by (simp add: utf8_encode_def)
    have l: "1 < m" using assms(3) v by simp
    show ?thesis
      unfolding v append_Cons append_Nil
      by (rule decode_2 [of "u div 64" "u mod 64" m r, unfolded e])
         (use 1 assms(1,2,4) l in auto)
  next
    case 2
    have e: "(u div 4096 * 64 + u div 64 mod 64) * 64 + u mod 64 = u"
      by (simp only: div_div div_mult_mod_eq)
    have v: "utf8_encode u = [word_of_nat (0xe0 + u div 4096), word_of_nat (0x80 + u div 64 mod 64),
        word_of_nat (0x80 + u mod 64)]"
      using 2 by (simp add: utf8_encode_def)
    have l: "2 < m" using assms(3) v by simp
    show ?thesis
      unfolding v append_Cons append_Nil
      by (rule decode_3 [of "u div 4096" "u div 64 mod 64" "u mod 64" m r, unfolded e])
         (use 2 assms(1,2,4) l in auto)
  next
    case 3
    have e: "((u div 262144 * 64 + u div 4096 mod 64) * 64 + u div 64 mod 64) * 64 + u mod 64 = u"
      by (simp only: div_div div_mult_mod_eq)
    have v: "utf8_encode u = [word_of_nat (0xf0 + u div 262144), word_of_nat (0x80 + u div 4096 mod 64),
        word_of_nat (0x80 + u div 64 mod 64), word_of_nat (0x80 + u mod 64)]"
      using 3 by (simp add: utf8_encode_def)
    have l: "3 < m" using assms(3) v by simp
    show ?thesis
      unfolding v append_Cons append_Nil
      by (rule decode_4 [of "u div 262144" "u div 4096 mod 64" "u div 64 mod 64" "u mod 64" m r, unfolded e])
         (use 3 assms(1,2,4) l in auto)
  qed
qed

section \<open>Texts that are encodings of code points\<close>

definition utf8_text :: "nat list \<Rightarrow> byte list" where
  "utf8_text us = concat (map utf8_encode us)"

lemma utf8_text_simps [simp]:
  "utf8_text [] = []" "utf8_text (u # us) = utf8_encode u @ utf8_text us"
  by (simp_all add: utf8_text_def)

lemma encode_ascii:
  "u < 0x80 \<Longrightarrow> utf8_encode u = [word_of_nat u]"
  "u < 0x80 \<Longrightarrow> (word_of_nat u :: byte) < 0x80"
  "u < 0x80 \<Longrightarrow> (word_of_nat u :: byte) = 0 \<longleftrightarrow> u = 0"
proof -
  assume u: "u < 0x80"
  then have n: "unat (word_of_nat u :: byte) = u" by (intro unat_of_nat_small) simp
  show "utf8_encode u = [word_of_nat u]" using u by (simp add: utf8_encode_def)
  show "(word_of_nat u :: byte) < 0x80" using u n by (simp add: word_less_nat_alt)
  show "(word_of_nat u :: byte) = 0 \<longleftrightarrow> u = 0" using n by (metis unat_0 unat_eq_0)
qed

lemma encode_multi:
  assumes "0x80 \<le> u" "u \<le> 0x10ffff"
  obtains c cs where "utf8_encode u = c # cs" "\<not> c < 0x80"
proof -
  have H: "\<not> (word_of_nat (0xc0 + k) :: byte) < 0x80" if "k < 64" for k
    using that unat_of_nat_small [of "0xc0 + k", where 'a = 8] by (simp add: word_less_nat_alt)
  consider "u < 0x800" | "0x800 \<le> u" "u < 0x10000" | "0x10000 \<le> u" by linarith
  then show thesis
  proof cases
    case 1
    have "u div 64 < 64" using 1 by (simp add: less_mult_imp_div_less)
    then show thesis using 1 assms that H [of "u div 64"] by (simp add: utf8_encode_def)
  next
    case 2
    have "u div 4096 < 16" using 2 by (simp add: less_mult_imp_div_less)
    then show thesis using 2 assms that H [of "32 + u div 4096"] by (simp add: utf8_encode_def)
  next
    case 3
    have "u div 262144 < 8" using assms by (simp add: less_mult_imp_div_less)
    then show thesis using 3 assms that H [of "48 + u div 262144"] by (simp add: utf8_encode_def)
  qed
qed

lemma not_above: "u \<le> 0x10ffff \<Longrightarrow> \<not> (word_of_nat u :: u32) > 0x10ffff"
  using unat_of_nat32 [of u] by (simp add: word_less_nat_alt)

lemma utf8_length_text:
  assumes "\<forall>u\<in>set us. u \<le> 0x10ffff" "length (utf8_text us) \<le> n" "n < 2 ^ 64"
  shows "utf8_length_loop n (utf8_text us @ r) (length (utf8_text us)) len = Some (len + length us)"
  using assms
proof (induction us arbitrary: len)
  case Nil
  then show ?case by (simp add: utf8_length_loop.simps)
next
  case (Cons u us)
  show ?case
  proof (cases "u < 0x80")
    case True
    then show ?thesis
      using Cons by (simp add: encode_ascii utf8_length_loop.simps [of n "word_of_nat u # _"])
  next
    case False
    then obtain c cs where c: "utf8_encode u = c # cs" "\<not> c < 0x80"
      using encode_multi [of u] Cons.prems by auto
    have "hky_utf8_decode (c # cs @ utf8_text us @ r) (word_of_nat n) = Some (word_of_nat u, utf8_text us @ r)"
      using utf8_decode_encode [of u n "utf8_text us @ r"] False Cons.prems c by simp
    then show ?thesis
      using Cons c not_above [of u] by (simp add: utf8_length_loop.simps [of n "c # _"])
  qed
qed

lemma utf8_cpystrn_text:
  assumes "\<forall>u\<in>set us. 0 < u \<and> u \<le> 0x10ffff" "length (utf8_text us) \<le> len" "len < 2 ^ 64"
  shows "utf8_cpystrn_loop n (utf8_text us @ 0 # r) (word_of_nat len) =
    Some (utf8_text (take n us) @ [0])"
  using assms
proof (induction us arbitrary: n len)
  case Nil
  then show ?case by (cases n) simp_all
next
  case (Cons u us)
  show ?case
  proof (cases n)
    case (Suc k)
    have IH: "utf8_cpystrn_loop k (utf8_text us @ 0 # r) (word_of_nat len - word_of_nat (length (utf8_encode u)))
        = Some (utf8_text (take k us) @ [0])"
      using Cons.IH [of "len - length (utf8_encode u)" k] Cons.prems by (simp add: of_nat_diff)
    show ?thesis
    proof (cases "u < 0x80")
      case True
      then show ?thesis using IH Suc Cons.prems by (simp add: encode_ascii)
    next
      case False
      then obtain c cs where c: "utf8_encode u = c # cs" "\<not> c < 0x80"
        using encode_multi [of u] Cons.prems by auto
      have "hky_utf8_decode (c # cs @ utf8_text us @ 0 # r) (word_of_nat len) =
          Some (word_of_nat u, utf8_text us @ 0 # r)"
        using utf8_decode_encode [of u len "utf8_text us @ 0 # r"] False Cons.prems c by simp
      then show ?thesis
        using IH Suc c not_above [of u] Cons.prems by (simp add: Let_def)
    qed
  qed simp
qed

text \<open>
  C7: On a text that is the UTF-8 encoding of code points, \<open>hky_utf8_decode\<close> reads one code
  point and stops behind it, \<open>hky_utf8_length\<close> is the number of code points, and
  \<open>hky_utf8_cpystrn\<close> stores exactly the first \<open>n - 1\<close> code points and a zero. Its \<open>n\<close> counts
  characters, not bytes: the destination needs up to \<open>4 (n - 1) + 1\<close> bytes.
\<close>

theorem utf8_text_correct:
  assumes "\<forall>u\<in>set (v # us). 0 < u \<and> u \<le> 0x10ffff" and "length (utf8_text (v # us)) < 2 ^ 64"
  shows "(0x80 \<le> v \<longrightarrow> hky_utf8_decode (utf8_text (v # us) @ r) (word_of_nat (length (utf8_text (v # us))))
            = Some (word_of_nat v, utf8_text us @ r)) \<and>
    hky_utf8_length (utf8_text (v # us) @ r) (length (utf8_text (v # us))) = Some (length (v # us)) \<and>
    hky_utf8_cpystrn (utf8_text (v # us) @ 0 # r) (Suc n) (word_of_nat (length (utf8_text (v # us))))
      = Some (utf8_text (take n (v # us)) @ [0])"
proof (intro conjI impI)
  show "hky_utf8_decode (utf8_text (v # us) @ r) (word_of_nat (length (utf8_text (v # us))))
      = Some (word_of_nat v, utf8_text us @ r)" if "0x80 \<le> v"
    using that utf8_decode_encode [of v "length (utf8_text (v # us))" "utf8_text us @ r"] assms by simp
  show "hky_utf8_length (utf8_text (v # us) @ r) (length (utf8_text (v # us))) = Some (length (v # us))"
    unfolding hky_utf8_length_def using utf8_length_text [of "v # us" _ r 0] assms by simp
  show "hky_utf8_cpystrn (utf8_text (v # us) @ 0 # r) (Suc n) (word_of_nat (length (utf8_text (v # us))))
      = Some (utf8_text (take n (v # us)) @ [0])"
    unfolding hky_utf8_cpystrn_def using utf8_cpystrn_text [OF assms(1) order_refl assms(2), of n r] by (simp del: utf8_text_simps)
qed

theorem utf8_text_correct_witness:
  "hky_utf8_decode [0xe2, 0x82, 0xac, 0x31] 4 = Some (0x20ac, [0x31]) \<and>
   hky_utf8_length [0xe2, 0x82, 0xac, 0x31] 4 = Some 2 \<and>
   hky_utf8_cpystrn [0xe2, 0x82, 0xac, 0x31, 0] 2 4 = Some [0xe2, 0x82, 0xac, 0]"
  using utf8_text_correct [where v = "0x20ac" and us = "[0x31]" and r = "[]" and n = 1]
    numeral_2_eq_2 [symmetric]
  by (simp add: utf8_encode_def)

text \<open>
  \<open>hky_utf8_length\<close> passes the size of the whole text to the decoder for every character,
  not the number of bytes that are left, so a text that ends inside a multibyte character is
  read beyond its end.
\<close>

theorem utf8_length_over_read:
  "hky_utf8_length [0x61, 0xc3] 2 = None \<and> hky_utf8_length [0x61, 0xc3, 0xa9] 2 = Some 2"
  by (simp add: hky_utf8_length_def utf8_length_loop.simps hky_utf8_decode_def utf8_lead_def Let_def)

end
