(* ===== verification/Hky_Pool_Life.thy ===== *)
theory Hky_Pool_Life
  imports Hky_Palloc "HOL-Library.Multiset"
begin

text \<open>
  The life of a memory pool (src/core/hky_palloc.c): its cleanup handlers, large allocations
  made with \<open>hky_pmemalign\<close> and given back with \<open>hky_pfree\<close>, reset and destruction.
  A handler is a function address; what it does is not visible to the pool, so calls of
  handlers and of \<open>hky_free\<close> are recorded as events in the order in which they happen.
\<close>

section \<open>Cleanup handlers\<close>

definition hky_pool_cleanup_add :: "allocator \<Rightarrow> nat \<Rightarrow> hky_pool \<Rightarrow> nat \<times> hky_pool" where
  "hky_pool_cleanup_add os sz p =
     (let (c, p) = hky_palloc os sizeof_cleanup p
      in if c = 0 then (0, p)
         else if sz \<noteq> 0 then
           (let (d, p) = hky_palloc os sz p
            in if d = 0 then (0, p)
               else (c, p\<lparr>p_cleanup := \<lparr>c_cell = c, c_handler = 0, c_data = d\<rparr> # p_cleanup p\<rparr>))
         else (c, p\<lparr>p_cleanup := \<lparr>c_cell = c, c_handler = 0, c_data = 0\<rparr> # p_cleanup p\<rparr>))"

datatype pool_event = Run nat nat | Free nat

text \<open>
  The handler \<open>hky_pool_cleanup_file\<close> of the first entry for \<open>fd\<close> is run ahead of time and
  cleared; \<open>file_handler\<close> is its address and \<open>cf_fd\<close> reads the descriptor of the data.
\<close>

fun run_cleanup_file_loop :: "nat \<Rightarrow> (nat \<Rightarrow> int) \<Rightarrow> int \<Rightarrow> hky_pool_cleanup list \<Rightarrow>
    pool_event list \<times> hky_pool_cleanup list" where
  "run_cleanup_file_loop file_handler cf_fd fd [] = ([], [])"
| "run_cleanup_file_loop file_handler cf_fd fd (c # cs) =
     (if c_handler c = file_handler \<and> cf_fd (c_data c) = fd
      then ([Run (c_handler c) (c_data c)], c\<lparr>c_handler := 0\<rparr> # cs)
      else let (es, cs) = run_cleanup_file_loop file_handler cf_fd fd cs in (es, c # cs))"

definition hky_pool_run_cleanup_file :: "nat \<Rightarrow> (nat \<Rightarrow> int) \<Rightarrow> int \<Rightarrow> hky_pool \<Rightarrow> pool_event list \<times> hky_pool" where
  "hky_pool_run_cleanup_file file_handler cf_fd fd p =
     (let (es, cs) = run_cleanup_file_loop file_handler cf_fd fd (p_cleanup p)
      in (es, p\<lparr>p_cleanup := cs\<rparr>))"

text \<open>The two handlers for files, by the system calls they make and the entries they log.\<close>

datatype file_event = Close_file int | Delete_file nat | Log_alert int | Log_crit int

definition HKY_ENOENT :: int where "HKY_ENOENT = 2"

definition hky_pool_cleanup_file :: "int \<Rightarrow> int option \<Rightarrow> file_event list" where
  "hky_pool_cleanup_file fd close_err =
     Close_file fd # (case close_err of Some e \<Rightarrow> [Log_alert e] | None \<Rightarrow> [])"

definition hky_pool_delete_file :: "nat \<Rightarrow> int \<Rightarrow> int option \<Rightarrow> int option \<Rightarrow> file_event list" where
  "hky_pool_delete_file name fd delete_err close_err =
     Delete_file name # (case delete_err of Some e \<Rightarrow> if e \<noteq> HKY_ENOENT then [Log_crit e] else [] | None \<Rightarrow> []) @
     Close_file fd # (case close_err of Some e \<Rightarrow> [Log_alert e] | None \<Rightarrow> [])"

section \<open>Destruction\<close>

fun run_cleanups :: "hky_pool_cleanup list \<Rightarrow> pool_event list" where
  "run_cleanups [] = []"
| "run_cleanups (c # cs) = (if c_handler c \<noteq> 0 then [Run (c_handler c) (c_data c)] else []) @ run_cleanups cs"

fun free_large_events :: "hky_pool_large list \<Rightarrow> pool_event list" where
  "free_large_events [] = []"
| "free_large_events (l # ls) = (if l_alloc l \<noteq> 0 then [Free (l_alloc l)] else []) @ free_large_events ls"

fun free_blocks :: "hky_pool_data list \<Rightarrow> 'a sys_scheme \<Rightarrow> pool_event list \<times> 'a sys_scheme" where
  "free_blocks [] s = ([], s)"
| "free_blocks (b # bs) s = (let (es, s) = free_blocks bs (hky_free (d_base b) s) in (Free (d_base b) # es, s))"

definition hky_destroy_pool :: "hky_pool \<Rightarrow> pool_event list \<times> hky_pool" where
  "hky_destroy_pool p =
     (let s = free_larges (p_large p) p;
          (es, s) = free_blocks (p_blocks p) s
      in (run_cleanups (p_cleanup p) @ free_large_events (p_large p) @ es, s))"

section \<open>Large allocations\<close>

lemma sys_live_free_larges [simp]:
  "sys_live (free_larges ls s) = filter (\<lambda>r. \<not> (fst r \<noteq> 0 \<and> fst r \<in> l_alloc ` set ls)) (sys_live s)"
  by (induction ls s rule: free_larges.induct) (auto simp: hky_free_def intro!: filter_cong)

lemma sys_live_self: "\<exists>live. s = s\<lparr>sys_live := live\<rparr>" for s :: "'a sys_scheme"
  by (cases s) simp

lemma free_larges_eq: "\<exists>live. free_larges ls s = s\<lparr>sys_live := live\<rparr>" for s :: "'a sys_scheme"
proof (induction ls s rule: free_larges.induct)
  case (1 s)
  show ?case unfolding free_larges.simps by (rule sys_live_self)
next
  case (2 l ls s)
  from "2.IH" obtain live where *: "free_larges ls (if l_alloc l \<noteq> 0 then hky_free (l_alloc l) s else s) =
      (if l_alloc l \<noteq> 0 then hky_free (l_alloc l) s else s)\<lparr>sys_live := live\<rparr>" by blast
  show ?case
    unfolding free_larges.simps * by (rule exI [of _ live]) (simp add: hky_free_def)
qed

lemma free_blocks_spec:
  "fst (free_blocks bs s) = map (\<lambda>b. Free (d_base b)) bs"
  "sys_live (snd (free_blocks bs s)) = filter (\<lambda>r. fst r \<notin> d_base ` set bs) (sys_live s)"
proof (induction bs s rule: free_blocks.induct)
  case (2 b bs s)
  {
    case 1
    show ?case using "2.IH"(1) by (simp add: case_prod_beta)
  next
    case 2
    have "sys_live (snd (free_blocks (b # bs) s)) = sys_live (snd (free_blocks bs (hky_free (d_base b) s)))"
      by (simp add: case_prod_beta)
    also have "\<dots> = filter (\<lambda>r. fst r \<notin> d_base ` set bs) (filter (\<lambda>r. fst r \<noteq> d_base b) (sys_live s))"
      using "2.IH"(2) by (simp add: hky_free_def)
    also have "\<dots> = filter (\<lambda>r. fst r \<notin> d_base ` set (b # bs)) (sys_live s)"
      unfolding filter_filter by (rule filter_cong) auto
    finally show ?case .
  }
qed simp_all

lemma free_large_events_eq: "free_large_events ls = map Free (filter (\<lambda>a. a \<noteq> 0) (map l_alloc ls))"
  by (induction ls) simp_all

lemma run_cleanups_append [simp]: "run_cleanups (cs @ ds) = run_cleanups cs @ run_cleanups ds"
  by (induction cs) simp_all

lemma hky_free_fresh:
  assumes "p \<notin> fst ` set live"
  shows "hky_free p (s\<lparr>sys_live := (p, sz) # live\<rparr>) = s\<lparr>sys_live := live\<rparr>"
proof -
  have "filter (\<lambda>r. fst r \<noteq> p) live = live" using assms by (auto simp: filter_id_conv)
  then show ?thesis by (simp add: hky_free_def)
qed

lemma pmemalign_inv:
  assumes inv: "pool_inv n p cs" and os: "lawful_os os"
    and call: "hky_pmemalign os sz al p = (r, p')"
  shows "r = 0 \<Longrightarrow> pool_inv n p' cs"
    "r \<noteq> 0 \<Longrightarrow> al dvd r \<and> (\<exists>cell. pool_inv n p' ((r, sz) # (cell, sizeof_large) # cs))"
proof -
  have ok: "pool_ok n p" using inv by (simp add: pool_inv_def)
  note live = pool_okD(6) [OF ok]
  obtain m q where m: "hky_memalign os al sz p = (m, q)" by fastforce
  have *: "r = 0 \<and> pool_inv n p' cs \<or> r \<noteq> 0 \<and> al dvd r \<and> (\<exists>cell. pool_inv n p' ((r, sz) # (cell, sizeof_large) # cs))"
  proof (cases "m = 0")
    case True
    then have "q = p" using m by (auto simp: hky_memalign_def Let_def split: if_splits)
    then show ?thesis using call m True inv by (simp add: hky_pmemalign_def)
  next
    case False
    note l = memalign_live [OF live os m]
    have ql: "q = p\<lparr>sys_live := (m, sz) # sys_live p\<rparr>" and ml: "al dvd m"
      using l(3,4) False by metis+
    have mfresh: "m \<notin> fst ` set (sys_live p)" using l(1) l(4) False by (simp add: live_ok_def)
    have invq: "pool_inv n q cs" using pool_inv_live [OF inv l(1,2)] l(3) by simp
    obtain cell p2 where c: "hky_palloc_small os sizeof_large True q = (cell, p2)" by fastforce
    have "sizeof_large + 32 \<le> n" using pool_okD(4) [OF ok] by (simp add: pool_sizes)
    note small = palloc_small_inv [OF invq os this c]
    show ?thesis
    proof (cases "cell = 0")
      case True
      then have "p2 = q" using small by simp
      then have "r = 0 \<and> p' = hky_free m q" using call m False c True by (simp add: hky_pmemalign_def large_link_def)
      moreover have "hky_free m q = p" using hky_free_fresh [OF mfresh, where s = p and sz = sz] ql by simp
      ultimately show ?thesis using inv by simp
    next
      case cell: False
      then have inv2: "pool_inv n p2 ((cell, sizeof_large) # cs)" and same: "same_user q p2"
        and mono: "set (sys_live q) \<subseteq> set (sys_live p2)"
        and bases: "\<forall>b\<in>set (p_blocks p2). d_base b \<in> d_base ` set (p_blocks q) \<or> d_base b \<notin> fst ` set (sys_live q)"
        using small by auto
      have r: "r = m" "p' = p2\<lparr>p_large := \<lparr>l_cell = cell, l_alloc = m\<rparr> # p_large p\<rparr>"
        using call m False c cell same ql by (auto simp: hky_pmemalign_def large_link_def same_user_def)
      have ok2: "pool_ok n p2" using inv2 by (simp add: pool_inv_def)
      have large: "p_large p2 = p_large p" using same ql by (simp add: same_user_def)
      have in2: "(m, sz) \<in> set (sys_live p2)" using mono ql by auto
      have nb: "m \<notin> d_base ` set (p_blocks p2)"
      proof
        assume "m \<in> d_base ` set (p_blocks p2)"
        then have "m \<in> d_base ` set (p_blocks p) \<or> m \<notin> fst ` set (sys_live q)" using bases ql by auto
        then have "m \<in> d_base ` set (p_blocks p)" using ql by auto
        then have "m \<in> fst ` set (sys_live p)"
          using pool_okD(8) [OF ok] by (force simp: block_region_def)
        then show False using mfresh by simp
      qed
      have nl: "m \<notin> l_alloc ` set (p_large p)"
        using pool_okD(9) [OF ok] mfresh False by fastforce
      have ok': "pool_ok n p'"
        unfolding pool_ok_def
      proof (intro conjI)
        show "\<forall>l\<in>set (p_large p'). l_alloc l \<noteq> 0 \<longrightarrow>
            l_alloc l \<in> fst ` set (sys_live p') \<and> l_alloc l \<notin> d_base ` set (p_blocks p')"
          proof (intro ballI impI)
          fix l assume "l \<in> set (p_large p')" "l_alloc l \<noteq> 0"
          then consider "l_alloc l = m" | "l \<in> set (p_large p2)" using r large by auto
          then show "l_alloc l \<in> fst ` set (sys_live p') \<and> l_alloc l \<notin> d_base ` set (p_blocks p')"
          proof cases
            case 1
            then show ?thesis using imageI [OF in2, of fst] nb r by simp
          next
            case 2
            then show ?thesis using pool_okD(9,10) [OF ok2 2 \<open>l_alloc l \<noteq> 0\<close>] r by simp
          qed
        qed
        show "distinct (filter (\<lambda>a. a \<noteq> 0) (map l_alloc (p_large p')))"
          using pool_okD(11) [OF ok] nl r by auto
      qed (use pool_okD(1-8) [OF ok2] in \<open>simp_all add: pool_sizes r\<close>)
      have chunks: "chunk_ok p' c" if "chunk_ok p2 c" for c using that large r by (auto simp: chunk_ok_def)
      have mchunk: "chunk_ok p' (m, sz)" using in2 r by (simp add: chunk_ok_def)
      have "disj (m, sz) c" if c: "c \<in> set ((cell, sizeof_large) # cs)" for c
      proof -
        have "chunk_ok p2 c" using inv2 c by (auto simp: pool_inv_def)
        then show ?thesis unfolding chunk_ok_def
        proof (elim disjE exE conjE)
          fix i assume i: "i < length (p_blocks p2)" "inside c (used_region i (p_blocks p2 ! i))"
          have "block_region (p_blocks p2 ! i) \<in> set (sys_live p2)" using pool_okD(8) [OF ok2] i(1) by simp
          moreover have "block_region (p_blocks p2 ! i) \<noteq> (m, sz)" using nb i(1) by (auto simp: block_region_def)
          ultimately have "disj (m, sz) (block_region (p_blocks p2 ! i))"
            using live_ok_disj [OF pool_okD(6) [OF ok2] in2] by metis
          then show ?thesis
            using disj_inside inside_refl inside_trans [OF i(2) used_inside_block [OF pool_okD(5) [OF ok2 i(1)]]] by blast
        next
          assume c2: "c \<in> set (sys_live p2)" "fst c \<in> l_alloc ` set (p_large p2)"
          then have "c \<noteq> (m, sz)" using nl large by auto
          then show ?thesis using live_ok_disj [OF pool_okD(6) [OF ok2] in2 c2(1)] by simp
        qed
      qed
      then have "pool_inv n p' ((m, sz) # (cell, sizeof_large) # cs)"
        using inv2 ok' chunks mchunk by (simp add: pool_inv_def)
      then show ?thesis using r(1) False ml by blast
    qed
  qed
  then show "r = 0 \<Longrightarrow> pool_inv n p' cs"
    "r \<noteq> 0 \<Longrightarrow> al dvd r \<and> (\<exists>cell. pool_inv n p' ((r, sz) # (cell, sizeof_large) # cs))" by auto
qed

subsection \<open>Giving a large allocation back\<close>

lemma pfree_loop_Some:
  "pfree_loop a ls = Some ls' \<Longrightarrow> a \<noteq> 0 \<Longrightarrow>
     a \<in> l_alloc ` set ls \<and>
     filter (\<lambda>a. a \<noteq> 0) (map l_alloc ls') = remove1 a (filter (\<lambda>a. a \<noteq> 0) (map l_alloc ls))"
  by (induction ls arbitrary: ls') (auto split: if_splits option.splits)

lemma pfree_loop_None: "pfree_loop a ls = None \<longleftrightarrow> a \<notin> l_alloc ` set ls"
  by (induction ls) (auto split: option.splits)

lemma pfree_inv:
  assumes inv: "pool_inv n p cs" and a: "a \<noteq> 0" and call: "hky_pfree a p = (rc, p')"
  shows "rc = (if a \<in> l_alloc ` set (p_large p) then HKY_OK else HKY_DECLINED)"
    "rc = HKY_OK \<Longrightarrow> pool_inv n p' (filter (\<lambda>c. fst c \<noteq> a) cs) \<and> a \<notin> fst ` set (sys_live p')"
    "rc \<noteq> HKY_OK \<Longrightarrow> p' = p"
proof -
  have ok: "pool_ok n p" using inv by (simp add: pool_inv_def)
  show "rc = (if a \<in> l_alloc ` set (p_large p) then HKY_OK else HKY_DECLINED)" "rc \<noteq> HKY_OK \<Longrightarrow> p' = p"
    using call pfree_loop_None [of a "p_large p"] by (auto simp: hky_pfree_def split: option.splits)
  assume "rc = HKY_OK"
  then obtain ls where ls: "pfree_loop a (p_large p) = Some ls"
    and p': "p' = p\<lparr>sys_live := filter (\<lambda>r. fst r \<noteq> a) (sys_live p), p_large := ls\<rparr>"
    using call by (auto simp: hky_pfree_def hky_free_def hky_consts split: option.splits)
  note spec = pfree_loop_Some [OF ls a]
  have nz: "{x \<in> l_alloc ` set ls. x \<noteq> 0} = {x \<in> l_alloc ` set (p_large p). x \<noteq> 0} - {a}"
  proof -
    have "set (filter (\<lambda>a. a \<noteq> 0) (map l_alloc ls)) = set (remove1 a (filter (\<lambda>a. a \<noteq> 0) (map l_alloc (p_large p))))"
      using spec by simp
    also have "\<dots> = set (filter (\<lambda>a. a \<noteq> 0) (map l_alloc (p_large p))) - {a}"
      by (rule set_remove1_eq [OF pool_okD(11) [OF ok]])
    finally show ?thesis by auto
  qed
  have nb: "a \<notin> d_base ` set (p_blocks p)" using spec pool_okD(10) [OF ok] a by auto
  have "pool_ok n p'"
    unfolding pool_ok_def
  proof (intro conjI)
    show "live_ok (sys_live p')"
      using pool_okD(6) [OF ok] by (auto simp: p' live_ok_def sorted_wrt_filter distinct_map_filter)
    show "\<forall>b\<in>set (p_blocks p'). block_region b \<in> set (sys_live p')"
      using pool_okD(8) [OF ok] nb by (auto simp: p' block_region_def)
    show "\<forall>l\<in>set (p_large p'). l_alloc l \<noteq> 0 \<longrightarrow>
        l_alloc l \<in> fst ` set (sys_live p') \<and> l_alloc l \<notin> d_base ` set (p_blocks p')"
    proof (intro ballI impI)
      fix l assume "l \<in> set (p_large p')" "l_alloc l \<noteq> 0"
      then have "l_alloc l \<in> {x \<in> l_alloc ` set (p_large p). x \<noteq> 0} - {a}" using nz p' by auto
      then show "l_alloc l \<in> fst ` set (sys_live p') \<and> l_alloc l \<notin> d_base ` set (p_blocks p')"
        using pool_okD(9,10) [OF ok] by (force simp: p')
    qed
    show "distinct (filter (\<lambda>a. a \<noteq> 0) (map l_alloc (p_large p')))"
      using pool_okD(11) [OF ok] spec p' by (simp add: distinct_remove1)
  qed (use pool_okD(1-7) [OF ok] in \<open>simp_all add: pool_sizes p'\<close>)
  moreover have "chunk_ok p' c" if "chunk_ok p c" "fst c \<noteq> a" for c
  proof -
    have "fst c \<in> l_alloc ` set ls" if "c \<in> set (sys_live p)" "fst c \<in> l_alloc ` set (p_large p)"
    proof -
      have "fst c \<noteq> 0" using pool_okD(6) [OF ok] that(1) by (auto simp: live_ok_def)
      then show ?thesis using nz that(2) \<open>fst c \<noteq> a\<close> by blast
    qed
    then show ?thesis using that by (auto simp: chunk_ok_def p')
  qed
  ultimately show "pool_inv n p' (filter (\<lambda>c. fst c \<noteq> a) cs) \<and> a \<notin> fst ` set (sys_live p')"
    using inv by (auto simp: pool_inv_def sorted_wrt_filter p')
qed

subsection \<open>Reset\<close>

lemma reset_inv:
  assumes inv: "pool_inv n p cs"
  shows "pool_inv n (hky_reset_pool p) []"
    "set (sys_live (hky_reset_pool p)) = {r \<in> set (sys_live p). fst r \<notin> l_alloc ` set (p_large p)}"
proof -
  have ok: "pool_ok n p" using inv by (simp add: pool_inv_def)
  note live = pool_okD(6) [OF ok]
  obtain l where l: "free_larges (p_large p) p = p\<lparr>sys_live := l\<rparr>" using free_larges_eq by blast
  have ll: "l = filter (\<lambda>r. \<not> (fst r \<noteq> 0 \<and> fst r \<in> l_alloc ` set (p_large p))) (sys_live p)"
    using sys_live_free_larges [of "p_large p" p] l by simp
  have pos: "\<forall>r\<in>set (sys_live p). fst r \<noteq> 0" using live by (auto simp: live_ok_def)
  let ?f = "\<lambda>b. b\<lparr>d_last := d_base b + sizeof_pool, d_failed := 0\<rparr>"
  have r: "hky_reset_pool p = p\<lparr>sys_live := l, p_blocks := map ?f (p_blocks p), p_current := 0, p_chain := 0, p_large := []\<rparr>"
    by (simp add: hky_reset_pool_def l)
  show "set (sys_live (hky_reset_pool p)) = {r \<in> set (sys_live p). fst r \<notin> l_alloc ` set (p_large p)}"
    using pos by (auto simp: r ll)
  have regs: "block_region (?f b) \<in> set l" if "b \<in> set (p_blocks p)" for b
  proof -
    have b: "block_region b \<in> set (sys_live p)" using pool_okD(8) [OF ok that] .
    have "\<not> (d_base b \<noteq> 0 \<and> d_base b \<in> l_alloc ` set (p_large p))" using pool_okD(10) [OF ok] that by force
    then show ?thesis using b by (auto simp: ll block_region_def)
  qed
  have "pool_ok n (hky_reset_pool p)"
    unfolding pool_ok_def
  proof (intro conjI)
    show "live_ok (sys_live (hky_reset_pool p))"
      using live by (auto simp: r ll live_ok_def sorted_wrt_filter distinct_map_filter)
    show "\<forall>b\<in>set (p_blocks (hky_reset_pool p)). block_region b \<in> set (sys_live (hky_reset_pool p))"
      using regs by (simp add: r)
    show "distinct (map d_base (p_blocks (hky_reset_pool p)))" using pool_okD(7) [OF ok] by (simp add: r comp_def)
    show "\<forall>i<length (p_blocks (hky_reset_pool p)). block_ok n i (p_blocks (hky_reset_pool p) ! i)"
      using pool_okD(4,5) [OF ok] by (auto simp: r block_ok_def block_header_def pool_sizes)
  qed (use pool_okD(1-4) [OF ok] in \<open>simp_all add: pool_sizes r\<close>)
  then show "pool_inv n (hky_reset_pool p) []" by (simp add: pool_inv_def)
qed

section \<open>Properties\<close>

text \<open>
  C10: allocation from a pool. Both functions keep the invariant of the pool, leave the memory
  in use as it is, and return \<open>NULL\<close> or the address of a chunk that lies in memory of the pool,
  meets no chunk in use and, for \<open>hky_palloc\<close>, is aligned to the platform word. A request above
  the limit of the pool always fails: \<open>hky_alloc\<close> never returns memory.
\<close>

theorem pool_allocation_correct:
  assumes os: "lawful_os os" and inv: "pool_inv n p cs"
    and call: "(if aligned then hky_palloc os sz p else hky_pnalloc os sz p) = (r, p')"
  shows "sys_store p' = sys_store p \<and> (p_max p < sz \<longrightarrow> r = 0) \<and>
    (if r = 0 then pool_inv n p' cs
     else pool_inv n p' ((r, sz) # cs) \<and> (\<forall>c\<in>set cs. disj (r, sz) c) \<and> (aligned \<longrightarrow> 8 dvd r))"
proof -
  have "(if sz \<le> p_max p then hky_palloc_small os sz aligned p else hky_palloc_large os sz p) = (r, p')"
    using call by (cases aligned; cases "sz \<le> p_max p") (simp_all add: hky_palloc_def hky_pnalloc_def)
  note a = palloc_inv [OF inv os this]
  have "p_max p < sz \<longrightarrow> r = 0" using a(3) by linarith
  moreover have "sys_store p' = sys_store p" using a(1) by (simp add: same_user_def)
  moreover have "\<forall>c\<in>set cs. disj (r, sz) c" if "r \<noteq> 0" using a(3) [OF that] by (simp add: pool_inv_def)
  ultimately show ?thesis using a(2,3) by simp
qed

lemma sample_palloc: "hky_palloc bump_os 100 sample_pool = (4176, sample_pool
    \<lparr>p_blocks := [\<lparr>d_base = 4096, d_last = 4276, d_end = 5120, d_failed = 0\<rparr>]\<rparr>)"
  by (simp add: sample_pool_def hky_create_pool_def hky_memalign_def bump_os_def boot_def pool_sizes Let_def
      HKY_MAX_ALLOC_FROM_POOL_def hky_palloc_def hky_palloc_small_def sys.defs hky_pool.defs size_t_def align_8)

lemma pool_allocation_correct_witness:
  "pool_inv 1024 (sample_pool\<lparr>p_blocks := [\<lparr>d_base = 4096, d_last = 4276, d_end = 5120, d_failed = 0\<rparr>]\<rparr>) [(4176, 100)]"
  using pool_allocation_correct [OF lawful_bump_os sample_pool_inv, where aligned = True and sz = 100] sample_palloc by simp

text \<open>
  C11: the life of a pool. A pool created with a size that is a multiple of 8 and holds the header
  starts with no memory in use; \<open>hky_pmemalign\<close> adds an aligned chunk and its cell; \<open>hky_pfree\<close> of
  a large allocation gives exactly that region back to the C library, and declines any other
  address without a change; a reset takes back all chunks, frees the large allocations and keeps
  the blocks.
\<close>

theorem pool_life_correct:
  assumes "lawful_os os" "live_ok (sys_live s)" "pool_inv n p cs"
  shows "(8 dvd sz \<and> 80 \<le> sz \<and> hky_create_pool os pagesize sz s = Some p0 \<longrightarrow> pool_inv sz p0 []) \<and>
    (let (r, p1) = hky_pmemalign os sz al p
     in if r = 0 then pool_inv n p1 cs
        else al dvd r \<and> (\<exists>cell. pool_inv n p1 ((r, sz) # (cell, sizeof_large) # cs))) \<and>
    (a \<noteq> 0 \<longrightarrow> (let (rc, p2) = hky_pfree a p
     in if a \<in> l_alloc ` set (p_large p)
        then rc = HKY_OK \<and> pool_inv n p2 (filter (\<lambda>c. fst c \<noteq> a) cs) \<and> a \<notin> fst ` set (sys_live p2)
        else rc = HKY_DECLINED \<and> p2 = p)) \<and>
    pool_inv n (hky_reset_pool p) [] \<and>
    set (sys_live (hky_reset_pool p)) = {r \<in> set (sys_live p). fst r \<notin> l_alloc ` set (p_large p)}"
proof -
  obtain r p1 where r: "hky_pmemalign os sz al p = (r, p1)" by fastforce
  obtain rc p2 where rc: "hky_pfree a p = (rc, p2)" by fastforce
  have "8 dvd sz \<and> 80 \<le> sz \<and> hky_create_pool os pagesize sz s = Some p0 \<longrightarrow> pool_inv sz p0 []"
    using create_pool_inv(1) [OF assms(1,2)] by blast
  moreover have "if r = 0 then pool_inv n p1 cs
        else al dvd r \<and> (\<exists>cell. pool_inv n p1 ((r, sz) # (cell, sizeof_large) # cs))"
    using pmemalign_inv [OF assms(3,1) r] by simp
  moreover have "if a \<in> l_alloc ` set (p_large p)
        then rc = HKY_OK \<and> pool_inv n p2 (filter (\<lambda>c. fst c \<noteq> a) cs) \<and> a \<notin> fst ` set (sys_live p2)
        else rc = HKY_DECLINED \<and> p2 = p" if a: "a \<noteq> 0"
  proof (cases "a \<in> l_alloc ` set (p_large p)")
    case True
    then show ?thesis using pfree_inv(1,2) [OF assms(3) a rc] by simp
  next
    case False
    then show ?thesis using pfree_inv(1,3) [OF assms(3) a rc] by (simp add: hky_consts)
  qed
  ultimately show ?thesis using reset_inv [OF assms(3)] by (simp add: r rc)
qed

lemma pool_life_correct_witness:
  "pool_inv 1024 (hky_reset_pool sample_pool) [] \<and> pool_inv 1024 sample_pool [] \<and> fst (hky_pfree 1 sample_pool) = HKY_DECLINED"
proof -
  have l: "live_ok (sys_live boot)" by (simp add: live_ok_def boot_def)
  have "p_large sample_pool = []"
    by (simp add: sample_pool_def hky_create_pool_def hky_memalign_def bump_os_def boot_def pool_sizes Let_def sys.defs hky_pool.defs)
  then show ?thesis
    using pool_life_correct [OF lawful_bump_os l sample_pool_inv, where a = 1 and sz = 1024 and pagesize = 4096 and ?p0.0 = sample_pool]
      sample_pool_created by (auto simp: case_prod_beta)
qed

text \<open>
  destruction. \<open>hky_destroy_pool\<close> runs every handler that is set, the one added last first,
  then frees every large allocation and every block exactly once, each of them still in use, and
  nothing of the pool stays in use. A handler that \<open>hky_pool_run_cleanup_file\<close> has run is not
  run again: the two together run the same handlers as the destruction alone.
\<close>

theorem destroy_pool_correct:
  assumes "pool_inv n p cs" "file_handler \<noteq> 0"
  shows "let (es, s) = hky_destroy_pool p;
             fs = filter (\<lambda>a. a \<noteq> 0) (map l_alloc (p_large p)) @ map d_base (p_blocks p)
    in es = run_cleanups (p_cleanup p) @ map Free fs \<and> distinct fs \<and>
       set fs \<subseteq> fst ` set (sys_live p) \<and> fst ` set (sys_live s) = fst ` set (sys_live p) - set fs \<and>
       (\<forall>c\<in>set cs. \<forall>r\<in>set (sys_live s). disj c r) \<and>
       (let (es1, p') = hky_pool_run_cleanup_file file_handler cf_fd fd p
        in mset (es1 @ fst (hky_destroy_pool p')) = mset es)"
proof -
  have ok: "pool_ok n p" using assms by (simp add: pool_inv_def)
  let ?fs = "filter (\<lambda>a. a \<noteq> 0) (map l_alloc (p_large p)) @ map d_base (p_blocks p)"
  obtain live where live: "free_larges (p_large p) p = p\<lparr>sys_live := live\<rparr>" using free_larges_eq by blast
  obtain es s where d: "hky_destroy_pool p = (es, s)" by fastforce
  let ?fb = "free_blocks (p_blocks p) (free_larges (p_large p) p)"
  have es: "es = run_cleanups (p_cleanup p) @ map Free ?fs"
    using d free_blocks_spec(1) [of "p_blocks p" "free_larges (p_large p) p"]
    by (simp add: hky_destroy_pool_def Let_def case_prod_beta free_large_events_eq comp_def)
  have s: "s = snd ?fb" using d by (simp add: hky_destroy_pool_def Let_def case_prod_beta)
  have pos: "\<forall>r\<in>set (sys_live p). fst r \<noteq> 0" using pool_okD(6) [OF ok] by (auto simp: live_ok_def)
  have sl: "set (sys_live s) = {r \<in> set (sys_live p). fst r \<notin> set ?fs}"
    unfolding s free_blocks_spec(2) using pos by auto
  have base_live: "d_base ` set (p_blocks p) \<subseteq> fst ` set (sys_live p)"
    using pool_okD(8) [OF ok] by (force simp: block_region_def)
  have large_live: "{a \<in> l_alloc ` set (p_large p). a \<noteq> 0} \<subseteq> fst ` set (sys_live p) - d_base ` set (p_blocks p)"
    using pool_okD(9,10) [OF ok] by auto
  have "disj c r" if c: "c \<in> set cs" and r: "r \<in> set (sys_live s)" for c r
  proof -
    have r': "r \<in> set (sys_live p)" "fst r \<notin> d_base ` set (p_blocks p)" "fst r \<notin> l_alloc ` set (p_large p)"
      using r pos by (auto simp: sl)
    have "chunk_ok p c" using assms(1) c by (simp add: pool_inv_def)
    then show ?thesis unfolding chunk_ok_def
    proof (elim disjE exE conjE)
      fix i assume i: "i < length (p_blocks p)" "inside c (used_region i (p_blocks p ! i))"
      have "block_region (p_blocks p ! i) \<noteq> r" using r'(2) i(1) by (auto simp: block_region_def)
      then have "disj (block_region (p_blocks p ! i)) r"
        using live_ok_disj [OF pool_okD(6) [OF ok] pool_okD(8) [OF ok] r'(1)] i(1) by simp
      then show ?thesis
        using disj_inside inside_refl inside_trans [OF i(2) used_inside_block [OF pool_okD(5) [OF ok i(1)]]] by blast
    next
      assume "c \<in> set (sys_live p)" "fst c \<in> l_alloc ` set (p_large p)"
      then show ?thesis using live_ok_disj [OF pool_okD(6) [OF ok] _ r'(1)] r'(3) by metis
    qed
  qed
  moreover have "mset (es1 @ fst (hky_destroy_pool p')) = mset es"
    if call: "hky_pool_run_cleanup_file file_handler cf_fd fd p = (es1, p')" for es1 p'
  proof -
    have run: "mset (es1 @ run_cleanups cs') = mset (run_cleanups cs)"
      if "run_cleanup_file_loop file_handler cf_fd fd cs = (es1, cs')" for es1 cs' cs
      using that assms(2)
      by (induction cs arbitrary: es1 cs') (auto split: if_splits prod.splits)
    obtain cs' where cs': "run_cleanup_file_loop file_handler cf_fd fd (p_cleanup p) = (es1, cs')" "p' = p\<lparr>p_cleanup := cs'\<rparr>"
      using call by (auto simp: hky_pool_run_cleanup_file_def split: prod.splits)
    have "fst (hky_destroy_pool q) = run_cleanups (p_cleanup q) @
        map Free (filter (\<lambda>a. a \<noteq> 0) (map l_alloc (p_large q))) @ map (\<lambda>b. Free (d_base b)) (p_blocks q)" for q
      using free_blocks_spec(1) [of "p_blocks q" "free_larges (p_large q) q"]
      by (simp add: hky_destroy_pool_def Let_def case_prod_beta free_large_events_eq)
    then show ?thesis using run [OF cs'(1)] by (simp add: es cs'(2) comp_def union_assoc [symmetric])
  qed
  moreover have "distinct ?fs" "set ?fs \<subseteq> fst ` set (sys_live p)"
    using pool_okD(7,11) [OF ok] base_live large_live by auto
  moreover have "fst ` set (sys_live s) = fst ` set (sys_live p) - set ?fs" unfolding sl by auto
  ultimately show ?thesis by (simp add: d Let_def es case_prod_beta split: prod.split)
qed

lemma destroy_pool_correct_witness:
  "fst (hky_destroy_pool sample_pool) = [Free 4096]"
  using destroy_pool_correct [OF sample_pool_inv, of 1]
  by (simp add: sample_pool_def hky_create_pool_def hky_memalign_def bump_os_def boot_def pool_sizes Let_def
      sys.defs hky_pool.defs case_prod_beta)

text \<open>
  the size of a pool has to be a multiple of the platform word. With a pool of 117 bytes,
  two allocations fill the pool to its end; the next aligned allocation rounds \<open>last\<close> up past
  \<open>end\<close>, the difference \<open>end - m\<close> turns into a huge \<open>size_t\<close> and the chunk returned lies outside
  of the block.
\<close>

theorem palloc_beyond_block:
  "\<exists>p p1 p2 p3 r. hky_create_pool bump_os 4096 117 boot = Some p \<and> hky_palloc bump_os 32 p = (4176, p1) \<and>
     hky_pnalloc bump_os 5 p1 = (4208, p2) \<and> hky_palloc bump_os 8 p2 = (r, p3) \<and>
     d_end (hd (p_blocks p3)) < r \<and> length (p_blocks p3) = 1"
  by (simp add: hky_create_pool_def hky_memalign_def bump_os_def boot_def pool_sizes Let_def
      HKY_MAX_ALLOC_FROM_POOL_def hky_palloc_def hky_pnalloc_def hky_palloc_small_def sys.defs hky_pool.defs size_t_def align_8)

section \<open>Copies of texts\<close>

text \<open>\<open>hky_pstrdup\<close> of src/core/hky_string.c: the bytes at \<open>src\<close> in a chunk of their own.\<close>

definition hky_pstrdup :: "allocator \<Rightarrow> nat \<Rightarrow> nat \<Rightarrow> hky_pool \<Rightarrow> nat \<times> hky_pool" where
  "hky_pstrdup os src len pool =
     (let (dst, pool) = hky_pnalloc os len pool
      in if dst = 0 then (0, pool) else (dst, hky_memcpy dst src len pool))"

lemma pstrdup_ok:
  assumes inv: "palloc_inv_of os p cs" and call: "hky_pstrdup os src len p = (r, p')" and r: "r \<noteq> 0"
  shows "palloc_inv_of os p' ((r, len) # cs) \<and> (\<forall>i<len. sys_store p' (r + i) = sys_store p (src + i)) \<and>
    (\<forall>c\<in>set cs. \<forall>i < snd c. sys_store p' (fst c + i) = sys_store p (fst c + i))"
proof -
  obtain q where q: "hky_pnalloc os len p = (r, q)" "p' = hky_memcpy r src len q"
    using call r by (auto simp: hky_pstrdup_def split: prod.splits if_splits)
  have i: "palloc_inv_of os q ((r, len) # cs)" by (rule pnalloc.alloc_fresh [OF inv q(1) r])
  have m: "sys_store q = sys_store p" by (rule pnalloc.alloc_mem [OF inv q(1)])
  have "\<not> (r \<le> fst c + i \<and> fst c + i < r + len)" if "c \<in> set cs" "i < snd c" for c i
    using pnalloc.fresh_disj [OF inv q(1) r that(1)] that(2) by (auto simp: disj_def)
  then show ?thesis using i
    by (auto simp: q(2) m hky_memcpy_def palloc_inv_of_def pool_inv_def pool_ok_def chunk_ok_def)
qed

end
