(* ===== verification/Hky_Array.thy ===== *)
theory Hky_Array
  imports Hky_Palloc
begin

text \<open>
  The growing containers in a pool: src/core/hky_array.c (a vector that grows in place when it
  ends where the first block of its pool ends, and otherwise moves to a chunk twice as large)
  and src/core/hky_list.c (a list of parts that never moves its elements). The array uses the
  inside of the pool and is verified on the model of pools itself; the list only allocates, so
  it is verified once for any allocator with the contract \<open>pool_allocator\<close>.
\<close>

section \<open>Arrays\<close>

text \<open>Products and sums of \<open>size_t\<close>.\<close>

definition mul64 :: "nat \<Rightarrow> nat \<Rightarrow> nat" where "mul64 a b = a * b mod 2 ^ 64"
definition add64 :: "nat \<Rightarrow> nat \<Rightarrow> nat" where "add64 a b = (a + b) mod 2 ^ 64"

lemma mul64_id: "a * b < 2 ^ 64 \<Longrightarrow> mul64 a b = a * b"
  by (simp add: mul64_def)

lemma add64_id: "a + b < 2 ^ 64 \<Longrightarrow> add64 a b = a + b"
  by (simp add: add64_def)

record hky_array =
  a_elts :: nat
  a_nelts :: nat
  a_size :: nat
  a_nalloc :: nat

definition sizeof_array :: nat where "sizeof_array = 40"

definition hky_array_init :: "allocator \<Rightarrow> nat \<Rightarrow> nat \<Rightarrow> hky_pool \<Rightarrow> int \<times> hky_array \<times> hky_pool" where
  "hky_array_init os n sz pool =
     (let (e, pool) = hky_palloc os (mul64 n sz) pool;
          a = \<lparr>a_elts = e, a_nelts = 0, a_size = sz, a_nalloc = n\<rparr>
      in if e = 0 then (HKY_ERROR, a, pool) else (HKY_OK, a, pool))"

text \<open>The address of the array header, \<open>NULL\<close> when there is no memory.\<close>

definition hky_array_create :: "allocator \<Rightarrow> nat \<Rightarrow> nat \<Rightarrow> hky_pool \<Rightarrow> nat \<times> hky_array option \<times> hky_pool" where
  "hky_array_create os n sz pool =
     (let (a, pool) = hky_palloc os sizeof_array pool
      in if a = 0 then (0, None, pool)
         else let (rc, arr, pool) = hky_array_init os n sz pool
              in if rc \<noteq> HKY_OK then (0, None, pool) else (a, Some arr, pool))"

text \<open>\<open>p->d.last\<close> and \<open>p->d.end\<close> of the pool are those of its first block.\<close>

definition pool_last :: "hky_pool \<Rightarrow> nat" where "pool_last p = d_last (hd (p_blocks p))"
definition pool_end :: "hky_pool \<Rightarrow> nat" where "pool_end p = d_end (hd (p_blocks p))"
definition set_pool_last :: "nat \<Rightarrow> hky_pool \<Rightarrow> hky_pool" where
  "set_pool_last l p = p\<lparr>p_blocks := (hd (p_blocks p))\<lparr>d_last := l\<rparr> # tl (p_blocks p)\<rparr>"

definition hky_array_destroy :: "nat \<Rightarrow> hky_array \<Rightarrow> hky_pool \<Rightarrow> hky_pool" where
  "hky_array_destroy addr a p =
     (let p = (if a_elts a + mul64 (a_size a) (a_nalloc a) = pool_last p
               then set_pool_last (pool_last p - mul64 (a_size a) (a_nalloc a)) p else p)
      in if addr + sizeof_array = pool_last p then set_pool_last addr p else p)"

definition hky_array_push :: "allocator \<Rightarrow> hky_array \<Rightarrow> hky_pool \<Rightarrow> nat \<times> hky_array \<times> hky_pool" where
  "hky_array_push os a p =
     (let grown =
        (if a_nelts a = a_nalloc a then
           let sz = mul64 (a_size a) (a_nalloc a)
           in if a_elts a + sz = pool_last p \<and> pool_last p + a_size a \<le> pool_end p
              then (Some (a\<lparr>a_nalloc := add64 (a_nalloc a) 1\<rparr>, set_pool_last (pool_last p + a_size a) p), p)
              else let (new, p) = hky_palloc os (mul64 2 sz) p
                   in if new = 0 then (None, p)
                      else (Some (a\<lparr>a_elts := new, a_nalloc := mul64 2 (a_nalloc a)\<rparr>, hky_memcpy new (a_elts a) sz p), p)
         else (Some (a, p), p))
      in case grown of
           (None, p) \<Rightarrow> (0, a, p)
         | (Some (a, p), _) \<Rightarrow> (a_elts a + mul64 (a_size a) (a_nelts a), a\<lparr>a_nelts := add64 (a_nelts a) 1\<rparr>, p))"

definition hky_array_push_n :: "allocator \<Rightarrow> hky_array \<Rightarrow> nat \<Rightarrow> hky_pool \<Rightarrow> nat \<times> hky_array \<times> hky_pool" where
  "hky_array_push_n os a n p =
     (let sz = mul64 n (a_size a);
          grown =
        (if add64 (a_nelts a) n > a_nalloc a then
           if a_elts a + mul64 (a_size a) (a_nalloc a) = pool_last p \<and> pool_last p + sz \<le> pool_end p
           then (Some (a\<lparr>a_nalloc := add64 (a_nalloc a) n\<rparr>, set_pool_last (pool_last p + sz) p), p)
           else let nalloc = mul64 2 (if n \<ge> a_nalloc a then n else a_nalloc a);
                    (new, p) = hky_palloc os (mul64 nalloc (a_size a)) p
                in if new = 0 then (None, p)
                   else (Some (a\<lparr>a_elts := new, a_nalloc := nalloc\<rparr>,
                               hky_memcpy new (a_elts a) (mul64 (a_nelts a) (a_size a)) p), p)
         else (Some (a, p), p))
      in case grown of
           (None, p) \<Rightarrow> (0, a, p)
         | (Some (a, p), _) \<Rightarrow> (a_elts a + mul64 (a_size a) (a_nelts a), a\<lparr>a_nelts := add64 (a_nelts a) n\<rparr>, p))"

section \<open>Lists\<close>

record hky_list_part =
  lp_elts :: nat
  lp_nelts :: nat

record hky_list =
  ls_parts :: "hky_list_part list"
  ls_size :: nat
  ls_nalloc :: nat

definition sizeof_list :: nat where "sizeof_list = 56"
definition sizeof_list_part :: nat where "sizeof_list_part = 24"

text \<open>The functions of the list over the allocation function they call.\<close>

definition list_init :: "(nat \<Rightarrow> 's \<Rightarrow> nat \<times> 's) \<Rightarrow> nat \<Rightarrow> nat \<Rightarrow> 's \<Rightarrow> hky_list option \<times> 's" where
  "list_init palloc n sz s =
     (let (e, s) = palloc (mul64 n sz) s
      in if e = 0 then (None, s)
         else (Some \<lparr>ls_parts = [\<lparr>lp_elts = e, lp_nelts = 0\<rparr>], ls_size = sz, ls_nalloc = n\<rparr>, s))"

definition list_create :: "(nat \<Rightarrow> 's \<Rightarrow> nat \<times> 's) \<Rightarrow> nat \<Rightarrow> nat \<Rightarrow> 's \<Rightarrow> hky_list option \<times> 's" where
  "list_create palloc n sz s =
     (let (l, s) = palloc sizeof_list s
      in if l = 0 then (None, s) else list_init palloc n sz s)"

definition list_push :: "(nat \<Rightarrow> 's \<Rightarrow> nat \<times> 's) \<Rightarrow> hky_list \<Rightarrow> 's \<Rightarrow> nat \<times> hky_list \<times> 's" where
  "list_push palloc l s =
     (let (parts, s) =
        (if lp_nelts (last (ls_parts l)) = ls_nalloc l then
           let (cell, s) = palloc sizeof_list_part s
           in if cell = 0 then (None, s)
              else let (e, s) = palloc (mul64 (ls_nalloc l) (ls_size l)) s
                   in if e = 0 then (None, s)
                      else (Some (ls_parts l @ [\<lparr>lp_elts = e, lp_nelts = 0\<rparr>]), s)
         else (Some (ls_parts l), s))
      in case parts of
           None \<Rightarrow> (0, l, s)
         | Some ps \<Rightarrow> (lp_elts (last ps) + mul64 (ls_size l) (lp_nelts (last ps)),
                       l\<lparr>ls_parts := butlast ps @ [(last ps)\<lparr>lp_nelts := add64 (lp_nelts (last ps)) 1\<rparr>]\<rparr>, s))"

definition hky_list_create :: "allocator \<Rightarrow> nat \<Rightarrow> nat \<Rightarrow> hky_pool \<Rightarrow> hky_list option \<times> hky_pool" where
  "hky_list_create os = list_create (hky_palloc os)"

definition hky_list_push :: "allocator \<Rightarrow> hky_list \<Rightarrow> hky_pool \<Rightarrow> nat \<times> hky_list \<times> hky_pool" where
  "hky_list_push os = list_push (hky_palloc os)"

section \<open>Chunks at the end of the first block\<close>

lemma chunk_at_end:
  assumes inv: "pool_inv n p ((e, k) # cs)" and k: "0 < k" and e: "e + k = pool_last p"
  shows "d_base (hd (p_blocks p)) + sizeof_pool \<le> e"
proof -
  let ?b = "p_blocks p ! 0"
  have ok: "pool_ok n p" and c: "chunk_ok p (e, k)" using inv by (simp_all add: pool_inv_def)
  have hd: "hd (p_blocks p) = ?b" "0 < length (p_blocks p)" using pool_okD(1) [OF ok] by (simp_all add: hd_conv_nth)
  have b0: "block_ok n 0 ?b" using pool_okD(5) [OF ok hd(2)] .
  have ek: "e + k = d_last ?b" using e hd by (simp add: pool_last_def)
  have meets: "\<not> disj (block_region ?b) r" if "inside (e, k) r" for r
    using that ek k b0 by (auto simp: inside_def disj_def block_region_def block_ok_def block_header_def pool_sizes)
  from c show ?thesis unfolding chunk_ok_def
  proof (elim disjE exE conjE)
    fix i assume i: "i < length (p_blocks p)" "inside (e, k) (used_region i (p_blocks p ! i))"
    have "inside (e, k) (block_region (p_blocks p ! i))"
      using inside_trans [OF i(2) used_inside_block [OF pool_okD(5) [OF ok i(1)]]] .
    then have "i = 0" using meets blocks_disj [OF ok hd(2) i(1)] by metis
    then show ?thesis using i(2) k hd by (simp add: inside_def used_region_def block_header_def)
  next
    assume "(e, k) \<in> set (sys_live p)" "fst (e, k) \<in> l_alloc ` set (p_large p)"
    then have "disj (block_region ?b) (e, k)" using large_block_disj [OF ok, of "(e, k)" ?b] hd(2) by simp
    then show ?thesis using meets by simp
  qed
qed

lemma set_pool_last_eq:
  "p_blocks p \<noteq> [] \<Longrightarrow> set_pool_last l p = p\<lparr>p_blocks := (p_blocks p)[0 := (p_blocks p ! 0)\<lparr>d_last := l\<rparr>]\<rparr>"
  by (cases "p_blocks p") (simp_all add: set_pool_last_def)

text \<open>A chunk that ends where the used part of the block ends grows in place.\<close>

lemma pool_inv_extend:
  assumes inv: "pool_inv n p ((e, k) # cs)" and e: "e + k = pool_last p"
    and j: "pool_last p + j \<le> pool_end p" and k: "0 < k"
  shows "pool_inv n (set_pool_last (pool_last p + j) p) ((e, k + j) # cs)" (is "pool_inv n ?p _")
proof -
  have ok: "pool_ok n p" using inv by (simp add: pool_inv_def)
  have ne: "p_blocks p \<noteq> []" using pool_okD(1) [OF ok] .
  have hd: "hd (p_blocks p) = p_blocks p ! 0" using ne by (simp add: hd_conv_nth)
  have inv': "pool_inv n ?p ((e + k, j) # (e, k) # cs)"
    unfolding set_pool_last_eq [OF ne] e
    using pool_inv_take [OF inv, of 0 "pool_last p" j] ne j by (simp add: pool_last_def pool_end_def hd)
  show ?thesis
  proof (cases "j = 0")
    case True
    then show ?thesis using inv' by (simp add: pool_inv_def)
  next
    case False
    have "disj (e, k + j) c" if "c \<in> set cs" for c
    proof -
      have "disj (e + k, j) c" "disj (e, k) c" using inv' that by (simp_all add: pool_inv_def)
      then show ?thesis using False k by (auto simp: disj_def)
    qed
    moreover have "chunk_ok ?p (e, k + j)"
    proof -
      have "p_blocks ?p ! 0 = (p_blocks p ! 0)\<lparr>d_last := pool_last p + j\<rparr>" "0 < length (p_blocks ?p)"
        using ne by (simp_all add: set_pool_last_def hd)
      moreover have "d_base (p_blocks p ! 0) + sizeof_pool \<le> e" using chunk_at_end [OF inv k e] hd by simp
      ultimately have "inside (e, k + j) (used_region 0 (p_blocks ?p ! 0))"
        using e by (simp add: inside_def used_region_def block_header_def)
      then show ?thesis using \<open>0 < length (p_blocks ?p)\<close> by (auto simp: chunk_ok_def)
    qed
    ultimately show ?thesis using inv' by (simp add: pool_inv_def)
  qed
qed

text \<open>It can be given back.\<close>

lemma pool_inv_shrink:
  assumes inv: "pool_inv n p ((e, k) # cs)" and e: "e + k = pool_last p" and k: "0 < k"
  shows "pool_inv n (set_pool_last e p) cs" (is "pool_inv n ?p _")
proof -
  have ok: "pool_ok n p" using inv by (simp add: pool_inv_def)
  have ne: "p_blocks p \<noteq> []" using pool_okD(1) [OF ok] .
  have hd: "hd (p_blocks p) = p_blocks p ! 0" using ne by (simp add: hd_conv_nth)
  let ?b = "p_blocks p ! 0"
  have b0: "block_ok n 0 ?b" using pool_okD(5) [OF ok] ne by simp
  have low: "d_base ?b + sizeof_pool \<le> e" using chunk_at_end [OF inv k e] hd by simp
  have eq: "?p = p\<lparr>p_blocks := ?b\<lparr>d_last := e\<rparr> # tl (p_blocks p)\<rparr>" by (simp add: set_pool_last_def hd)
  obtain b bs where bs: "p_blocks p = b # bs" using ne by (cases "p_blocks p") auto
  have blocks': "p_blocks ?p = b\<lparr>d_last := e\<rparr> # bs" by (simp add: set_pool_last_def bs)
  have bb: "?b = b" by (simp add: bs)
  have nth: "p_blocks ?p ! i = (if i = 0 then ?b\<lparr>d_last := e\<rparr> else p_blocks p ! i)" for i
    unfolding blocks' bb unfolding bs by (cases i) simp_all
  have len: "length (p_blocks ?p) = length (p_blocks p)" by (simp add: blocks' bs)
  have blk: "block_region (?b\<lparr>d_last := e\<rparr>) = block_region ?b" by (simp add: block_region_def)
  have sets: "d_base ` set (p_blocks ?p) = d_base ` set (p_blocks p)" "map d_base (p_blocks ?p) = map d_base (p_blocks p)"
    by (simp_all add: blocks' bs)
  have "pool_ok n ?p"
    unfolding pool_ok_def
  proof (intro conjI)
    show "\<forall>i<length (p_blocks ?p). block_ok n i (p_blocks ?p ! i)"
    proof (intro allI impI)
      fix i assume "i < length (p_blocks ?p)"
      then have "block_ok n i (p_blocks p ! i)" using pool_okD(5) [OF ok] len by simp
      then show "block_ok n i (p_blocks ?p ! i)"
        using b0 low e by (cases "i = 0") (auto simp: nth block_ok_def block_header_def pool_last_def hd)
    qed
    show "\<forall>c\<in>set (p_blocks ?p). block_region c \<in> set (sys_live ?p)"
    proof
      fix c assume "c \<in> set (p_blocks ?p)"
      then have "c = ?b\<lparr>d_last := e\<rparr> \<or> c \<in> set (p_blocks p)" by (auto simp: blocks' bs)
      moreover have "?b \<in> set (p_blocks p)" using ne by simp
      ultimately show "block_region c \<in> set (sys_live ?p)" using pool_okD(8) [OF ok] blk by (auto simp: eq)
    qed
    show "\<forall>l\<in>set (p_large ?p). l_alloc l \<noteq> 0 \<longrightarrow>
        l_alloc l \<in> fst ` set (sys_live ?p) \<and> l_alloc l \<notin> d_base ` set (p_blocks ?p)"
      unfolding sets using pool_okD(9,10) [OF ok] by (simp add: eq)
    show "distinct (map d_base (p_blocks ?p))" unfolding sets by (rule pool_okD(7) [OF ok])
    show "p_current ?p < length (p_blocks ?p)" unfolding len using pool_okD(2) [OF ok] by (simp add: eq)
  qed (use pool_okD [OF ok] in \<open>simp_all add: pool_sizes eq\<close>)
  moreover have "chunk_ok ?p c" if c: "c \<in> set cs" for c
  proof -
    have d: "disj (e, k) c" and ck: "chunk_ok p c" using inv c by (simp_all add: pool_inv_def)
    from ck show ?thesis unfolding chunk_ok_def
    proof (elim disjE exE conjE)
      fix i assume i: "i < length (p_blocks p)" "inside c (used_region i (p_blocks p ! i))"
      have "inside c (used_region i (p_blocks ?p ! i))"
        using i d e k by (auto simp: nth inside_def used_region_def disj_def pool_last_def hd)
      then show "(\<exists>i<length (p_blocks ?p). inside c (used_region i (p_blocks ?p ! i))) \<or>
        c \<in> set (sys_live ?p) \<and> fst c \<in> l_alloc ` set (p_large ?p)" using i(1) len by auto
    qed (simp add: eq)
  qed
  ultimately show ?thesis using inv by (simp add: pool_inv_def)
qed

section \<open>Growing an array\<close>

definition array_chunk :: "hky_array \<Rightarrow> region" where
  "array_chunk a = (a_elts a, a_size a * a_nalloc a)"

definition array_ok :: "hky_array \<Rightarrow> bool" where
  "array_ok a \<longleftrightarrow> 0 < a_size a \<and> 0 < a_nalloc a \<and> a_nelts a \<le> a_nalloc a \<and> a_size a * a_nalloc a < 2 ^ 62"

text \<open>The outcome of adding \<open>n\<close> elements.\<close>

definition array_added :: "allocator \<Rightarrow> nat \<Rightarrow> region list \<Rightarrow> hky_array \<Rightarrow> hky_pool \<Rightarrow> nat \<times> hky_array \<times> hky_pool \<Rightarrow> bool" where
  "array_added os n cs a p res \<longleftrightarrow>
     (case res of (r, a', p') \<Rightarrow>
        if r = 0 then a' = a \<and> palloc_inv_of os p' (array_chunk a # cs) \<and> sys_store p' = sys_store p
        else r = a_elts a' + a_size a * a_nelts a \<and> a_size a' = a_size a \<and>
          a_nelts a' = a_nelts a + n \<and> a_nelts a' \<le> a_nalloc a' \<and> a_nalloc a \<le> a_nalloc a' \<and>
          (\<exists>old. set old \<subseteq> {array_chunk a} \<and> palloc_inv_of os p' (array_chunk a' # old @ cs)) \<and>
          (\<forall>i<a_size a * a_nelts a. sys_store p' (a_elts a' + i) = sys_store p (a_elts a + i)) \<and>
          (\<forall>c\<in>set cs. \<forall>x. fst c \<le> x \<and> x < fst c + snd c \<longrightarrow> sys_store p' x = sys_store p x))"

lemma palloc_inv_memcpy [simp]: "palloc_inv_of os (hky_memcpy d s n p) cs = palloc_inv_of os p cs"
  by (auto simp: palloc_inv_of_def pool_inv_def pool_ok_def chunk_ok_def hky_memcpy_def)

lemma palloc_chunk_pos:
  assumes "palloc_inv_of os p (c # cs)" "0 < snd c"
  shows "0 < fst c"
proof -
  obtain n where inv: "pool_inv n p (c # cs)" using assms(1) by (auto simp: palloc_inv_of_def)
  then have ok: "pool_ok n p" and ck: "chunk_ok p c" by (simp_all add: pool_inv_def)
  from ck show ?thesis unfolding chunk_ok_def
  proof (elim disjE exE conjE)
    fix i assume i: "i < length (p_blocks p)" "inside c (used_region i (p_blocks p ! i))"
    then show ?thesis using assms(2) by (cases "i = 0") (auto simp: inside_def used_region_def block_header_def pool_sizes)
  next
    assume "c \<in> set (sys_live p)"
    then show ?thesis using pool_okD(6) [OF ok] by (simp add: live_ok_def)
  qed
qed

lemma memcpy_store:
  assumes "disj (d, k) c" "m \<le> k" "fst c \<le> x" "x < fst c + snd c"
  shows "sys_store (hky_memcpy d s m p) x = sys_store p x"
  using assms by (auto simp: hky_memcpy_def disj_def)

text \<open>The two ways to grow.\<close>

lemma array_grow_in_place:
  assumes inv: "palloc_inv_of os p (array_chunk a # cs)" and ok: "array_ok a"
    and at: "a_elts a + a_size a * a_nalloc a = pool_last p" "pool_last p + a_size a * m \<le> pool_end p"
    and n: "a_nelts a + n \<le> a_nalloc a + m"
  shows "array_added os n cs a p (a_elts a + a_size a * a_nelts a,
     a\<lparr>a_nalloc := a_nalloc a + m, a_nelts := a_nelts a + n\<rparr>, set_pool_last (pool_last p + a_size a * m) p)"
proof -
  obtain k where k: "pool_inv k p ((a_elts a, a_size a * a_nalloc a) # cs)" "lawful_os os"
    using inv by (auto simp: palloc_inv_of_def array_chunk_def)
  have pos: "0 < a_size a * a_nalloc a" using ok by (simp add: array_ok_def)
  have "0 < a_elts a" using palloc_chunk_pos [OF inv] pos by (simp add: array_chunk_def)
  moreover have "pool_inv k (set_pool_last (pool_last p + a_size a * m) p) ((a_elts a, a_size a * a_nalloc a + a_size a * m) # cs)"
    by (rule pool_inv_extend [OF k(1) at pos])
  then have "palloc_inv_of os (set_pool_last (pool_last p + a_size a * m) p)
     (array_chunk (a\<lparr>a_nalloc := a_nalloc a + m, a_nelts := a_nelts a + n\<rparr>) # [] @ cs)"
    using k(2) by (auto simp: palloc_inv_of_def array_chunk_def algebra_simps)
  ultimately show ?thesis
    using n unfolding array_added_def by (auto simp: set_pool_last_def intro!: exI [of _ "[]"])
qed

lemma array_grow_move:
  assumes inv: "palloc_inv_of os p (array_chunk a # cs)" and ok: "array_ok a"
    and call: "hky_palloc os (a_size a * m) p = (new, p')" and m: "a_nelts a + n \<le> m" "a_nalloc a \<le> m"
    and copied: "a_size a * a_nelts a \<le> copied" "copied \<le> a_size a * m"
  shows "array_added os n cs a p (if new = 0 then (0, a, p')
     else (new + a_size a * a_nelts a, a\<lparr>a_elts := new, a_nalloc := m, a_nelts := a_nelts a + n\<rparr>,
           hky_memcpy new (a_elts a) copied p'))"
proof (cases "new = 0")
  case True
  then show ?thesis
    using palloc.alloc_null [OF inv] call palloc.alloc_mem [OF inv call] by (simp add: array_added_def)
next
  case False
  let ?a = "a\<lparr>a_elts := new, a_nalloc := m, a_nelts := a_nelts a + n\<rparr>"
  have st: "sys_store p' = sys_store p" by (rule palloc.alloc_mem [OF inv call])
  have inv': "palloc_inv_of os p' (array_chunk ?a # [array_chunk a] @ cs)"
    using palloc.alloc_fresh [OF inv call False] by (simp add: array_chunk_def)
  have d: "\<forall>c\<in>set cs. disj (new, a_size a * m) c"
    using palloc.fresh_disj [OF inv call False] by simp
  have "\<forall>c\<in>set cs. \<forall>x. fst c \<le> x \<and> x < fst c + snd c \<longrightarrow>
      sys_store (hky_memcpy new (a_elts a) copied p') x = sys_store p x"
    using memcpy_store [of new "a_size a * m"] d copied(2) st by metis
  moreover have "\<forall>i<a_size a * a_nelts a. sys_store (hky_memcpy new (a_elts a) copied p') (new + i) = sys_store p (a_elts a + i)"
    using copied(1) st by (auto simp: hky_memcpy_def)
  ultimately show ?thesis
    using inv' False m unfolding array_added_def
    by (auto intro!: exI [of _ "[array_chunk a]"])
qed

lemma array_no_grow:
  assumes inv: "palloc_inv_of os p (array_chunk a # cs)" and ok: "array_ok a" and n: "a_nelts a + n \<le> a_nalloc a"
  shows "array_added os n cs a p (a_elts a + a_size a * a_nelts a, a\<lparr>a_nelts := a_nelts a + n\<rparr>, p)"
proof -
  have "0 < a_elts a" using palloc_chunk_pos [OF inv] ok by (simp add: array_chunk_def array_ok_def)
  then show ?thesis using inv n unfolding array_added_def by (auto simp: array_chunk_def intro!: exI [of _ "[]"])
qed

lemma array_ok_small:
  assumes "array_ok a"
  shows "a_nalloc a < 2 ^ 62" "a_nelts a < 2 ^ 62" "a_size a * a_nelts a < 2 ^ 62" "a_size a < 2 ^ 62"
proof -
  have s: "1 \<le> a_size a" "1 \<le> a_nalloc a" "a_size a * a_nalloc a < 2 ^ 62" "a_nelts a \<le> a_nalloc a"
    using assms by (simp_all add: array_ok_def)
  have "a_nalloc a \<le> a_size a * a_nalloc a" "a_size a \<le> a_size a * a_nalloc a" using s(1,2) by simp_all
  moreover have "a_size a * a_nelts a \<le> a_size a * a_nalloc a" using s(4) by simp
  ultimately show "a_nalloc a < 2 ^ 62" "a_nelts a < 2 ^ 62" "a_size a * a_nelts a < 2 ^ 62" "a_size a < 2 ^ 62"
    using s by linarith+
qed

lemma array_push_added:
  assumes inv: "palloc_inv_of os p (array_chunk a # cs)" and ok: "array_ok a"
  shows "array_added os 1 cs a p (hky_array_push os a p)"
proof -
  note small = array_ok_small [OF ok]
  have bytes: "a_size a * a_nalloc a < 2 ^ 62" using ok by (simp add: array_ok_def)
  have ids: "mul64 (a_size a) (a_nalloc a) = a_size a * a_nalloc a" "mul64 (a_size a) (a_nelts a) = a_size a * a_nelts a"
    "add64 (a_nalloc a) 1 = a_nalloc a + 1" "add64 (a_nelts a) 1 = a_nelts a + 1"
    "mul64 2 (a_nalloc a) = 2 * a_nalloc a"
    using small bytes by (simp_all add: mul64_id add64_id)
  have id2: "mul64 2 (a_size a * a_nalloc a) = a_size a * (2 * a_nalloc a)"
  proof -
    have "2 * x < 2 ^ 64" if "x < 2 ^ 62" for x :: nat using that by simp
    from mul64_id [OF this [OF bytes]] show ?thesis by simp
  qed
  show ?thesis
  proof (cases "a_nelts a = a_nalloc a")
    case False
    then have "a_nelts a + 1 \<le> a_nalloc a" using ok by (simp add: array_ok_def)
    then show ?thesis using array_no_grow [OF inv ok, of 1] False by (simp add: hky_array_push_def ids del: One_nat_def)
  next
    case full: True
    show ?thesis
    proof (cases "a_elts a + a_size a * a_nalloc a = pool_last p \<and> pool_last p + a_size a \<le> pool_end p")
      case True
      then show ?thesis
        using array_grow_in_place [OF inv ok, of 1 1] full by (simp add: hky_array_push_def ids Let_def del: One_nat_def)
    next
      case False
      obtain new p' where call: "hky_palloc os (a_size a * (2 * a_nalloc a)) p = (new, p')" by fastforce
      have "a_nelts a + 1 \<le> 2 * a_nalloc a" using full ok by (simp add: array_ok_def)
      then have "array_added os 1 cs a p (if new = 0 then (0, a, p')
        else (new + a_size a * a_nelts a, a\<lparr>a_elts := new, a_nalloc := 2 * a_nalloc a, a_nelts := a_nelts a + 1\<rparr>,
           hky_memcpy new (a_elts a) (a_size a * a_nalloc a) p'))"
        using full by (intro array_grow_move [OF inv ok call]) simp_all
      then show ?thesis
        using full False call by (cases "new = 0") (auto simp: hky_array_push_def ids id2 Let_def simp del: One_nat_def)
    qed
  qed
qed

lemma array_push_n_added:
  assumes inv: "palloc_inv_of os p (array_chunk a # cs)" and ok: "array_ok a" and n: "a_size a * n < 2 ^ 62"
  shows "array_added os n cs a p (hky_array_push_n os a n p)"
proof -
  note small = array_ok_small [OF ok]
  have s1: "1 \<le> a_size a" and bytes: "a_size a * a_nalloc a < 2 ^ 62" using ok by (simp_all add: array_ok_def)
  have n': "n < 2 ^ 62" using n s1 by (metis le_less_trans mult_le_mono1 mult_1)
  obtain m where m: "m = 2 * (if n \<ge> a_nalloc a then n else a_nalloc a)" by simp
  have "m * a_size a < 2 ^ 63" using n bytes by (simp add: m algebra_simps)
  then have mb: "mul64 m (a_size a) = a_size a * m" by (simp add: mul64_id)
  have ids: "mul64 (a_size a) (a_nalloc a) = a_size a * a_nalloc a" "mul64 (a_size a) (a_nelts a) = a_size a * a_nelts a"
    "add64 (a_nalloc a) n = a_nalloc a + n" "add64 (a_nelts a) n = a_nelts a + n"
    "mul64 (a_nelts a) (a_size a) = a_size a * a_nelts a" "mul64 n (a_size a) = a_size a * n"
    "mul64 2 (if n \<ge> a_nalloc a then n else a_nalloc a) = m"
    using small bytes n n' by (simp_all add: mul64_id add64_id mult.commute m)
  show ?thesis
  proof (cases "a_nelts a + n \<le> a_nalloc a")
    case True
    then show ?thesis using array_no_grow [OF inv ok True] by (simp add: hky_array_push_n_def ids Let_def)
  next
    case full: False
    show ?thesis
    proof (cases "a_elts a + a_size a * a_nalloc a = pool_last p \<and> pool_last p + a_size a * n \<le> pool_end p")
      case True
      have le: "a_nelts a + n \<le> a_nalloc a + n" using ok by (simp add: array_ok_def)
      then show ?thesis
        using array_grow_in_place [OF inv ok _ _ le] True full by (simp add: hky_array_push_n_def ids Let_def)
    next
      case False
      obtain new p' where call: "hky_palloc os (a_size a * m) p = (new, p')" by fastforce
      have nm: "a_nelts a + n \<le> m" "a_nelts a \<le> m" "a_nalloc a \<le> m" using ok by (auto simp: array_ok_def m)
      have "array_added os n cs a p (if new = 0 then (0, a, p')
        else (new + a_size a * a_nelts a, a\<lparr>a_elts := new, a_nalloc := m, a_nelts := a_nelts a + n\<rparr>,
           hky_memcpy new (a_elts a) (a_size a * a_nelts a) p'))"
        using nm by (intro array_grow_move [OF inv ok call]) (simp_all only: mult_le_mono2 order_refl)
      then show ?thesis
        using full False call by (cases "new = 0") (auto simp: hky_array_push_n_def ids mb Let_def split del: if_split)
    qed
  qed
qed

section \<open>Lists over any allocator\<close>

definition list_part_chunk :: "hky_list \<Rightarrow> hky_list_part \<Rightarrow> region" where
  "list_part_chunk l q = (lp_elts q, ls_size l * ls_nalloc l)"

definition list_elements :: "hky_list \<Rightarrow> nat list" where
  "list_elements l = concat (map (\<lambda>q. map (\<lambda>i. lp_elts q + ls_size l * i) [0..<lp_nelts q]) (ls_parts l))"

text \<open>Every part is a chunk in use; all parts but the last are full.\<close>

definition list_ok :: "hky_list \<Rightarrow> region list \<Rightarrow> bool" where
  "list_ok l cs \<longleftrightarrow> ls_parts l \<noteq> [] \<and> 0 < ls_nalloc l \<and> ls_size l * ls_nalloc l < 2 ^ 63 \<and> ls_nalloc l < 2 ^ 63 \<and>
     (\<forall>q\<in>set (ls_parts l). list_part_chunk l q \<in> set cs \<and> lp_nelts q \<le> ls_nalloc l \<and> 0 < lp_elts q) \<and>
     sorted_wrt disj (map (list_part_chunk l) (ls_parts l))"

lemma list_part_chunk_simps [simp]:
  "list_part_chunk (l\<lparr>ls_parts := ps\<rparr>) = list_part_chunk l"
  "list_part_chunk l (q\<lparr>lp_nelts := k\<rparr>) = list_part_chunk l q"
  "list_part_chunk l \<lparr>lp_elts = e, lp_nelts = k\<rparr> = (e, ls_size l * ls_nalloc l)"
  by (auto simp: list_part_chunk_def)

lemma part_elements_disj:
  assumes "n \<le> k"
  shows "sorted_wrt disj (map (\<lambda>i. (e + s * i, s)) [0..<n])"
    "\<forall>r\<in>set (map (\<lambda>i. (e + s * i, s)) [0..<n]). inside r (e, s * k)"
proof -
  show "sorted_wrt disj (map (\<lambda>i. (e + s * i, s)) [0..<n])"
  proof (rule sorted_wrt_mono_rel [where P = "\<lambda>i j. i < j", THEN sorted_wrt_map [THEN iffD2]])
    show "disj (e + s * i, s) (e + s * j, s)" if "i < j" for i j
    proof -
      have "s * Suc i \<le> s * j" using that by (intro mult_le_mono2) simp
      then show ?thesis by (simp add: disj_def)
    qed
  qed simp_all
  show "\<forall>r\<in>set (map (\<lambda>i. (e + s * i, s)) [0..<n]). inside r (e, s * k)"
  proof
    fix r assume "r \<in> set (map (\<lambda>i. (e + s * i, s)) [0..<n])"
    then have "\<exists>i<n. r = (e + s * i, s)" by auto
    then obtain i where i: "r = (e + s * i, s)" "i < n" by blast
    have "s * Suc i \<le> s * k" using i(2) assms by (intro mult_le_mono2) simp
    then show "inside r (e, s * k)" by (simp add: inside_def i(1))
  qed
qed

lemma list_elements_disj:
  assumes "list_ok l cs"
  shows "sorted_wrt disj (map (\<lambda>a. (a, ls_size l)) (list_elements l))"
proof -
  let ?el = "\<lambda>q. map (\<lambda>i. (lp_elts q + ls_size l * i, ls_size l)) [0..<lp_nelts q]"
  have eq: "map (\<lambda>a. (a, ls_size l)) (list_elements l) = concat (map ?el (ls_parts l))"
    by (simp add: list_elements_def map_concat comp_def)
  have "sorted_wrt disj (concat (map ?el qs))"
    if "\<forall>q\<in>set qs. lp_nelts q \<le> ls_nalloc l" "sorted_wrt disj (map (list_part_chunk l) qs)" for qs
    using that
  proof (induction qs)
    case (Cons q qs)
    have "disj r t" if r: "r \<in> set (?el q)" and t: "t \<in> set (concat (map ?el qs))" for r t
    proof -
      obtain q' where q': "q' \<in> set qs" "t \<in> set (?el q')" using t by auto
      have "disj (list_part_chunk l q) (list_part_chunk l q')" using Cons.prems(2) q'(1) by simp
      moreover have "inside r (list_part_chunk l q)" "inside t (list_part_chunk l q')"
        using part_elements_disj(2) Cons.prems(1) r q' unfolding list_part_chunk_def by (metis list.set_intros(1,2))+
      ultimately show ?thesis by (rule disj_inside)
    qed
    then show ?case using Cons part_elements_disj(1) [of "lp_nelts q" "ls_nalloc l"] by (simp add: sorted_wrt_append)
  qed simp
  then show ?thesis using assms eq by (simp add: list_ok_def)
qed

context pool_allocator
begin

lemma list_push_ok:
  assumes inv: "inv s cs" and ok: "list_ok l cs" and call: "list_push alloc l s = (r, l', s')"
  shows "\<exists>new. inv s' (new @ cs) \<and> mem s' = mem s \<and> list_ok l' (new @ cs) \<and>
    (if r = 0 then l' = l else list_elements l' = list_elements l @ [r] \<and> ls_size l' = ls_size l)"
proof -
  let ?q = "last (ls_parts l)"
  have l: "ls_parts l \<noteq> []" "0 < ls_nalloc l" "ls_size l * ls_nalloc l < 2 ^ 63" "ls_nalloc l < 2 ^ 63"
    and parts: "\<forall>q\<in>set (ls_parts l). list_part_chunk l q \<in> set cs \<and> lp_nelts q \<le> ls_nalloc l \<and> 0 < lp_elts q"
    and djs: "sorted_wrt disj (map (list_part_chunk l) (ls_parts l))"
    using ok by (simp_all add: list_ok_def)
  have q: "lp_nelts ?q \<le> ls_nalloc l" "0 < lp_elts ?q" using parts l(1) by simp_all
  have small: "mul64 (ls_size l) k = ls_size l * k" if "k \<le> ls_nalloc l" for k
  proof -
    have "ls_size l * k < 2 ^ 63" using mult_le_mono2 [OF that] l(3) by (rule le_less_trans)
    then show ?thesis by (simp add: mul64_id)
  qed
  have keep: "list_ok l (new @ cs)" for new using ok by (auto simp: list_ok_def)
  show ?thesis
  proof (cases "lp_nelts ?q = ls_nalloc l")
    case False
    let ?l = "l\<lparr>ls_parts := butlast (ls_parts l) @ [?q\<lparr>lp_nelts := lp_nelts ?q + 1\<rparr>]\<rparr>"
    have res: "r = lp_elts ?q + ls_size l * lp_nelts ?q" "l' = ?l" "s' = s"
      using call False q(1) l(4) by (simp_all add: list_push_def small add64_id)
    obtain ps q0 where ps: "ls_parts l = ps @ [q0]" using l(1) by (metis append_butlast_last_id)
    have "list_ok l' cs"
      using parts djs l q(1) False unfolding res list_ok_def by (auto simp: ps)
    moreover have "list_elements l' = list_elements l @ [r]"
      unfolding res by (simp add: list_elements_def ps)
    ultimately show ?thesis using inv res q(2) by (intro exI [of _ "[]"]) simp
  next
    case full: True
    obtain c s1 where c: "alloc sizeof_list_part s = (c, s1)" by fastforce
    show ?thesis
    proof (cases "c = 0")
      case True
      then have "r = 0" "l' = l" "s' = s1" using call c full by (simp_all add: list_push_def)
      then show ?thesis using alloc_null [OF inv] alloc_mem [OF inv c] c True keep [of "[]"] by (intro exI [of _ "[]"]) simp
    next
      case False
      have bytes: "mul64 (ls_nalloc l) (ls_size l) = ls_size l * ls_nalloc l"
        using l(3) by (simp add: mul64_id mult.commute)
      obtain e s2 where e: "alloc (ls_size l * ls_nalloc l) s1 = (e, s2)" by fastforce
      note a2 = alloc2 [OF inv c False e]
      show ?thesis
      proof (cases "e = 0")
        case True
        then have "r = 0" "l' = l" "s' = s2" using call c full False e by (simp_all add: list_push_def bytes)
        then show ?thesis using a2(1,3) True keep [of "[(c, sizeof_list_part)]"]
          by (intro exI [of _ "[(c, sizeof_list_part)]"]) simp
      next
        case e0: False
        let ?n = "[(e, ls_size l * ls_nalloc l), (c, sizeof_list_part)]"
        let ?l = "l\<lparr>ls_parts := ls_parts l @ [\<lparr>lp_elts = e, lp_nelts = 1\<rparr>]\<rparr>"
        have res: "r = e" "l' = ?l" "s' = s2"
          using call c full False e e0 by (auto simp: list_push_def bytes small add64_def)
        have inv2: "inv s2 (?n @ cs)" using a2(2) e0 by simp
        have "\<forall>k\<in>set cs. disj (e, ls_size l * ls_nalloc l) k"
          using chunks_disj [OF inv2] by simp
        then have "\<forall>q\<in>set (ls_parts l). disj (list_part_chunk l q) (e, ls_size l * ls_nalloc l)"
          using parts disj_sym by blast
        then have "list_ok l' (?n @ cs)"
          using parts djs l e0 unfolding res list_ok_def
          by (auto simp: sorted_wrt_append)
        moreover have "list_elements l' = list_elements l @ [r]" unfolding res by (simp add: list_elements_def)
        ultimately show ?thesis using inv2 a2(3) res e0 by (intro exI [of _ ?n]) simp
      qed
    qed
  qed
qed

lemma list_create_ok:
  assumes inv: "inv s cs" and n: "0 < n" "sz * n < 2 ^ 63" "n < 2 ^ 63" and call: "list_create alloc n sz s = (res, s')"
  shows "\<exists>new. inv s' (new @ cs) \<and> mem s' = mem s \<and>
    (case res of None \<Rightarrow> True | Some l \<Rightarrow> list_ok l (new @ cs) \<and> list_elements l = [] \<and> ls_size l = sz)"
proof -
  have bytes: "mul64 n sz = sz * n" using n(2) by (simp add: mul64_id mult.commute)
  obtain c s1 where c: "alloc sizeof_list s = (c, s1)" by fastforce
  show ?thesis
  proof (cases "c = 0")
    case True
    then show ?thesis using alloc_null [OF inv] alloc_mem [OF inv c] c call
      by (intro exI [of _ "[]"]) (simp add: list_create_def)
  next
    case False
    obtain e s2 where e: "alloc (sz * n) s1 = (e, s2)" by fastforce
    note a2 = alloc2 [OF inv c False e]
    show ?thesis
    proof (cases "e = 0")
      case True
      then show ?thesis using a2(1,3) call c False e
        by (intro exI [of _ "[(c, sizeof_list)]"]) (simp add: list_create_def list_init_def bytes)
    next
      case e0: False
      then have "res = Some \<lparr>ls_parts = [\<lparr>lp_elts = e, lp_nelts = 0\<rparr>], ls_size = sz, ls_nalloc = n\<rparr>" "s' = s2"
        using call c False e by (simp_all add: list_create_def list_init_def bytes)
      then show ?thesis using a2(2,3) e0 n
        by (intro exI [of _ "[(e, sz * n), (c, sizeof_list)]"])
          (simp add: list_ok_def list_part_chunk_def list_elements_def)
    qed
  qed
qed

end

section \<open>Properties\<close>

lemma palloc_inv_drop: "palloc_inv_of os p (c # cs) \<Longrightarrow> palloc_inv_of os p cs"
  by (auto simp: palloc_inv_of_def pool_inv_def)

lemma palloc_inv_swap: "palloc_inv_of os p (c # d # cs) \<Longrightarrow> palloc_inv_of os p (d # c # cs)"
  by (auto simp: palloc_inv_of_def pool_inv_def intro: disj_sym)

lemma palloc_inv_shrink:
  assumes "palloc_inv_of os p ((e, k) # cs)" "e + k = pool_last p"
  shows "palloc_inv_of os (set_pool_last e p) cs"
proof (cases "k = 0")
  case True
  obtain n where n: "pool_inv n p cs" "lawful_os os" using palloc_inv_drop [OF assms(1)] by (auto simp: palloc_inv_of_def)
  then have ne: "p_blocks p \<noteq> []" by (simp add: pool_inv_def pool_ok_def)
  have "set_pool_last e p = p" using True assms(2) ne by (cases "p_blocks p") (simp_all add: set_pool_last_def pool_last_def)
  then show ?thesis using palloc_inv_drop [OF assms(1)] by simp
next
  case False
  obtain n where n: "pool_inv n p ((e, k) # cs)" "lawful_os os" using assms(1) by (auto simp: palloc_inv_of_def)
  then show ?thesis using pool_inv_shrink [OF n(1) assms(2)] False by (auto simp: palloc_inv_of_def)
qed

lemma palloc_inv_shrink_if:
  "palloc_inv_of os p ((e, k) # cs) \<Longrightarrow> palloc_inv_of os (if e + k = pool_last p then set_pool_last e p else p) cs"
  using palloc_inv_shrink palloc_inv_drop by auto

lemma array_destroy_inv:
  assumes inv: "palloc_inv_of os p (array_chunk a # (addr, sizeof_array) # cs)" and ok: "array_ok a"
  shows "palloc_inv_of os (hky_array_destroy addr a p) cs"
proof -
  have m: "mul64 (a_size a) (a_nalloc a) = a_size a * a_nalloc a"
    using ok by (simp add: array_ok_def mul64_id)
  let ?p = "if a_elts a + a_size a * a_nalloc a = pool_last p then set_pool_last (a_elts a) p else p"
  have "palloc_inv_of os ?p ((addr, sizeof_array) # cs)"
    by (rule palloc_inv_shrink_if [OF inv [unfolded array_chunk_def]])
  note palloc_inv_shrink_if [OF this]
  moreover have "hky_array_destroy addr a p = (if addr + sizeof_array = pool_last ?p then set_pool_last addr ?p else ?p)"
  proof (cases "a_elts a + a_size a * a_nalloc a = pool_last p")
    case True
    then have "pool_last p - a_size a * a_nalloc a = a_elts a" by (metis add_diff_cancel_right')
    then show ?thesis using True by (simp add: hky_array_destroy_def m Let_def)
  qed (simp add: hky_array_destroy_def m Let_def)
  ultimately show ?thesis by simp
qed

lemma array_create_inv:
  assumes inv: "palloc_inv_of os p cs" and n: "0 < n" "0 < sz" "sz * n < 2 ^ 62"
    and call: "hky_array_create os n sz p = (addr, res, p')"
  shows "\<exists>new. palloc_inv_of os p' (new @ cs) \<and>
    (case res of None \<Rightarrow> addr = 0
     | Some a \<Rightarrow> addr \<noteq> 0 \<and> new = [array_chunk a, (addr, sizeof_array)] \<and> array_ok a \<and> a_nelts a = 0 \<and> a_size a = sz \<and> a_nalloc a = n)"
proof -
  have bytes: "mul64 n sz = sz * n" using n(3) by (simp add: mul64_id mult.commute)
  obtain h p1 where h: "hky_palloc os sizeof_array p = (h, p1)" by fastforce
  show ?thesis
  proof (cases "h = 0")
    case True
    then show ?thesis using palloc.alloc_null [OF inv] h call by (intro exI [of _ "[]"]) (simp add: hky_array_create_def)
  next
    case False
    obtain e p2 where e: "hky_palloc os (sz * n) p1 = (e, p2)" by fastforce
    note a2 = palloc.alloc2 [OF inv h False e]
    show ?thesis
    proof (cases "e = 0")
      case True
      then show ?thesis using a2(1) call h False e
        by (intro exI [of _ "[(h, sizeof_array)]"]) (simp add: hky_array_create_def hky_array_init_def bytes hky_consts)
    next
      case e0: False
      then have "res = Some \<lparr>a_elts = e, a_nelts = 0, a_size = sz, a_nalloc = n\<rparr>" "p' = p2" "addr = h"
        using call h False e by (simp_all add: hky_array_create_def hky_array_init_def bytes hky_consts)
      then show ?thesis using a2(2) e0 False n
        by (intro exI [of _ "[(e, sz * n), (h, sizeof_array)]"]) (simp add: array_chunk_def array_ok_def)
    qed
  qed
qed

text \<open>
  C12: the array. Creating one gives a header and room for \<open>n\<close> elements in fresh memory. Pushing
  one or \<open>n\<close> elements returns \<open>NULL\<close> and changes nothing, or returns the address of the first new
  element behind the existing ones, inside the array's chunk; the array may have moved, but its
  elements keep their bytes and no byte of another chunk changes. Destroying it leaves a sound
  pool. Sizes are below \<open>2 ^ 62\<close>, and the number of elements at creation is not 0.
\<close>

theorem array_correct:
  assumes "palloc_inv_of os p0 cs0" "0 < n0" "0 < sz" "sz * n0 < 2 ^ 62"
    and "palloc_inv_of os p (array_chunk a # cs)" "array_ok a" "a_size a * n < 2 ^ 62"
  shows "(let (addr, res, p') = hky_array_create os n0 sz p0
      in \<exists>new. palloc_inv_of os p' (new @ cs0) \<and>
           (case res of None \<Rightarrow> addr = 0
            | Some a \<Rightarrow> addr \<noteq> 0 \<and> new = [array_chunk a, (addr, sizeof_array)] \<and> array_ok a \<and> a_nelts a = 0)) \<and>
    array_added os 1 cs a p (hky_array_push os a p) \<and>
    array_added os n cs a p (hky_array_push_n os a n p) \<and>
    ((addr, sizeof_array) \<in> set cs \<longrightarrow> palloc_inv_of os (hky_array_destroy addr a p) (remove1 (addr, sizeof_array) cs))"
proof (intro conjI)
  obtain ad res p' where c: "hky_array_create os n0 sz p0 = (ad, res, p')" by (metis prod_cases3)
  show "let (addr, res, p') = hky_array_create os n0 sz p0
      in \<exists>new. palloc_inv_of os p' (new @ cs0) \<and>
           (case res of None \<Rightarrow> addr = 0
            | Some a \<Rightarrow> addr \<noteq> 0 \<and> new = [array_chunk a, (addr, sizeof_array)] \<and> array_ok a \<and> a_nelts a = 0)"
    using array_create_inv [OF assms(1-4) c] by (force simp: c split: option.splits)
  show "array_added os 1 cs a p (hky_array_push os a p)" by (rule array_push_added [OF assms(5,6)])
  show "array_added os n cs a p (hky_array_push_n os a n p)" by (rule array_push_n_added [OF assms(5-7)])
  show "(addr, sizeof_array) \<in> set cs \<longrightarrow> palloc_inv_of os (hky_array_destroy addr a p) (remove1 (addr, sizeof_array) cs)"
  proof
    assume h: "(addr, sizeof_array) \<in> set cs"
    have "palloc_inv_of os p (array_chunk a # (addr, sizeof_array) # remove1 (addr, sizeof_array) cs)"
    proof -
      obtain k where k: "pool_inv k p (array_chunk a # cs)" "lawful_os os" using assms(5) by (auto simp: palloc_inv_of_def)
      obtain xs ys where split: "cs = xs @ (addr, sizeof_array) # ys" "(addr, sizeof_array) \<notin> set xs"
        using split_list_first [OF h] by blast
      then have r: "remove1 (addr, sizeof_array) cs = xs @ ys" by (simp add: remove1_append)
      have "pool_inv k p (array_chunk a # (addr, sizeof_array) # xs @ ys)"
        using k(1) split by (auto simp: pool_inv_def sorted_wrt_append intro: disj_sym)
      then show ?thesis using k(2) r by (auto simp: palloc_inv_of_def)
    qed
    from array_destroy_inv [OF this assms(6)] show "palloc_inv_of os (hky_array_destroy addr a p) (remove1 (addr, sizeof_array) cs)" .
  qed
qed

lemma sample_palloc_inv: "palloc_inv_of bump_os sample_pool []"
  using sample_pool_inv lawful_bump_os by (auto simp: palloc_inv_of_def)

lemma sample_array: "hky_array_create bump_os 2 8 sample_pool =
    (4176, Some \<lparr>a_elts = 4216, a_nelts = 0, a_size = 8, a_nalloc = 2\<rparr>,
     sample_pool\<lparr>p_blocks := [\<lparr>d_base = 4096, d_last = 4232, d_end = 5120, d_failed = 0\<rparr>]\<rparr>)"
  by (simp add: hky_array_create_def hky_array_init_def sample_pool_def hky_create_pool_def hky_memalign_def bump_os_def
      boot_def pool_sizes Let_def HKY_MAX_ALLOC_FROM_POOL_def hky_palloc_def hky_palloc_small_def sys.defs hky_pool.defs
      size_t_def align_8 mul64_def sizeof_array_def hky_consts)

lemma array_correct_witness:
  "array_added bump_os 1 [(4176, sizeof_array)] \<lparr>a_elts = 4216, a_nelts = 0, a_size = 8, a_nalloc = 2\<rparr>
     (sample_pool\<lparr>p_blocks := [\<lparr>d_base = 4096, d_last = 4232, d_end = 5120, d_failed = 0\<rparr>]\<rparr>)
     (hky_array_push bump_os \<lparr>a_elts = 4216, a_nelts = 0, a_size = 8, a_nalloc = 2\<rparr>
       (sample_pool\<lparr>p_blocks := [\<lparr>d_base = 4096, d_last = 4232, d_end = 5120, d_failed = 0\<rparr>]\<rparr>))"
  using array_create_inv [OF sample_palloc_inv _ _ _ sample_array]
    array_correct [OF sample_palloc_inv, where ?n0.0 = 2 and sz = 8 and n = 3] by (simp add: array_chunk_def)

text \<open>
  the list. Creation and pushing keep the pool sound, never touch the bytes of an element,
  and a push returns \<open>NULL\<close> with the list as it was, or the address of one more element behind
  the elements there are; all elements lie at distinct places that do not meet, and an element
  never moves.
\<close>

theorem list_correct:
  assumes "palloc_inv_of os p cs" "list_ok l cs" "0 < n" "sz * n < 2 ^ 63" "n < 2 ^ 63"
  shows "(let (res, p') = hky_list_create os n sz p
      in \<exists>new. palloc_inv_of os p' (new @ cs) \<and> sys_store p' = sys_store p \<and>
           (\<forall>l. res = Some l \<longrightarrow> list_ok l (new @ cs) \<and> list_elements l = [] \<and> ls_size l = sz)) \<and>
    (let (r, l', p') = hky_list_push os l p
      in \<exists>new. palloc_inv_of os p' (new @ cs) \<and> sys_store p' = sys_store p \<and> list_ok l' (new @ cs) \<and>
           (if r = 0 then l' = l
            else list_elements l' = list_elements l @ [r] \<and> ls_size l' = ls_size l \<and>
              sorted_wrt disj (map (\<lambda>a. (a, ls_size l)) (list_elements l @ [r]))))"
proof (intro conjI)
  obtain res p' where c: "list_create (hky_palloc os) n sz p = (res, p')" by fastforce
  show "let (res, p') = hky_list_create os n sz p
      in \<exists>new. palloc_inv_of os p' (new @ cs) \<and> sys_store p' = sys_store p \<and>
           (\<forall>l. res = Some l \<longrightarrow> list_ok l (new @ cs) \<and> list_elements l = [] \<and> ls_size l = sz)"
    using palloc.list_create_ok [OF assms(1,3-5) c] by (force simp: hky_list_create_def c split: option.splits)
  obtain r l' q where u: "list_push (hky_palloc os) l p = (r, l', q)" by (metis prod_cases3)
  obtain new where new: "palloc_inv_of os q (new @ cs)" "sys_store q = sys_store p" "list_ok l' (new @ cs)"
    "if r = 0 then l' = l else list_elements l' = list_elements l @ [r] \<and> ls_size l' = ls_size l"
    using palloc.list_push_ok [OF assms(1,2) u] by blast
  show "let (r, l', p') = hky_list_push os l p
      in \<exists>new. palloc_inv_of os p' (new @ cs) \<and> sys_store p' = sys_store p \<and> list_ok l' (new @ cs) \<and>
           (if r = 0 then l' = l
            else list_elements l' = list_elements l @ [r] \<and> ls_size l' = ls_size l \<and>
              sorted_wrt disj (map (\<lambda>a. (a, ls_size l)) (list_elements l @ [r])))"
    using new list_elements_disj [OF new(3)]
    by (simp only: hky_list_push_def u prod.case Let_def) (intro exI [of _ new], simp split: if_splits)
qed

lemma sample_list: "hky_list_create bump_os 2 8 sample_pool =
    (Some \<lparr>ls_parts = [\<lparr>lp_elts = 4232, lp_nelts = 0\<rparr>], ls_size = 8, ls_nalloc = 2\<rparr>,
     sample_pool\<lparr>p_blocks := [\<lparr>d_base = 4096, d_last = 4248, d_end = 5120, d_failed = 0\<rparr>]\<rparr>)"
  by (simp add: hky_list_create_def list_create_def list_init_def sample_pool_def hky_create_pool_def hky_memalign_def bump_os_def
      boot_def pool_sizes Let_def HKY_MAX_ALLOC_FROM_POOL_def hky_palloc_def hky_palloc_small_def sys.defs hky_pool.defs
      size_t_def align_8 mul64_def sizeof_list_def)

lemma list_correct_witness:
  "\<exists>cs p l. list_ok l cs \<and> l = \<lparr>ls_parts = [\<lparr>lp_elts = 4232, lp_nelts = 0\<rparr>], ls_size = 8, ls_nalloc = 2\<rparr> \<and>
     fst (hky_list_push bump_os l p) = 4232 \<and>
     (\<exists>new. list_ok (fst (snd (hky_list_push bump_os l p))) (new @ cs))"
proof -
  let ?l = "\<lparr>ls_parts = [\<lparr>lp_elts = 4232, lp_nelts = 0\<rparr>], ls_size = 8, ls_nalloc = 2\<rparr>"
  let ?p = "sample_pool\<lparr>p_blocks := [\<lparr>d_base = 4096, d_last = 4248, d_end = 5120, d_failed = 0\<rparr>]\<rparr>"
  obtain cs where cs: "palloc_inv_of bump_os ?p cs" "list_ok ?l cs"
    using palloc.list_create_ok [OF sample_palloc_inv, of 2 8 "Some ?l" ?p] sample_list by (auto simp: hky_list_create_def)
  have "fst (hky_list_push bump_os ?l ?p) = 4232"
    by (simp add: hky_list_push_def list_push_def mul64_def)
  moreover have "\<exists>new. list_ok (fst (snd (hky_list_push bump_os ?l ?p))) (new @ cs)"
    using list_correct [OF cs, where n = 1 and sz = 1] by (auto simp: case_prod_beta)
  ultimately show ?thesis using cs(2) by blast
qed

end
