(* ===== verification/Hky_Buf.thy ===== *)
theory Hky_Buf
  imports Hky_Palloc
begin

text \<open>
  Buffers and chains of buffers: src/core/hky_buf.h and src/core/hky_buf.c. A chain is the list
  of its buffers. The bytes a chain still has to send are \<open>chain_data\<close>, the list of the memory
  addresses or file offsets, in order; sending is stated on this list.
\<close>

section \<open>Buffers\<close>

record hky_buf =
  b_pos :: nat
  b_last :: nat
  b_file_pos :: int
  b_file_last :: int
  b_start :: nat
  b_end :: nat
  b_temporary :: bool
  b_memory :: bool
  b_mmap :: bool
  b_recycled :: bool
  b_in_file :: bool
  b_flush :: bool
  b_sync :: bool
  b_last_buf :: bool
  b_last_in_chain :: bool

type_synonym hky_chain = "hky_buf list"

definition hky_buf_in_memory :: "hky_buf \<Rightarrow> bool" where
  "hky_buf_in_memory b \<longleftrightarrow> b_temporary b \<or> b_memory b \<or> b_mmap b"

definition hky_buf_in_memory_only :: "hky_buf \<Rightarrow> bool" where
  "hky_buf_in_memory_only b \<longleftrightarrow> hky_buf_in_memory b \<and> \<not> b_in_file b"

definition hky_buf_special :: "hky_buf \<Rightarrow> bool" where
  "hky_buf_special b \<longleftrightarrow> (b_flush b \<or> b_last_buf b \<or> b_sync b) \<and> \<not> hky_buf_in_memory b \<and> \<not> b_in_file b"

definition hky_buf_sync_only :: "hky_buf \<Rightarrow> bool" where
  "hky_buf_sync_only b \<longleftrightarrow> b_sync b \<and> \<not> hky_buf_in_memory b \<and> \<not> b_in_file b \<and> \<not> b_flush b \<and> \<not> b_last_buf b"

definition hky_buf_size :: "hky_buf \<Rightarrow> int" where
  "hky_buf_size b = (if hky_buf_in_memory b then int (b_last b) - int (b_pos b) else b_file_last b - b_file_pos b)"

definition sizeof_buf :: nat where "sizeof_buf = 80"

definition hky_create_temp_buf :: "allocator \<Rightarrow> nat \<Rightarrow> hky_pool \<Rightarrow> nat \<times> hky_buf option \<times> hky_pool" where
  "hky_create_temp_buf os sz pool =
     (let (b, pool) = hky_pcalloc os sizeof_buf pool
      in if b = 0 then (0, None, pool)
         else let (d, pool) = hky_palloc os sz pool
              in if d = 0 then (0, None, pool)
                 else (b, Some \<lparr>b_pos = d, b_last = d, b_file_pos = 0, b_file_last = 0, b_start = d, b_end = d + sz,
                    b_temporary = True, b_memory = False, b_mmap = False, b_recycled = False, b_in_file = False,
                    b_flush = False, b_sync = False, b_last_buf = False, b_last_in_chain = False\<rparr>, pool))"

text \<open>The buffers passed over, with their updates, and the chain the function returns.\<close>

fun hky_chain_update_sent :: "hky_chain \<Rightarrow> int \<Rightarrow> hky_chain \<times> hky_chain" where
  "hky_chain_update_sent [] sent = ([], [])"
| "hky_chain_update_sent (b # bs) sent =
     (if hky_buf_special b then
        let (ds, rs) = hky_chain_update_sent bs sent in (b # ds, rs)
      else if sent = 0 then ([], b # bs)
      else let sz = hky_buf_size b
           in if sent \<ge> sz then
                let b1 = (if hky_buf_in_memory b then b\<lparr>b_pos := b_last b\<rparr> else b);
                    b2 = (if b_in_file b1 then b1\<lparr>b_file_pos := b_file_last b1\<rparr> else b1);
                    (ds, rs) = hky_chain_update_sent bs (sent - sz)
                in (b2 # ds, rs)
              else
                let b1 = (if hky_buf_in_memory b then b\<lparr>b_pos := b_pos b + nat sent\<rparr> else b);
                    b2 = (if b_in_file b1 then b1\<lparr>b_file_pos := b_file_pos b1 + sent\<rparr> else b1)
                in ([], b2 # bs))"

section \<open>What a chain sends\<close>

datatype place = Mem nat | In_file int

definition buf_data :: "hky_buf \<Rightarrow> place list" where
  "buf_data b =
     (if hky_buf_special b then []
      else if hky_buf_in_memory b then map Mem [b_pos b..<b_last b]
      else map (\<lambda>i. In_file (b_file_pos b + int i)) [0..<nat (b_file_last b - b_file_pos b)])"

definition chain_data :: "hky_chain \<Rightarrow> place list" where
  "chain_data bs = concat (map buf_data bs)"

text \<open>A buffer that is not special has something to send; a file buffer that is also in memory
  has the same bytes in both.\<close>

definition buf_ok :: "hky_buf \<Rightarrow> bool" where
  "buf_ok b \<longleftrightarrow> hky_buf_special b \<or> (0 < hky_buf_size b \<and>
     (hky_buf_in_memory b \<and> b_in_file b \<longrightarrow> b_file_last b - b_file_pos b = int (b_last b) - int (b_pos b)))"

lemma chain_data_simps [simp]:
  "chain_data [] = []"
  "chain_data (b # bs) = buf_data b @ chain_data bs"
  "chain_data (bs @ cs) = chain_data bs @ chain_data cs"
  by (simp_all add: chain_data_def)

lemma buf_data_special [simp]: "hky_buf_special b \<Longrightarrow> buf_data b = []"
  by (simp add: buf_data_def)

lemma length_buf_data: "\<not> hky_buf_special b \<Longrightarrow> length (buf_data b) = nat (hky_buf_size b)"
  by (auto simp: buf_data_def hky_buf_size_def nat_diff_distrib')

lemma hky_buf_flags [simp]:
  "hky_buf_in_memory (b\<lparr>b_pos := p\<rparr>) = hky_buf_in_memory b"
  "hky_buf_in_memory (b\<lparr>b_file_pos := f\<rparr>) = hky_buf_in_memory b"
  "hky_buf_special (b\<lparr>b_pos := p\<rparr>) = hky_buf_special b"
  "hky_buf_special (b\<lparr>b_file_pos := f\<rparr>) = hky_buf_special b"
  by (simp_all add: hky_buf_in_memory_def hky_buf_special_def)

text \<open>The buffer in which sending stops.\<close>

lemma buf_advance:
  assumes "buf_ok b" "\<not> hky_buf_special b" "0 \<le> k" "k < hky_buf_size b"
    and b1: "b1 = (if hky_buf_in_memory b then b\<lparr>b_pos := b_pos b + nat k\<rparr> else b)"
    and b2: "b2 = (if b_in_file b1 then b1\<lparr>b_file_pos := b_file_pos b1 + k\<rparr> else b1)"
    and kind: "hky_buf_in_memory b \<or> b_in_file b"
  shows "buf_data b2 = drop (nat k) (buf_data b)" "buf_ok b2" "\<not> hky_buf_special b2"
proof -
  have s1: "hky_buf_special b1 = hky_buf_special b" and m1: "hky_buf_in_memory b1 = hky_buf_in_memory b"
    and f1: "b_in_file b1 = b_in_file b" by (simp_all add: b1)
  have s2: "hky_buf_special b2 = hky_buf_special b" and m2: "hky_buf_in_memory b2 = hky_buf_in_memory b"
    and f2: "b_in_file b2 = b_in_file b" by (simp_all add: b2 s1 m1 f1)
  show "\<not> hky_buf_special b2" using assms(2) s2 by simp
  show "buf_data b2 = drop (nat k) (buf_data b)"
  proof (cases "hky_buf_in_memory b")
    case True
    then have "b_pos b2 = b_pos b + nat k" "b_last b2 = b_last b" by (simp_all add: b1 b2)
    then show ?thesis using True assms(2) s2 m2 by (simp add: buf_data_def drop_map)
  next
    case False
    then have "b_in_file b" using kind by simp
    then have p: "b_file_pos b2 = b_file_pos b + k" "b_file_last b2 = b_file_last b" using False by (simp_all add: b1 b2)
    have "drop (nat k) [0..<nat (b_file_last b - b_file_pos b)]
        = map (\<lambda>i. i + nat k) [0..<nat (b_file_last b - b_file_pos b) - nat k]"
    proof -
      have "nat k \<le> nat (b_file_last b - b_file_pos b)" using assms(4) False by (simp add: hky_buf_size_def)
      then show ?thesis by (simp add: map_add_upt)
    qed
    moreover have "nat (b_file_last b - (b_file_pos b + k)) = nat (b_file_last b - b_file_pos b) - nat k"
      using assms(3) by simp
    ultimately show ?thesis using False assms(2) s2 m2 p by (simp add: buf_data_def drop_map comp_def algebra_simps)
  qed
  show "buf_ok b2"
    using assms(1-4,7) s2 m2 f2 by (auto simp: buf_ok_def hky_buf_size_def b1 b2 split: if_splits)
qed

lemma chain_update_sent_data:
  assumes "\<forall>b\<in>set bs. buf_ok b \<and> (hky_buf_special b \<or> hky_buf_in_memory b \<or> b_in_file b)"
    "0 \<le> sent" "sent \<le> int (length (chain_data bs))" "hky_chain_update_sent bs sent = (ds, rs)"
  shows "chain_data rs = drop (nat sent) (chain_data bs)" "chain_data ds = []"
    "length ds + length rs = length bs"
    "\<forall>b\<in>set rs. buf_ok b \<and> (hky_buf_special b \<or> hky_buf_in_memory b \<or> b_in_file b)"
    "rs = [] \<or> \<not> hky_buf_special (hd rs)"
proof -
  have "chain_data rs = drop (nat sent) (chain_data bs) \<and> chain_data ds = [] \<and> length ds + length rs = length bs \<and>
    (\<forall>b\<in>set rs. buf_ok b \<and> (hky_buf_special b \<or> hky_buf_in_memory b \<or> b_in_file b)) \<and> (rs = [] \<or> \<not> hky_buf_special (hd rs))"
    using assms
  proof (induction bs sent arbitrary: ds rs rule: hky_chain_update_sent.induct)
    case (2 b bs sent)
    show ?case
    proof (cases "hky_buf_special b")
      case True
      obtain ds' rs' where r: "hky_chain_update_sent bs sent = (ds', rs')" by fastforce
      have e: "ds = b # ds'" "rs = rs'" using 2(6) True r by simp_all
      have "\<forall>b\<in>set bs. buf_ok b \<and> (hky_buf_special b \<or> hky_buf_in_memory b \<or> b_in_file b)"
        "sent \<le> int (length (chain_data bs))" using 2(3,5) True by simp_all
      from "2.IH"(1) [OF True this(1) 2(4) this(2) r] show ?thesis using e True by simp
    next
      case ns: False
      then have len: "length (buf_data b) = nat (hky_buf_size b)" "0 < hky_buf_size b"
        using 2(3) length_buf_data by (auto simp: buf_ok_def)
      show ?thesis
      proof (cases "sent = 0")
        case True
        then show ?thesis using 2(3,6) ns by auto
      next
        case s0: False
        show ?thesis
        proof (cases "sent \<ge> hky_buf_size b")
          case True
          obtain ds' rs' where r: "hky_chain_update_sent bs (sent - hky_buf_size b) = (ds', rs')" by fastforce
          let ?b1 = "if hky_buf_in_memory b then b\<lparr>b_pos := b_last b\<rparr> else b"
          let ?b2 = "if b_in_file ?b1 then ?b1\<lparr>b_file_pos := b_file_last ?b1\<rparr> else ?b1"
          have e: "ds = ?b2 # ds'" "rs = rs'" using 2(6) ns s0 True r by (simp_all add: Let_def)
          have "buf_data ?b2 = []"
            using ns 2(3) by (auto simp: buf_data_def split: if_splits)
          moreover have "sent - hky_buf_size b \<le> int (length (chain_data bs))" using 2(5) len by simp
          note len' = this
          have "\<forall>b\<in>set bs. buf_ok b \<and> (hky_buf_special b \<or> hky_buf_in_memory b \<or> b_in_file b)"
            "0 \<le> sent - hky_buf_size b" using 2(3) True by simp_all
          note IH = "2.IH"(2) [OF ns s0 refl True refl refl this len' r]
          have "chain_data rs' = drop (nat sent) (chain_data (b # bs))"
            using IH 2(3) True len by (simp add: nat_diff_distrib')
          ultimately show ?thesis using IH 2(3) True e by simp
        next
          case False
          obtain b1 where b1: "b1 = (if hky_buf_in_memory b then b\<lparr>b_pos := b_pos b + nat sent\<rparr> else b)" by simp
          obtain b2 where b2: "b2 = (if b_in_file b1 then b1\<lparr>b_file_pos := b_file_pos b1 + sent\<rparr> else b1)" by simp
          have e: "ds = []" "rs = b2 # bs"
            using 2(6) ns s0 False unfolding b2 b1 by (simp_all add: Let_def)
          have kind: "hky_buf_in_memory b \<or> b_in_file b" and ok: "buf_ok b" using 2(3) ns by auto
          have lt: "sent < hky_buf_size b" using False by simp
          note adv = buf_advance [OF ok ns 2(4) lt b1 b2 kind]
          have "hky_buf_in_memory b2 \<or> b_in_file b2" using kind by (auto simp: b1 b2)
          moreover have "chain_data rs = drop (nat sent) (chain_data (b # bs))"
            using adv(1) lt e len by simp
          ultimately show ?thesis using adv(2,3) e 2(3) by simp
        qed
      qed
    qed
  qed simp
  then show "chain_data rs = drop (nat sent) (chain_data bs)" "chain_data ds = []"
    "length ds + length rs = length bs"
    "\<forall>b\<in>set rs. buf_ok b \<and> (hky_buf_special b \<or> hky_buf_in_memory b \<or> b_in_file b)"
    "rs = [] \<or> \<not> hky_buf_special (hd rs)" by blast+
qed

end
