(* ===== verification/Hky_Send.thy ===== *)
theory Hky_Send
  imports Hky_Buf
begin

text \<open>
  Reading from and writing to a socket: src/unix/hky_recv.c, hky_udp_recv.c, hky_send.c,
  hky_udp_send.c, hky_readv_chain.c, hky_writev_chain.c, hky_udp_sendmsg_chain.c and
  \<open>hky_connection_error\<close> of src/core/hky_connection.c.

  The kernel is a list of replies: each system call takes the next one, \<open>Done n\<close> for at most \<open>n\<close>
  bytes transferred (never more than was asked for) and \<open>Fail e\<close> for -1 with that \<open>errno\<close>. When the list is empty the call never returns and
  the function has the value \<open>None\<close>. What the kernel accepted is \<open>k_wire\<close> (a stream) and
  \<open>k_dgrams\<close> (datagrams). The branches for kqueue and epoll are both compiled in; the
  flags of the event module, a parameter, decide.
\<close>

section \<open>Connections and events\<close>

datatype sysret = Done nat | Fail int

record hky_event =
  e_ready :: bool
  e_eof :: bool
  e_error :: bool
  e_pending_eof :: bool
  e_kq_errno :: int
  e_available :: int

datatype hky_connection_log_error = HKY_ERROR_ALER | HKY_ERROR_ERR | HKY_ERROR_INFO
  | HKY_ERROR_IGNORE_ECONNRESET | HKY_ERROR_IGNORE_EINVAL

datatype sa_family = AF_INET u32 | AF_INET6 "byte list" | AF_OTHER

record hky_connection =
  c_read :: hky_event
  c_write :: hky_event
  c_sent :: int
  c_log_error :: hky_connection_log_error
  c_socklen :: nat
  c_wildcard :: bool
  c_local_sockaddr :: "sa_family option"
  c_logged :: "(nat \<times> int) list"
  k_replies :: "sysret list"
  k_wire :: "place list"
  k_dgrams :: "place list list"

record io_conf =
  f_flags :: u32
  f_rdhup :: bool
  f_pagesize :: int
  f_pktinfo :: bool

definition HKY_EINTR :: int where [hky_consts]: "HKY_EINTR = 4"
definition HKY_EAGAIN :: int where [hky_consts]: "HKY_EAGAIN = 11"
definition HKY_EPIPE :: int where [hky_consts]: "HKY_EPIPE = 32"
definition HKY_ENETDOWN :: int where [hky_consts]: "HKY_ENETDOWN = 100"
definition HKY_ENETUNREACH :: int where [hky_consts]: "HKY_ENETUNREACH = 101"
definition HKY_ECONNRESET :: int where [hky_consts]: "HKY_ECONNRESET = 104"
definition HKY_ENOTCONN :: int where [hky_consts]: "HKY_ENOTCONN = 107"
definition HKY_ETIMEDOUT :: int where [hky_consts]: "HKY_ETIMEDOUT = 110"
definition HKY_ECONNREFUSED :: int where [hky_consts]: "HKY_ECONNREFUSED = 111"
definition HKY_EHOSTDOWN :: int where [hky_consts]: "HKY_EHOSTDOWN = 112"
definition HKY_EHOSTUNREACH :: int where [hky_consts]: "HKY_EHOSTUNREACH = 113"

definition HKY_LOG_ALERT :: nat where "HKY_LOG_ALERT = 2"
definition HKY_LOG_ERR :: nat where "HKY_LOG_ERR = 4"
definition HKY_LOG_INFO :: nat where "HKY_LOG_INFO = 7"

definition HKY_USE_KQUEUE_EVENT :: u32 where "HKY_USE_KQUEUE_EVENT = 0x00000008"
definition HKY_USE_GREEDY_EVENT :: u32 where "HKY_USE_GREEDY_EVENT = 0x00000020"
definition HKY_USE_EPOLL_EVENT :: u32 where "HKY_USE_EPOLL_EVENT = 0x00000040"

definition HKY_IOVS_PREALLOCATE :: nat where "HKY_IOVS_PREALLOCATE = 64"
definition IOV_MAX :: nat where "IOV_MAX = 1024"

definition has_flag :: "io_conf \<Rightarrow> u32 \<Rightarrow> bool" where
  "has_flag cf f \<longleftrightarrow> f_flags cf AND f \<noteq> 0"

definition hky_connection_error :: "hky_connection \<Rightarrow> int \<Rightarrow> int \<times> hky_connection" where
  "hky_connection_error c err =
     (if err = HKY_ECONNRESET \<and> c_log_error c = HKY_ERROR_IGNORE_ECONNRESET then (0, c)
      else let level =
          (if err = 0 \<or> err = HKY_ECONNRESET \<or> err = HKY_EPIPE \<or> err = HKY_ENOTCONN \<or> err = HKY_ETIMEDOUT \<or>
              err = HKY_ECONNREFUSED \<or> err = HKY_ENETDOWN \<or> err = HKY_ENETUNREACH \<or> err = HKY_EHOSTDOWN \<or>
              err = HKY_EHOSTUNREACH
           then (case c_log_error c of
                   HKY_ERROR_IGNORE_EINVAL \<Rightarrow> HKY_LOG_INFO
                 | HKY_ERROR_IGNORE_ECONNRESET \<Rightarrow> HKY_LOG_INFO
                 | HKY_ERROR_INFO \<Rightarrow> HKY_LOG_INFO
                 | _ \<Rightarrow> HKY_LOG_ERR)
           else HKY_LOG_ALERT)
        in (HKY_ERROR, c\<lparr>c_logged := (level, err) # c_logged c\<rparr>))"

definition set_read :: "(hky_event \<Rightarrow> hky_event) \<Rightarrow> hky_connection \<Rightarrow> hky_connection" where
  "set_read f c = c\<lparr>c_read := f (c_read c)\<rparr>"
definition set_write :: "(hky_event \<Rightarrow> hky_event) \<Rightarrow> hky_connection \<Rightarrow> hky_connection" where
  "set_write f c = c\<lparr>c_write := f (c_write c)\<rparr>"

lemmas conn_defs = set_read_def set_write_def

section \<open>Receiving\<close>

text \<open>What follows a successful \<open>recv()\<close> or \<open>readv()\<close> of \<open>n > 0\<close> bytes, \<open>size\<close> having been asked for.\<close>

definition recv_ready :: "io_conf \<Rightarrow> nat \<Rightarrow> int \<Rightarrow> hky_event \<Rightarrow> hky_event" where
  "recv_ready cf n sz ev =
     (if has_flag cf HKY_USE_KQUEUE_EVENT then
        let ev = ev\<lparr>e_available := e_available ev - int n\<rparr>
        in if e_available ev \<le> 0
           then (if e_pending_eof ev then ev else ev\<lparr>e_ready := False\<rparr>)\<lparr>e_available := 0\<rparr>
           else ev
      else if has_flag cf HKY_USE_EPOLL_EVENT \<and> f_rdhup cf then
        if int n < sz
        then (if e_pending_eof ev then ev else ev\<lparr>e_ready := False\<rparr>)\<lparr>e_available := 0\<rparr>
        else ev
      else if int n < sz \<and> \<not> has_flag cf HKY_USE_GREEDY_EVENT then ev\<lparr>e_ready := False\<rparr> else ev)"

text \<open>The end of the stream.\<close>

definition recv_eof :: "io_conf \<Rightarrow> hky_event \<Rightarrow> hky_event" where
  "recv_eof cf ev =
     (let ev = ev\<lparr>e_ready := False, e_eof := True\<rparr>
      in if has_flag cf HKY_USE_KQUEUE_EVENT then ev\<lparr>e_available := 0\<rparr> else ev)"

fun recv_loop :: "io_conf \<Rightarrow> int \<Rightarrow> sysret list \<Rightarrow> hky_connection \<Rightarrow> (int \<times> hky_connection) option" where
  "recv_loop cf sz [] c = None"
| "recv_loop cf sz (Done k # rs) c =
     (let n = min k (nat sz) in if n = 0 then Some (0, set_read (recv_eof cf) c\<lparr>k_replies := rs\<rparr>)
      else Some (int n, set_read (recv_ready cf n sz) c\<lparr>k_replies := rs\<rparr>))"
| "recv_loop cf sz (Fail err # rs) c =
     (if err = HKY_EINTR then recv_loop cf sz rs c
      else let (n, c) = (if err = HKY_EAGAIN then (HKY_AGAIN, c) else hky_connection_error c err);
               c = set_read (\<lambda>ev. ev\<lparr>e_ready := False\<rparr>) c\<lparr>k_replies := rs\<rparr>
           in Some (n, if n = HKY_ERROR then set_read (\<lambda>ev. ev\<lparr>e_error := True\<rparr>) c else c))"

definition hky_unix_recv :: "io_conf \<Rightarrow> nat \<Rightarrow> hky_connection \<Rightarrow> (int \<times> hky_connection) option" where
  "hky_unix_recv cf sz c =
     (let ev = c_read c
      in if has_flag cf HKY_USE_KQUEUE_EVENT \<and> e_available ev = 0 then
           if e_pending_eof ev then
             let c = set_read (\<lambda>ev. ev\<lparr>e_ready := False, e_eof := True\<rparr>) c
             in if e_kq_errno ev \<noteq> 0
                then Some (hky_connection_error (set_read (\<lambda>ev. ev\<lparr>e_error := True\<rparr>) c) (e_kq_errno ev))
                else Some (0, c)
           else Some (HKY_AGAIN, set_read (\<lambda>ev. ev\<lparr>e_ready := False\<rparr>) c)
         else if has_flag cf HKY_USE_EPOLL_EVENT \<and> e_available ev = 0 \<and> \<not> e_pending_eof ev
         then Some (HKY_AGAIN, set_read (\<lambda>ev. ev\<lparr>e_ready := False\<rparr>) c)
         else recv_loop cf (int sz) (k_replies c) c)"

fun udp_recv_loop :: "io_conf \<Rightarrow> nat \<Rightarrow> sysret list \<Rightarrow> hky_connection \<Rightarrow> (int \<times> hky_connection) option" where
  "udp_recv_loop cf sz [] c = None"
| "udp_recv_loop cf sz (Done k # rs) c =
     (let n = min k sz in Some (int n, (if has_flag cf HKY_USE_KQUEUE_EVENT
        then set_read (\<lambda>ev. if e_available ev - int n \<le> 0 then ev\<lparr>e_ready := False, e_available := 0\<rparr>
               else ev\<lparr>e_available := e_available ev - int n\<rparr>) c
        else c)\<lparr>k_replies := rs\<rparr>))"
| "udp_recv_loop cf sz (Fail err # rs) c =
     (if err = HKY_EINTR then udp_recv_loop cf sz rs c
      else let (n, c) = (if err = HKY_EAGAIN then (HKY_AGAIN, c) else hky_connection_error c err);
               c = set_read (\<lambda>ev. ev\<lparr>e_ready := False\<rparr>) c\<lparr>k_replies := rs\<rparr>
           in Some (n, if n = HKY_ERROR then set_read (\<lambda>ev. ev\<lparr>e_error := True\<rparr>) c else c))"

definition hky_udp_unix_recv :: "io_conf \<Rightarrow> nat \<Rightarrow> hky_connection \<Rightarrow> (int \<times> hky_connection) option" where
  "hky_udp_unix_recv cf sz c = udp_recv_loop cf sz (k_replies c) c"

subsection \<open>Scattered reads\<close>

type_synonym iovec = "nat \<times> nat"

text \<open>
  The vector built from the free space of the buffers, \<open>prev\<close> the end of the last buffer taken
  and \<open>sz\<close> the bytes so far. \<open>grow n\<close> says whether \<open>hky_array_push\<close> can make room for the entry
  after \<open>n\<close> ones. A null \<open>iov\<close> that is followed is \<open>None\<close>.
\<close>

fun readv_iovs :: "(nat \<Rightarrow> bool) \<Rightarrow> int \<Rightarrow> hky_chain \<Rightarrow> nat \<Rightarrow> int \<Rightarrow> iovec list \<Rightarrow> (int option \<times> int \<times> iovec list) option" where
  "readv_iovs grow limit [] prev sz iovs = Some (None, sz, iovs)"
| "readv_iovs grow limit (b # bs) prev sz iovs =
     (let n0 = int (b_end b) - int (b_last b)
      in if limit \<noteq> 0 \<and> sz \<ge> limit then Some (None, sz, iovs)
         else let n = (if limit \<noteq> 0 \<and> sz + n0 > limit then limit - sz else n0)
              in if prev = b_last b then
                   (if iovs = [] then None
                    else readv_iovs grow limit bs (b_end b) (sz + n)
                           (butlast iovs @ [(fst (last iovs), snd (last iovs) + nat n)]))
                 else if length iovs \<ge> IOV_MAX then Some (None, sz, iovs)
                 else if \<not> grow (length iovs) then Some (Some HKY_ERROR, sz, iovs)
                 else readv_iovs grow limit bs (b_end b) (sz + n) (iovs @ [(b_last b, nat n)]))"

text \<open>\<open>while (err = HKY_EINTR)\<close> assigns, so a read that is not ready is repeated.\<close>

fun readv_loop :: "io_conf \<Rightarrow> int \<Rightarrow> sysret list \<Rightarrow> hky_connection \<Rightarrow> (int \<times> hky_connection) option" where
  "readv_loop cf sz [] c = None"
| "readv_loop cf sz (Done k # rs) c =
     (let n = min k (nat sz) in if n = 0 then Some (0, set_read (recv_eof cf) c\<lparr>k_replies := rs\<rparr>)
      else Some (int n, set_read (recv_ready cf n sz) c\<lparr>k_replies := rs\<rparr>))"
| "readv_loop cf sz (Fail err # rs) c =
     (if err = HKY_EAGAIN \<or> err = HKY_EINTR then readv_loop cf sz rs c
      else let (n, c) = hky_connection_error c err;
               c = set_read (\<lambda>ev. ev\<lparr>e_ready := False\<rparr>) c\<lparr>k_replies := rs\<rparr>
           in Some (n, if n = HKY_ERROR then set_read (\<lambda>ev. ev\<lparr>e_error := True\<rparr>) c else c))"

definition hky_readv_chain :: "io_conf \<Rightarrow> (nat \<Rightarrow> bool) \<Rightarrow> hky_chain \<Rightarrow> int \<Rightarrow> hky_connection \<Rightarrow> (int \<times> hky_connection) option" where
  "hky_readv_chain cf grow chain limit c =
     (let ev = c_read c
      in if has_flag cf HKY_USE_KQUEUE_EVENT \<and> e_available ev = 0 then
           if e_pending_eof ev then
             let c = (set_read (\<lambda>ev. ev\<lparr>e_ready := False, e_eof := True\<rparr>) c)
                       \<lparr>c_logged := (HKY_LOG_INFO, e_kq_errno ev) # c_logged c\<rparr>
             in if e_kq_errno ev \<noteq> 0
                then Some (HKY_ERROR, set_read (\<lambda>ev. ev\<lparr>e_error := True\<rparr>) c)
                else Some (0, c)
           else Some (HKY_AGAIN, c)
         else if has_flag cf HKY_USE_EPOLL_EVENT \<and> e_available ev = 0 \<and> \<not> e_pending_eof ev
         then Some (HKY_AGAIN, c)
         else case readv_iovs grow limit chain 0 0 [] of
                None \<Rightarrow> None
              | Some (Some rc, sz, iovs) \<Rightarrow> Some (rc, c)
              | Some (None, sz, iovs) \<Rightarrow> readv_loop cf sz (k_replies c) c)"

section \<open>Sending\<close>

definition mem_data :: "nat \<Rightarrow> nat \<Rightarrow> place list" where
  "mem_data p n = map Mem [p..<p + n]"

definition iov_data :: "iovec list \<Rightarrow> place list" where
  "iov_data iovs = concat (map (\<lambda>(base, len). mem_data base len) iovs)"

fun unix_send_loop :: "nat \<Rightarrow> nat \<Rightarrow> sysret list \<Rightarrow> hky_connection \<Rightarrow> (int \<times> hky_connection) option" where
  "unix_send_loop buf sz [] c = None"
| "unix_send_loop buf sz (Done k # rs) c =
     (let n = min k sz;
          c = c\<lparr>k_replies := rs, k_wire := k_wire c @ take n (mem_data buf sz)\<rparr>
      in if n > 0 then
           let c = (if n < sz then set_write (\<lambda>wev. wev\<lparr>e_ready := False\<rparr>) c else c)
           in Some (int n, c\<lparr>c_sent := c_sent c + int n\<rparr>)
         else Some (0, (set_write (\<lambda>wev. wev\<lparr>e_ready := False\<rparr>) c)\<lparr>c_logged := (HKY_LOG_ALERT, 0) # c_logged c\<rparr>))"
| "unix_send_loop buf sz (Fail err # rs) c =
     (let c = c\<lparr>k_replies := rs\<rparr>
      in if err = HKY_EAGAIN \<or> err = HKY_EINTR then
           let c = set_write (\<lambda>wev. wev\<lparr>e_ready := False\<rparr>) c
           in if err = HKY_EAGAIN then Some (HKY_AGAIN, c) else unix_send_loop buf sz rs c
         else Some (HKY_ERROR, snd (hky_connection_error (set_write (\<lambda>wev. wev\<lparr>e_error := True\<rparr>) c) err)))"

definition hky_unix_send :: "io_conf \<Rightarrow> nat \<Rightarrow> nat \<Rightarrow> hky_connection \<Rightarrow> (int \<times> hky_connection) option" where
  "hky_unix_send cf buf sz c =
     (if has_flag cf HKY_USE_KQUEUE_EVENT \<and> e_pending_eof (c_write c)
      then Some (HKY_ERROR, set_write (\<lambda>wev. wev\<lparr>e_error := True\<rparr>) (snd (hky_connection_error c (e_kq_errno (c_write c)))))
      else unix_send_loop buf sz (k_replies c) c)"

fun udp_send_loop :: "nat \<Rightarrow> nat \<Rightarrow> sysret list \<Rightarrow> hky_connection \<Rightarrow> (int \<times> hky_connection) option" where
  "udp_send_loop buf sz [] c = None"
| "udp_send_loop buf sz (Done k # rs) c =
     (let n = min k sz;
          c = c\<lparr>k_replies := rs, k_dgrams := k_dgrams c @ [take n (mem_data buf sz)]\<rparr>
      in if n \<noteq> sz then Some (HKY_ERROR, snd (hky_connection_error (set_write (\<lambda>wev. wev\<lparr>e_error := True\<rparr>) c) 0))
         else Some (int n, c\<lparr>c_sent := c_sent c + int n\<rparr>))"
| "udp_send_loop buf sz (Fail err # rs) c =
     (let c = c\<lparr>k_replies := rs\<rparr>
      in if err = HKY_EAGAIN then Some (HKY_AGAIN, set_write (\<lambda>wev. wev\<lparr>e_ready := False\<rparr>) c)
         else if err \<noteq> HKY_EINTR
         then Some (HKY_ERROR, snd (hky_connection_error (set_write (\<lambda>wev. wev\<lparr>e_error := True\<rparr>) c) err))
         else udp_send_loop buf sz rs c)"

definition hky_udp_unix_send :: "nat \<Rightarrow> nat \<Rightarrow> hky_connection \<Rightarrow> (int \<times> hky_connection) option" where
  "hky_udp_unix_send buf sz c = udp_send_loop buf sz (k_replies c) c"

subsection \<open>Gathered writes\<close>

datatype 'a chain_res = Chain_error | Chain 'a

text \<open>
  The vector for a stream: at most \<open>limit\<close> bytes of memory buffers, neighbouring buffers merged
  into one entry, stopping at a file buffer or when the \<open>nalloc\<close> entries are used.
\<close>

fun output_iovs :: "nat \<Rightarrow> nat \<Rightarrow> hky_chain \<Rightarrow> nat \<Rightarrow> nat \<Rightarrow> iovec list \<Rightarrow> (iovec list \<times> nat \<times> hky_chain) chain_res option" where
  "output_iovs nalloc limit [] prev tot iovs = Some (Chain (iovs, tot, []))"
| "output_iovs nalloc limit (b # bs) prev tot iovs =
     (if \<not> tot < limit then Some (Chain (iovs, tot, b # bs))
      else if hky_buf_special b then output_iovs nalloc limit bs prev tot iovs
      else if b_in_file b then Some (Chain (iovs, tot, b # bs))
      else if \<not> hky_buf_in_memory b then Some Chain_error
      else let sz0 = size_t (int (b_last b) - int (b_pos b));
               sz = (if sz0 > limit - tot then limit - tot else sz0)
           in if prev = b_pos b then
                (if iovs = [] then None
                 else output_iovs nalloc limit bs (b_pos b + sz) (tot + sz)
                        (butlast iovs @ [(fst (last iovs), snd (last iovs) + sz)]))
              else if length iovs = nalloc then Some (Chain (iovs, tot, b # bs))
              else output_iovs nalloc limit bs (b_pos b + sz) (tot + sz) (iovs @ [(b_pos b, sz)]))"

definition hky_output_chain_to_iovec :: "nat \<Rightarrow> hky_chain \<Rightarrow> nat \<Rightarrow> (iovec list \<times> nat \<times> hky_chain) chain_res option" where
  "hky_output_chain_to_iovec nalloc ins limit = output_iovs nalloc limit ins 0 0 []"

fun writev_loop :: "iovec list \<Rightarrow> sysret list \<Rightarrow> hky_connection \<Rightarrow> (int \<times> hky_connection) option" where
  "writev_loop iovs [] c = None"
| "writev_loop iovs (Done k # rs) c =
     (let n = min k (length (iov_data iovs))
      in Some (int n, c\<lparr>k_replies := rs, k_wire := k_wire c @ take n (iov_data iovs)\<rparr>))"
| "writev_loop iovs (Fail err # rs) c =
     (let c = c\<lparr>k_replies := rs\<rparr>
      in if err = HKY_EAGAIN then Some (HKY_AGAIN, c)
         else if err = HKY_EINTR then writev_loop iovs rs c
         else Some (HKY_ERROR, snd (hky_connection_error (set_write (\<lambda>wev. wev\<lparr>e_error := True\<rparr>) c) err)))"

definition hky_writev :: "iovec list \<Rightarrow> hky_connection \<Rightarrow> (int \<times> hky_connection) option" where
  "hky_writev iovs c = writev_loop iovs (k_replies c) c"

lemma connection_error_replies [simp]: "k_replies (snd (hky_connection_error c e)) = k_replies c"
  by (simp add: hky_connection_error_def Let_def)

lemma writev_consumes: "hky_writev iovs c = Some (n, c') \<Longrightarrow> length (k_replies c') < length (k_replies c)"
proof -
  have "writev_loop iovs rs c = Some (n, c') \<Longrightarrow> length (k_replies c') < length rs" for rs
    by (induction iovs rs c rule: writev_loop.induct) (auto simp: Let_def conn_defs split: if_splits)
  then show "hky_writev iovs c = Some (n, c') \<Longrightarrow> length (k_replies c') < length (k_replies c)"
    by (simp add: hky_writev_def)
qed

text \<open>The loop of \<open>hky_writev_chain\<close>; every round takes a reply of the kernel.\<close>

function writev_chain_loop :: "int \<Rightarrow> int \<Rightarrow> hky_chain \<Rightarrow> hky_connection \<Rightarrow> (hky_chain chain_res \<times> hky_connection) option" where
  "writev_chain_loop limit send ins c =
     (case hky_output_chain_to_iovec HKY_IOVS_PREALLOCATE ins (size_t (limit - send)) of
        None \<Rightarrow> None
      | Some Chain_error \<Rightarrow> Some (Chain_error, c)
      | Some (Chain (iovs, vec_size, cl)) \<Rightarrow>
          if cl \<noteq> [] \<and> b_in_file (hd cl)
          then Some (Chain_error, c\<lparr>c_logged := (HKY_LOG_ALERT, 0) # c_logged c\<rparr>)
          else (case hky_writev iovs c of
             None \<Rightarrow> None
           | Some (n, c1) \<Rightarrow>
               if n = HKY_ERROR then Some (Chain_error, c1)
               else let sent = (if n = HKY_AGAIN then 0 else n);
                        c2 = c1\<lparr>c_sent := c_sent c1 + sent\<rparr>;
                        ins' = snd (hky_chain_update_sent ins sent);
                        send' = send + int vec_size
                    in if send' - send \<noteq> sent
                       then Some (Chain ins', set_write (\<lambda>wev. wev\<lparr>e_ready := False\<rparr>) c2)
                       else if send' \<ge> limit \<or> ins' = [] then Some (Chain ins', c2)
                       else writev_chain_loop limit send' ins' c2))"
  by pat_completeness auto
termination by (relation "measure (\<lambda>(limit, send, ins, c). length (k_replies c))") (auto dest: writev_consumes)

declare writev_chain_loop.simps [simp del]

text \<open>The limit the callers give, and the one that is used.\<close>

definition io_limit :: "io_conf \<Rightarrow> int \<Rightarrow> int" where
  "io_limit cf limit =
     (if limit = 0 \<or> limit > HKY_MAX_SIZE_T_VALUE - f_pagesize cf then HKY_MAX_SIZE_T_VALUE - f_pagesize cf else limit)"

definition hky_writev_chain :: "io_conf \<Rightarrow> hky_chain \<Rightarrow> int \<Rightarrow> hky_connection \<Rightarrow> (hky_chain chain_res \<times> hky_connection) option" where
  "hky_writev_chain cf ins limit c =
     (if \<not> e_ready (c_write c) then Some (Chain ins, c)
      else if has_flag cf HKY_USE_KQUEUE_EVENT \<and> e_pending_eof (c_write c)
      then Some (Chain_error, set_write (\<lambda>wev. wev\<lparr>e_error := True\<rparr>) (snd (hky_connection_error c (e_kq_errno (c_write c)))))
      else writev_chain_loop (io_limit cf limit) 0 ins c)"

subsection \<open>Datagrams\<close>

text \<open>The vector for one datagram: the buffers up to the first with \<open>flush\<close> or \<open>last_buf\<close>.\<close>

fun udp_iovs :: "nat \<Rightarrow> hky_chain \<Rightarrow> nat \<Rightarrow> nat \<Rightarrow> bool \<Rightarrow> iovec list \<Rightarrow> (bool \<times> iovec list \<times> nat \<times> hky_chain) chain_res option" where
  "udp_iovs nalloc [] prev tot flush iovs = Some (Chain (flush, iovs, tot, []))"
| "udp_iovs nalloc (b # bs) prev tot flush iovs =
     (if flush then Some (Chain (flush, iovs, tot, b # bs))
      else let flush = (b_flush b \<or> b_last_buf b)
           in if hky_buf_special b then udp_iovs nalloc bs prev tot flush iovs
              else if b_in_file b then Some (Chain (flush, iovs, tot, b # bs))
              else if \<not> hky_buf_in_memory b then Some Chain_error
              else let sz = size_t (int (b_last b) - int (b_pos b))
                   in if prev = b_pos b then
                        (if iovs = [] then None
                         else udp_iovs nalloc bs (b_pos b + sz) (tot + sz) flush
                                (butlast iovs @ [(fst (last iovs), snd (last iovs) + sz)]))
                      else if length iovs = nalloc then Some Chain_error
                      else udp_iovs nalloc bs (b_pos b + sz) (tot + sz) flush (iovs @ [(b_pos b, sz)]))"

text \<open>Without a flush the chain is returned as it came and the vector is empty (\<open>HKY_SUPPRESS_WARN\<close>).\<close>

definition hky_udp_output_chain_to_iovec :: "nat \<Rightarrow> hky_chain \<Rightarrow> (iovec list \<times> nat \<times> hky_chain) chain_res option" where
  "hky_udp_output_chain_to_iovec nalloc ins =
     (case udp_iovs nalloc ins 0 0 False [] of
        None \<Rightarrow> None
      | Some Chain_error \<Rightarrow> Some Chain_error
      | Some (Chain (flush, iovs, tot, cl)) \<Rightarrow>
          if \<not> flush then Some (Chain ([], 0, ins)) else Some (Chain (iovs, tot, cl)))"

text \<open>The ancillary data that fixes the source address on a wildcard socket.\<close>

datatype cmsg = IP_SENDSRCADDR u32 | IP_PKTINFO u32 | IPV6_PKTINFO "byte list"

definition sendmsg_control :: "io_conf \<Rightarrow> hky_connection \<Rightarrow> cmsg option" where
  "sendmsg_control cf c =
     (if c_wildcard c then
        (case c_local_sockaddr c of
           Some (AF_INET a) \<Rightarrow> Some (if f_pktinfo cf then IP_PKTINFO a else IP_SENDSRCADDR a)
         | Some (AF_INET6 a) \<Rightarrow> Some (IPV6_PKTINFO a)
         | _ \<Rightarrow> None)
      else None)"

fun sendmsg_loop :: "iovec list \<Rightarrow> sysret list \<Rightarrow> hky_connection \<Rightarrow> (int \<times> hky_connection) option" where
  "sendmsg_loop iovs [] c = None"
| "sendmsg_loop iovs (Done k # rs) c =
     (let n = min k (length (iov_data iovs))
      in Some (int n, c\<lparr>k_replies := rs, k_dgrams := k_dgrams c @ [take n (iov_data iovs)]\<rparr>))"
| "sendmsg_loop iovs (Fail err # rs) c =
     (let c = c\<lparr>k_replies := rs\<rparr>
      in if err = HKY_EAGAIN then Some (HKY_AGAIN, c)
         else if err = HKY_EINTR then sendmsg_loop iovs rs c
         else Some (HKY_ERROR, snd (hky_connection_error (set_write (\<lambda>wev. wev\<lparr>e_error := True\<rparr>) c) err)))"

text \<open>The ancillary data goes to the kernel with the datagram.\<close>

definition hky_sendmsg :: "io_conf \<Rightarrow> iovec list \<Rightarrow> hky_connection \<Rightarrow> cmsg option \<times> (int \<times> hky_connection) option" where
  "hky_sendmsg cf iovs c = (sendmsg_control cf c, sendmsg_loop iovs (k_replies c) c)"

lemma sendmsg_consumes: "snd (hky_sendmsg cf iovs c) = Some (n, c') \<Longrightarrow> length (k_replies c') < length (k_replies c)"
proof -
  have "sendmsg_loop iovs rs c = Some (n, c') \<Longrightarrow> length (k_replies c') < length rs" for rs
    by (induction iovs rs c rule: sendmsg_loop.induct) (auto simp: Let_def conn_defs split: if_splits)
  then show "snd (hky_sendmsg cf iovs c) = Some (n, c') \<Longrightarrow> length (k_replies c') < length (k_replies c)"
    by (simp add: hky_sendmsg_def)
qed

function udp_chain_loop :: "io_conf \<Rightarrow> int \<Rightarrow> int \<Rightarrow> hky_chain \<Rightarrow> hky_connection \<Rightarrow> (hky_chain chain_res \<times> hky_connection) option" where
  "udp_chain_loop cf limit send ins c =
     (case hky_udp_output_chain_to_iovec HKY_IOVS_PREALLOCATE ins of
        None \<Rightarrow> None
      | Some Chain_error \<Rightarrow> Some (Chain_error, c)
      | Some (Chain (iovs, vec_size, cl)) \<Rightarrow>
          if cl \<noteq> [] \<and> b_in_file (hd cl)
          then Some (Chain_error, c\<lparr>c_logged := (HKY_LOG_ALERT, 0) # c_logged c\<rparr>)
          else if cl = ins then Some (Chain ins, c)
          else (case snd (hky_sendmsg cf iovs c) of
             None \<Rightarrow> None
           | Some (n, c1) \<Rightarrow>
               if n = HKY_ERROR then Some (Chain_error, c1)
               else if n = HKY_AGAIN then Some (Chain ins, set_write (\<lambda>wev. wev\<lparr>e_ready := False\<rparr>) c1)
               else let c2 = c1\<lparr>c_sent := c_sent c1 + n\<rparr>;
                        ins' = snd (hky_chain_update_sent ins n);
                        send' = send + int vec_size
                    in if send' \<ge> limit \<or> ins' = [] then Some (Chain ins', c2)
                       else udp_chain_loop cf limit send' ins' c2))"
  by pat_completeness auto
termination by (relation "measure (\<lambda>(cf, limit, send, ins, c). length (k_replies c))") (auto dest: sendmsg_consumes)

declare udp_chain_loop.simps [simp del]

definition hky_udp_unix_sendmsg_chain :: "io_conf \<Rightarrow> hky_chain \<Rightarrow> int \<Rightarrow> hky_connection \<Rightarrow> (hky_chain chain_res \<times> hky_connection) option" where
  "hky_udp_unix_sendmsg_chain cf ins limit c =
     (if \<not> e_ready (c_write c) then Some (Chain ins, c)
      else if has_flag cf HKY_USE_KQUEUE_EVENT \<and> e_pending_eof (c_write c)
      then Some (Chain_error, set_write (\<lambda>wev. wev\<lparr>e_error := True\<rparr>) (snd (hky_connection_error c (e_kq_errno (c_write c)))))
      else udp_chain_loop cf (io_limit cf limit) 0 ins c)"

section \<open>Streams\<close>

lemma mem_data_add: "mem_data p (m + n) = mem_data p m @ mem_data (p + m) n"
  by (simp add: mem_data_def upt_add_eq_append [of p "p + m" n, simplified] flip: map_append add.assoc)

lemma length_mem_data [simp]: "length (mem_data p n) = n"
  by (simp add: mem_data_def)

lemma take_mem_data: "k \<le> n \<Longrightarrow> take k (mem_data p n) = mem_data p k"
  by (simp add: mem_data_def take_map)

lemma iov_data_simps [simp]:
  "iov_data [] = []" "iov_data (iovs @ [(p, n)]) = iov_data iovs @ mem_data p n"
  by (simp_all add: iov_data_def)

lemma iov_data_extend:
  assumes "iovs \<noteq> []" "fst (last iovs) + snd (last iovs) = p"
  shows "iov_data (butlast iovs @ [(fst (last iovs), snd (last iovs) + n)]) = iov_data iovs @ mem_data p n"
proof -
  have "iovs = butlast iovs @ [(fst (last iovs), snd (last iovs))]" using assms(1) by simp
  then have "iov_data iovs = iov_data (butlast iovs) @ mem_data (fst (last iovs)) (snd (last iovs))"
    by (metis iov_data_simps(2))
  then show ?thesis using assms(2) by (simp add: mem_data_add)
qed

definition chain_ok :: "hky_chain \<Rightarrow> bool" where
  "chain_ok bs \<longleftrightarrow> (\<forall>b\<in>set bs. (buf_ok b \<and> (hky_buf_special b \<or> hky_buf_in_memory b \<or> b_in_file b)) \<and>
     0 < b_pos b \<and> b_last b < 2 ^ 64)"

lemma size_t_nat: "n < 2 ^ 64 \<Longrightarrow> size_t (int n) = n"
  by (simp add: size_t_id)

lemma memory_buf:
  assumes "buf_ok b" "\<not> hky_buf_special b" "hky_buf_in_memory b" "b_last b < 2 ^ 64"
  shows "size_t (int (b_last b) - int (b_pos b)) = b_last b - b_pos b" "b_pos b < b_last b"
    "buf_data b = mem_data (b_pos b) (b_last b - b_pos b)"
proof -
  show l: "b_pos b < b_last b" using assms by (simp add: buf_ok_def hky_buf_size_def)
  have eq: "int (b_last b) - int (b_pos b) = int (b_last b - b_pos b)" using l by simp
  show "size_t (int (b_last b) - int (b_pos b)) = b_last b - b_pos b"
    unfolding eq by (rule size_t_nat [OF less_imp_diff_less [OF assms(4)]])
  show "buf_data b = mem_data (b_pos b) (b_last b - b_pos b)" using assms(2,3) l by (simp add: buf_data_def mem_data_def)
qed

text \<open>The entries are the first \<open>k\<close> bytes of the chain.\<close>

lemma output_iovs_data:
  assumes "chain_ok bs" "tot \<le> limit" "length iovs \<le> nalloc"
    "if iovs = [] then prev = 0 else prev = fst (last iovs) + snd (last iovs)"
    "output_iovs nalloc limit bs prev tot iovs = res"
  shows "res \<noteq> None \<and> (\<forall>iovs' tot' cl. res = Some (Chain (iovs', tot', cl)) \<longrightarrow>
    (\<exists>k\<le>length (chain_data bs). iov_data iovs' = iov_data iovs @ take k (chain_data bs) \<and> tot' = tot + k \<and>
       tot' \<le> limit \<and> length iovs' \<le> nalloc))"
  using assms
proof (induction nalloc limit bs prev tot iovs arbitrary: res rule: output_iovs.induct)
  case (1 nalloc limit prev tot iovs)
  then show ?case by auto
next
  case (2 nalloc limit b bs prev tot iovs)
  have ok: "chain_ok bs" using "2.prems"(1) by (simp add: chain_ok_def)
  let ?stop = "res = Some (Chain (iovs, tot, b # bs))"
  have stop: ?case if ?stop
    using that "2.prems"(2,3) by auto
  show ?case
  proof (cases "tot < limit")
    case False
    then show ?thesis using "2.prems"(5) by (intro stop) simp
  next
    case lt: True
    show ?thesis
    proof (cases "hky_buf_special b")
      case True
      from "2.IH"(1) [OF _ True ok "2.prems"(2-4) refl] lt show ?thesis using "2.prems"(5) True by simp
    next
      case ns: False
      show ?thesis
      proof (cases "b_in_file b \<or> \<not> hky_buf_in_memory b")
        case True
        then show ?thesis using "2.prems"(5) lt ns stop by (cases "b_in_file b") auto
      next
        case False
        then have m: "\<not> b_in_file b" "hky_buf_in_memory b" by simp_all
        have nn: "\<not> \<not> tot < limit" "\<not> \<not> hky_buf_in_memory b" using lt m by simp_all
        have b: "buf_ok b" "0 < b_pos b" "b_last b < 2 ^ 64" using "2.prems"(1) by (simp_all add: chain_ok_def)
        note mem = memory_buf [OF b(1) ns m(2) b(3)]
        obtain sz where sz: "sz = (if size_t (int (b_last b) - int (b_pos b)) > limit - tot then limit - tot
            else size_t (int (b_last b) - int (b_pos b)))" by simp
        have szle: "sz \<le> b_last b - b_pos b" "tot + sz \<le> limit" using lt by (auto simp: sz mem(1))
        have cut: "sz = b_last b - b_pos b \<or> tot + sz = limit" using lt by (auto simp: sz mem(1))
        have combine: "\<exists>k\<le>length (chain_data (b # bs)). iov_data iovs' = iov_data iovs @ take k (chain_data (b # bs)) \<and>
            tot' = tot + k \<and> tot' \<le> limit \<and> length iovs' \<le> nalloc"
          if "k \<le> length (chain_data bs)" "iov_data iovs' = (iov_data iovs @ mem_data (b_pos b) sz) @ take k (chain_data bs)"
            "tot' = tot + sz + k" "tot' \<le> limit" "length iovs' \<le> nalloc" for k iovs' tot'
        proof (cases "sz = b_last b - b_pos b")
          case True
          then show ?thesis using that mem(3) by (intro exI [of _ "sz + k"]) simp
        next
          case False
          then have "k = 0" using cut that(3,4) by simp
          then show ?thesis using that mem(3) szle take_mem_data [OF szle(1)] by (intro exI [of _ sz]) simp
        qed
        show ?thesis
        proof (cases "prev = b_pos b")
          case True
          then have ne: "iovs \<noteq> []" and prev: "fst (last iovs) + snd (last iovs) = b_pos b"
            using "2.prems"(4) b(2) by (auto split: if_splits)
          let ?iovs = "butlast iovs @ [(fst (last iovs), snd (last iovs) + sz)]"
          have call: "output_iovs nalloc limit bs (b_pos b + sz) (tot + sz) ?iovs = res"
            using "2.prems"(5) lt ns m True ne by (simp add: sz Let_def)
          have len: "length ?iovs \<le> nalloc" using "2.prems"(3) ne by simp
          have pr: "if ?iovs = [] then b_pos b + sz = 0 else b_pos b + sz = fst (last ?iovs) + snd (last ?iovs)"
            using prev by simp
          have "res \<noteq> None \<and> (\<forall>iovs' tot' cl. res = Some (Chain (iovs', tot', cl)) \<longrightarrow>
              (\<exists>k\<le>length (chain_data bs). iov_data iovs' = iov_data ?iovs @ take k (chain_data bs) \<and> tot' = tot + sz + k \<and>
                 tot' \<le> limit \<and> length iovs' \<le> nalloc))"
            by (rule "2.IH"(2) [OF nn(1) ns m(1) nn(2) refl sz True ne ok szle(2) len pr call])
          note IH = this [unfolded iov_data_extend [OF ne prev]]
          show ?thesis
          proof (intro conjI allI impI)
            show "res \<noteq> None" using IH by blast
            fix iovs' tot' cl assume "res = Some (Chain (iovs', tot', cl))"
            then obtain k where "k \<le> length (chain_data bs)"
              "iov_data iovs' = (iov_data iovs @ mem_data (b_pos b) sz) @ take k (chain_data bs)"
              "tot' = tot + sz + k" "tot' \<le> limit" "length iovs' \<le> nalloc"
              using IH by blast
            then show "\<exists>k\<le>length (chain_data (b # bs)). iov_data iovs' = iov_data iovs @ take k (chain_data (b # bs)) \<and>
              tot' = tot + k \<and> tot' \<le> limit \<and> length iovs' \<le> nalloc" by (rule combine)
          qed
        next
          case np: False
          show ?thesis
          proof (cases "length iovs = nalloc")
            case True
            then show ?thesis using "2.prems"(5) lt ns m np by (intro stop) simp
          next
            case False
            let ?iovs = "iovs @ [(b_pos b, sz)]"
            have call: "output_iovs nalloc limit bs (b_pos b + sz) (tot + sz) ?iovs = res"
              using "2.prems"(5) lt ns m np False by (simp add: sz Let_def)
            have len: "length ?iovs \<le> nalloc" using "2.prems"(3) False by simp
            have pr: "if ?iovs = [] then b_pos b + sz = 0 else b_pos b + sz = fst (last ?iovs) + snd (last ?iovs)"
              by simp
            have "res \<noteq> None \<and> (\<forall>iovs' tot' cl. res = Some (Chain (iovs', tot', cl)) \<longrightarrow>
              (\<exists>k\<le>length (chain_data bs). iov_data iovs' = iov_data ?iovs @ take k (chain_data bs) \<and> tot' = tot + sz + k \<and>
                 tot' \<le> limit \<and> length iovs' \<le> nalloc))"
              by (rule "2.IH"(3) [OF nn(1) ns m(1) nn(2) refl sz np False ok szle(2) len pr call])
            note IH = this [unfolded iov_data_simps]
            show ?thesis
          proof (intro conjI allI impI)
            show "res \<noteq> None" using IH by blast
            fix iovs' tot' cl assume "res = Some (Chain (iovs', tot', cl))"
            then obtain k where "k \<le> length (chain_data bs)"
              "iov_data iovs' = (iov_data iovs @ mem_data (b_pos b) sz) @ take k (chain_data bs)"
              "tot' = tot + sz + k" "tot' \<le> limit" "length iovs' \<le> nalloc"
              using IH by blast
            then show "\<exists>k\<le>length (chain_data (b # bs)). iov_data iovs' = iov_data iovs @ take k (chain_data (b # bs)) \<and>
              tot' = tot + k \<and> tot' \<le> limit \<and> length iovs' \<le> nalloc" by (rule combine)
          qed
          qed
        qed
      qed
    qed
  qed
qed

text \<open>What a system call leaves as it was.\<close>

definition same_conn :: "hky_connection \<Rightarrow> hky_connection \<Rightarrow> bool" where
  "same_conn c d \<longleftrightarrow> c_sent d = c_sent c \<and> c_read d = c_read c \<and> e_ready (c_write d) = e_ready (c_write c)"

lemma connection_error_same [simp]:
  "k_wire (snd (hky_connection_error c e)) = k_wire c" "k_dgrams (snd (hky_connection_error c e)) = k_dgrams c"
  "c_sent (snd (hky_connection_error c e)) = c_sent c" "c_read (snd (hky_connection_error c e)) = c_read c"
  "c_write (snd (hky_connection_error c e)) = c_write c"
  by (simp_all add: hky_connection_error_def Let_def)

lemma writev_spec:
  "hky_writev iovs c = Some (n, d) \<Longrightarrow>
     same_conn c d \<and>
     (if 0 \<le> n then n \<le> int (length (iov_data iovs)) \<and> k_wire d = k_wire c @ take (nat n) (iov_data iovs)
      else k_wire d = k_wire c \<and> (n = HKY_AGAIN \<or> n = HKY_ERROR \<and> e_error (c_write d)))"
proof -
  have "writev_loop iovs rs c = Some (n, d) \<Longrightarrow>
     same_conn c d \<and>
     (if 0 \<le> n then n \<le> int (length (iov_data iovs)) \<and> k_wire d = k_wire c @ take (nat n) (iov_data iovs)
      else k_wire d = k_wire c \<and> (n = HKY_AGAIN \<or> n = HKY_ERROR \<and> e_error (c_write d)))" for rs
  proof (induction iovs rs c rule: writev_loop.induct)
    case (3 iovs err rs c)
    show ?case
    proof (cases "err = HKY_EINTR")
      case True
      then have "writev_loop iovs rs (c\<lparr>k_replies := rs\<rparr>) = Some (n, d)" using 3(2) by (simp add: hky_consts)
      moreover have "err \<noteq> HKY_EAGAIN" using True by (simp add: hky_consts)
      ultimately show ?thesis using 3(1) [OF refl _ True] by (simp add: same_conn_def)
    next
      case False
      then show ?thesis using 3(2) by (auto simp: same_conn_def conn_defs Let_def hky_consts split: if_splits)
    qed
  qed (auto simp: same_conn_def Let_def)
  then show "hky_writev iovs c = Some (n, d) \<Longrightarrow> ?thesis" by (simp add: hky_writev_def)
qed

lemma update_sent_chain:
  assumes "chain_ok bs" "0 \<le> sent" "sent \<le> int (length (chain_data bs))"
  shows "chain_data (snd (hky_chain_update_sent bs sent)) = drop (nat sent) (chain_data bs)"
    "chain_ok (snd (hky_chain_update_sent bs sent))"
    "snd (hky_chain_update_sent bs sent) = [] \<longleftrightarrow> nat sent = length (chain_data bs)"
proof -
  obtain ds rs where r: "hky_chain_update_sent bs sent = (ds, rs)" by fastforce
  have ok: "\<forall>b\<in>set bs. buf_ok b \<and> (hky_buf_special b \<or> hky_buf_in_memory b \<or> b_in_file b)"
    using assms(1) by (simp add: chain_ok_def)
  note d = chain_update_sent_data [OF ok assms(2,3) r]
  have "\<forall>r\<in>set rs. 0 < b_pos r \<and> b_last r < 2 ^ 64"
  proof -
    have "\<forall>r\<in>set (snd (hky_chain_update_sent bs sent)). \<exists>b\<in>set bs. b_pos b \<le> b_pos r \<and> b_last r = b_last b"
      by (induction bs sent rule: hky_chain_update_sent.induct) (auto simp: Let_def split: prod.splits)
    then show ?thesis using assms(1) unfolding r chain_ok_def by fastforce
  qed
  then have cok: "chain_ok rs" using d(4) by (simp add: chain_ok_def)
  show "chain_data (snd (hky_chain_update_sent bs sent)) = drop (nat sent) (chain_data bs)"
    "chain_ok (snd (hky_chain_update_sent bs sent))" using d(1) cok by (simp_all add: r)
  have "rs = [] \<longleftrightarrow> chain_data rs = []"
  proof
    assume e: "chain_data rs = []"
    show "rs = []"
    proof (rule ccontr)
      assume ne: "rs \<noteq> []"
      then have ns: "\<not> hky_buf_special (hd rs)" and bo: "buf_ok (hd rs)" using d(4,5) by auto
      have "0 < length (buf_data (hd rs))" using length_buf_data [OF ns] bo ns by (simp add: buf_ok_def)
      then show False using e ne by (cases rs) auto
    qed
  qed simp
  then show "snd (hky_chain_update_sent bs sent) = [] \<longleftrightarrow> nat sent = length (chain_data bs)"
    using d(1) assms(3) by (auto simp: r)
qed

text \<open>The whole of \<open>hky_writev_chain\<close>: \<open>k\<close> bytes were sent.\<close>

definition stream_sent :: "int \<Rightarrow> hky_chain \<Rightarrow> hky_connection \<Rightarrow> hky_chain chain_res \<times> hky_connection \<Rightarrow> bool" where
  "stream_sent limit ins c out \<longleftrightarrow>
     (\<exists>k\<le>length (chain_data ins). int k \<le> limit \<and>
        k_wire (snd out) = k_wire c @ take k (chain_data ins) \<and> c_sent (snd out) = c_sent c + int k \<and>
        c_read (snd out) = c_read c \<and>
        (\<forall>rest. fst out = Chain rest \<longrightarrow> chain_ok rest \<and> chain_data rest = drop k (chain_data ins) \<and>
           (e_ready (c_write (snd out)) \<longrightarrow> rest = [] \<or> int k = limit)))"

lemma writev_chain_loop_sent:
  assumes "chain_ok ins" "0 \<le> send" "send < limit" "limit < 2 ^ 63"
    "writev_chain_loop limit send ins c = Some out"
  shows "stream_sent (limit - send) ins c out"
  using assms
proof (induction "length (k_replies c)" arbitrary: send ins c rule: less_induct)
  case less
  note ins = less.prems(1) and run = less.prems(5)
  have lim: "size_t (limit - send) = nat (limit - send)" using less.prems by (simp add: size_t_id)
  obtain res where res: "hky_output_chain_to_iovec HKY_IOVS_PREALLOCATE ins (size_t (limit - send)) = res" by simp
  have out: "res \<noteq> None \<and> (\<forall>iovs' tot' cl. res = Some (Chain (iovs', tot', cl)) \<longrightarrow>
    (\<exists>k\<le>length (chain_data ins). iov_data iovs' = iov_data [] @ take k (chain_data ins) \<and> tot' = 0 + k \<and>
       tot' \<le> nat (limit - send) \<and> length iovs' \<le> HKY_IOVS_PREALLOCATE))"
    by (rule output_iovs_data [OF ins]) (use res lim in \<open>simp_all add: hky_output_chain_to_iovec_def\<close>)
  have unsent: "stream_sent (limit - send) ins c (Chain_error, d)"
    if "k_wire d = k_wire c" "c_sent d = c_sent c" "c_read d = c_read c" for d
    using that less.prems by (auto simp: stream_sent_def intro!: exI [of _ 0])
  from out obtain r where r: "res = Some r" by blast
  show ?case
  proof (cases r)
    case Chain_error
    then have "out = (Chain_error, c)" using run res r by (simp add: writev_chain_loop.simps)
    show ?thesis unfolding \<open>out = (Chain_error, c)\<close> by (rule unsent) (rule refl)+
  next
    case (Chain v)
    obtain iovs vs cl where v: "v = (iovs, vs, cl)" by (metis prod_cases3)
    obtain k where k: "k \<le> length (chain_data ins)" "iov_data iovs = take k (chain_data ins)" "vs = k" "k \<le> nat (limit - send)"
      using out r Chain v by auto
    note step = run [unfolded writev_chain_loop.simps [of limit send], unfolded res r Chain v, simplified option.case chain_res.case prod.case]
    show ?thesis
    proof (cases "cl \<noteq> [] \<and> b_in_file (hd cl)")
      case True
      then have "out = (Chain_error, c\<lparr>c_logged := (HKY_LOG_ALERT, 0) # c_logged c\<rparr>)" using step by simp
      then show ?thesis using unsent [of "c\<lparr>c_logged := (HKY_LOG_ALERT, 0) # c_logged c\<rparr>"] by simp
    next
      case False
      then obtain n c1 where w: "hky_writev iovs c = Some (n, c1)" using step by (auto split: option.splits)
      note ws = writev_spec [OF w]
      show ?thesis
      proof (cases "n = HKY_ERROR")
        case True
        then have "out = (Chain_error, c1)" using step False w by simp
        then show ?thesis using unsent [of c1] ws True by (simp add: same_conn_def hky_consts)
      next
        case ne: False
        obtain sent where sent: "sent = (if n = HKY_AGAIN then 0 else n)" by simp
        have s: "0 \<le> sent" "sent \<le> int k" "k_wire c1 = k_wire c @ take (nat sent) (chain_data ins)"
          using ws ne k(1,2) by (auto simp: sent hky_consts same_conn_def min_def split: if_splits)
        obtain c2 where c2: "c2 = c1\<lparr>c_sent := c_sent c1 + sent\<rparr>" by simp
        obtain ins' where i: "ins' = snd (hky_chain_update_sent ins sent)" by simp
        have sl: "sent \<le> int (length (chain_data ins))" using s(2) k(1) by simp
        note upd = update_sent_chain [OF ins s(1) sl, folded i]
        have one: "k_wire c2 = k_wire c @ take (nat sent) (chain_data ins)" "c_sent c2 = c_sent c + sent"
          "c_read c2 = c_read c" using s ws by (simp_all add: c2 same_conn_def)
        have klim: "int k \<le> limit - send" using k(4) less.prems(3) by simp
        have nxt: "out = (if int k \<noteq> sent then (Chain ins', set_write (\<lambda>wev. wev\<lparr>e_ready := False\<rparr>) c2)
             else if send + int k \<ge> limit \<or> ins' = [] then (Chain ins', c2)
             else the (writev_chain_loop limit (send + int k) ins' c2)) \<and>
          (int k = sent \<and> \<not> (send + int k \<ge> limit \<or> ins' = []) \<longrightarrow> writev_chain_loop limit (send + int k) ins' c2 = Some out)"
        proof -
          have "(if send + int vs - send \<noteq> sent then Some (Chain ins', set_write (\<lambda>wev. wev\<lparr>e_ready := False\<rparr>) c2)
             else if send + int vs \<ge> limit \<or> ins' = [] then Some (Chain ins', c2)
             else writev_chain_loop limit (send + int vs) ins' c2) = Some out"
            using step ne unfolding sent c2 i if_not_P [OF False] w
            by (simp only: Let_def option.case prod.case if_False)
          then show ?thesis using k(3) by (auto split: if_splits)
        qed
        show ?thesis
        proof (cases "int k \<noteq> sent \<or> send + int k \<ge> limit \<or> ins' = []")
          case True
          have "nat sent \<le> length (chain_data ins) \<and> int (nat sent) \<le> limit - send \<and>
            k_wire (snd out) = k_wire c @ take (nat sent) (chain_data ins) \<and> c_sent (snd out) = c_sent c + int (nat sent) \<and>
            c_read (snd out) = c_read c \<and>
            (\<forall>rest. fst out = Chain rest \<longrightarrow> chain_ok rest \<and> chain_data rest = drop (nat sent) (chain_data ins) \<and>
               (e_ready (c_write (snd out)) \<longrightarrow> rest = [] \<or> int (nat sent) = limit - send))"
            using True nxt one s upd(1,2) sl klim by (auto simp: conn_defs)
          then show ?thesis unfolding stream_sent_def by blast
        next
          case False
          then have ks: "int k = sent" and more: "send + int k < limit" by auto
          have fewer: "length (k_replies c2) < length (k_replies c)" using writev_consumes [OF w] by (simp add: c2)
          have run': "writev_chain_loop limit (send + int k) ins' c2 = Some out"
            using nxt [THEN conjunct2, THEN mp] False by blast
          have ge: "0 \<le> send + int k" using less.prems(2) by simp
          have "stream_sent (limit - (send + int k)) ins' c2 out"
            by (rule less.hyps [OF fewer upd(2) ge more less.prems(4) run'])
          then obtain j where j: "j \<le> length (chain_data ins')" "int j \<le> limit - (send + int k)"
            "k_wire (snd out) = k_wire c2 @ take j (chain_data ins')" "c_sent (snd out) = c_sent c2 + int j"
            "c_read (snd out) = c_read c2"
            "\<forall>rest. fst out = Chain rest \<longrightarrow> chain_ok rest \<and> chain_data rest = drop j (chain_data ins') \<and>
             (e_ready (c_write (snd out)) \<longrightarrow> rest = [] \<or> int j = limit - (send + int k))"
            by (auto simp: stream_sent_def)
          have nk: "nat sent = k" using ks by simp
          have d: "chain_data ins' = drop k (chain_data ins)" using upd(1) nk by simp
          show ?thesis unfolding stream_sent_def
          proof (intro exI [of _ "k + j"] conjI)
            show "k + j \<le> length (chain_data ins)" "int (k + j) \<le> limit - send" using j(1,2) k(1) d by simp_all
            show "k_wire (snd out) = k_wire c @ take (k + j) (chain_data ins)" using j(3) one(1) nk d by (simp add: take_add)
            show "c_sent (snd out) = c_sent c + int (k + j)" "c_read (snd out) = c_read c" using j(4,5) one(2,3) ks by simp_all
            show "\<forall>rest. fst out = Chain rest \<longrightarrow> chain_ok rest \<and> chain_data rest = drop (k + j) (chain_data ins) \<and>
              (e_ready (c_write (snd out)) \<longrightarrow> rest = [] \<or> int (k + j) = limit - send)"
            proof (intro allI impI)
              fix rest assume "fst out = Chain rest"
              then have r: "chain_ok rest" "chain_data rest = drop j (chain_data ins')"
                "e_ready (c_write (snd out)) \<longrightarrow> rest = [] \<or> int j = limit - (send + int k)" using j(6) by simp_all
              from r(2) have "chain_data rest = drop (k + j) (chain_data ins)" by (simp add: d add.commute)
              with r show "chain_ok rest \<and> chain_data rest = drop (k + j) (chain_data ins) \<and>
                (e_ready (c_write (snd out)) \<longrightarrow> rest = [] \<or> int (k + j) = limit - send)" by auto
            qed
          qed
        qed
      qed
    qed
  qed
qed

section \<open>Datagrams\<close>

definition flushes :: "hky_buf \<Rightarrow> bool" where
  "flushes b \<longleftrightarrow> b_flush b \<or> b_last_buf b"

text \<open>The buffers of one datagram: the last one and no other asks for a flush.\<close>

definition dgram_part :: "hky_chain \<Rightarrow> bool" where
  "dgram_part bs \<longleftrightarrow> bs \<noteq> [] \<and> flushes (last bs) \<and> (\<forall>b\<in>set (butlast bs). \<not> flushes b)"

text \<open>What \<open>udp_iovs\<close> takes from the chain when it starts without a flush.\<close>

definition udp_taken :: "hky_chain \<Rightarrow> place list \<Rightarrow> nat \<Rightarrow> (bool \<times> iovec list \<times> nat \<times> hky_chain) chain_res option \<Rightarrow> bool" where
  "udp_taken bs done tot res \<longleftrightarrow> res \<noteq> None \<and>
     (\<forall>fl iovs tot' cl. res = Some (Chain (fl, iovs, tot', cl)) \<longrightarrow>
        (\<exists>pre. bs = pre @ cl \<and> iov_data iovs = done @ chain_data pre \<and> tot' = tot + length (chain_data pre) \<and>
           (if cl \<noteq> [] \<and> b_in_file (hd cl) then \<forall>b\<in>set pre. \<not> flushes b
            else if fl then dgram_part pre else cl = [] \<and> (\<forall>b\<in>set pre. \<not> flushes b))))"

lemma udp_taken_cons:
  assumes "udp_taken bs (done @ buf_data b) (tot + length (buf_data b)) res" "\<not> flushes b"
  shows "udp_taken (b # bs) done tot res"
  unfolding udp_taken_def
proof (intro conjI allI impI)
  show "res \<noteq> None" using assms(1) by (simp add: udp_taken_def)
  fix fl iovs tot' cl assume "res = Some (Chain (fl, iovs, tot', cl))"
  then obtain pre where pre: "bs = pre @ cl" "iov_data iovs = (done @ buf_data b) @ chain_data pre"
    "tot' = tot + length (buf_data b) + length (chain_data pre)"
    "if cl \<noteq> [] \<and> b_in_file (hd cl) then \<forall>b\<in>set pre. \<not> flushes b
     else if fl then dgram_part pre else cl = [] \<and> (\<forall>b\<in>set pre. \<not> flushes b)"
    using assms(1) unfolding udp_taken_def by blast
  show "\<exists>pre. b # bs = pre @ cl \<and> iov_data iovs = done @ chain_data pre \<and> tot' = tot + length (chain_data pre) \<and>
           (if cl \<noteq> [] \<and> b_in_file (hd cl) then \<forall>b\<in>set pre. \<not> flushes b
            else if fl then dgram_part pre else cl = [] \<and> (\<forall>b\<in>set pre. \<not> flushes b))"
    using pre assms(2) by (intro exI [of _ "b # pre"]) (auto simp: dgram_part_def split: if_splits)
qed

lemma udp_taken_last:
  assumes "flushes b" "iov_data iovs = done @ buf_data b" "\<not> (bs \<noteq> [] \<and> b_in_file (hd bs))"
  shows "udp_taken (b # bs) done tot (Some (Chain (True, iovs, tot + length (buf_data b), bs)))"
  unfolding udp_taken_def using assms by (auto simp: dgram_part_def intro!: exI [of _ "[b]"])

text \<open>A flush stops the scan at once, also in front of a file buffer.\<close>

lemma udp_iovs_flush: "udp_iovs nalloc bs prev tot True iovs = Some (Chain (True, iovs, tot, bs))"
  by (cases bs) simp_all

definition chain_no_file :: "hky_chain \<Rightarrow> bool" where
  "chain_no_file bs \<longleftrightarrow> (\<forall>b\<in>set bs. hky_buf_special b \<or> \<not> b_in_file b)"

lemma udp_iovs_data:
  assumes "chain_ok bs" "chain_no_file bs"
    "if iovs = [] then prev = 0 else prev = fst (last iovs) + snd (last iovs)"
    "udp_iovs nalloc bs prev tot False iovs = res"
  shows "udp_taken bs (iov_data iovs) tot res"
  using assms
proof (induction bs arbitrary: prev tot iovs)
  case Nil
  then show ?case by (auto simp: udp_taken_def)
next
  case (Cons b bs)
  have ok: "chain_ok bs" "chain_no_file bs" using Cons.prems(1,2) by (simp_all add: chain_ok_def chain_no_file_def)
  have hd: "\<not> (bs \<noteq> [] \<and> b_in_file (hd bs))"
    using ok(2) by (cases bs) (auto simp: chain_no_file_def hky_buf_special_def)
  have fl: "b_flush b \<or> b_last_buf b \<longleftrightarrow> flushes b" by (simp add: flushes_def)
  show ?case
  proof (cases "hky_buf_special b")
    case True
    then have run: "udp_iovs nalloc bs prev tot (flushes b) iovs = res" using Cons.prems(4) by (simp add: fl)
    show ?thesis
    proof (cases "flushes b")
      case f: True
      then have "res = Some (Chain (True, iovs, tot, bs))" using run by (simp add: udp_iovs_flush)
      then show ?thesis using udp_taken_last [OF f, of iovs "iov_data iovs" bs tot] True hd by simp
    next
      case False
      then have "udp_taken bs (iov_data iovs) tot res" using Cons.IH [OF ok Cons.prems(3)] run by simp
      then show ?thesis using udp_taken_cons [of bs "iov_data iovs" b tot res] True False by simp
    qed
  next
    case ns: False
    have b: "buf_ok b" "0 < b_pos b" "b_last b < 2 ^ 64" "\<not> b_in_file b" "hky_buf_in_memory b"
      using Cons.prems(1,2) ns by (auto simp: chain_ok_def chain_no_file_def)
    note mem = memory_buf [OF b(1) ns b(5,3)]
    let ?sz = "b_last b - b_pos b"
    have len: "length (buf_data b) = ?sz" using mem(3) by simp
    have grow: "udp_taken (b # bs) (iov_data iovs) tot res"
      if run: "udp_iovs nalloc bs (b_pos b + ?sz) (tot + ?sz) (flushes b) iovs' = res"
        and iov: "iov_data iovs' = iov_data iovs @ mem_data (b_pos b) ?sz"
        and pr: "if iovs' = [] then b_pos b + ?sz = 0 else b_pos b + ?sz = fst (last iovs') + snd (last iovs')" for iovs'
    proof (cases "flushes b")
      case f: True
      then have "res = Some (Chain (True, iovs', tot + ?sz, bs))" using run by (simp add: udp_iovs_flush)
      then show ?thesis using udp_taken_last [OF f, of iovs' "iov_data iovs" bs tot] hd iov mem(3) len by simp
    next
      case False
      then have "udp_taken bs (iov_data iovs') (tot + ?sz) res" using Cons.IH [OF ok pr] run by simp
      then show ?thesis using udp_taken_cons [of bs "iov_data iovs" b tot res] False iov mem(3) len by simp
    qed
    show ?thesis
    proof (cases "prev = b_pos b")
      case True
      then have ne: "iovs \<noteq> []" and prev: "fst (last iovs) + snd (last iovs) = b_pos b"
        using Cons.prems(3) b(2) by (auto split: if_splits)
      let ?iovs = "butlast iovs @ [(fst (last iovs), snd (last iovs) + ?sz)]"
      have "udp_iovs nalloc bs (b_pos b + ?sz) (tot + ?sz) (flushes b) ?iovs = res"
        using Cons.prems(4) ns b True ne mem(1) by (simp add: fl Let_def)
      then show ?thesis by (rule grow [OF _ iov_data_extend [OF ne prev]]) (use prev in simp)
    next
      case np: False
      show ?thesis
      proof (cases "length iovs = nalloc")
        case True
        then have "res = Some Chain_error" using Cons.prems(4) ns b np by (simp add: Let_def)
        then show ?thesis by (simp add: udp_taken_def)
      next
        case False
        then have "udp_iovs nalloc bs (b_pos b + ?sz) (tot + ?sz) (flushes b) (iovs @ [(b_pos b, ?sz)]) = res"
          using Cons.prems(4) ns b np mem(1) by (simp add: fl Let_def)
        then show ?thesis by (rule grow) simp_all
      qed
    qed
  qed
qed

lemma sendmsg_spec:
  "snd (hky_sendmsg cf iovs c) = Some (n, d) \<Longrightarrow>
     same_conn c d \<and> set (k_replies d) \<subseteq> set (k_replies c) \<and>
     (if 0 \<le> n then (\<exists>m. Done m \<in> set (k_replies c) \<and> n = int (min m (length (iov_data iovs)))) \<and>
        k_dgrams d = k_dgrams c @ [take (nat n) (iov_data iovs)]
      else k_dgrams d = k_dgrams c \<and> (n = HKY_AGAIN \<or> n = HKY_ERROR \<and> e_error (c_write d)))"
proof -
  have "sendmsg_loop iovs rs c = Some (n, d) \<Longrightarrow>
     same_conn c d \<and> set (k_replies d) \<subseteq> set rs \<and>
     (if 0 \<le> n then (\<exists>m. Done m \<in> set rs \<and> n = int (min m (length (iov_data iovs)))) \<and>
        k_dgrams d = k_dgrams c @ [take (nat n) (iov_data iovs)]
      else k_dgrams d = k_dgrams c \<and> (n = HKY_AGAIN \<or> n = HKY_ERROR \<and> e_error (c_write d)))" for rs
  proof (induction iovs rs c rule: sendmsg_loop.induct)
    case (2 iovs k rs c)
    then show ?case by (auto simp: same_conn_def Let_def)
  next
    case (3 iovs err rs c)
    show ?case
    proof (cases "err = HKY_EINTR")
      case True
      then have "sendmsg_loop iovs rs (c\<lparr>k_replies := rs\<rparr>) = Some (n, d)" using 3(2) by (simp add: hky_consts)
      moreover have "err \<noteq> HKY_EAGAIN" using True by (simp add: hky_consts)
      ultimately show ?thesis using 3(1) [OF refl _ True] by (auto simp: same_conn_def split: if_splits)
    next
      case False
      then show ?thesis using 3(2) by (auto simp: same_conn_def conn_defs Let_def hky_consts split: if_splits)
    qed
  qed (auto simp: same_conn_def Let_def)
  then show "snd (hky_sendmsg cf iovs c) = Some (n, d) \<Longrightarrow> ?thesis" by (simp add: hky_sendmsg_def)
qed

lemma update_sent_0: "snd (hky_chain_update_sent bs 0) = dropWhile hky_buf_special bs"
  by (induction bs) (auto split: prod.splits)

lemma update_sent_whole:
  assumes "\<forall>b\<in>set pre. buf_ok b"
  shows "snd (hky_chain_update_sent (pre @ cl) (int (length (chain_data pre)))) = dropWhile hky_buf_special cl"
  using assms
proof (induction pre)
  case Nil
  then show ?case by (simp add: update_sent_0)
next
  case (Cons b pre)
  show ?case
  proof (cases "hky_buf_special b")
    case True
    then show ?thesis using Cons by (simp add: case_prod_beta)
  next
    case False
    then have len: "int (length (buf_data b)) = hky_buf_size b" "0 < hky_buf_size b"
      using Cons.prems length_buf_data by (auto simp: buf_ok_def)
    have "int (length (chain_data (b # pre))) - hky_buf_size b = int (length (chain_data pre))" using len by simp
    then show ?thesis using Cons False len by (simp add: case_prod_beta Let_def)
  qed
qed

text \<open>The whole of \<open>hky_udp_unix_sendmsg_chain\<close>: the datagrams sent are the parts of the chain.\<close>

definition dgrams_sent :: "int \<Rightarrow> hky_chain \<Rightarrow> hky_connection \<Rightarrow> hky_chain chain_res \<times> hky_connection \<Rightarrow> bool" where
  "dgrams_sent limit ins c out \<longleftrightarrow>
     (\<exists>parts. (\<forall>p\<in>set parts. dgram_part p) \<and>
        k_dgrams (snd out) = k_dgrams c @ map chain_data parts \<and>
        c_sent (snd out) = c_sent c + int (length (concat (map chain_data parts))) \<and>
        (\<exists>rest. chain_data ins = concat (map chain_data parts) @ chain_data rest \<and>
           (case fst out of Chain_error \<Rightarrow> True
            | Chain cl \<Rightarrow> cl = rest \<and> (e_ready (c_write (snd out)) \<longrightarrow>
                (\<forall>b\<in>set rest. \<not> flushes b) \<or> int (length (concat (map chain_data parts))) \<ge> limit))))"

lemma chain_data_drop_special: "chain_data (dropWhile hky_buf_special bs) = chain_data bs"
  by (induction bs) simp_all

lemma udp_chain_loop_sent:
  assumes "chain_ok ins" "chain_no_file ins" "\<forall>m. Done m \<in> set (k_replies c) \<longrightarrow> length (chain_data ins) \<le> m"
    "udp_chain_loop cf limit send ins c = Some out"
  shows "dgrams_sent (limit - send) ins c out"
  using assms
proof (induction "length (k_replies c)" arbitrary: send ins c rule: less_induct)
  case less
  note ins = less.prems(1,2) and run = less.prems(4)
  obtain res where res: "udp_iovs HKY_IOVS_PREALLOCATE ins 0 0 False [] = res" by simp
  have "udp_taken ins (iov_data []) 0 res" by (rule udp_iovs_data [OF ins _ res]) simp
  then have taken: "udp_taken ins [] 0 res" by simp
  have unsent: "dgrams_sent (limit - send) ins c (x, d)"
    if "k_dgrams d = k_dgrams c" "c_sent d = c_sent c"
      "x = Chain_error \<or> x = Chain ins \<and> (e_ready (c_write d) \<longrightarrow> (\<forall>b\<in>set ins. \<not> flushes b))" for x d
    using that unfolding dgrams_sent_def
    by (intro exI [of _ "[] :: hky_chain list"] exI [of _ ins] conjI) auto
  from taken obtain r where r: "res = Some r" by (auto simp: udp_taken_def)
  show ?case
  proof (cases r)
    case Chain_error
    then have "out = (Chain_error, c)"
      using run res r by (simp add: udp_chain_loop.simps hky_udp_output_chain_to_iovec_def)
    then show ?thesis using unsent [of c Chain_error] by simp
  next
    case (Chain v)
    obtain fl iovs vs cl where v: "v = (fl, iovs, vs, cl)" by (metis prod_cases4)
    obtain pre where pre: "ins = pre @ cl" "iov_data iovs = [] @ chain_data pre" "vs = 0 + length (chain_data pre)"
      "if cl \<noteq> [] \<and> b_in_file (hd cl) then \<forall>b\<in>set pre. \<not> flushes b
       else if fl then dgram_part pre else cl = [] \<and> (\<forall>b\<in>set pre. \<not> flushes b)"
      using taken [unfolded udp_taken_def] r Chain v by blast
    have nf: "\<not> (cs \<noteq> [] \<and> b_in_file (hd cs) \<and> \<not> hky_buf_special (hd cs))" if "set cs \<subseteq> set ins" for cs
      using ins(2) that by (cases cs) (auto simp: chain_no_file_def)
    have no_file: "\<not> (cs \<noteq> [] \<and> b_in_file (hd cs))" if "set cs \<subseteq> set ins" for cs
      using nf [OF that] by (auto simp: hky_buf_special_def)
    show ?thesis
    proof (cases fl)
      case False
      then have nofl: "\<forall>b\<in>set ins. \<not> flushes b" using pre(1,4) no_file [of cl] by simp
      have "out = (Chain ins, c)"
        using run res r Chain v False no_file [of ins]
        by (simp add: udp_chain_loop.simps [of cf limit send] hky_udp_output_chain_to_iovec_def split: if_splits)
      then show ?thesis using unsent [of c "Chain ins"] nofl by simp
    next
      case True
      then have part: "dgram_part pre" using pre(1,4) no_file [of cl] by auto
      then have "pre \<noteq> []" by (simp add: dgram_part_def)
      then have moved: "cl \<noteq> ins" using pre(1) by simp
      have cnf: "\<not> (cl \<noteq> [] \<and> b_in_file (hd cl))" using no_file [of cl] pre(1) by simp
      have out: "hky_udp_output_chain_to_iovec HKY_IOVS_PREALLOCATE ins = Some (Chain (iovs, vs, cl))"
        using res r Chain v True by (simp add: hky_udp_output_chain_to_iovec_def)
      note step = run [unfolded udp_chain_loop.simps [of cf limit send] out option.case chain_res.case prod.case
          if_not_P [OF cnf] if_not_P [OF moved]]
      obtain n c1 where w: "snd (hky_sendmsg cf iovs c) = Some (n, c1)" using step by (auto split: option.splits)
      note ws = sendmsg_spec [OF w]
      show ?thesis
      proof (cases "n < 0")
        case True
        then have na: "n = HKY_AGAIN \<or> n = HKY_ERROR" and d: "k_dgrams c1 = k_dgrams c" "c_sent c1 = c_sent c"
          using ws by (auto simp: same_conn_def)
        then have "out = (Chain_error, c1) \<or> out = (Chain ins, set_write (\<lambda>wev. wev\<lparr>e_ready := False\<rparr>) c1)"
          using step w by (auto simp: hky_consts)
        then show ?thesis using unsent [of c1 Chain_error] unsent [of "set_write (\<lambda>wev. wev\<lparr>e_ready := False\<rparr>) c1" "Chain ins"] d
          by (auto simp: conn_defs)
      next
        case False
        then obtain m where m: "Done m \<in> set (k_replies c)" "n = int (min m (length (iov_data iovs)))"
          using ws by auto
        have "length (chain_data ins) \<le> m" using less.prems(3) m(1) by simp
        then have n: "n = int (length (chain_data pre))" using m(2) pre(1,2) by simp
        have dg: "k_dgrams c1 = k_dgrams c @ [chain_data pre]" using ws n pre(2) by simp
        obtain c2 where c2: "c2 = c1\<lparr>c_sent := c_sent c1 + n\<rparr>" by simp
        obtain ins' where i: "ins' = snd (hky_chain_update_sent ins n)" by simp
        have "\<forall>b\<in>set pre. buf_ok b" using ins(1) pre(1) by (simp add: chain_ok_def)
        then have i': "ins' = dropWhile hky_buf_special cl"
          unfolding i n pre(1) by (rule update_sent_whole)
        have sub: "set ins' \<subseteq> set cl" unfolding i' by (auto dest: set_dropWhileD)
        have data: "chain_data ins' = chain_data cl" unfolding i' by (rule chain_data_drop_special)
        have ok': "chain_ok ins'" "chain_no_file ins'"
          using ins sub pre(1) by (auto simp: chain_ok_def chain_no_file_def)
        have vs: "int vs = n" using pre(3) n by simp
        have nn: "n \<noteq> HKY_ERROR" "n \<noteq> HKY_AGAIN" using n by (auto simp: hky_consts)
        have step': "(if send + int vs \<ge> limit \<or> ins' = [] then Some (Chain ins', c2)
           else udp_chain_loop cf limit (send + int vs) ins' c2) = Some out"
          using step unfolding c2 i w option.case prod.case if_not_P [OF nn(1)] if_not_P [OF nn(2)] Let_def by simp
        have sent: "c_sent c2 = c_sent c + n" "k_dgrams c2 = k_dgrams c @ [chain_data pre]"
          using ws dg by (simp_all add: c2 same_conn_def)
        show ?thesis
        proof (cases "send + int vs \<ge> limit \<or> ins' = []")
          case True
          then have "out = (Chain ins', c2)" using step' by simp
          then show ?thesis unfolding dgrams_sent_def
            using part sent n data pre(1) True vs by (intro exI [of _ "[pre]"]) auto
        next
          case False
          then have run': "udp_chain_loop cf limit (send + int vs) ins' c2 = Some out" using step' by simp
          have fewer: "length (k_replies c2) < length (k_replies c)" using sendmsg_consumes [OF w] by (simp add: c2)
          have big: "\<forall>m. Done m \<in> set (k_replies c2) \<longrightarrow> length (chain_data ins') \<le> m"
          proof (intro allI impI)
            fix m assume "Done m \<in> set (k_replies c2)"
            then have "Done m \<in> set (k_replies c)" using ws by (auto simp: c2)
            then have "length (chain_data ins) \<le> m" using less.prems(3) by simp
            then show "length (chain_data ins') \<le> m" using data pre(1) by simp
          qed
          have "dgrams_sent (limit - (send + int vs)) ins' c2 out"
            by (rule less.hyps [OF fewer ok' big run'])
          then obtain parts rest where p: "\<forall>p\<in>set parts. dgram_part p"
            "k_dgrams (snd out) = k_dgrams c2 @ map chain_data parts"
            "c_sent (snd out) = c_sent c2 + int (length (concat (map chain_data parts)))"
            "chain_data ins' = concat (map chain_data parts) @ chain_data rest"
            "case fst out of Chain_error \<Rightarrow> True
            | Chain cl \<Rightarrow> cl = rest \<and> (e_ready (c_write (snd out)) \<longrightarrow>
                (\<forall>b\<in>set rest. \<not> flushes b) \<or> int (length (concat (map chain_data parts))) \<ge> limit - (send + int vs))"
            unfolding dgrams_sent_def by blast
          have d: "chain_data ins = concat (map chain_data (pre # parts)) @ chain_data rest"
            using p(4) data pre(1) by simp
          have len: "int (length (concat (map chain_data (pre # parts)))) = n + int (length (concat (map chain_data parts)))"
            using n by simp
          show ?thesis unfolding dgrams_sent_def
          proof (intro exI [of _ "pre # parts"] exI [of _ rest] conjI)
            show "\<forall>p\<in>set (pre # parts). dgram_part p" using p(1) part by simp
            show "k_dgrams (snd out) = k_dgrams c @ map chain_data (pre # parts)" using p(2) sent(2) by simp
            show "c_sent (snd out) = c_sent c + int (length (concat (map chain_data (pre # parts))))"
              using p(3) sent(1) len by simp
            show "chain_data ins = concat (map chain_data (pre # parts)) @ chain_data rest" by (rule d)
            show "case fst out of Chain_error \<Rightarrow> True
            | Chain cl \<Rightarrow> cl = rest \<and> (e_ready (c_write (snd out)) \<longrightarrow>
                (\<forall>b\<in>set rest. \<not> flushes b) \<or> int (length (concat (map chain_data (pre # parts)))) \<ge> limit - send)"
              unfolding len using p(5) vs by (cases "fst out") auto
          qed
        qed
      qed
    qed
  qed
qed

section \<open>Properties\<close>

lemma io_limit_bounds: "0 \<le> limit \<Longrightarrow> 0 < f_pagesize cf \<Longrightarrow> f_pagesize cf < 2 ^ 62 \<Longrightarrow>
    0 < io_limit cf limit \<and> io_limit cf limit < 2 ^ 63"
  by (simp add: io_limit_def hky_consts)

definition sample_buf :: "nat \<Rightarrow> nat \<Rightarrow> bool \<Rightarrow> hky_buf" where
  "sample_buf p l fl = \<lparr>b_pos = p, b_last = l, b_file_pos = 0, b_file_last = 0, b_start = p, b_end = l,
     b_temporary = True, b_memory = False, b_mmap = False, b_recycled = False, b_in_file = False, b_flush = fl,
     b_sync = False, b_last_buf = False, b_last_in_chain = False\<rparr>"

definition sample_event :: hky_event where
  "sample_event = \<lparr>e_ready = True, e_eof = False, e_error = False, e_pending_eof = False, e_kq_errno = 0, e_available = 1\<rparr>"

definition sample_conn :: "sysret list \<Rightarrow> hky_connection" where
  "sample_conn rs = \<lparr>c_read = sample_event, c_write = sample_event, c_sent = 0, c_log_error = HKY_ERROR_ERR,
     c_socklen = 0, c_wildcard = False, c_local_sockaddr = None, c_logged = [], k_replies = rs, k_wire = [], k_dgrams = []\<rparr>"

definition sample_cf :: io_conf where
  "sample_cf = \<lparr>f_flags = HKY_USE_EPOLL_EVENT, f_rdhup = False, f_pagesize = 4096, f_pktinfo = True\<rparr>"

text \<open>
  C13: \<open>hky_writev_chain\<close> loses, repeats and reorders nothing. However the kernel splits,
  interrupts or refuses the writes, whenever the function returns there is a \<open>k\<close> such that the
  first \<open>k\<close> bytes of the chain were accepted, \<open>c->sent\<close> grew by \<open>k\<close>, \<open>k\<close> is at most the limit,
  and a chain that is returned holds exactly the other bytes; the write event stays ready only
  when the chain is empty or the limit is used up.
\<close>

theorem writev_chain_correct:
  assumes "chain_ok ins" "0 \<le> limit" "0 < f_pagesize cf" "f_pagesize cf < 2 ^ 62"
    "e_ready (c_write c)" "hky_writev_chain cf ins limit c = Some out"
  shows "stream_sent (io_limit cf limit) ins c out"
proof (cases "has_flag cf HKY_USE_KQUEUE_EVENT \<and> e_pending_eof (c_write c)")
  case True
  then show ?thesis using assms io_limit_bounds [OF assms(2-4)]
    by (auto simp: hky_writev_chain_def stream_sent_def conn_defs intro!: exI [of _ 0])
next
  case False
  then have "writev_chain_loop (io_limit cf limit) 0 ins c = Some out"
    using assms by (auto simp: hky_writev_chain_def)
  then show ?thesis using writev_chain_loop_sent [OF assms(1), of 0 "io_limit cf limit" c out]
      io_limit_bounds [OF assms(2-4)] by simp
qed

lemma sample_writev:
  "hky_writev_chain sample_cf [sample_buf 10 13 False, sample_buf 13 15 False] 100 (sample_conn [Fail HKY_EINTR, Done 4])
     = Some (Chain [sample_buf 10 15 False\<lparr>b_pos := 14, b_start := 13\<rparr>],
         (sample_conn [])\<lparr>c_write := sample_event\<lparr>e_ready := False\<rparr>, c_sent := 4,
            k_wire := [Mem 10, Mem 11, Mem 12, Mem 13]\<rparr>)"
  by (simp add: hky_writev_chain_def sample_cf_def sample_conn_def sample_event_def sample_buf_def io_limit_def
      writev_chain_loop.simps hky_output_chain_to_iovec_def hky_buf_special_def hky_buf_in_memory_def size_t_def
      HKY_IOVS_PREALLOCATE_def hky_writev_def iov_data_def mem_data_def has_flag_def HKY_USE_KQUEUE_EVENT_def
      HKY_USE_EPOLL_EVENT_def hky_buf_size_def Let_def conn_defs hky_consts)

lemma writev_chain_correct_witness:
  "stream_sent (io_limit sample_cf 100) [sample_buf 10 13 False, sample_buf 13 15 False] (sample_conn [Fail HKY_EINTR, Done 4])
     (Chain [sample_buf 10 15 False\<lparr>b_pos := 14, b_start := 13\<rparr>],
         (sample_conn [])\<lparr>c_write := sample_event\<lparr>e_ready := False\<rparr>, c_sent := 4,
            k_wire := [Mem 10, Mem 11, Mem 12, Mem 13]\<rparr>)"
  by (rule writev_chain_correct [OF _ _ _ _ _ sample_writev])
    (simp_all add: chain_ok_def buf_ok_def sample_buf_def hky_buf_special_def hky_buf_in_memory_def hky_buf_size_def
      sample_cf_def sample_conn_def sample_event_def)

text \<open>
  \<open>hky_udp_unix_sendmsg_chain\<close> sends datagrams that are exactly the runs of buffers up to one
  that asks for a flush. With a socket that takes datagrams whole, whenever the function returns,
  the datagrams sent are the data of consecutive parts of the chain, in order; \<open>c->sent\<close> grew by
  their length; a chain that is returned holds the rest; and the write event stays ready only when
  no buffer of the rest asks for a flush or the limit is used up.
\<close>

theorem sendmsg_chain_correct:
  assumes "chain_ok ins" "chain_no_file ins" "\<forall>m. Done m \<in> set (k_replies c) \<longrightarrow> length (chain_data ins) \<le> m"
    "e_ready (c_write c)" "hky_udp_unix_sendmsg_chain cf ins limit c = Some out"
  shows "dgrams_sent (io_limit cf limit) ins c out"
proof (cases "has_flag cf HKY_USE_KQUEUE_EVENT \<and> e_pending_eof (c_write c)")
  case True
  then have "out = (Chain_error, set_write (\<lambda>wev. wev\<lparr>e_error := True\<rparr>) (snd (hky_connection_error c (e_kq_errno (c_write c)))))"
    using assms(4,5) by (simp add: hky_udp_unix_sendmsg_chain_def)
  then show ?thesis unfolding dgrams_sent_def
    by (intro exI [of _ "[] :: hky_chain list"] exI [of _ ins] conjI) (auto simp: conn_defs)
next
  case False
  then have "udp_chain_loop cf (io_limit cf limit) 0 ins c = Some out"
    using assms(4,5) by (auto simp: hky_udp_unix_sendmsg_chain_def)
  then show ?thesis using udp_chain_loop_sent [OF assms(1-3), of cf "io_limit cf limit" 0 out] by simp
qed

lemma sample_sendmsg:
  "hky_udp_unix_sendmsg_chain sample_cf [sample_buf 10 12 True, sample_buf 20 21 False] 100 (sample_conn [Done 9])
     = Some (Chain [sample_buf 20 21 False], (sample_conn [])\<lparr>c_sent := 2, k_dgrams := [[Mem 10, Mem 11]]\<rparr>)"
  by (simp add: hky_udp_unix_sendmsg_chain_def sample_cf_def sample_conn_def sample_event_def sample_buf_def io_limit_def
      udp_chain_loop.simps hky_udp_output_chain_to_iovec_def hky_buf_special_def hky_buf_in_memory_def size_t_def
      HKY_IOVS_PREALLOCATE_def hky_sendmsg_def iov_data_def mem_data_def has_flag_def HKY_USE_KQUEUE_EVENT_def
      HKY_USE_EPOLL_EVENT_def hky_buf_size_def Let_def conn_defs hky_consts)

lemma sendmsg_chain_correct_witness:
  "dgrams_sent (io_limit sample_cf 100) [sample_buf 10 12 True, sample_buf 20 21 False] (sample_conn [Done 9])
     (Chain [sample_buf 20 21 False], (sample_conn [])\<lparr>c_sent := 2, k_dgrams := [[Mem 10, Mem 11]]\<rparr>)"
  by (rule sendmsg_chain_correct [OF _ _ _ _ sample_sendmsg])
    (simp_all add: chain_ok_def chain_no_file_def buf_ok_def sample_buf_def hky_buf_special_def hky_buf_in_memory_def hky_buf_size_def
      sample_cf_def sample_conn_def sample_event_def chain_data_def buf_data_def)

subsection \<open>Single reads and writes\<close>

definition recv_outcome :: "io_conf \<Rightarrow> nat \<Rightarrow> hky_connection \<Rightarrow> int \<times> hky_connection \<Rightarrow> bool" where
  "recv_outcome cf sz c out \<longleftrightarrow>
     (case out of (n, d) \<Rightarrow>
        (n = HKY_AGAIN \<or> n = HKY_ERROR \<or> 0 \<le> n \<and> n \<le> int sz) \<and>
        c_write d = c_write c \<and> c_sent d = c_sent c \<and>
        (n = HKY_AGAIN \<or> n = 0 \<longrightarrow> \<not> e_ready (c_read d)) \<and>
        (n = HKY_ERROR \<longrightarrow> e_error (c_read d) \<and> \<not> e_ready (c_read d)) \<and>
        (0 < n \<and> n < int sz \<and> e_ready (c_read d) \<longrightarrow>
           has_flag cf HKY_USE_KQUEUE_EVENT \<or> has_flag cf HKY_USE_GREEDY_EVENT \<or> e_pending_eof (c_read c)))"

lemma connection_error_ex: "\<exists>n d. hky_connection_error c e = (n, d) \<and> k_replies d = k_replies c"
  by (metis connection_error_replies prod.collapse)

lemma connection_error_frame:
  "hky_connection_error (c\<lparr>k_replies := ys\<rparr>) e = (fst (hky_connection_error c e), (snd (hky_connection_error c e))\<lparr>k_replies := ys\<rparr>)"
  by (simp add: hky_connection_error_def Let_def)

lemma connection_error_result: "fst (hky_connection_error c e) = 0 \<or> fst (hky_connection_error c e) = HKY_ERROR"
  by (simp add: hky_connection_error_def Let_def)

lemma recv_loop_outcome: "recv_loop cf (int sz) rs c = Some out \<Longrightarrow> recv_outcome cf sz c out"
proof (induction rs)
  case (Cons r rs)
  show ?case
  proof (cases r)
    case (Done k)
    then show ?thesis using Cons.prems
      by (auto simp: recv_outcome_def recv_eof_def recv_ready_def conn_defs hky_consts Let_def split: if_splits)
  next
    case (Fail err)
    show ?thesis
    proof (cases "err = HKY_EINTR")
      case True
      then show ?thesis using Cons Fail by simp
    next
      case False
      then show ?thesis using Cons.prems Fail connection_error_result [of c err]
        by (auto simp: recv_outcome_def conn_defs hky_consts Let_def split: if_splits prod.splits)
          (metis connection_error_same fst_conv snd_conv)+
    qed
  qed
qed simp

lemma recv_loop_returns:
  "r \<noteq> Fail HKY_EINTR \<Longrightarrow> \<exists>n d. recv_loop cf sz (replicate j (Fail HKY_EINTR) @ r # rs) c = Some (n, d) \<and> k_replies d = rs"
proof (induction j)
  case 0
  then show ?case by (cases r) (auto simp: Let_def conn_defs split: prod.splits)
qed simp

text \<open>
  C14: \<open>hky_unix_recv\<close> keeps the contract of the event loop. It returns the number of bytes read
  (at most as many as asked for), 0, \<open>HKY_AGAIN\<close> or \<open>HKY_ERROR\<close>, and touches the read event only;
  the event stays ready only after data was read, and after a short read only when the event
  module is kqueue or greedy or an end of file is pending; an error marks the event. Interrupted
  calls are repeated: with any other reply of the kernel the function returns, having taken no
  further reply.
\<close>

theorem unix_recv_correct:
  "(\<forall>out. hky_unix_recv cf sz c = Some out \<longrightarrow> recv_outcome cf sz c out) \<and>
   (\<forall>j r rs. k_replies c = replicate j (Fail HKY_EINTR) @ r # rs \<longrightarrow> r \<noteq> Fail HKY_EINTR \<longrightarrow>
      (\<exists>n d. hky_unix_recv cf sz c = Some (n, d) \<and> (k_replies d = rs \<or> k_replies d = k_replies c)))"
proof (intro conjI allI impI)
  fix out assume run: "hky_unix_recv cf sz c = Some out"
  show "recv_outcome cf sz c out"
  proof (cases "has_flag cf HKY_USE_KQUEUE_EVENT \<and> e_available (c_read c) = 0")
    case True
    then show ?thesis
      using run connection_error_result [of "set_read (\<lambda>rev. rev\<lparr>e_error := True\<rparr>) (set_read (\<lambda>rev. rev\<lparr>e_ready := False, e_eof := True\<rparr>) c)" "e_kq_errno (c_read c)"]
      by (auto simp: hky_unix_recv_def recv_outcome_def conn_defs hky_consts Let_def case_prod_beta split: if_splits)
  next
    case False
    then show ?thesis using run recv_loop_outcome
      by (auto simp: hky_unix_recv_def recv_outcome_def conn_defs hky_consts Let_def split: if_splits)
  qed
next
  fix j r rs assume "k_replies c = replicate j (Fail HKY_EINTR) @ r # rs" "r \<noteq> Fail HKY_EINTR"
  then obtain n d where "recv_loop cf (int sz) (k_replies c) c = Some (n, d)" "k_replies d = rs"
    using recv_loop_returns by metis
  then show "\<exists>n d. hky_unix_recv cf sz c = Some (n, d) \<and> (k_replies d = rs \<or> k_replies d = k_replies c)"
    using connection_error_ex [of "c\<lparr>c_read := c_read c\<lparr>e_ready := False, e_eof := True, e_error := True\<rparr>\<rparr>" "e_kq_errno (c_read c)"]
    by (auto simp: hky_unix_recv_def conn_defs Let_def)
qed

lemma unix_recv_correct_witness:
  "recv_outcome sample_cf 10 (sample_conn [Fail HKY_EINTR, Done 3])
     (3, (sample_conn [])\<lparr>c_read := sample_event\<lparr>e_ready := False\<rparr>\<rparr>)"
proof -
  have "hky_unix_recv sample_cf 10 (sample_conn [Fail HKY_EINTR, Done 3]) =
      Some (3, (sample_conn [])\<lparr>c_read := sample_event\<lparr>e_ready := False\<rparr>\<rparr>)"
    by (simp add: hky_unix_recv_def sample_conn_def sample_cf_def sample_event_def has_flag_def HKY_USE_KQUEUE_EVENT_def
        HKY_USE_EPOLL_EVENT_def HKY_USE_GREEDY_EVENT_def recv_ready_def conn_defs)
  then show ?thesis using unix_recv_correct [of sample_cf 10 "sample_conn [Fail HKY_EINTR, Done 3]"] by blast
qed

definition send_outcome :: "nat \<Rightarrow> nat \<Rightarrow> hky_connection \<Rightarrow> int \<times> hky_connection \<Rightarrow> bool" where
  "send_outcome buf sz c out \<longleftrightarrow>
     (case out of (n, d) \<Rightarrow>
        (n = HKY_AGAIN \<or> n = HKY_ERROR \<or> 0 \<le> n \<and> n \<le> int sz) \<and> c_read d = c_read c \<and>
        (0 \<le> n \<longrightarrow> k_wire d = k_wire c @ take (nat n) (mem_data buf sz) \<and> c_sent d = c_sent c + n) \<and>
        (n < 0 \<longrightarrow> k_wire d = k_wire c \<and> c_sent d = c_sent c) \<and>
        (n = HKY_AGAIN \<or> n = 0 \<longrightarrow> \<not> e_ready (c_write d)) \<and> (n = HKY_ERROR \<longrightarrow> e_error (c_write d)) \<and>
        (0 < n \<and> e_ready (c_write d) \<longrightarrow> n = int sz))"

text \<open>
  C15: \<open>hky_unix_send\<close> and \<open>hky_udp_unix_send\<close>. A stream write returns the number \<open>n\<close> of bytes the
  kernel took, which are the first \<open>n\<close> of the buffer and are added to \<open>c->sent\<close>, or 0,
  \<open>HKY_AGAIN\<close> or \<open>HKY_ERROR\<close> with nothing written; a short write, 0 and \<open>HKY_AGAIN\<close> clear the
  ready flag, an error is marked. A datagram is sent whole, in one piece, or not counted: an
  incomplete one is an error.
\<close>

theorem send_correct:
  "(hky_unix_send cf buf sz c = Some out \<longrightarrow> send_outcome buf sz c out) \<and>
   (hky_udp_unix_send buf sz c = Some (n, d) \<longrightarrow>
      (n = HKY_AGAIN \<or> n = HKY_ERROR \<or> n = int sz) \<and>
      (n = int sz \<longrightarrow> k_dgrams d = k_dgrams c @ [mem_data buf sz] \<and> c_sent d = c_sent c + n) \<and>
      (n < 0 \<longrightarrow> c_sent d = c_sent c) \<and>
      (n = HKY_AGAIN \<longrightarrow> k_dgrams d = k_dgrams c \<and> \<not> e_ready (c_write d)) \<and> (n = HKY_ERROR \<longrightarrow> e_error (c_write d)))"
proof (intro conjI impI)
  assume run: "hky_unix_send cf buf sz c = Some out"
  have "unix_send_loop buf sz rs c = Some out \<Longrightarrow> send_outcome buf sz c out" for rs
  proof (induction buf sz rs c rule: unix_send_loop.induct)
    case (2 buf sz k rs c)
    then show ?case by (auto simp: send_outcome_def conn_defs hky_consts Let_def split: if_splits)
  next
    case (3 buf sz err rs c)
    let ?c = "set_write (\<lambda>wev. wev\<lparr>e_ready := False\<rparr>) (c\<lparr>k_replies := rs\<rparr>)"
    show ?case
    proof (cases "err = HKY_EINTR")
      case True
      then have run: "unix_send_loop buf sz rs ?c = Some out" and ne: "err \<noteq> HKY_EAGAIN"
        using "3.prems" by (simp_all add: hky_consts)
      have "send_outcome buf sz ?c out" using "3.IH" [OF refl _ refl ne run] True by simp
      then show ?thesis by (simp add: send_outcome_def conn_defs)
    next
      case False
      then show ?thesis using "3.prems" by (auto simp: send_outcome_def conn_defs hky_consts Let_def split: if_splits)
    qed
  qed simp
  then show "send_outcome buf sz c out"
    using run by (auto simp: hky_unix_send_def send_outcome_def conn_defs hky_consts split: if_splits)
next
  assume run: "hky_udp_unix_send buf sz c = Some (n, d)"
  have *: "udp_send_loop buf sz rs c = Some (n, d) \<Longrightarrow>
      (n = HKY_AGAIN \<or> n = HKY_ERROR \<or> n = int sz) \<and>
      (n = int sz \<longrightarrow> k_dgrams d = k_dgrams c @ [mem_data buf sz] \<and> c_sent d = c_sent c + n) \<and>
      (n < 0 \<longrightarrow> c_sent d = c_sent c) \<and>
      (n = HKY_AGAIN \<longrightarrow> k_dgrams d = k_dgrams c \<and> \<not> e_ready (c_write d)) \<and> (n = HKY_ERROR \<longrightarrow> e_error (c_write d))" for rs
  proof (induction buf sz rs c rule: udp_send_loop.induct)
    case (2 buf sz k rs c)
    then show ?case by (auto simp: conn_defs hky_consts Let_def min_def split: if_splits)
  next
    case (3 buf sz err rs c)
    show ?case
    proof (cases "err = HKY_EINTR")
      case True
      then have run: "udp_send_loop buf sz rs (c\<lparr>k_replies := rs\<rparr>) = Some (n, d)" and ne: "err \<noteq> HKY_EAGAIN"
        using "3.prems" by (simp_all add: hky_consts)
      show ?thesis using "3.IH" [OF refl ne _ run] True by simp
    next
      case False
      then show ?thesis using "3.prems" by (auto simp: conn_defs hky_consts Let_def split: if_splits)
    qed
  qed simp
  from run have "udp_send_loop buf sz (k_replies c) c = Some (n, d)" by (simp add: hky_udp_unix_send_def)
  note * [OF this]
  then show "n = HKY_AGAIN \<or> n = HKY_ERROR \<or> n = int sz"
    "n = int sz \<Longrightarrow> k_dgrams d = k_dgrams c @ [mem_data buf sz]" "n = int sz \<Longrightarrow> c_sent d = c_sent c + n"
    "n < 0 \<Longrightarrow> c_sent d = c_sent c" "n = HKY_AGAIN \<Longrightarrow> k_dgrams d = k_dgrams c" "n = HKY_AGAIN \<Longrightarrow> \<not> e_ready (c_write d)"
    "n = HKY_ERROR \<Longrightarrow> e_error (c_write d)" by simp_all
qed

lemma send_correct_witness:
  "send_outcome 50 4 (sample_conn [Done 3])
     (3, (sample_conn [])\<lparr>c_write := sample_event\<lparr>e_ready := False\<rparr>, c_sent := 3, k_wire := [Mem 50, Mem 51, Mem 52]\<rparr>)"
proof -
  have "hky_unix_send sample_cf 50 4 (sample_conn [Done 3]) =
      Some (3, (sample_conn [])\<lparr>c_write := sample_event\<lparr>e_ready := False\<rparr>, c_sent := 3, k_wire := [Mem 50, Mem 51, Mem 52]\<rparr>)"
    by (simp add: hky_unix_send_def sample_conn_def sample_cf_def sample_event_def has_flag_def HKY_USE_KQUEUE_EVENT_def
        HKY_USE_EPOLL_EVENT_def conn_defs mem_data_def)
  then show ?thesis using send_correct by blast
qed

subsection \<open>Scattered reads\<close>

definition buf_free :: "hky_buf \<Rightarrow> place list" where
  "buf_free b = mem_data (b_last b) (b_end b - b_last b)"

lemma readv_iovs_data:
  assumes "\<forall>b\<in>set bs. 0 < b_last b \<and> b_last b \<le> b_end b" "0 \<le> limit" "limit = 0 \<or> sz \<le> limit"
    "if iovs = [] then prev = 0 else prev = fst (last iovs) + snd (last iovs) \<or> limit \<noteq> 0 \<and> sz = limit"
    "readv_iovs grow limit bs prev sz iovs = Some (None, sz', iovs')"
  shows "\<exists>k. iov_data iovs' = iov_data iovs @ take k (concat (map buf_free bs)) \<and>
     k \<le> length (concat (map buf_free bs)) \<and> sz' = sz + int k \<and> (limit = 0 \<or> sz' \<le> limit)"
  using assms
proof (induction bs arbitrary: prev sz iovs)
  case Nil
  then show ?case by simp
next
  case (Cons b bs)
  have b: "0 < b_last b" "b_last b \<le> b_end b" and bs: "\<forall>b\<in>set bs. 0 < b_last b \<and> b_last b \<le> b_end b"
    using Cons.prems(1) by simp_all
  let ?n0 = "int (b_end b) - int (b_last b)"
  have stop: ?case if "sz' = sz" "iovs' = iovs" using that Cons.prems(3) by (intro exI [of _ 0]) auto
  show ?case
  proof (cases "limit \<noteq> 0 \<and> sz \<ge> limit")
    case True
    then show ?thesis using Cons.prems(5) by (intro stop) auto
  next
    case lt: False
    obtain n where n: "n = (if limit \<noteq> 0 \<and> sz + ?n0 > limit then limit - sz else ?n0)" by simp
    obtain m where m: "n = int m" using lt b Cons.prems(2,3) by (cases "limit \<noteq> 0 \<and> sz + ?n0 > limit")
        (auto simp: n intro: nonneg_int_cases [of "limit - sz"] nonneg_int_cases [of ?n0])
    have mle: "m \<le> b_end b - b_last b" using n m b by (auto split: if_splits)
    have cut: "m = b_end b - b_last b \<or> limit \<noteq> 0 \<and> sz + n = limit" using n m b by (auto split: if_splits)
    have lim: "limit = 0 \<or> sz + n \<le> limit" using n by (auto split: if_splits)
    have free: "length (buf_free b) = b_end b - b_last b" by (simp add: buf_free_def)
    have step: ?thesis
      if run: "readv_iovs grow limit bs (b_end b) (sz + n) iovs2 = Some (None, sz', iovs')"
        and iov2: "iov_data iovs2 = iov_data iovs @ mem_data (b_last b) m" and ne: "iovs2 \<noteq> []"
        and at: "fst (last iovs2) + snd (last iovs2) = b_last b + m" for iovs2
    proof -
      have pr: "if iovs2 = [] then b_end b = 0 else b_end b = fst (last iovs2) + snd (last iovs2) \<or> limit \<noteq> 0 \<and> sz + n = limit"
        using ne at cut b by auto
      from Cons.IH [OF bs Cons.prems(2) lim pr run] obtain k where
        k: "iov_data iovs' = iov_data iovs2 @ take k (concat (map buf_free bs))" "k \<le> length (concat (map buf_free bs))"
        "sz' = sz + n + int k" "limit = 0 \<or> sz' \<le> limit" by blast
      show ?thesis
      proof (cases "m = b_end b - b_last b")
        case True
        then show ?thesis using k iov2 free m by (intro exI [of _ "m + k"]) (simp add: buf_free_def [of b])
      next
        case False
        then have "k = 0" using cut k(3,4) by auto
        then show ?thesis using k iov2 m mle free take_mem_data [OF mle] by (intro exI [of _ m]) (simp add: buf_free_def [of b])
      qed
    qed
    show ?thesis
    proof (cases "prev = b_last b")
      case True
      then have ne: "iovs \<noteq> []" using Cons.prems(4) b by auto
      then have at: "fst (last iovs) + snd (last iovs) = b_last b" using Cons.prems(4) lt True by auto
      have "readv_iovs grow limit bs (b_end b) (sz + n) (butlast iovs @ [(fst (last iovs), snd (last iovs) + m)]) = Some (None, sz', iovs')"
        using Cons.prems(5) lt True ne m by (simp add: n [symmetric] Let_def)
      then show ?thesis by (rule step [OF _ iov_data_extend [OF ne at]]) (use at in simp_all)
    next
      case np: False
      show ?thesis
      proof (cases "length iovs \<ge> IOV_MAX")
        case True
        then show ?thesis using Cons.prems(5) lt np by (intro stop) auto
      next
        case False
        then have "grow (length iovs)" using Cons.prems(5) lt np by (auto simp: Let_def split: if_splits)
        then have "readv_iovs grow limit bs (b_end b) (sz + n) (iovs @ [(b_last b, m)]) = Some (None, sz', iovs')"
          using Cons.prems(5) lt np False m by (simp add: n [symmetric] Let_def)
        then show ?thesis by (rule step) simp_all
      qed
    qed
  qed
qed

text \<open>
  \<open>hky_readv_chain\<close> reads into the free space of the chain: the vector it builds is the free
  space of the buffers in order, cut at the limit (and at \<open>IOV_MAX\<close> entries). But a read that is
  not ready or was interrupted is always repeated (the loop condition assigns to \<open>err\<close>), so the
  function gives the same result when any number of such replies is put in front.
\<close>

theorem readv_chain_correct:
  "(\<forall>iovs sz'. (\<forall>b\<in>set bs. 0 < b_last b \<and> b_last b \<le> b_end b) \<and> 0 \<le> limit \<and>
      readv_iovs grow limit bs 0 0 [] = Some (None, sz', iovs) \<longrightarrow>
      (\<exists>k. iov_data iovs = take k (concat (map buf_free bs)) \<and> sz' = int (length (iov_data iovs)) \<and>
           (limit = 0 \<or> sz' \<le> limit))) \<and>
   (\<forall>es rs n d. set es \<subseteq> {Fail HKY_EAGAIN, Fail HKY_EINTR} \<and> k_replies c = rs \<and>
      \<not> (has_flag cf HKY_USE_KQUEUE_EVENT \<or> has_flag cf HKY_USE_EPOLL_EVENT) \<longrightarrow>
      hky_readv_chain cf grow bs limit c = Some (n, d) \<longrightarrow> k_replies d \<noteq> k_replies c \<longrightarrow>
      hky_readv_chain cf grow bs limit (c\<lparr>k_replies := es @ rs\<rparr>) = Some (n, d) \<and> n \<noteq> HKY_AGAIN)"
proof (intro conjI allI impI)
  fix iovs sz' assume a: "(\<forall>b\<in>set bs. 0 < b_last b \<and> b_last b \<le> b_end b) \<and> 0 \<le> limit \<and>
      readv_iovs grow limit bs 0 0 [] = Some (None, sz', iovs)"
  then obtain k where "iov_data iovs = [] @ take k (concat (map buf_free bs))" "k \<le> length (concat (map buf_free bs))"
    "sz' = 0 + int k" "limit = 0 \<or> sz' \<le> limit"
    using readv_iovs_data [of bs limit 0 "[]" 0 grow sz' iovs] by auto
  then show "\<exists>k. iov_data iovs = take k (concat (map buf_free bs)) \<and> sz' = int (length (iov_data iovs)) \<and> (limit = 0 \<or> sz' \<le> limit)"
    by auto
next
  fix es rs n d
  assume a: "set es \<subseteq> {Fail HKY_EAGAIN, Fail HKY_EINTR} \<and> k_replies c = rs \<and>
      \<not> (has_flag cf HKY_USE_KQUEUE_EVENT \<or> has_flag cf HKY_USE_EPOLL_EVENT)"
    and run: "hky_readv_chain cf grow bs limit c = Some (n, d)" and moved: "k_replies d \<noteq> k_replies c"
  have skip: "readv_loop cf sz (es @ rs) c = readv_loop cf sz rs c" if "set es \<subseteq> {Fail HKY_EAGAIN, Fail HKY_EINTR}" for sz es
    using that by (induction es) auto
  have free: "readv_loop cf sz xs (c\<lparr>k_replies := ys\<rparr>) = readv_loop cf sz xs c" for sz xs ys
  proof (induction xs)
    case (Cons x xs)
    then show ?case by (cases x) (auto simp: Let_def conn_defs connection_error_frame case_prod_beta)
  qed simp
  have not_again: "readv_loop cf sz xs c = Some (n, d) \<Longrightarrow> n \<noteq> HKY_AGAIN" for sz xs
  proof (induction xs)
    case (Cons x xs)
    show ?case
    proof (cases x)
      case (Done k)
      then show ?thesis using Cons.prems by (auto simp: Let_def hky_consts split: if_splits)
    next
      case (Fail err)
      then show ?thesis using Cons connection_error_result [of c err]
        by (auto simp: Let_def hky_consts case_prod_beta split: if_splits)
    qed
  qed simp
  obtain rc sz iovs where v: "readv_iovs grow limit bs 0 0 [] = Some (rc, sz, iovs)"
    using run a by (auto simp: hky_readv_chain_def split: option.splits)
  show "hky_readv_chain cf grow bs limit (c\<lparr>k_replies := es @ rs\<rparr>) = Some (n, d)" "n \<noteq> HKY_AGAIN"
    using run a moved v skip [of es] free not_again
    by (auto simp: hky_readv_chain_def split: option.splits)
qed

lemma readv_chain_correct_witness:
  "(\<exists>k. iov_data [(13, 7)] = take k (concat (map buf_free [sample_buf 10 13 False\<lparr>b_end := 20\<rparr>]))) \<and>
   hky_readv_chain (sample_cf\<lparr>f_flags := HKY_USE_GREEDY_EVENT\<rparr>) (\<lambda>_. True) [sample_buf 10 13 False\<lparr>b_end := 20\<rparr>] 0
     (sample_conn [Fail HKY_EAGAIN, Done 5]) = Some (5, sample_conn [])"
proof -
  let ?cf = "sample_cf\<lparr>f_flags := HKY_USE_GREEDY_EVENT\<rparr>"
  let ?b = "sample_buf 10 13 False\<lparr>b_end := 20\<rparr>"
  note flags = has_flag_def HKY_USE_KQUEUE_EVENT_def HKY_USE_EPOLL_EVENT_def HKY_USE_GREEDY_EVENT_def
  have v: "readv_iovs (\<lambda>_. True) 0 [?b] 0 0 [] = Some (None, 7, [(13, 7)])"
    by (simp add: sample_buf_def IOV_MAX_def)
  have f: "\<not> (has_flag ?cf HKY_USE_KQUEUE_EVENT \<or> has_flag ?cf HKY_USE_EPOLL_EVENT)"
    by (simp add: flags)
  have run: "hky_readv_chain ?cf (\<lambda>_. True) [?b] 0 (sample_conn [Done 5]) = Some (5, sample_conn [])"
    using v by (simp add: hky_readv_chain_def sample_conn_def sample_event_def recv_ready_def conn_defs flags)
  have r: "(sample_conn [Done 5])\<lparr>k_replies := [Fail HKY_EAGAIN] @ [Done 5]\<rparr> = sample_conn [Fail HKY_EAGAIN, Done 5]"
    by (simp add: sample_conn_def)
  note thm1 = readv_chain_correct [of "[?b]" 0 "\<lambda>_. True" "sample_conn [Done 5]" ?cf]
  have "\<exists>k. iov_data [(13, 7)] = take k (concat (map buf_free [?b]))"
    using thm1 [THEN conjunct1, rule_format, of 7 "[(13, 7)]"] v by (auto simp: sample_buf_def)
  moreover have "hky_readv_chain ?cf (\<lambda>_. True) [?b] 0 (sample_conn [Fail HKY_EAGAIN, Done 5]) = Some (5, sample_conn [])"
    unfolding r [symmetric]
    by (rule thm1 [THEN conjunct2, rule_format, THEN conjunct1])
      (use f run in \<open>auto simp: sample_conn_def\<close>)
  ultimately show ?thesis by blast
qed

end
