(* ===== verification/Hky_Log.thy ===== *)
theory Hky_Log
  imports Hky_Printf
begin

unbundle bit_operations_syntax

text \<open>
  The logs of src/core/hky_log.c: the line that \<open>hky_log_error_core\<close> builds in its buffer of 2048
  bytes, its delivery along the chain of logs, the echo to the standard error, the insertion of a
  log into a chain and the levels of the directive. Logs and open files are addresses, 0 is
  \<open>NULL\<close>; \<open>lg_out\<close> collects the calls of writers and the writes. The answers of \<open>write\<close> are a
  parameter that sees all calls made so far. \<open>None\<close> is an access through \<open>NULL\<close> or out of the
  buffer. The threads are off (\<open>hky_log_tid\<close> is 0).
\<close>

section \<open>State\<close>

definition HKY_MAX_ERROR_STR :: nat where [hky_consts]: "HKY_MAX_ERROR_STR = 2048"
definition HKY_LINEFEED_SIZE :: nat where [hky_consts]: "HKY_LINEFEED_SIZE = 1"
definition HKY_LOG_EMERG :: u64 where [hky_consts]: "HKY_LOG_EMERG = 1"
definition HKY_LOG_ALERT_LEVEL :: u64 where [hky_consts]: "HKY_LOG_ALERT_LEVEL = 2"
definition HKY_LOG_ERR_LEVEL :: u64 where [hky_consts]: "HKY_LOG_ERR_LEVEL = 4"
definition HKY_LOG_WARN :: u64 where [hky_consts]: "HKY_LOG_WARN = 5"
definition HKY_LOG_NOTICE :: u64 where [hky_consts]: "HKY_LOG_NOTICE = 6"
definition HKY_LOG_DEBUG :: u64 where [hky_consts]: "HKY_LOG_DEBUG = 8"
definition HKY_LOG_DEBUG_CONNECTION :: u64 where "HKY_LOG_DEBUG_CONNECTION = 0x80000000"
definition HKY_LOG_DEBUG_ALL :: u64 where "HKY_LOG_DEBUG_ALL = 0x7ffffff0"
definition HKY_LOG_DEBUG_FIRST :: u64 where "HKY_LOG_DEBUG_FIRST = 0x010"
definition HKY_LOG_DEBUG_LAST :: u64 where "HKY_LOG_DEBUG_LAST = 0x400"

definition hky_stderr :: int where [hky_consts]: "hky_stderr = 2"
definition HKY_ENOSPC :: int where [hky_consts]: "HKY_ENOSPC = 28"

text \<open>A handler writes its text behind the message, given the room that is left.\<close>

record hky_log =
  log_level :: u64
  log_file :: nat
  log_connection :: u64
  log_disk_full_time :: int
  log_handler :: "(nat \<Rightarrow> byte list) option"
  log_writer :: nat
  log_wdata :: nat
  log_next :: nat

datatype log_call =
    Log_writer nat nat u64 "byte list"   \<comment> \<open>the writer, the log, the level, the line\<close>
  | Log_write int "byte list"            \<comment> \<open>the descriptor, the bytes\<close>

record log_state =
  lg_mem :: "nat \<Rightarrow> hky_log"
  lg_fd :: "nat \<Rightarrow> int"
  lg_out :: "log_call list"

text \<open>The cached time, the process, \<open>hky_use_stderr\<close>; \<open>Some e\<close> is a failed write with \<open>errno = e\<close>.\<close>

record log_env =
  le_time :: "byte list"
  le_now :: int
  le_pid :: u64
  le_use_stderr :: bool
  le_write :: "log_call list \<Rightarrow> int \<Rightarrow> byte list \<Rightarrow> int option"

definition err_levels :: "byte list list" where
  "err_levels = [[], bytes_of ''emerg'', bytes_of ''alert'', bytes_of ''crit'', bytes_of ''error'',
     bytes_of ''warn'', bytes_of ''notice'', bytes_of ''info'', bytes_of ''debug'']"

definition debug_levels :: "byte list list" where
  "debug_levels = [bytes_of ''debug_core'', bytes_of ''debug_alloc'', bytes_of ''debug_mutex'',
     bytes_of ''debug_event'', bytes_of ''debug_http'', bytes_of ''debug_mail'', bytes_of ''debug_stream'']"

section \<open>The line\<close>

text \<open>Appending to the text \<open>p\<close> of a buffer of \<open>lim\<close> bytes.\<close>

definition log_printf :: "nat \<Rightarrow> byte list \<Rightarrow> va_arg list \<Rightarrow> byte list \<Rightarrow> byte list option" where
  "log_printf lim fmt args p = map_option (\<lambda>t. p @ t) (hky_slprintf (length p) lim fmt args)"

definition log_header :: "nat \<Rightarrow> log_env \<Rightarrow> u64 \<Rightarrow> hky_log \<Rightarrow> byte list option" where
  "log_header lim env level l =
     (if length (le_time env) > lim \<or> unat level \<ge> length err_levels then None else
      Option.bind (log_printf lim (bytes_of '' [%V] '' @ [0]) [VStr (err_levels ! unat level)] (le_time env)) (\<lambda>p.
      Option.bind (log_printf lim (bytes_of ''%P#%d: '' @ [0]) [VInt (le_pid env), VInt 0] p) (\<lambda>p.
      if log_connection l \<noteq> 0 then log_printf lim (bytes_of ''*%uA'' @ [0]) [VInt (log_connection l)] p
      else Some p)))"

text \<open>\<open>hky_strerror\<close> of src/unix/hky_errno.c returns \<open>NULL\<close>; otherwise it would return the end of its text.\<close>

definition hky_strerror :: "int \<Rightarrow> nat \<Rightarrow> byte list option" where
  "hky_strerror err room = None"

text \<open>A \<open>NULL\<close> result is below \<open>last\<close>, so the closing parenthesis is stored through it.\<close>

definition hky_log_errno :: "nat \<Rightarrow> int \<Rightarrow> byte list \<Rightarrow> byte list option" where
  "hky_log_errno lim err buf =
     (let buf = (if length buf > lim - 50 then take (lim - 50) buf @ bytes_of ''...'' else buf) in
      Option.bind (log_printf lim (bytes_of '' (%d: '' @ [0]) [VInt (word_of_int err)] buf) (\<lambda>buf.
      case hky_strerror err (lim - length buf) of None \<Rightarrow> None
      | Some t \<Rightarrow> let buf = buf @ t in Some (if length buf < lim then buf @ [41] else buf)))"

definition log_linefeed :: "nat \<Rightarrow> byte list \<Rightarrow> byte list" where
  "log_linefeed lim p = take (lim - HKY_LINEFEED_SIZE) p @ [LF]"

text \<open>The header and the caller's message, with the offset \<open>msg\<close> of the message; the line.\<close>

definition log_text :: "nat \<Rightarrow> log_env \<Rightarrow> u64 \<Rightarrow> hky_log \<Rightarrow> byte list \<Rightarrow> va_arg list \<Rightarrow> (byte list \<times> nat) option" where
  "log_text lim env level l fmt args =
     Option.bind (log_header lim env level l) (\<lambda>p. map_option (\<lambda>q. (q, length p)) (log_printf lim fmt args p))"

definition log_handled :: "nat \<Rightarrow> u64 \<Rightarrow> hky_log \<Rightarrow> byte list \<Rightarrow> byte list option" where
  "log_handled lim level l p =
     (case log_handler l of
        Some h \<Rightarrow>
          if level \<noteq> HKY_LOG_DEBUG
          then let t = h (lim - length p) in if length p + length t \<le> lim then Some (p @ t) else None
          else Some p
      | None \<Rightarrow> Some p)"

definition log_line :: "nat \<Rightarrow> log_env \<Rightarrow> u64 \<Rightarrow> hky_log \<Rightarrow> int \<Rightarrow> byte list \<Rightarrow> va_arg list \<Rightarrow> (byte list \<times> nat) option" where
  "log_line lim env level l err fmt args =
     Option.bind (log_text lim env level l fmt args) (\<lambda>(p, msg).
     Option.bind (if err \<noteq> 0 then hky_log_errno lim err p else Some p) (\<lambda>p.
     map_option (\<lambda>p. (log_linefeed lim p, msg)) (log_handled lim level l p)))"

section \<open>Delivery\<close>

text \<open>One log: its writer, or its file unless the disk was full in this second.\<close>

definition log_put :: "log_env \<Rightarrow> u64 \<Rightarrow> byte list \<Rightarrow> nat \<Rightarrow> log_state \<times> bool \<Rightarrow> (log_state \<times> bool) option" where
  "log_put env level line p st =
     (let (s, wrote) = st; l = lg_mem s p in
      if log_writer l \<noteq> 0 then Some (s\<lparr>lg_out := lg_out s @ [Log_writer (log_writer l) p level line]\<rparr>, wrote)
      else if le_now env = log_disk_full_time l then Some (s, wrote)
      else if log_file l = 0 then None
      else
        let fd = lg_fd s (log_file l); n = le_write env (lg_out s) fd line;
            s = s\<lparr>lg_out := lg_out s @ [Log_write fd line]\<rparr>;
            s = (if n = Some HKY_ENOSPC then s\<lparr>lg_mem := (lg_mem s)(p := l\<lparr>log_disk_full_time := le_now env\<rparr>)\<rparr> else s)
        in Some (s, wrote \<or> fd = hky_stderr))"

partial_function (option) log_deliver ::
  "log_env \<Rightarrow> u64 \<Rightarrow> byte list \<Rightarrow> bool \<Rightarrow> nat \<Rightarrow> log_state \<times> bool \<Rightarrow> (log_state \<times> bool) option" where
  "log_deliver env level line debug_connection log st =
     (if log = 0 then Some st
      else if log_level (lg_mem (fst st) log) < level \<and> \<not> debug_connection then Some st
      else Option.bind (log_put env level line log st) (\<lambda>st.
        log_deliver env level line debug_connection (log_next (lg_mem (fst st) log)) st))"

text \<open>The end of the line written again from \<open>msg\<close> on, with the name of the program.\<close>

definition overwrite :: "nat \<Rightarrow> byte list \<Rightarrow> byte list \<Rightarrow> byte list" where
  "overwrite k t b = take k b @ t @ drop (k + length t) b"

definition log_echo :: "log_env \<Rightarrow> u64 \<Rightarrow> byte list \<Rightarrow> nat \<Rightarrow> log_state \<Rightarrow> log_state option" where
  "log_echo env level line msg s =
     (let name = err_levels ! unat level; back = 7 + length name + 3 in
      if msg < back then None
      else Option.bind (hky_sprintf (msg - back) (bytes_of ''husky: [%V]'' @ [0]) [VStr name]) (\<lambda>t.
        Some (s\<lparr>lg_out := lg_out s @ [Log_write hky_stderr (drop (msg - back) (overwrite (msg - back) t line))]\<rparr>)))"

definition hky_log_error_core ::
  "log_env \<Rightarrow> u64 \<Rightarrow> nat \<Rightarrow> int \<Rightarrow> byte list \<Rightarrow> va_arg list \<Rightarrow> log_state \<Rightarrow> log_state option" where
  "hky_log_error_core env level log err fmt args s =
     Option.bind (log_line HKY_MAX_ERROR_STR env level (lg_mem s log) err fmt args) (\<lambda>(line, msg).
     let debug_connection = log_level (lg_mem s log) AND HKY_LOG_DEBUG_CONNECTION \<noteq> 0 in
     Option.bind (log_deliver env level line debug_connection log (s, False)) (\<lambda>(s, wrote_stderr).
     if \<not> le_use_stderr env \<or> level > HKY_LOG_WARN \<or> wrote_stderr then Some s
     else log_echo env level line msg s))"

text \<open>The macro \<open>hky_log_error\<close>.\<close>

definition hky_log_error ::
  "log_env \<Rightarrow> u64 \<Rightarrow> nat \<Rightarrow> int \<Rightarrow> byte list \<Rightarrow> va_arg list \<Rightarrow> log_state \<Rightarrow> log_state option" where
  "hky_log_error env level log err fmt args s =
     (if log_level (lg_mem s log) \<ge> level then hky_log_error_core env level log err fmt args s else Some s)"

text \<open>\<open>hky_log_stderr\<close>: its own buffer, straight to the standard error.\<close>

definition hky_log_stderr :: "int \<Rightarrow> byte list \<Rightarrow> va_arg list \<Rightarrow> log_state \<Rightarrow> log_state option" where
  "hky_log_stderr err fmt args s =
     Option.bind (log_printf HKY_MAX_ERROR_STR fmt args (bytes_of ''husky: '')) (\<lambda>p.
     Option.bind (if err \<noteq> 0 then hky_log_errno HKY_MAX_ERROR_STR err p else Some p) (\<lambda>p.
     Some (s\<lparr>lg_out := lg_out s @ [Log_write hky_stderr (log_linefeed HKY_MAX_ERROR_STR p)]\<rparr>)))"

definition HKY_MAX_CONF_ERRSTR :: nat where "HKY_MAX_CONF_ERRSTR = 1024"

definition hky_log_abort :: "log_env \<Rightarrow> nat \<Rightarrow> int \<Rightarrow> byte list \<Rightarrow> va_arg list \<Rightarrow> log_state \<Rightarrow> log_state option" where
  "hky_log_abort env cycle_log err fmt args s =
     Option.bind (hky_snprintf 0 (HKY_MAX_CONF_ERRSTR - 1) fmt args) (\<lambda>t.
     hky_log_error env HKY_LOG_ALERT_LEVEL cycle_log err (bytes_of ''%*s'' @ [0])
       [VInt (word_of_nat (length t)), VMem t] s)"

section \<open>The line\<close>

text \<open>A buffer of \<open>lim\<close> bytes holds the first \<open>lim\<close> bytes of what a larger one holds.\<close>

lemma log_printf_take:
  assumes "log_printf big fmt args p = Some out" and "lim \<le> big"
  shows "log_printf lim fmt args (take lim p) = Some (take lim out)"
proof -
  obtain t where t: "vslprintf_loop (big - length p) fmt args = Some t" "out = p @ t"
    using assms(1) by (auto simp: log_printf_def hky_slprintf_def hky_vslprintf_def)
  have "vslprintf_loop (lim - length p) fmt args = Some (take (lim - length p) t)"
    using assms(2) by (intro vslprintf_truncated [OF t(1)]) simp
  then show ?thesis
    by (cases "length p \<le> lim") (simp_all add: log_printf_def hky_slprintf_def hky_vslprintf_def t(2))
qed

lemma log_header_take:
  assumes "log_header big env level l = Some h" "lim \<le> big" "length (le_time env) \<le> lim"
  shows "log_header lim env level l = Some (take lim h)"
proof -
  let ?lv = "log_printf big (bytes_of '' [%V] '' @ [0]) [VStr (err_levels ! unat level)] (le_time env)"
  obtain a where a: "?lv = Some a" using assms(1) by (cases ?lv) (simp_all add: log_header_def split: if_splits)
  let ?ps = "log_printf big (bytes_of ''%P#%d: '' @ [0]) [VInt (le_pid env), VInt 0] a"
  obtain b where b: "?ps = Some b" using assms(1) a by (cases ?ps) (simp_all add: log_header_def split: if_splits)
  have t: "take lim (le_time env) = le_time env" using assms(3) by simp
  show ?thesis
  proof (cases "log_connection l = 0")
    case True
    then show ?thesis
      using assms(1,3) a b log_printf_take [OF a assms(2)] log_printf_take [OF b assms(2)]
      by (simp add: log_header_def t split: if_splits)
  next
    case False
    then have "log_printf big (bytes_of ''*%uA'' @ [0]) [VInt (log_connection l)] b = Some h"
      using assms(1) a b by (simp add: log_header_def split: if_splits)
    from log_printf_take [OF this assms(2)] False show ?thesis
      using assms(1,3) a b log_printf_take [OF a assms(2)] log_printf_take [OF b assms(2)]
      by (simp add: log_header_def t split: if_splits)
  qed
qed

lemma log_text_take:
  assumes "log_text big env level l fmt args = Some (t, k)" "lim \<le> big" "length (le_time env) \<le> lim"
  shows "log_text lim env level l fmt args = Some (take lim t, min lim k)"
proof -
  obtain h where h: "log_header big env level l = Some h" "log_printf big fmt args h = Some t" "k = length h"
    using assms(1) by (auto simp: log_text_def split: bind_splits)
  then show ?thesis
    using log_header_take [OF h(1) assms(2,3)] log_printf_take [OF h(2) assms(2)] by (simp add: log_text_def min.commute)
qed

lemma log_printf_prefix: "log_printf lim fmt args p = Some q \<Longrightarrow> take (length p) q = p \<and> length p \<le> length q"
  by (auto simp: log_printf_def)

text \<open>The part of the header in front of the number of the process.\<close>

lemma level_text:
  assumes "unat level < length err_levels" "length p + 12 \<le> lim"
  shows "log_printf lim (bytes_of '' [%V] '' @ [0]) [VStr (err_levels ! unat level)] p =
    Some (p @ bytes_of '' ['' @ err_levels ! unat level @ bytes_of ''] '')"
proof -
  have "length (err_levels ! unat level) \<le> 6"
    using assms(1) by (auto simp: err_levels_def less_Suc_eq_0_disj)
  then show ?thesis using assms(2)
    by (simp add: log_printf_def hky_slprintf_def hky_vslprintf_def fmt_start_def fmt_conv_def min_absorb2)
qed


section \<open>Chains\<close>

text \<open>The logs from \<open>p\<close> on.\<close>

fun log_chain :: "(nat \<Rightarrow> hky_log) \<Rightarrow> nat \<Rightarrow> nat list \<Rightarrow> bool" where
  "log_chain m p [] \<longleftrightarrow> p = 0"
| "log_chain m p (q # qs) \<longleftrightarrow> p = q \<and> p \<noteq> 0 \<and> p \<notin> set qs \<and> log_chain m (log_next (m p)) qs"

lemma log_chain_cong:
  "(\<And>q. q \<in> set qs \<Longrightarrow> log_next (m' q) = log_next (m q)) \<Longrightarrow> log_chain m' p qs = log_chain m p qs"
  by (induction qs arbitrary: p) auto

text \<open>What a log that accepts the level receives.\<close>

definition log_delivery :: "log_env \<Rightarrow> u64 \<Rightarrow> byte list \<Rightarrow> log_state \<Rightarrow> nat \<Rightarrow> log_call list" where
  "log_delivery env level line s p =
     (let l = lg_mem s p in
      if log_writer l \<noteq> 0 then [Log_writer (log_writer l) p level line]
      else if le_now env = log_disk_full_time l then []
      else [Log_write (lg_fd s (log_file l)) line])"

definition log_usable :: "log_env \<Rightarrow> hky_log \<Rightarrow> bool" where
  "log_usable env l \<longleftrightarrow> log_writer l \<noteq> 0 \<or> log_file l \<noteq> 0"

text \<open>Only the time of a full disk changes.\<close>

definition log_same :: "nat set \<Rightarrow> log_state \<Rightarrow> log_state \<Rightarrow> bool" where
  "log_same A s s' \<longleftrightarrow> lg_fd s' = lg_fd s \<and>
     (\<forall>p. lg_mem s' p = (lg_mem s p)\<lparr>log_disk_full_time := log_disk_full_time (lg_mem s' p)\<rparr> \<and>
          (p \<notin> A \<longrightarrow> lg_mem s' p = lg_mem s p))"

lemma log_sameD:
  assumes "log_same A s s'"
  shows "lg_fd s' = lg_fd s" "log_level (lg_mem s' p) = log_level (lg_mem s p)"
    "log_next (lg_mem s' p) = log_next (lg_mem s p)" "log_writer (lg_mem s' p) = log_writer (lg_mem s p)"
    "log_file (lg_mem s' p) = log_file (lg_mem s p)" "p \<notin> A \<Longrightarrow> lg_mem s' p = lg_mem s p"
proof -
  have e: "lg_mem s' p = (lg_mem s p)\<lparr>log_disk_full_time := log_disk_full_time (lg_mem s' p)\<rparr>"
    using assms by (simp add: log_same_def)
  show "lg_fd s' = lg_fd s" "p \<notin> A \<Longrightarrow> lg_mem s' p = lg_mem s p" using assms by (simp_all add: log_same_def)
  show "log_level (lg_mem s' p) = log_level (lg_mem s p)" by (subst e) simp
  show "log_next (lg_mem s' p) = log_next (lg_mem s p)" by (subst e) simp
  show "log_writer (lg_mem s' p) = log_writer (lg_mem s p)" by (subst e) simp
  show "log_file (lg_mem s' p) = log_file (lg_mem s p)" by (subst e) simp
qed

lemma log_same_trans: "log_same A s s' \<Longrightarrow> log_same B s' s'' \<Longrightarrow> log_same (A \<union> B) s s''"
  unfolding log_same_def by (smt (verit, del_insts) UnCI hky_log.surjective hky_log.update_convs(4))

lemma log_same_refl: "log_same A s s"
  by (simp add: log_same_def)

lemma log_put_ok:
  assumes "log_usable env (lg_mem s p)"
  shows "\<exists>s'. log_put env level line p (s, wrote) =
      Some (s', wrote \<or> Log_write hky_stderr line \<in> set (log_delivery env level line s p)) \<and>
    log_same {p} s s' \<and> lg_out s' = lg_out s @ log_delivery env level line s p"
  using assms by (auto simp: log_put_def log_usable_def log_delivery_def Let_def log_same_def)

lemma log_delivery_same:
  assumes "log_same A s s'" "p \<notin> A" shows "log_delivery env level line s' p = log_delivery env level line s p"
  using log_sameD(1) [OF assms(1)] log_sameD(6) [OF assms] by (simp add: log_delivery_def Let_def)

text \<open>The loop serves the logs up to the first one that does not accept the level.\<close>

lemma log_deliver_chain:
  assumes "log_chain (lg_mem s) p ps"
    and "\<forall>q\<in>set ps. level \<le> log_level (lg_mem s q) \<longrightarrow> log_usable env (lg_mem s q)"
  shows "let served = concat (map (log_delivery env level line s) (takeWhile (\<lambda>q. level \<le> log_level (lg_mem s q)) ps))
    in \<exists>s'. log_deliver env level line False p (s, wrote) =
        Some (s', wrote \<or> Log_write hky_stderr line \<in> set served) \<and>
      log_same (set ps) s s' \<and> lg_out s' = lg_out s @ served"
  using assms
proof (induction ps arbitrary: p s wrote)
  case Nil
  then show ?case by (subst log_deliver.simps) (simp add: log_same_refl)
next
  case (Cons q ps)
  then have q: "p = q" "p \<noteq> 0" "q \<notin> set ps" "log_chain (lg_mem s) (log_next (lg_mem s q)) ps" by auto
  show ?case
  proof (cases "level \<le> log_level (lg_mem s q)")
    case False
    then show ?thesis using q False by (subst log_deliver.simps) (auto simp: log_same_refl)
  next
    case True
    obtain s1 where s1: "log_put env level line q (s, wrote) =
        Some (s1, wrote \<or> Log_write hky_stderr line \<in> set (log_delivery env level line s q))"
      "log_same {q} s s1" "lg_out s1 = lg_out s @ log_delivery env level line s q"
      using log_put_ok True Cons.prems(2) by (meson list.set_intros(1))
    note same = log_sameD [OF s1(2)]
    have "log_chain (lg_mem s1) (log_next (lg_mem s1 q)) ps"
      using q(4) log_chain_cong [of ps "lg_mem s1" "lg_mem s"] by (simp add: same)
    moreover have "\<forall>r\<in>set ps. level \<le> log_level (lg_mem s1 r) \<longrightarrow> log_usable env (lg_mem s1 r)"
      using Cons.prems(2) by (simp add: same log_usable_def)
    moreover have "map (log_delivery env level line s1) (takeWhile (\<lambda>r. level \<le> log_level (lg_mem s1 r)) ps) =
        map (log_delivery env level line s) (takeWhile (\<lambda>r. level \<le> log_level (lg_mem s r)) ps)"
      using q(3) by (intro map_cong) (auto simp: same intro!: log_delivery_same [OF s1(2)] dest: set_takeWhileD)
    ultimately obtain s2 where "log_deliver env level line False (log_next (lg_mem s1 q))
          (s1, wrote \<or> Log_write hky_stderr line \<in> set (log_delivery env level line s q)) = Some (s2,
            (wrote \<or> Log_write hky_stderr line \<in> set (log_delivery env level line s q)) \<or> Log_write hky_stderr line \<in>
            set (concat (map (log_delivery env level line s) (takeWhile (\<lambda>q. level \<le> log_level (lg_mem s q)) ps))))"
      "log_same (set ps) s1 s2"
      "lg_out s2 = lg_out s1 @ concat (map (log_delivery env level line s) (takeWhile (\<lambda>q. level \<le> log_level (lg_mem s q)) ps))"
      using Cons.IH by (metis (no_types, lifting))
    then show ?thesis using q(1,2) True s1(1,3) log_same_trans [OF s1(2)]
      by (subst log_deliver.simps) auto
  qed
qed


lemma takeWhile_eq_filter_sorted: "sorted_wrt (\<lambda>p q. P q \<longrightarrow> P p) xs \<Longrightarrow> takeWhile P xs = filter P xs"
  by (induction xs) (auto simp: filter_empty_conv)

section \<open>Delivery of a line\<close>

text \<open>The echo, when the line went to no log on the standard error.\<close>

definition log_echo_text :: "log_env \<Rightarrow> u64 \<Rightarrow> byte list \<Rightarrow> nat \<Rightarrow> log_call list \<Rightarrow> log_call list" where
  "log_echo_text env level line msg served =
     (if le_use_stderr env \<and> level \<le> HKY_LOG_WARN \<and> Log_write hky_stderr line \<notin> set served
      then [Log_write hky_stderr
        (bytes_of ''husky: ['' @ err_levels ! unat level @ bytes_of '']'' @ drop (msg - 1) line)]
      else [])"

lemma log_echo_ok:
  assumes "unat level < length err_levels" "length (err_levels ! unat level) + 10 \<le> msg" "msg < 2 ^ 16" "msg \<le> length line + 1"
  shows "log_echo env level line msg s = Some (s\<lparr>lg_out := lg_out s @
    [Log_write hky_stderr (bytes_of ''husky: ['' @ err_levels ! unat level @ bytes_of '']'' @ drop (msg - 1) line)]\<rparr>)"
proof -
  let ?n = "err_levels ! unat level" and ?b = "msg - (7 + length (err_levels ! unat level) + 3)"
  have n: "length ?n \<le> 6" using assms(1) by (auto simp: err_levels_def less_Suc_eq_0_disj)
  have "hky_sprintf ?b (bytes_of ''husky: [%V]'' @ [0]) [VStr ?n] = Some (bytes_of ''husky: ['' @ ?n @ bytes_of '']'')"
    using n assms(3)
    by (simp add: hky_sprintf_def hky_vslprintf_def fmt_start_def fmt_conv_def min_absorb2)
  moreover have "?b + (length ?n + 9) = msg - 1" using assms(2) by simp
  moreover have "?b \<le> length line" using assms by simp
  ultimately show ?thesis using assms(2,4)
    by (simp add: log_echo_def Let_def overwrite_def)
qed

lemma log_header_length:
  assumes "log_header HKY_MAX_ERROR_STR env level l = Some h" "length (le_time env) = 19"
  shows "unat level < length err_levels" "length (err_levels ! unat level) + 23 \<le> length h" "length h \<le> HKY_MAX_ERROR_STR"
proof -
  show l: "unat level < length err_levels" using assms(1) by (auto simp: log_header_def split: if_splits)
  have t: "log_printf HKY_MAX_ERROR_STR (bytes_of '' [%V] '' @ [0]) [VStr (err_levels ! unat level)] (le_time env) =
      Some (le_time env @ bytes_of '' ['' @ err_levels ! unat level @ bytes_of ''] '')"
    using level_text [OF l, of "le_time env" HKY_MAX_ERROR_STR] assms(2) by (simp add: HKY_MAX_ERROR_STR_def)
  show "length (err_levels ! unat level) + 23 \<le> length h"
    using assms l t by (auto simp: log_header_def split: if_splits bind_splits dest!: log_printf_prefix)
  have "log_header HKY_MAX_ERROR_STR env level l = Some (take HKY_MAX_ERROR_STR h)"
    using log_header_take [OF assms(1) order.refl] assms(2) by (simp add: HKY_MAX_ERROR_STR_def)
  then show "length h \<le> HKY_MAX_ERROR_STR" using assms(1) by (metis length_take min.cobounded2 option.inject)
qed

lemma log_line_shape:
  assumes "log_line HKY_MAX_ERROR_STR env level l err fmt args = Some (line, msg)" "length (le_time env) = 19"
  shows "length line \<le> HKY_MAX_ERROR_STR" "line \<noteq> []" "last line = LF" "unat level < length err_levels"
    "length (err_levels ! unat level) + 10 \<le> msg" "msg < 2 ^ 16" "msg \<le> length line + 1" "err = 0"
proof -
  obtain h p q where h: "log_header HKY_MAX_ERROR_STR env level l = Some h" "msg = length h"
    "log_printf HKY_MAX_ERROR_STR fmt args h = Some p" "err = 0"
    "log_handled HKY_MAX_ERROR_STR level l p = Some q" "line = log_linefeed HKY_MAX_ERROR_STR q"
    using assms(1)
    by (auto simp: log_line_def log_text_def hky_log_errno_def hky_strerror_def Let_def split: bind_splits if_splits)
  note hl = log_header_length [OF h(1) assms(2)]
  show "length line \<le> HKY_MAX_ERROR_STR" "line \<noteq> []" "last line = LF"
    by (simp_all add: h(6) log_linefeed_def HKY_MAX_ERROR_STR_def HKY_LINEFEED_SIZE_def)
  show "unat level < length err_levels" "length (err_levels ! unat level) + 10 \<le> msg" "msg < 2 ^ 16" "err = 0"
    using hl h(2,4) by (simp_all add: HKY_MAX_ERROR_STR_def)
  have "length h \<le> length p" using log_printf_prefix [OF h(3)] by simp
  moreover have "length p \<le> length q" using h(5) by (auto simp: log_handled_def Let_def split: option.splits if_splits)
  ultimately show "msg \<le> length line + 1"
    using hl(3) h(2) by (simp add: h(6) log_linefeed_def HKY_LINEFEED_SIZE_def HKY_MAX_ERROR_STR_def)
qed

text \<open>
  C30: What \<open>hky_log_error_core\<close> writes. A message without an error number is one line: the first
  2047 bytes of the time, the level, the process, the connection and the message, with a line feed
  behind them. In a chain that is sorted by level it goes once, in the order of the chain, to
  every log that accepts its level, except to files whose disk was full in this second; it is
  echoed to the standard error when it is a warning or worse and no log wrote there. The memory
  of the logs stays as it was except for the times of full disks.
\<close>

theorem log_error_core_correct:
  assumes content: "log_text big env level (lg_mem s log) fmt args = Some (t, msg)" "HKY_MAX_ERROR_STR \<le> big"
    and env: "length (le_time env) = 19" "level = HKY_LOG_DEBUG \<or> log_handler (lg_mem s log) = None"
    and chain: "log_chain (lg_mem s) log ps" "sorted_wrt (\<lambda>p q. log_level (lg_mem s p) \<ge> log_level (lg_mem s q)) ps"
    and usable: "\<forall>p\<in>set ps. log_usable env (lg_mem s p)"
    and plain: "log_level (lg_mem s log) AND HKY_LOG_DEBUG_CONNECTION = 0"
  shows "let line = take 2047 t @ [LF];
      served = concat (map (log_delivery env level line s) (filter (\<lambda>p. level \<le> log_level (lg_mem s p)) ps))
    in \<exists>s'. hky_log_error_core env level log 0 fmt args s = Some s' \<and> log_same (set ps) s s' \<and>
      lg_out s' = lg_out s @ served @ log_echo_text env level line (min 2048 msg) served"
proof -
  let ?line = "take 2047 t @ [LF]" and ?acc = "\<lambda>p. level \<le> log_level (lg_mem s p)"
  let ?served = "concat (map (log_delivery env level ?line s) (filter ?acc ps))"
  have "log_text HKY_MAX_ERROR_STR env level (lg_mem s log) fmt args = Some (take 2048 t, min 2048 msg)"
    using log_text_take [OF content] env(1) by (simp add: HKY_MAX_ERROR_STR_def)
  moreover have "log_handled HKY_MAX_ERROR_STR level (lg_mem s log) (take 2048 t) = Some (take 2048 t)"
    using env(2) by (auto simp: log_handled_def split: option.splits)
  ultimately have line: "log_line HKY_MAX_ERROR_STR env level (lg_mem s log) 0 fmt args = Some (?line, min 2048 msg)"
    by (simp add: log_line_def log_linefeed_def HKY_MAX_ERROR_STR_def HKY_LINEFEED_SIZE_def)
  note shape = log_line_shape [OF line env(1)]
  have "sorted_wrt (\<lambda>p q. ?acc q \<longrightarrow> ?acc p) ps" using chain(2) by (rule sorted_wrt_mono_rel [rotated]) auto
  then have tw: "takeWhile ?acc ps = filter ?acc ps" by (rule takeWhile_eq_filter_sorted)
  obtain s' where s': "log_deliver env level ?line False log (s, False) = Some (s', Log_write hky_stderr ?line \<in> set ?served)"
    "log_same (set ps) s s'" "lg_out s' = lg_out s @ ?served"
    using log_deliver_chain [OF chain(1), of level env ?line False] usable by (auto simp: Let_def tw)
  show ?thesis
  proof (cases "le_use_stderr env \<and> level \<le> HKY_LOG_WARN \<and> Log_write hky_stderr ?line \<notin> set ?served")
    case False
    then show ?thesis using s' plain
      by (auto simp: hky_log_error_core_def line log_echo_text_def Let_def not_less)
  next
    case True
    then show ?thesis
      using s' plain log_echo_ok [OF shape(4-7), of env s']
      by (auto simp: hky_log_error_core_def line log_echo_text_def Let_def not_less log_same_def)
  qed
qed


definition sample_log_env :: log_env where
  "sample_log_env = \<lparr>le_time = bytes_of ''2021/03/04 05:06:07'', le_now = 100, le_pid = 42, le_use_stderr = True,
     le_write = (\<lambda>_ _ _. None)\<rparr>"

definition sample_logs :: log_state where
  "sample_logs = \<lparr>lg_mem = (\<lambda>p. if p = 1
      then \<lparr>log_level = 7, log_file = 8, log_connection = 3, log_disk_full_time = 0, log_handler = None, log_writer = 0, log_wdata = 0, log_next = 2\<rparr>
      else \<lparr>log_level = 4, log_file = 9, log_connection = 0, log_disk_full_time = 0, log_handler = None, log_writer = 0, log_wdata = 0, log_next = 0\<rparr>),
    lg_fd = (\<lambda>f. int f), lg_out = []\<rparr>"

text \<open>A warning of connection 3: the log of errors does not get it.\<close>

lemma log_error_core_correct_witness:
  "\<exists>s'. hky_log_error_core sample_log_env 5 1 0 (bytes_of ''disk %d'' @ [0]) [VInt 9] sample_logs = Some s' \<and>
     lg_out s' = [Log_write 8 (bytes_of ''2021/03/04 05:06:07 [warn] 42#0: *3disk 9'' @ [LF]),
       Log_write 2 (bytes_of ''husky: [warn]3disk 9'' @ [LF])]"
proof -
  have t: "log_text 2048 sample_log_env 5 (lg_mem sample_logs 1) (bytes_of ''disk %d'' @ [0]) [VInt 9] =
      Some (bytes_of ''2021/03/04 05:06:07 [warn] 42#0: *3disk 9'', 35)"
    by code_simp
  from log_error_core_correct [OF t, of "[1, 2]"] show ?thesis
    by (simp add: sample_log_env_def sample_logs_def HKY_MAX_ERROR_STR_def log_usable_def HKY_LOG_DEBUG_CONNECTION_def
        log_delivery_def log_echo_text_def hky_stderr_def HKY_LOG_WARN_def err_levels_def Let_def) blast
qed

text \<open>
  C31: A message with an error number is never written: \<open>hky_strerror\<close> returns \<open>NULL\<close>, and the closing
  parenthesis behind the text of the error is stored through that pointer. A log that does not
  accept the level is not touched.
\<close>

theorem log_errno_null:
  assumes "err \<noteq> 0"
  shows "hky_log_error_core env level log err fmt args s = None \<and> hky_log_stderr err fmt args s = None \<and>
    hky_log_error env level log err fmt args s =
      (if level \<le> log_level (lg_mem s log) then None else Some s)"
proof -
  have e: "hky_log_errno lim err p = None" for lim p
    by (simp add: hky_log_errno_def hky_strerror_def Let_def split: bind_splits)
  have c: "hky_log_error_core env level log err fmt args s = None"
    using assms by (simp add: hky_log_error_core_def log_line_def e split: bind_splits)
  then show ?thesis using assms by (simp add: hky_log_error_def hky_log_stderr_def e split: bind_splits)
qed

lemma log_errno_null_witness:
  "hky_log_error sample_log_env 2 1 13 (bytes_of ''open() failed'' @ [0]) [] sample_logs = None"
  using log_errno_null [of 13] by (simp add: sample_logs_def)

section \<open>Insertion into a chain\<close>

partial_function (option) log_insert_walk :: "nat \<Rightarrow> nat \<Rightarrow> (nat \<Rightarrow> hky_log) \<Rightarrow> (nat \<Rightarrow> hky_log) option" where
  "log_insert_walk log new m =
     (let n = log_next (m log) in
      if n = 0 then Some (m(log := (m log)\<lparr>log_next := new\<rparr>))
      else if log_level (m new) > log_level (m n) then
        let m = m(new := (m new)\<lparr>log_next := n\<rparr>) in Some (m(log := (m log)\<lparr>log_next := new\<rparr>))
      else log_insert_walk n new m)"

text \<open>A log above the head trades places with it, so that the head keeps its address.\<close>

definition hky_log_insert :: "nat \<Rightarrow> nat \<Rightarrow> (nat \<Rightarrow> hky_log) \<Rightarrow> (nat \<Rightarrow> hky_log) option" where
  "hky_log_insert log new m =
     (if log_level (m new) > log_level (m log) then
        let tmp = m log; m = m(log := m new); m = m(new := tmp) in Some (m(log := (m log)\<lparr>log_next := new\<rparr>))
      else log_insert_walk log new m)"

text \<open>The logs of a chain without their links, and the insertion into a list.\<close>

definition log_list :: "(nat \<Rightarrow> hky_log) \<Rightarrow> nat list \<Rightarrow> hky_log list" where
  "log_list m ps = map (\<lambda>p. (m p)\<lparr>log_next := 0\<rparr>) ps"

definition insert_by_level :: "hky_log \<Rightarrow> hky_log list \<Rightarrow> hky_log list" where
  "insert_by_level l ls = takeWhile (\<lambda>k. log_level l \<le> log_level k) ls @ [l] @ dropWhile (\<lambda>k. log_level l \<le> log_level k) ls"

lemma log_list_cong: "(\<And>p. p \<in> set ps \<Longrightarrow> m' p = m p) \<Longrightarrow> log_list m' ps = log_list m ps"
  by (simp add: log_list_def)

lemma log_insert_walk_ok:
  assumes "log_chain m log (log # ps)" "new \<notin> set (log # ps)" "new \<noteq> 0" "log_next (m new) = 0"
    "log_level (m new) \<le> log_level (m log)"
  shows "\<exists>m' ps'. log_insert_walk log new m = Some m' \<and> log_chain m' log (log # ps') \<and>
    log_list m' (log # ps') = insert_by_level ((m new)\<lparr>log_next := 0\<rparr>) (log_list m (log # ps)) \<and>
    set ps' = insert new (set ps) \<and> (\<forall>q. q \<notin> insert log (insert new (set ps)) \<longrightarrow> m' q = m q)"
  using assms
proof (induction ps arbitrary: log)
  case Nil
  let ?m = "m(log := (m log)\<lparr>log_next := new\<rparr>)"
  have "log_insert_walk log new m = Some ?m" using Nil by (subst log_insert_walk.simps) simp
  moreover have "log_chain ?m log [log, new]" "log_list ?m [log, new] = insert_by_level ((m new)\<lparr>log_next := 0\<rparr>) (log_list m [log])"
    using Nil by (auto simp: log_list_def insert_by_level_def)
  moreover have "set [new] = insert new (set [])" "\<forall>q. q \<notin> insert log (insert new (set [])) \<longrightarrow> ?m q = m q" by auto
  ultimately show ?case by (intro exI [of _ ?m] exI [of _ "[new]"] conjI)
next
  case (Cons n ps)
  then have n: "log_next (m log) = n" "n \<noteq> 0" "log \<noteq> n" "log \<notin> set ps" "n \<notin> set ps" "log_chain m n (n # ps)" "new \<noteq> log" "new \<noteq> n"
    by auto
  show ?case
  proof (cases "log_level (m new) > log_level (m n)")
    case True
    let ?m = "m(new := (m new)\<lparr>log_next := n\<rparr>, log := (m log)\<lparr>log_next := new\<rparr>)"
    have "log_insert_walk log new m = Some ?m" using n True by (subst log_insert_walk.simps) (simp add: Let_def)
    moreover have "log_chain ?m log (log # new # n # ps)"
      using Cons.prems n by (auto intro: log_chain_cong [THEN iffD2, rotated])
    moreover have "log_list ?m (log # new # n # ps) = insert_by_level ((m new)\<lparr>log_next := 0\<rparr>) (log_list m (log # n # ps))"
      using Cons.prems n True by (auto simp: log_list_def insert_by_level_def)
    moreover have "set (new # n # ps) = insert new (set (n # ps))"
      "\<forall>q. q \<notin> insert log (insert new (set (n # ps))) \<longrightarrow> ?m q = m q" by auto
    ultimately show ?thesis by (intro exI [of _ ?m] exI [of _ "new # n # ps"] conjI)
  next
    case False
    obtain m' ps' where ih: "log_insert_walk n new m = Some m'" "log_chain m' n (n # ps')"
      "log_list m' (n # ps') = insert_by_level ((m new)\<lparr>log_next := 0\<rparr>) (log_list m (n # ps))"
      "set ps' = insert new (set ps)" "\<forall>q. q \<notin> insert n (insert new (set ps)) \<longrightarrow> m' q = m q"
      using Cons.IH [of n] Cons.prems n(2-) False by (metis list.set_intros(2) not_less set_ConsD)
    have "log_insert_walk log new m = Some m'" using n False ih(1) by (subst log_insert_walk.simps) simp
    moreover have "m' log = m log" using ih(5) n by auto
    moreover from this have "log_chain m' log (log # n # ps')" using ih(2,4) n Cons.prems(1) by auto
    moreover from \<open>m' log = m log\<close>
    have "log_list m' (log # n # ps') = insert_by_level ((m new)\<lparr>log_next := 0\<rparr>) (log_list m (log # n # ps))"
      using ih(3) Cons.prems(5) by (simp add: log_list_def insert_by_level_def)
    ultimately show ?thesis using ih(4,5) by (intro exI [of _ m'] exI [of _ "n # ps'"]) auto
  qed
qed


lemma insert_by_level_sorted:
  assumes "sorted_wrt (\<lambda>k l. log_level l \<le> log_level k) ls"
  shows "sorted_wrt (\<lambda>k l. log_level l \<le> log_level k) (insert_by_level n ls)"
proof -
  let ?P = "\<lambda>k. log_level n \<le> log_level k"
  have s: "sorted_wrt (\<lambda>k l. log_level l \<le> log_level k) (takeWhile ?P ls @ dropWhile ?P ls)" using assms by simp
  have below: "log_level k \<le> log_level n" if "k \<in> set (dropWhile ?P ls)" for k
    using assms that
  proof (induction ls)
    case (Cons l ls)
    then show ?case by (cases "?P l") (auto simp: not_le dest: less_imp_le intro: order.trans)
  qed simp
  show ?thesis using s below by (auto simp: insert_by_level_def sorted_wrt_append dest: set_takeWhileD simp del: takeWhile_dropWhile_id)
qed

lemma log_insert_ok:
  assumes "log_chain m log ps" "log \<noteq> 0" "new \<notin> set ps" "new \<noteq> 0" "log_next (m new) = 0"
  shows "\<exists>m' ps'. hky_log_insert log new m = Some m' \<and> log_chain m' log ps' \<and>
    log_list m' ps' = insert_by_level ((m new)\<lparr>log_next := 0\<rparr>) (log_list m ps) \<and>
    set ps' = insert new (set ps) \<and> (\<forall>q. q \<notin> set ps' \<longrightarrow> m' q = m q) \<and>
    (sorted_wrt (\<lambda>k l. log_level l \<le> log_level k) (log_list m ps) \<longrightarrow>
      sorted_wrt (\<lambda>k l. log_level l \<le> log_level k) (log_list m' ps'))"
proof -
  obtain qs where ps: "ps = log # qs" using assms(1,2) by (cases ps) auto
  have "\<exists>m' ps'. hky_log_insert log new m = Some m' \<and> log_chain m' log ps' \<and>
    log_list m' ps' = insert_by_level ((m new)\<lparr>log_next := 0\<rparr>) (log_list m ps) \<and>
    set ps' = insert new (set ps) \<and> (\<forall>q. q \<notin> set ps' \<longrightarrow> m' q = m q)"
  proof (cases "log_level (m new) > log_level (m log)")
    case True
    let ?m = "m(log := (m new)\<lparr>log_next := new\<rparr>, new := m log)"
    have ne: "new \<noteq> log" using assms(3) ps by auto
    have "hky_log_insert log new m = Some ?m" using True ne by (auto simp: hky_log_insert_def Let_def)
    moreover have "log_chain ?m log (log # new # qs)"
      using assms ps by (auto intro: log_chain_cong [THEN iffD2, rotated])
    moreover have "log_list ?m (log # new # qs) = insert_by_level ((m new)\<lparr>log_next := 0\<rparr>) (log_list m ps)"
      using assms ps True by (auto simp: log_list_def insert_by_level_def)
    ultimately show ?thesis using ps by (intro exI [of _ ?m] exI [of _ "log # new # qs"]) auto
  next
    case False
    then have "log_level (m new) \<le> log_level (m log)" by simp
    from log_insert_walk_ok [OF assms(1) [unfolded ps] assms(3) [unfolded ps] assms(4,5) this]
    obtain m' qs' where "log_insert_walk log new m = Some m'" "log_chain m' log (log # qs')"
      "log_list m' (log # qs') = insert_by_level ((m new)\<lparr>log_next := 0\<rparr>) (log_list m (log # qs))"
      "set qs' = insert new (set qs)" "\<forall>q. q \<notin> insert log (insert new (set qs)) \<longrightarrow> m' q = m q"
      by blast
    then show ?thesis using False ps
      by (intro exI [of _ m'] exI [of _ "log # qs'"]) (simp add: hky_log_insert_def insert_commute)
  qed
  then show ?thesis using insert_by_level_sorted by (metis (no_types, lifting))
qed

text \<open>
  C32: \<open>hky_log_insert\<close> puts the contents of the new log behind the logs of its level and above and
  in front of the first log below it. The head of the chain keeps its address, the chain has the
  new address besides the old ones, no other log changes, and a chain that was sorted by falling
  level stays sorted, as the delivery of lines needs it.
\<close>

theorem log_insert_correct:
  assumes "log_chain m log ps" "log \<noteq> 0" "new \<notin> set ps" "new \<noteq> 0" "log_next (m new) = 0"
  shows "\<exists>m' ps'. hky_log_insert log new m = Some m' \<and> log_chain m' log ps' \<and>
    log_list m' ps' = insert_by_level ((m new)\<lparr>log_next := 0\<rparr>) (log_list m ps) \<and>
    set ps' = insert new (set ps) \<and> (\<forall>q. q \<notin> set ps' \<longrightarrow> m' q = m q) \<and>
    (sorted_wrt (\<lambda>k l. log_level l \<le> log_level k) (log_list m ps) \<longrightarrow>
      sorted_wrt (\<lambda>k l. log_level l \<le> log_level k) (log_list m' ps'))"
  using log_insert_ok [OF assms] .

lemma log_insert_correct_witness:
  "\<exists>m' ps'. hky_log_insert 1 3 ((lg_mem sample_logs)(3 := (lg_mem sample_logs 2)\<lparr>log_level := 6\<rparr>)) = Some m' \<and>
     log_chain m' 1 ps' \<and> map log_level (log_list m' ps') = [7, 6, 4]"
proof -
  let ?m = "(lg_mem sample_logs)(3 := (lg_mem sample_logs 2)\<lparr>log_level := 6\<rparr>)"
  have c: "log_chain ?m 1 [1, 2]" by (simp add: sample_logs_def)
  have l: "map log_level (insert_by_level ((?m 3)\<lparr>log_next := 0\<rparr>) (log_list ?m [1, 2])) = [7, 6, 4]"
    by (simp add: sample_logs_def log_list_def insert_by_level_def)
  have "log_next (?m 3) = 0" by (simp add: sample_logs_def)
  from log_insert_correct [OF c _ _ _ this] l show ?thesis by (metis One_nat_def empty_iff empty_set insert_iff
    list.simps(15) numeral_3_eq_3 numeral_2_eq_2 nat.distinct(1) nat.inject)
qed

section \<open>Levels\<close>

datatype level_error = Duplicate_level "byte list" | Invalid_level "byte list"

definition cstr_eq :: "byte list \<Rightarrow> byte list \<Rightarrow> bool" where
  "cstr_eq s t \<longleftrightarrow> takeWhile (\<lambda>c. c \<noteq> 0) s = takeWhile (\<lambda>c. c \<noteq> 0) t"

text \<open>
  One argument of the directive: \<open>find\<close> is the loop up to the first name that matches. The loop over
  \<open>err_levels\<close> ends below \<open>HKY_LOG_DEBUG\<close>.
\<close>

definition set_err_level :: "byte list \<Rightarrow> u64 \<Rightarrow> level_error + (u64 \<times> bool)" where
  "set_err_level value level =
     (case find (\<lambda>n. cstr_eq value (err_levels ! n)) [1..<unat HKY_LOG_DEBUG] of
        Some n \<Rightarrow> if level \<noteq> 0 then Inl (Duplicate_level value) else Inr (word_of_nat n, True)
      | None \<Rightarrow> Inr (level, False))"

definition set_debug_level :: "byte list \<Rightarrow> u64 \<Rightarrow> bool \<Rightarrow> level_error + u64" where
  "set_debug_level value level found =
     (case find (\<lambda>n. cstr_eq value (debug_levels ! n)) [0..<7] of
        Some n \<Rightarrow>
          if level AND NOT HKY_LOG_DEBUG_ALL \<noteq> 0 then Inl (Invalid_level value)
          else Inr (level OR push_bit n HKY_LOG_DEBUG_FIRST)
      | None \<Rightarrow> if found then Inr level else Inl (Invalid_level value))"

fun set_levels_loop :: "byte list list \<Rightarrow> u64 \<Rightarrow> level_error + u64" where
  "set_levels_loop [] level = Inr level"
| "set_levels_loop (value # args) level =
     (case set_err_level value level of Inl e \<Rightarrow> Inl e
      | Inr (level, found) \<Rightarrow>
          (case set_debug_level value level found of Inl e \<Rightarrow> Inl e
           | Inr level \<Rightarrow> set_levels_loop args level))"

definition hky_log_set_levels :: "byte list list \<Rightarrow> u64 \<Rightarrow> level_error + u64" where
  "hky_log_set_levels args level =
     (if length args = 2 then Inr HKY_LOG_ERR_LEVEL
      else case set_levels_loop (drop 2 args) level of Inl e \<Rightarrow> Inl e
        | Inr level \<Rightarrow> Inr (if level = HKY_LOG_DEBUG then HKY_LOG_DEBUG_ALL else level))"


text \<open>The names of levels are different, and as C strings they are themselves.\<close>

definition level_name :: "byte list \<Rightarrow> nat \<Rightarrow> bool" where
  "level_name value n \<longleftrightarrow> n \<in> {1..7} \<and> cstr_eq value (err_levels ! n)"

definition debug_name :: "byte list \<Rightarrow> nat \<Rightarrow> bool" where
  "debug_name value d \<longleftrightarrow> d < 7 \<and> cstr_eq value (debug_levels ! d)"

lemma nat_range7: "n \<in> {1..7} \<longleftrightarrow> n \<in> set [1, 2, 3, 4, 5, 6, 7]" "d < 7 \<longleftrightarrow> d \<in> set [0, 1, 2, 3, 4, 5, 6]" for n d :: nat
  by (simp; presburger)+

lemma level_name_unique: "level_name v n \<Longrightarrow> level_name v k \<Longrightarrow> n = k"
  unfolding level_name_def nat_range7 by (auto simp: cstr_eq_def err_levels_def)

lemma debug_name_unique: "debug_name v n \<Longrightarrow> debug_name v k \<Longrightarrow> n = k"
  unfolding debug_name_def nat_range7 by (auto simp: cstr_eq_def debug_levels_def)

lemma level_debug_differ: "\<forall>n\<in>set [1, 2, 3, 4, 5, 6, 7]. \<forall>d\<in>set [0, 1, 2, 3, 4, 5, 6].
    takeWhile (\<lambda>c. c \<noteq> 0) (err_levels ! n) \<noteq> takeWhile (\<lambda>c. c \<noteq> 0) (debug_levels ! d)"
  by code_simp

lemma level_not_debug: "level_name v n \<Longrightarrow> \<not> debug_name v d"
  using level_debug_differ unfolding level_name_def debug_name_def cstr_eq_def nat_range7 by metis

lemma find_unique:
  assumes "\<And>x y. x \<in> set xs \<Longrightarrow> y \<in> set xs \<Longrightarrow> P x \<Longrightarrow> P y \<Longrightarrow> x = y"
  shows "find P xs = Some x \<longleftrightarrow> x \<in> set xs \<and> P x"
proof
  show "find P xs = Some x \<Longrightarrow> x \<in> set xs \<and> P x" by (auto simp: find_Some_iff)
  assume x: "x \<in> set xs \<and> P x"
  then obtain y where y: "find P xs = Some y" by (cases "find P xs") (auto simp: find_None_iff)
  then have "y \<in> set xs \<and> P y" by (auto simp: find_Some_iff)
  then show "find P xs = Some x" using assms x y by blast
qed

lemma find_level: "find (\<lambda>n. cstr_eq v (err_levels ! n)) [1..<unat HKY_LOG_DEBUG] = Some n \<longleftrightarrow> level_name v n"
proof -
  have "x \<in> set [1..<unat HKY_LOG_DEBUG] \<and> cstr_eq v (err_levels ! x) \<longleftrightarrow> level_name v x" for x
    by (auto simp: level_name_def HKY_LOG_DEBUG_def simp del: upt_rec_numeral)
  then show ?thesis using level_name_unique by (subst find_unique) blast+
qed

lemma find_debug: "find (\<lambda>n. cstr_eq v (debug_levels ! n)) [0..<7] = Some d \<longleftrightarrow> debug_name v d"
proof -
  have "x \<in> set [0..<7] \<and> cstr_eq v (debug_levels ! x) \<longleftrightarrow> debug_name v x" for x
    by (auto simp: debug_name_def simp del: upt_rec_numeral)
  then show ?thesis using debug_name_unique by (subst find_unique) blast+
qed

text \<open>The bits of some debug levels.\<close>

definition debug_bits :: "nat list \<Rightarrow> u64" where
  "debug_bits ds = foldl (\<lambda>level d. level OR push_bit d HKY_LOG_DEBUG_FIRST) 0 ds"


lemma set_err_level_simps:
  "level_name v n \<Longrightarrow> set_err_level v level = (if level \<noteq> 0 then Inl (Duplicate_level v) else Inr (word_of_nat n, True))"
  "(\<And>n. \<not> level_name v n) \<Longrightarrow> set_err_level v level = Inr (level, False)"
  using find_level [of v] by (auto simp: set_err_level_def split: option.split dest: level_name_unique)

lemma set_debug_level_simps:
  "debug_name v d \<Longrightarrow> set_debug_level v level found =
    (if level AND NOT HKY_LOG_DEBUG_ALL \<noteq> 0 then Inl (Invalid_level v) else Inr (level OR push_bit d HKY_LOG_DEBUG_FIRST))"
  "(\<And>d. \<not> debug_name v d) \<Longrightarrow> set_debug_level v level found = (if found then Inr level else Inl (Invalid_level v))"
  using find_debug [of v] by (auto simp: set_debug_level_def split: option.split dest: debug_name_unique)

lemma debug_bit: "d < 7 \<Longrightarrow> push_bit d HKY_LOG_DEBUG_FIRST AND NOT HKY_LOG_DEBUG_ALL = 0 \<and> push_bit d HKY_LOG_DEBUG_FIRST \<noteq> 0"
  unfolding nat_range7 by (auto simp: HKY_LOG_DEBUG_FIRST_def HKY_LOG_DEBUG_ALL_def)

lemma level_bit: "level_name v n \<Longrightarrow> (word_of_nat n :: u64) AND NOT HKY_LOG_DEBUG_ALL \<noteq> 0 \<and> (word_of_nat n :: u64) \<noteq> 0 \<and>
    (word_of_nat n :: u64) \<noteq> HKY_LOG_DEBUG"
  unfolding level_name_def nat_range7 by (auto simp: HKY_LOG_DEBUG_ALL_def HKY_LOG_DEBUG_def)

lemma or_ne_0: "a OR b = (0 :: u64) \<longleftrightarrow> a = 0 \<and> b = 0"
  by (fact or_eq_0_iff)

text \<open>After a level nothing more is accepted; after a debug level only debug levels.\<close>

lemma levels_after_level:
  assumes "level \<noteq> 0" "level AND NOT HKY_LOG_DEBUG_ALL \<noteq> 0"
  shows "set_levels_loop args level = Inr r \<longleftrightarrow> args = [] \<and> r = level"
proof (cases args)
  case (Cons v args')
  show ?thesis
  proof (cases "\<exists>n. level_name v n")
    case True
    then show ?thesis using assms Cons by (auto simp: set_err_level_simps)
  next
    case False
    then show ?thesis using assms Cons
      by (cases "\<exists>d. debug_name v d") (auto simp: set_err_level_simps set_debug_level_simps)
  qed
qed auto

lemma list_all2_debug:
  "debug_name v d \<Longrightarrow> list_all2 debug_name (v # args) ds \<longleftrightarrow> (\<exists>es. ds = d # es \<and> list_all2 debug_name args es)"
  by (cases ds) (auto dest: debug_name_unique)

lemma levels_after_debug:
  assumes "level \<noteq> 0" "level AND NOT HKY_LOG_DEBUG_ALL = 0"
  shows "set_levels_loop args level = Inr r \<longleftrightarrow>
    (\<exists>ds. list_all2 debug_name args ds \<and> r = foldl (\<lambda>level d. level OR push_bit d HKY_LOG_DEBUG_FIRST) level ds)"
  using assms
proof (induction args arbitrary: level)
  case (Cons v args)
  show ?case
  proof (cases "\<exists>d. debug_name v d")
    case True
    then obtain d where d: "debug_name v d" by blast
    then have bit: "push_bit d HKY_LOG_DEBUG_FIRST AND NOT HKY_LOG_DEBUG_ALL = 0" "push_bit d HKY_LOG_DEBUG_FIRST \<noteq> 0"
      using debug_bit by (auto simp: debug_name_def)
    have nl: "\<not> level_name v n" for n using level_not_debug d by blast
    let ?l = "level OR push_bit d HKY_LOG_DEBUG_FIRST"
    have "set_levels_loop (v # args) level = set_levels_loop args ?l"
      using d nl Cons.prems by (simp add: set_err_level_simps set_debug_level_simps)
    moreover have "?l \<noteq> 0" "?l AND NOT HKY_LOG_DEBUG_ALL = 0"
      using bit Cons.prems by (simp_all add: or_eq_0_iff bit.conj_disj_distrib2)
    ultimately show ?thesis using Cons.IH [of ?l] by (auto simp: list_all2_debug [OF d] simp del: set_levels_loop.simps)
  next
    case False
    then show ?thesis using Cons.prems
      by (cases "\<exists>n. level_name v n") (auto simp: set_err_level_simps set_debug_level_simps list_all2_Cons1)
  qed
qed auto

lemma debug_bits_not_debug:
  assumes "level AND NOT HKY_LOG_DEBUG_ALL = 0" "list_all2 debug_name args ds"
  shows "foldl (\<lambda>level d. level OR push_bit d HKY_LOG_DEBUG_FIRST) level ds \<noteq> HKY_LOG_DEBUG"
  using assms(2,1)
proof (induction arbitrary: level rule: list_all2_induct)
  case Nil
  have "HKY_LOG_DEBUG AND NOT HKY_LOG_DEBUG_ALL \<noteq> 0" by (simp add: HKY_LOG_DEBUG_def HKY_LOG_DEBUG_ALL_def)
  then show ?case using Nil by auto
next
  case (Cons v vs d ds)
  then show ?case using debug_bit [of d] by (auto simp: debug_name_def bit.conj_disj_distrib2)
qed

lemma set_levels_result:
  assumes "levels \<noteq> []" "\<And>r. set_levels_loop levels 0 = Inr r \<Longrightarrow> r \<noteq> HKY_LOG_DEBUG"
  shows "hky_log_set_levels (cmd # path # levels) 0 = Inr level \<longleftrightarrow> set_levels_loop levels 0 = Inr level"
  using assms by (cases "set_levels_loop levels 0") (simp_all add: hky_log_set_levels_def)

lemma levels_one:
  assumes "level_name v n"
  shows "set_levels_loop (v # args) 0 = Inr r \<longleftrightarrow> args = [] \<and> r = word_of_nat n"
proof -
  have "set_levels_loop (v # args) 0 = set_levels_loop args (word_of_nat n)"
    using assms level_not_debug [OF assms] by (simp add: set_err_level_simps set_debug_level_simps)
  then show ?thesis using levels_after_level [of "word_of_nat n" args] level_bit [OF assms] by simp
qed

lemma levels_debug:
  assumes "debug_name v d"
  shows "set_levels_loop (v # args) 0 = Inr r \<longleftrightarrow> (\<exists>ds. list_all2 debug_name args ds \<and> r = debug_bits (d # ds))"
proof -
  let ?b = "push_bit d HKY_LOG_DEBUG_FIRST"
  have b: "?b \<noteq> 0" "?b AND NOT HKY_LOG_DEBUG_ALL = 0" using debug_bit assms by (auto simp: debug_name_def)
  have nl: "\<not> level_name v n" for n using level_not_debug assms by blast
  have "set_levels_loop (v # args) 0 = set_levels_loop args ?b"
    using assms nl by (simp add: set_err_level_simps set_debug_level_simps)
  then show ?thesis using levels_after_debug [OF b, of args r] by (simp add: debug_bits_def)
qed

text \<open>
  C33: The levels of a log directive: without a level a log takes errors; otherwise it is accepted
  exactly when it names one level from emerg to info, or one or more debug levels, which are
  joined. So the level debug, though it has a name, is refused, and the code that turns it into
  all debug levels is never reached.
\<close>
theorem log_levels_correct:
  "(hky_log_set_levels (cmd # path # levels) 0 = Inr level \<longleftrightarrow>
     (levels = [] \<and> level = HKY_LOG_ERR_LEVEL) \<or>
     (\<exists>v n. levels = [v] \<and> level_name v n \<and> level = word_of_nat n) \<or>
     (\<exists>d ds. list_all2 debug_name levels (d # ds) \<and> level = debug_bits (d # ds))) \<and>
   hky_log_set_levels [cmd, path, err_levels ! unat HKY_LOG_DEBUG] 0 = Inl (Invalid_level (bytes_of ''debug''))"
  (is "(_ \<longleftrightarrow> ?spec) \<and> _")
proof (rule conjI)
  show "hky_log_set_levels (cmd # path # levels) 0 = Inr level \<longleftrightarrow> ?spec"
  proof (cases levels)
    case Nil
    then show ?thesis by (auto simp: hky_log_set_levels_def)
  next
    case (Cons v args)
    consider (level) n where "level_name v n" | (debug) d where "debug_name v d" | (none) "\<And>n. \<not> level_name v n" "\<And>d. \<not> debug_name v d"
      by blast
    then show ?thesis
    proof cases
      case level
      have "level_name v k \<longleftrightarrow> k = n" "\<not> debug_name v d" for k d
        using level_name_unique [OF level] level_not_debug [OF level] level by blast+
      then have "?spec \<longleftrightarrow> args = [] \<and> level = word_of_nat n"
        using Cons by (auto simp: list_all2_Cons1)
      then show ?thesis
        using set_levels_result [of levels] level_bit [OF level] levels_one [OF level] Cons by simp
    next
      case debug
      have "?spec \<longleftrightarrow> (\<exists>ds. list_all2 debug_name args ds \<and> level = debug_bits (d # ds))"
        using Cons level_not_debug [of v _ d] debug by (auto simp: list_all2_debug [OF debug] dest: debug_name_unique [OF debug])
      moreover have "r \<noteq> HKY_LOG_DEBUG" if "set_levels_loop levels 0 = Inr r" for r
        using that Cons levels_debug [OF debug] debug_bits_not_debug [of 0 "v # args"] debug
        by (auto simp: debug_bits_def list_all2_Cons1 simp del: foldl_Cons set_levels_loop.simps)
      ultimately show ?thesis using set_levels_result [of levels] levels_debug [OF debug] Cons by simp
    next
      case none
      then show ?thesis using Cons by (auto simp: hky_log_set_levels_def set_err_level_simps set_debug_level_simps list_all2_Cons1)
    qed
  qed
  have "set_levels_loop [bytes_of ''debug''] 0 = Inl (Invalid_level (bytes_of ''debug''))" by code_simp
  then show "hky_log_set_levels [cmd, path, err_levels ! unat HKY_LOG_DEBUG] 0 = Inl (Invalid_level (bytes_of ''debug''))"
    by (simp add: hky_log_set_levels_def err_levels_def HKY_LOG_DEBUG_def del: set_levels_loop.simps)
qed

end
