(* ===== verification/Hky_Syslog.thy ===== *)
theory Hky_Syslog
  imports Hky_Log Hky_Url
begin

text \<open>
  Logging to a syslog server, src/core/hky_syslog.c: the parameters of the directive, the header
  and the size of a datagram, the socket of a peer. \<open>hky_parse_url\<close> is that of \<open>Hky_Url\<close> with its
  allocator and resolver; the results of the system calls, of the registration of the cleanup and
  of \<open>hky_send\<close> are a function of the calls made so far. \<open>maxhost\<close> is \<open>HKY_MAXHOSTNAMELEN\<close>.
\<close>

section \<open>State\<close>

definition HKY_SYSLOG_MAX_STR :: "nat \<Rightarrow> nat" where
  "HKY_SYSLOG_MAX_STR maxhost = HKY_MAX_ERROR_STR + (22 - 1) + (maxhost - 1) + 1 + 32 + 2"

definition HKY_CONF_UNSET_UINT :: u64 where "HKY_CONF_UNSET_UINT = -1"

definition facilities :: "byte list list" where
  "facilities = [bytes_of ''kern'', bytes_of ''user'', bytes_of ''mail'', bytes_of ''daemon'', bytes_of ''auth'',
     bytes_of ''intern'', bytes_of ''lpr'', bytes_of ''news'', bytes_of ''uucp'', bytes_of ''clock'',
     bytes_of ''authpriv'', bytes_of ''ftp'', bytes_of ''ntp'', bytes_of ''audit'', bytes_of ''alert'',
     bytes_of ''cron'', bytes_of ''local0'', bytes_of ''local1'', bytes_of ''local2'', bytes_of ''local3'',
     bytes_of ''local4'', bytes_of ''local5'', bytes_of ''local6'', bytes_of ''local7'']"

definition severities :: "byte list list" where
  "severities = [bytes_of ''emerg'', bytes_of ''alert'', bytes_of ''crit'', bytes_of ''error'', bytes_of ''warn'',
     bytes_of ''notice'', bytes_of ''info'', bytes_of ''debug'']"

text \<open>\<open>None\<close> for a tag or a server is a \<open>NULL\<close> in \<open>tag.data\<close> or \<open>server.sockaddr\<close>.\<close>

record syslog_peer =
  facility :: u64
  severity :: u64
  peer_tag :: "byte list option"
  peer_server :: "hky_addr option"
  peer_fd :: int
  busy :: bool
  nohostname :: bool
  write_ready :: bool

datatype syslog_error =
    Duplicate_server | Url_error string "byte list" | Duplicate_facility | Unknown_facility "byte list"
  | Duplicate_severity | Unknown_severity "byte list" | Duplicate_tag | Long_tag | Bad_tag
  | Unknown_parameter "byte list" | No_server

section \<open>The parameters\<close>

text \<open>The C string at the start of some bytes, and \<open>strncmp\<close> with a literal.\<close>

definition cstr :: "byte list \<Rightarrow> byte list" where
  "cstr p = takeWhile (\<lambda>c. c \<noteq> 0) p"

definition starts :: "string \<Rightarrow> byte list \<Rightarrow> bool" where
  "starts t p \<longleftrightarrow> take (length t) (cstr p) = bytes_of t"

text \<open>
  The parameter at \<open>p\<close>, whose length is \<open>len\<close> and which ends at a comma (made a NUL) or at the end of
  the argument, and what follows the comma.
\<close>

definition syslog_split :: "byte list \<Rightarrow> byte list \<times> byte list option" where
  "syslog_split p =
     (let k = length (takeWhile (\<lambda>c. c \<noteq> 44 \<and> c \<noteq> 0) p) in
      if k < length p \<and> p ! k = 44 then (take k p, Some (drop (k + 1) p)) else (p, None))"

definition find_name :: "byte list list \<Rightarrow> byte list \<Rightarrow> nat option" where
  "find_name names p = find (\<lambda>i. cstr p = names ! i) [0..<length names]"

definition tag_char_bad :: "byte \<Rightarrow> bool" where
  "tag_char_bad c \<longleftrightarrow> (let c = hky_tolower c in c < 48 \<or> (c > 57 \<and> c < 97 \<and> c \<noteq> 95) \<or> c > 122)"

definition empty_url :: "byte list \<Rightarrow> hky_url" where
  "empty_url url = (url_of url)\<lparr>u_default_port := 514\<rparr>"

type_synonym url_parser = "hky_url \<Rightarrow> hky_pool \<Rightarrow> int \<times> hky_url \<times> hky_pool"

text \<open>One parameter; \<open>Inl None\<close> is an error without a message.\<close>

definition syslog_parameter ::
  "url_parser \<Rightarrow> byte list \<Rightarrow> syslog_peer \<Rightarrow> hky_pool \<Rightarrow> (syslog_error option + syslog_peer) \<times> hky_pool" where
  "syslog_parameter parse_url p peer pool =
     (if starts ''server='' p then
        if peer_server peer \<noteq> None then (Inl (Some Duplicate_server), pool)
        else let (rc, u, pool) = parse_url (empty_url (drop 7 p)) pool in
          if rc \<noteq> HKY_OK then (Inl (if u_err u = '''' then None else Some (Url_error (u_err u) (u_url u))), pool)
          else (Inr (peer\<lparr>peer_server := Some (hd (u_addrs u))\<rparr>), pool)
      else if starts ''facility='' p then
        if facility peer \<noteq> HKY_CONF_UNSET_UINT then (Inl (Some Duplicate_facility), pool)
        else (case find_name facilities (drop 9 p) of
            Some i \<Rightarrow> (Inr (peer\<lparr>facility := word_of_nat i\<rparr>), pool)
          | None \<Rightarrow> (Inl (Some (Unknown_facility (cstr (drop 9 p)))), pool))
      else if starts ''severity='' p then
        if severity peer \<noteq> HKY_CONF_UNSET_UINT then (Inl (Some Duplicate_severity), pool)
        else (case find_name severities (drop 9 p) of
            Some i \<Rightarrow> (Inr (peer\<lparr>severity := word_of_nat i\<rparr>), pool)
          | None \<Rightarrow> (Inl (Some (Unknown_severity (cstr (drop 9 p)))), pool))
      else if starts ''tag='' p then
        if peer_tag peer \<noteq> None then (Inl (Some Duplicate_tag), pool)
        else if length p - 4 > 32 then (Inl (Some Long_tag), pool)
        else if list_ex tag_char_bad (drop 4 p) then (Inl (Some Bad_tag), pool)
        else (Inr (peer\<lparr>peer_tag := Some (drop 4 p)\<rparr>), pool)
      else if length p = 10 \<and> starts ''nohostname'' p then (Inr (peer\<lparr>nohostname := True\<rparr>), pool)
      else (Inl (Some (Unknown_parameter (cstr p))), pool))"

function syslog_parse_loop ::
  "url_parser \<Rightarrow> byte list \<Rightarrow> syslog_peer \<Rightarrow> hky_pool \<Rightarrow> (syslog_error option + syslog_peer) \<times> hky_pool" where
  "syslog_parse_loop parse_url p peer pool =
     (let (s, rest) = syslog_split p in
      case syslog_parameter parse_url s peer pool of
        (Inl e, pool) \<Rightarrow> (Inl e, pool)
      | (Inr peer, pool) \<Rightarrow>
          (case rest of None \<Rightarrow> (Inr peer, pool) | Some p \<Rightarrow> syslog_parse_loop parse_url p peer pool))"
  by pat_completeness auto
termination
  by (relation "measure (\<lambda>(f, p, peer, pool). length p)") (auto simp: syslog_split_def Let_def split: if_splits)

declare syslog_parse_loop.simps [simp del]

text \<open>The value of the directive starts with \<open>syslog:\<close>.\<close>

definition hky_syslog_parse_args ::
  "url_parser \<Rightarrow> byte list \<Rightarrow> syslog_peer \<Rightarrow> hky_pool \<Rightarrow> (syslog_error option + syslog_peer) \<times> hky_pool" where
  "hky_syslog_parse_args parse_url value = syslog_parse_loop parse_url (drop 7 value)"

definition syslog_defaults :: "syslog_peer \<Rightarrow> syslog_error option + syslog_peer" where
  "syslog_defaults peer =
     (if peer_server peer = None then Inl (Some No_server) else
      let peer = (if facility peer = HKY_CONF_UNSET_UINT then peer\<lparr>facility := 23\<rparr> else peer);
          peer = (if severity peer = HKY_CONF_UNSET_UINT then peer\<lparr>severity := 6\<rparr> else peer);
          peer = (if peer_tag peer = None then peer\<lparr>peer_tag := Some (bytes_of ''husky'')\<rparr> else peer)
      in Inr (peer\<lparr>peer_fd := -1\<rparr>))"

definition hky_syslog_process_conf ::
  "url_parser \<Rightarrow> byte list \<Rightarrow> syslog_peer \<Rightarrow> hky_pool \<Rightarrow> (syslog_error option + syslog_peer) \<times> hky_pool" where
  "hky_syslog_process_conf parse_url value peer pool =
     (let peer = peer\<lparr>facility := HKY_CONF_UNSET_UINT, severity := HKY_CONF_UNSET_UINT\<rparr> in
      case hky_syslog_parse_args parse_url value peer pool of
        (Inl e, pool) \<Rightarrow> (Inl e, pool)
      | (Inr peer, pool) \<Rightarrow> (syslog_defaults peer, pool))"

section \<open>The socket\<close>

text \<open>The calls of the kernel and of others, and what they answered.\<close>

datatype peer_call =
    P_socket nat | P_nonblocking int | P_connect int sockaddr nat | P_cleanup_add | P_close int
  | P_send int "byte list"

type_synonym peer_os = "(peer_call \<times> int) list \<Rightarrow> peer_call \<Rightarrow> int"

definition peer_sys :: "peer_os \<Rightarrow> peer_call \<Rightarrow> (peer_call \<times> int) list \<Rightarrow> int \<times> (peer_call \<times> int) list" where
  "peer_sys os call tr = (let r = os tr call in (r, tr @ [(call, r)]))"

text \<open>The label \<open>failed\<close>, then the function: \<open>cleanup_add\<close> answers 0 for \<open>NULL\<close>.\<close>

definition init_peer_failed :: "peer_os \<Rightarrow> int \<Rightarrow> syslog_peer \<Rightarrow> (peer_call \<times> int) list \<Rightarrow> int \<times> syslog_peer \<times> (peer_call \<times> int) list" where
  "init_peer_failed os fd peer tr = (let (_, tr) = peer_sys os (P_close fd) tr in (HKY_ERROR, peer, tr))"

definition hky_syslog_init_peer :: "peer_os \<Rightarrow> hky_addr \<Rightarrow> syslog_peer \<Rightarrow> (peer_call \<times> int) list \<Rightarrow> int \<times> syslog_peer \<times> (peer_call \<times> int) list" where
  "hky_syslog_init_peer os server peer tr =
     (let (fd, tr) = peer_sys os (P_socket (sa_family_of (ha_sockaddr server))) tr in
      if fd = -1 then (HKY_ERROR, peer, tr)
      else let (r, tr) = peer_sys os (P_nonblocking fd) tr in
        if r = -1 then init_peer_failed os fd peer tr
        else let (r, tr) = peer_sys os (P_connect fd (ha_sockaddr server) (ha_socklen server)) tr in
          if r = -1 then init_peer_failed os fd peer tr
          else let (r, tr) = peer_sys os P_cleanup_add tr in
            if r = 0 then init_peer_failed os fd peer tr
            else (HKY_OK, peer\<lparr>peer_fd := fd, write_ready := True\<rparr>, tr))"

text \<open>\<open>None\<close>: a peer without a server.\<close>

definition hky_syslog_send ::
  "peer_os \<Rightarrow> byte list \<Rightarrow> syslog_peer \<Rightarrow> (peer_call \<times> int) list \<Rightarrow> (int \<times> syslog_peer \<times> (peer_call \<times> int) list) option" where
  "hky_syslog_send os buf peer tr =
     (case peer_server peer of None \<Rightarrow> None
      | Some server \<Rightarrow>
          let (rc, peer, tr) = (if peer_fd peer = -1 then hky_syslog_init_peer os server peer tr else (HKY_OK, peer, tr)) in
          if rc \<noteq> HKY_OK then Some (HKY_ERROR, peer, tr)
          else let (n, tr) = peer_sys os (P_send (peer_fd peer) buf) tr in
            if n = HKY_ERROR \<and> sa_family_of (ha_sockaddr server) = AF_UNIX
            then let (_, tr) = peer_sys os (P_close (peer_fd peer)) tr in Some (n, peer\<lparr>peer_fd := -1\<rparr>, tr)
            else Some (n, peer, tr))"

definition hky_syslog_cleanup :: "peer_os \<Rightarrow> syslog_peer \<Rightarrow> (peer_call \<times> int) list \<Rightarrow> syslog_peer \<times> (peer_call \<times> int) list" where
  "hky_syslog_cleanup os peer tr =
     (let peer = peer\<lparr>busy := True\<rparr> in
      if peer_fd peer = -1 then (peer, tr) else (peer, snd (peer_sys os (P_close (peer_fd peer)) tr)))"

section \<open>The datagram\<close>

definition hky_syslog_add_header :: "byte list \<Rightarrow> byte list \<Rightarrow> syslog_peer \<Rightarrow> byte list option" where
  "hky_syslog_add_header time hostname peer =
     (let pri = facility peer * 8 + severity peer; tag = (case peer_tag peer of None \<Rightarrow> [] | Some t \<Rightarrow> t) in
      if nohostname peer
      then hky_sprintf 0 (bytes_of ''<%ui>%V %V: '' @ [0]) [VInt pri, VStr time, VStr tag]
      else hky_sprintf 0 (bytes_of ''<%ui>%V %V %V: '' @ [0]) [VInt pri, VStr time, VStr hostname, VStr tag])"

text \<open>The message is the line of the log without its line feed. A header beyond \<open>msg\<close> is \<open>None\<close>.\<close>

definition hky_syslog_writer ::
  "nat \<Rightarrow> peer_os \<Rightarrow> byte list \<Rightarrow> byte list \<Rightarrow> u64 \<Rightarrow> byte list \<Rightarrow> syslog_peer \<Rightarrow> (peer_call \<times> int) list \<Rightarrow>
     (syslog_peer \<times> (peer_call \<times> int) list) option" where
  "hky_syslog_writer maxhost os time hostname level line peer tr =
     (if busy peer then Some (peer, tr)
      else let peer = peer\<lparr>busy := True, severity := level - 1\<rparr> in
        Option.bind (hky_syslog_add_header time hostname peer) (\<lambda>head.
        if length head > HKY_SYSLOG_MAX_STR maxhost then None else
        let len = (if line = [] then 2 ^ 64 - 1 else length line - HKY_LINEFEED_SIZE);
            len = (if len > HKY_SYSLOG_MAX_STR maxhost - length head then HKY_SYSLOG_MAX_STR maxhost - length head else len) in
        Option.bind (hky_snprintf (length head) len (bytes_of ''%s'' @ [0]) [VMem line]) (\<lambda>t.
        map_option (\<lambda>(_, peer, tr). (peer\<lparr>busy := False\<rparr>, tr)) (hky_syslog_send os (head @ t) peer tr))))"

section \<open>Peers from the configuration\<close>

definition peer_ok :: "syslog_peer \<Rightarrow> bool" where
  "peer_ok peer \<longleftrightarrow> facility peer \<le> 23 \<and> peer_server peer \<noteq> None \<and> (\<exists>t. peer_tag peer = Some t \<and> length t \<le> 32)"

text \<open>While the parameters are read: what is set is in range.\<close>

definition peer_partial :: "syslog_peer \<Rightarrow> bool" where
  "peer_partial peer \<longleftrightarrow> (facility peer = HKY_CONF_UNSET_UINT \<or> facility peer \<le> 23) \<and>
     (severity peer = HKY_CONF_UNSET_UINT \<or> severity peer \<le> 7) \<and>
     (\<forall>t. peer_tag peer = Some t \<longrightarrow> length t \<le> 32) \<and> \<not> busy peer"

lemma find_name_less: "find_name names p = Some i \<Longrightarrow> i < length names"
  by (auto simp: find_name_def find_Some_iff)

lemma word_of_nat_le_numeral: "n \<le> 191 \<Longrightarrow> n \<le> m \<Longrightarrow> m \<le> 191 \<Longrightarrow> (word_of_nat n :: u64) \<le> word_of_nat m"
  by (simp add: word_le_nat_alt unat_of_nat)

lemma syslog_parameter_ok:
  assumes "syslog_parameter parse_url p peer pool = (Inr peer', pool')" "peer_partial peer"
  shows "peer_partial peer'"
proof -
  have f: "(word_of_nat i :: u64) \<le> 23" if "find_name facilities q = Some i" for q i
    using find_name_less [OF that] word_of_nat_le_numeral [of i 23] by (simp add: facilities_def)
  have s: "(word_of_nat i :: u64) \<le> 7" if "find_name severities q = Some i" for q i
    using find_name_less [OF that] word_of_nat_le_numeral [of i 7] by (simp add: severities_def)
  show ?thesis using assms f s
    by (auto simp: syslog_parameter_def peer_partial_def split: if_splits option.splits prod.splits)
qed

lemma syslog_parse_ok:
  "syslog_parse_loop parse_url p peer pool = (Inr peer', pool') \<Longrightarrow> peer_partial peer \<Longrightarrow> peer_partial peer'"
proof (induction parse_url p peer pool rule: syslog_parse_loop.induct)
  case (1 parse_url p peer pool)
  obtain s rest where sp: "syslog_split p = (s, rest)" by fastforce
  obtain r pool1 where r: "syslog_parameter parse_url s peer pool = (r, pool1)" by fastforce
  show ?case
  proof (cases r)
    case (Inl e)
    then show ?thesis using 1(2) sp r by (subst (asm) syslog_parse_loop.simps) simp
  next
    case (Inr peer1)
    then have ok: "peer_partial peer1" using syslog_parameter_ok r 1(3) by blast
    show ?thesis
    proof (cases rest)
      case None
      then show ?thesis using 1(2) sp r Inr ok by (subst (asm) syslog_parse_loop.simps) simp
    next
      case (Some q)
      then have "syslog_parse_loop parse_url q peer1 pool1 = (Inr peer', pool')"
        using 1(2) sp r Inr by (subst (asm) syslog_parse_loop.simps) simp
      then show ?thesis using 1(1) [OF sp [symmetric] refl r [symmetric, unfolded Inr] _ Some] ok by simp
    qed
  qed
qed

lemma syslog_process_conf_ok:
  assumes "hky_syslog_process_conf parse_url value peer pool = (Inr peer', pool')" "peer_tag peer = None" "\<not> busy peer"
  shows "peer_ok peer' \<and> severity peer' \<le> 7 \<and> peer_fd peer' = -1 \<and> \<not> busy peer'"
proof -
  let ?p = "peer\<lparr>facility := HKY_CONF_UNSET_UINT, severity := HKY_CONF_UNSET_UINT\<rparr>"
  have "peer_partial ?p" using assms(2,3) by (simp add: peer_partial_def)
  moreover obtain peer1 where p1: "hky_syslog_parse_args parse_url value ?p pool = (Inr peer1, pool')" "syslog_defaults peer1 = Inr peer'"
    using assms(1) by (auto simp: hky_syslog_process_conf_def split: prod.splits sum.splits)
  ultimately have "peer_partial peer1"
    unfolding hky_syslog_parse_args_def using syslog_parse_ok by blast
  then show ?thesis using p1(2)
    by (auto simp: syslog_defaults_def peer_partial_def peer_ok_def Let_def split: if_splits)
qed

section \<open>Datagrams\<close>

definition syslog_datagram :: "byte list \<Rightarrow> byte list \<Rightarrow> syslog_peer \<Rightarrow> byte list \<Rightarrow> byte list" where
  "syslog_datagram time hostname peer message =
     [60] @ dec_text (unat (facility peer * 8 + severity peer)) @ [62] @ time @ [32] @
     (if nohostname peer then [] else hostname @ [32]) @ the (peer_tag peer) @ bytes_of '': '' @ message"

lemma format_ui:
  "0 < room \<Longrightarrow> vslprintf_loop room (37 # 117 # 105 # fmt) (VInt v # args) =
   (let t = take room (num_digits v 0) in map_option ((@) t) (vslprintf_loop (room - length t) fmt args))"
  by (simp add: fmt_start_def fmt_conv_def fmt_int_def fmt_signed_def Let_def)

lemma priority_length:
  assumes "facility peer \<le> 23" "severity peer \<le> 7"
  shows "length (dec_text (unat (facility peer * 8 + severity peer))) \<le> 3"
proof -
  have b: "unat (facility peer) \<le> 23" "unat (severity peer) \<le> 7"
    using assms by (simp_all add: word_le_nat_alt)
  then have "unat (facility peer * 8 + severity peer) = unat (facility peer) * 8 + unat (severity peer)"
    by (simp add: unat_word_ariths)
  then have "unat (facility peer * 8 + severity peer) < 10 ^ Suc 2" using b by simp
  from dec_text_length [OF this] show ?thesis by simp
qed

lemma syslog_header:
  assumes "facility peer \<le> 23" "severity peer \<le> 7" "length time = 15" "length hostname \<le> 255"
    "peer_tag peer = Some t" "length t \<le> 32"
  shows "hky_syslog_add_header time hostname peer = Some (syslog_datagram time hostname peer [])"
proof -
  let ?d = "dec_text (unat (facility peer * 8 + severity peer))"
  have d: "length ?d \<le> 3" by (rule priority_length [OF assms(1,2)])
  have l: "length time < 2 ^ 10" "length hostname < 2 ^ 10" "length t < 2 ^ 10" "length ?d < 2 ^ 10"
    using assms d by simp_all
  show ?thesis
    using l assms(5)
    by (simp add: hky_syslog_add_header_def hky_sprintf_def hky_vslprintf_def syslog_datagram_def Let_def
        format_ui format_V format_text num_digits_text del: vslprintf_loop.simps)
qed

lemma syslog_datagram_append: "syslog_datagram time hostname peer m = syslog_datagram time hostname peer [] @ m"
  by (simp add: syslog_datagram_def)

lemma syslog_header_length:
  assumes "facility peer \<le> 23" "severity peer \<le> 7" "length time = 15" "length hostname \<le> maxhost - 1"
    "peer_tag peer = Some t" "length t \<le> 32"
  shows "length (syslog_datagram time hostname peer []) + HKY_MAX_ERROR_STR \<le> HKY_SYSLOG_MAX_STR maxhost"
  using priority_length [OF assms(1,2)] assms by (simp add: syslog_datagram_def HKY_SYSLOG_MAX_STR_def)

lemma copy_cstr_room: "0 \<notin> set s \<Longrightarrow> k \<le> length s \<Longrightarrow> copy_cstr k (s @ [b]) = Some (take k s)"
proof (induction s arbitrary: k)
  case (Cons a s)
  then show ?case by (cases k) simp_all
qed simp

text \<open>
  C34: From a syslog directive to the datagrams. A peer that the directive accepts has a facility of
  at most 23, a severity of at most 7, a server and a tag of at most 32 bytes. For such a peer the
  line of a log goes to the server, complete but for its line feed, behind
  \<open><facility*8+level-1>time host tag:\<close>; the datagram fits in the buffer of
  \<open>HKY_SYSLOG_MAX_STR\<close> bytes, though the header is printed without a limit. A message that arises
  while a peer is busy is dropped.
\<close>

theorem syslog_writer_correct:
  assumes "peer_ok peer" "1 \<le> level" "level \<le> 8" "length time = 15" "length hostname < maxhost" "maxhost \<le> 256"
    and "0 \<notin> set message" "length message < HKY_MAX_ERROR_STR"
  shows "let peer' = peer\<lparr>busy := True, severity := level - 1\<rparr>; datagram = syslog_datagram time hostname peer' message
    in hky_syslog_writer maxhost os time hostname level (message @ [LF]) peer tr =
        (if busy peer then Some (peer, tr)
         else map_option (\<lambda>(_, peer, tr). (peer\<lparr>busy := False\<rparr>, tr)) (hky_syslog_send os datagram peer' tr)) \<and>
      length datagram \<le> HKY_SYSLOG_MAX_STR maxhost \<and>
      (\<forall>value new. peer_tag new = None \<and> \<not> busy new \<and> fst (hky_syslog_process_conf parse_url value new pool) = Inr peer1 \<longrightarrow>
        peer_ok peer1 \<and> severity peer1 \<le> 7 \<and> \<not> busy peer1)"
proof -
  let ?p = "peer\<lparr>busy := True, severity := level - 1\<rparr>"
  obtain t where t: "peer_tag peer = Some t" "length t \<le> 32" "facility peer \<le> 23" using assms(1) by (auto simp: peer_ok_def)
  have sev: "level - 1 \<le> 7"
    using assms(2,3) by (simp add: word_le_nat_alt unat_sub)
  let ?h = "syslog_datagram time hostname ?p []"
  have head: "hky_syslog_add_header time hostname ?p = Some ?h"
    using syslog_header [of ?p time hostname t] t sev assms(4-6) by simp
  have room: "length ?h + HKY_MAX_ERROR_STR \<le> HKY_SYSLOG_MAX_STR maxhost"
    using syslog_header_length [of ?p time hostname maxhost t] t sev assms(4-6) by simp
  have copy: "hky_snprintf (length ?h) (length message) (bytes_of ''%s'' @ [0]) [VMem (message @ [LF])] = Some message"
    using copy_cstr_room [OF assms(7) order.refl, of LF]
    by (cases "message = []") (simp add: hky_snprintf_def hky_vslprintf_def,
      simp add: hky_snprintf_def hky_vslprintf_def format_s del: vslprintf_loop.simps(2))
  have fits: "\<not> HKY_SYSLOG_MAX_STR maxhost - length ?h < length message" "length ?h \<le> HKY_SYSLOG_MAX_STR maxhost"
    using room assms(8) by simp_all
  have "hky_syslog_writer maxhost os time hostname level (message @ [LF]) peer tr =
        (if busy peer then Some (peer, tr)
         else map_option (\<lambda>(_, peer, tr). (peer\<lparr>busy := False\<rparr>, tr)) (hky_syslog_send os (?h @ message) ?p tr))"
    using fits by (simp add: hky_syslog_writer_def Let_def head HKY_LINEFEED_SIZE_def copy [simplified])
  moreover have "length (?h @ message) \<le> HKY_SYSLOG_MAX_STR maxhost" using room assms(8) by simp
  moreover have "peer_ok peer1 \<and> severity peer1 \<le> 7 \<and> \<not> busy peer1"
    if "peer_tag new = None \<and> \<not> busy new \<and> fst (hky_syslog_process_conf parse_url v new pool) = Inr peer1" for v new
    using syslog_process_conf_ok [of parse_url v new pool peer1] that by (metis prod.collapse)
  ultimately show ?thesis unfolding Let_def syslog_datagram_append [of _ _ _ message] by blast
qed

definition sample_peer :: syslog_peer where
  "sample_peer = \<lparr>facility = 23, severity = 6, peer_tag = Some (bytes_of ''husky''), peer_server =
     Some \<lparr>ha_sockaddr = Sin 514 0x7f000001, ha_socklen = 16, ha_name = []\<rparr>, peer_fd = 5, busy = False,
     nohostname = False, write_ready = True\<rparr>"

lemma syslog_writer_correct_witness:
  "\<exists>peer. hky_syslog_writer 256 (\<lambda>_ _. 46) (bytes_of ''Jan 02 03:04:05'') (bytes_of ''web'') 4 (bytes_of ''disk'' @ [LF]) sample_peer [] =
     Some (peer, [(P_send 5 (bytes_of ''<187>Jan 02 03:04:05 web husky: disk''), 46)])"
proof -
  have "peer_ok sample_peer" by (simp add: peer_ok_def sample_peer_def)
  from syslog_writer_correct [OF this, of 4 "bytes_of ''Jan 02 03:04:05''" "bytes_of ''web''" 256 "bytes_of ''disk''"]
  show ?thesis
    by (auto simp: Let_def sample_peer_def syslog_datagram_def dec_text.simps hky_syslog_send_def peer_sys_def
        HKY_ERROR_def HKY_OK_def HKY_MAX_ERROR_STR_def)
qed

section \<open>The descriptor of a peer\<close>

text \<open>The sockets that are open after some calls, as a list.\<close>

fun peer_open :: "(peer_call \<times> int) list \<Rightarrow> int list \<Rightarrow> int list" where
  "peer_open [] fds = fds"
| "peer_open ((P_socket _, fd) # tr) fds = peer_open tr (if fd = -1 then fds else fd # fds)"
| "peer_open ((P_close fd, _) # tr) fds = peer_open tr (remove1 fd fds)"
| "peer_open (_ # tr) fds = peer_open tr fds"

definition peer_owns :: "syslog_peer \<Rightarrow> int list" where
  "peer_owns peer = (if peer_fd peer = -1 then [] else [peer_fd peer])"

text \<open>
  The socket of a peer. Whatever the system calls answer, \<open>hky_syslog_send\<close> neither leaks nor
  loses a socket: the calls it adds leave open exactly the socket of the peer, if it had the one
  that was open before, every failure on the way to a connected socket closes it, and a failed
  send to a local socket closes it for a new connection next time. The cleanup closes the socket,
  but the peer keeps its number, so that a second cleanup, which every new connection registers,
  closes that number again.
\<close>

theorem syslog_socket_owned:
  "(case hky_syslog_send os buf peer tr of
      Some (n, peer', tr') \<Rightarrow> (\<exists>new. tr' = tr @ new \<and> peer_open new (peer_owns peer) = peer_owns peer')
    | None \<Rightarrow> peer_server peer = None) \<and>
   (let (peer', tr') = hky_syslog_cleanup os peer tr; (peer'', tr'') = hky_syslog_cleanup os peer' tr'
    in busy peer' \<and> (if peer_fd peer = -1 then tr'' = tr
        else map fst tr'' = map fst tr @ [P_close (peer_fd peer), P_close (peer_fd peer)]))"
proof
  show "case hky_syslog_send os buf peer tr of
      Some (n, peer', tr') \<Rightarrow> (\<exists>new. tr' = tr @ new \<and> peer_open new (peer_owns peer) = peer_owns peer')
    | None \<Rightarrow> peer_server peer = None"
    by (auto simp: hky_syslog_send_def hky_syslog_init_peer_def init_peer_failed_def peer_sys_def peer_owns_def Let_def
        HKY_OK_def HKY_ERROR_def split: option.split)
  show "let (peer', tr') = hky_syslog_cleanup os peer tr; (peer'', tr'') = hky_syslog_cleanup os peer' tr'
    in busy peer' \<and> (if peer_fd peer = -1 then tr'' = tr
        else map fst tr'' = map fst tr @ [P_close (peer_fd peer), P_close (peer_fd peer)])"
    by (auto simp: hky_syslog_cleanup_def peer_sys_def Let_def)
qed

end
