(* ===== verification/Hky_Listen.thy ===== *)
theory Hky_Listen
  imports Hky_Inet Hky_Palloc "HOL-Library.Multiset"
begin

text \<open>
  Listening sockets: src/core/hky_connection.c, and the parts of \<open>hky_init_cycle\<close> in
  src/core/hky_cycle.c that hand sockets from the old cycle to the new one and close the others.
  The results of system calls are a function of the calls made so far; a result is the value and
  \<open>errno\<close>. The calls, and in between the messages that are logged, form the trace. The features of the
  build and the flags of the run are a record.
\<close>

section \<open>State\<close>

definition SOCK_STREAM :: int where [hky_consts]: "SOCK_STREAM = 1"
definition SOCK_DGRAM :: int where [hky_consts]: "SOCK_DGRAM = 2"
definition HKY_EADDRINUSE :: int where [hky_consts]: "HKY_EADDRINUSE = 98"
definition HKY_EOPNOTSUPP :: int where [hky_consts]: "HKY_EOPNOTSUPP = 95"
definition HKY_ENOPROTOOPT :: int where [hky_consts]: "HKY_ENOPROTOOPT = 92"
definition HKY_LISTEN_BACKLOG :: int where [hky_consts]: "HKY_LISTEN_BACKLOG = 511"

record hky_listening =
  l_fd :: int
  l_sockaddr :: sockaddr
  l_socklen :: nat
  l_addr_text_max_len :: nat
  l_addr_text :: "byte list"
  l_type :: int
  l_rcvbuf :: int
  l_sndbuf :: int
  l_backlog :: int
  l_keepidle :: int
  l_keepintvl :: int
  l_keepcnt :: int
  l_fastopen :: int
  l_log :: nat          \<comment> \<open>a copy of the log at \<open>l_logp\<close>\<close>
  l_logp :: nat
  l_previous :: "nat option"
  l_open :: bool
  l_remain :: bool
  l_ignore :: bool
  l_inherited :: bool
  l_listen :: bool
  l_wildcard :: bool
  l_ipv6only :: bool
  l_reuseport :: bool
  l_add_reuseport :: bool
  l_keepalive :: nat
  l_deferred_accept :: bool
  l_delete_deferred :: bool
  l_add_deferred :: bool

record listen_conf =
  have_reuseport :: bool
  have_deferred :: bool       \<comment> \<open>\<open>HKY_HAVE_DEFERRED_ACCEPT\<close> with \<open>TCP_DEFER_ACCEPT\<close>\<close>
  have_fastopen :: bool
  have_keepalive_tunable :: bool
  have_pktinfo :: bool
  have_recvpktinfo :: bool
  iocp_event :: bool
  test_config :: bool

datatype listen_call =
    L_socket nat int | L_close int | L_setsockopt int string int | L_nonblocking int
  | L_bind int sockaddr nat | L_listen int int | L_chmod "byte list" | L_unlink "byte list"
  | L_getsockname int | L_getsockopt int string | L_msleep nat
  | L_log nat string

type_synonym listen_trace = "(listen_call \<times> int \<times> int) list"
type_synonym listen_os = "listen_trace \<Rightarrow> listen_call \<Rightarrow> int \<times> int"

definition sys_call :: "listen_os \<Rightarrow> listen_call \<Rightarrow> listen_trace \<Rightarrow> int \<times> int \<times> listen_trace" where
  "sys_call os call tr = (let (r, err) = os tr call in (r, err, tr @ [(call, r, err)]))"

text \<open>A call whose failure is only logged, and a message.\<close>

definition log_msg :: "nat \<Rightarrow> string \<Rightarrow> listen_trace \<Rightarrow> listen_trace" where
  "log_msg level text_of tr = tr @ [(L_log level text_of, 0, 0)]"

definition try_call :: "listen_os \<Rightarrow> listen_call \<Rightarrow> nat \<Rightarrow> string \<Rightarrow> listen_trace \<Rightarrow> bool \<times> listen_trace" where
  "try_call os call level message tr =
     (let (r, _, tr) = sys_call os call tr in if r = -1 then (False, log_msg level message tr) else (True, tr))"

section \<open>Opening\<close>

text \<open>The socket of one entry up to \<open>bind\<close>; \<open>None\<close> is the return of \<open>HKY_ERROR\<close>.\<close>

definition close_logged :: "listen_os \<Rightarrow> int \<Rightarrow> listen_trace \<Rightarrow> listen_trace" where
  "close_logged os s tr = snd (try_call os (L_close s) 1 ''close() failed'' tr)"

definition prepare_socket :: "listen_conf \<Rightarrow> listen_os \<Rightarrow> hky_listening \<Rightarrow> listen_trace \<Rightarrow> int option \<times> listen_trace" where
  "prepare_socket conf os ls tr =
     (let family = sa_family_of (l_sockaddr ls); (s, _, tr) = sys_call os (L_socket family (l_type ls)) tr in
      if s = -1 then (None, log_msg 1 ''socket() failed'' tr)
      else let (ok, tr) = try_call os (L_setsockopt s ''SO_REUSEADDR'' 1) 1 ''setsockopt(SO_REUSEADDR) failed'' tr in
        if \<not> ok then (None, close_logged os s tr)
        else let (ok, tr) = (if have_reuseport conf \<and> l_reuseport ls \<and> \<not> test_config conf
              then try_call os (L_setsockopt s ''SO_REUSEPORT'' 1) 1 ''setsockopt(SO_REUSEPORT) failed'' tr else (True, tr)) in
          if \<not> ok then (None, close_logged os s tr)
          else let (_, tr) = (if family = AF_INET6
                then try_call os (L_setsockopt s ''IPV6_V6ONLY'' (of_bool (l_ipv6only ls))) 1
                  ''setsockopt(IPV6_V6ONLY) failed, ignored'' tr else (True, tr));
              (ok, tr) = (if \<not> iocp_event conf then try_call os (L_nonblocking s) 1 ''nonblocking failed'' tr else (True, tr)) in
            if \<not> ok then (None, close_logged os s tr) else (Some s, tr))"

text \<open>
  What follows a failed \<open>bind\<close> or \<open>listen\<close>: the socket is closed, and only an address in use lets the
  loop go on. The first component says whether the function returns \<open>HKY_ERROR\<close>.
\<close>

definition address_failed ::
  "listen_conf \<Rightarrow> listen_os \<Rightarrow> string \<Rightarrow> int \<Rightarrow> int \<Rightarrow> hky_listening \<Rightarrow> bool \<Rightarrow> listen_trace \<Rightarrow> bool \<times> hky_listening \<times> bool \<times> listen_trace" where
  "address_failed conf os message s err ls failed tr =
     (let tr = (if err \<noteq> HKY_EADDRINUSE \<or> \<not> test_config conf then log_msg 1 message tr else tr);
          tr = close_logged os s tr
      in if err \<noteq> HKY_EADDRINUSE then (True, ls, failed, tr)
         else (False, ls, failed \<or> \<not> test_config conf, tr))"

definition unix_mode :: "listen_conf \<Rightarrow> listen_os \<Rightarrow> hky_listening \<Rightarrow> listen_trace \<Rightarrow> listen_trace" where
  "unix_mode conf os ls tr =
     (if sa_family_of (l_sockaddr ls) = AF_UNIX then
        let name = drop 5 (l_addr_text ls); tr = snd (try_call os (L_chmod name) 1 ''chmod() failed'' tr)
        in if test_config conf then snd (try_call os (L_unlink name) 1 ''unlink() failed'' tr) else tr
      else tr)"

definition bind_socket ::
  "listen_conf \<Rightarrow> listen_os \<Rightarrow> int \<Rightarrow> hky_listening \<Rightarrow> bool \<Rightarrow> listen_trace \<Rightarrow> bool \<times> hky_listening \<times> bool \<times> listen_trace" where
  "bind_socket conf os s ls failed tr =
     (let (r, err, tr) = sys_call os (L_bind s (l_sockaddr ls) (l_socklen ls)) tr in
      if r = -1 then address_failed conf os ''bind() failed'' s err ls failed tr
      else let tr = unix_mode conf os ls tr in
        if l_type ls \<noteq> SOCK_STREAM then (False, ls\<lparr>l_fd := s\<rparr>, failed, tr)
        else let (r, err, tr) = sys_call os (L_listen s (l_backlog ls)) tr in
          if r = -1 then address_failed conf os ''listen() failed'' s err ls failed tr
          else (False, ls\<lparr>l_listen := True, l_fd := s\<rparr>, failed, tr))"

definition open_listening ::
  "listen_conf \<Rightarrow> listen_os \<Rightarrow> hky_listening \<Rightarrow> bool \<Rightarrow> listen_trace \<Rightarrow> bool \<times> hky_listening \<times> bool \<times> listen_trace" where
  "open_listening conf os ls failed tr =
     (if l_ignore ls then (False, ls, failed, tr)
      else
        let (ls, tr) = (if have_reuseport conf \<and> l_add_reuseport ls
              then (ls\<lparr>l_add_reuseport := False\<rparr>,
                snd (try_call os (L_setsockopt (l_fd ls) ''SO_REUSEPORT'' 1) 2 ''setsockopt(SO_REUSEPORT) failed, ignored'' tr))
              else (ls, tr)) in
        if l_fd ls \<noteq> -1 \<or> l_inherited ls then (False, ls, failed, tr)
        else case prepare_socket conf os ls tr of
            (None, tr) \<Rightarrow> (True, ls, failed, tr)
          | (Some s, tr) \<Rightarrow> bind_socket conf os s ls failed tr)"

text \<open>One round over the array, and the rounds; \<open>failed\<close> starts as 0 in each.\<close>

fun open_round ::
  "listen_conf \<Rightarrow> listen_os \<Rightarrow> hky_listening list \<Rightarrow> bool \<Rightarrow> listen_trace \<Rightarrow> bool \<times> hky_listening list \<times> bool \<times> listen_trace" where
  "open_round conf os [] failed tr = (False, [], failed, tr)"
| "open_round conf os (l # ls) failed tr =
     (case open_listening conf os l failed tr of
        (True, l, failed, tr) \<Rightarrow> (True, l # ls, failed, tr)
      | (False, l, failed, tr) \<Rightarrow>
          (case open_round conf os ls failed tr of (e, ls, failed, tr) \<Rightarrow> (e, l # ls, failed, tr)))"

fun open_tries :: "nat \<Rightarrow> listen_conf \<Rightarrow> listen_os \<Rightarrow> hky_listening list \<Rightarrow> listen_trace \<Rightarrow> int \<times> hky_listening list \<times> listen_trace" where
  "open_tries 0 conf os ls tr = (HKY_ERROR, ls, log_msg 1 ''still could not bind()'' tr)"
| "open_tries (Suc tries) conf os ls tr =
     (case open_round conf os ls False tr of
        (True, ls, _, tr) \<Rightarrow> (HKY_ERROR, ls, tr)
      | (False, ls, False, tr) \<Rightarrow> (HKY_OK, ls, tr)
      | (False, ls, True, tr) \<Rightarrow>
          (let tr = log_msg 6 ''try again to bind() after 500ms'' tr; (_, _, tr) = sys_call os (L_msleep 500) tr
           in open_tries tries conf os ls tr))"

definition hky_open_listening_sockets :: "listen_conf \<Rightarrow> listen_os \<Rightarrow> hky_listening list \<Rightarrow> listen_trace \<Rightarrow> int \<times> hky_listening list \<times> listen_trace" where
  "hky_open_listening_sockets = open_tries 5"

section \<open>From the old cycle to the new one\<close>

text \<open>
  The inner loop over the old sockets for one new entry; \<open>i\<close> is the index of the first of them. An old
  socket that is taken gets its \<open>remain\<close> bit. \<open>None\<close> is a comparison out of bounds.
\<close>

definition take_over :: "listen_conf \<Rightarrow> nat \<Rightarrow> hky_listening \<Rightarrow> hky_listening \<Rightarrow> hky_listening" where
  "take_over conf i old nls =
     (let nls = nls\<lparr>l_fd := l_fd old, l_previous := Some i\<rparr>;
          nls = (if l_backlog old \<noteq> l_backlog nls then nls\<lparr>l_listen := True\<rparr> else nls);
          nls = (if have_deferred conf then
              if l_deferred_accept old \<and> \<not> l_deferred_accept nls then nls\<lparr>l_delete_deferred := True\<rparr>
              else if l_deferred_accept old \<noteq> l_deferred_accept nls then nls\<lparr>l_add_deferred := True\<rparr> else nls
            else nls)
      in if have_reuseport conf \<and> l_reuseport nls \<and> \<not> l_reuseport old then nls\<lparr>l_add_reuseport := True\<rparr> else nls)"

fun find_old :: "listen_conf \<Rightarrow> nat \<Rightarrow> hky_listening \<Rightarrow> hky_listening list \<Rightarrow> (hky_listening \<times> hky_listening list) option" where
  "find_old conf i nls [] = Some (nls, [])"
| "find_old conf i nls (l # ls) =
     (if l_ignore l \<or> l_remain l \<or> l_type l \<noteq> l_type nls
      then map_option (\<lambda>(nls, ls). (nls, l # ls)) (find_old conf (Suc i) nls ls)
      else case hky_cmp_sockaddr (l_sockaddr nls) (l_socklen nls) (l_sockaddr l) (l_socklen l) True of
          None \<Rightarrow> None
        | Some rc \<Rightarrow>
            if rc = HKY_OK then Some (take_over conf i l nls, l\<lparr>l_remain := True\<rparr> # ls)
            else map_option (\<lambda>(nls, ls). (nls, l # ls)) (find_old conf (Suc i) nls ls))"

definition mark_open :: "listen_conf \<Rightarrow> hky_listening \<Rightarrow> hky_listening" where
  "mark_open conf l =
     (let l = l\<lparr>l_open := True\<rparr> in if have_deferred conf \<and> l_deferred_accept l then l\<lparr>l_add_deferred := True\<rparr> else l)"

fun match_new :: "listen_conf \<Rightarrow> hky_listening list \<Rightarrow> hky_listening list \<Rightarrow> (hky_listening list \<times> hky_listening list) option" where
  "match_new conf old [] = Some (old, [])"
| "match_new conf old (nls # news) =
     (case find_old conf 0 nls old of None \<Rightarrow> None
      | Some (nls, old) \<Rightarrow>
          let nls = (if l_fd nls = -1 then mark_open conf nls else nls)
          in map_option (\<lambda>(old, news). (old, nls # news)) (match_new conf old news))"

definition inherit_listening :: "listen_conf \<Rightarrow> hky_listening list \<Rightarrow> hky_listening list \<Rightarrow> (hky_listening list \<times> hky_listening list) option" where
  "inherit_listening conf old new =
     (if old \<noteq> [] then match_new conf (map (\<lambda>l. l\<lparr>l_remain := False\<rparr>) old) new
      else Some (old, map (mark_open conf) new))"

text \<open>The sockets of the old cycle that were not taken, and those of a new cycle that failed.\<close>

fun close_unused :: "listen_os \<Rightarrow> hky_listening list \<Rightarrow> listen_trace \<Rightarrow> listen_trace" where
  "close_unused os [] tr = tr"
| "close_unused os (l # ls) tr =
     (if l_remain l \<or> l_fd l = -1 then close_unused os ls tr
      else
        let tr = snd (try_call os (L_close (l_fd l)) 1 ''close() listening socket failed'' tr);
            tr = (if sa_family_of (l_sockaddr l) = AF_UNIX
              then snd (try_call os (L_unlink (drop 5 (l_addr_text l))) 1 ''unlink() failed''
                (log_msg 5 ''deleting socket'' tr)) else tr)
        in close_unused os ls tr)"

fun close_opened :: "listen_os \<Rightarrow> hky_listening list \<Rightarrow> listen_trace \<Rightarrow> listen_trace" where
  "close_opened os [] tr = tr"
| "close_opened os (l # ls) tr =
     (if l_fd l = -1 \<or> \<not> l_open l then close_opened os ls tr
      else close_opened os ls (snd (try_call os (L_close (l_fd l)) 1 ''close() failed'' tr)))"

text \<open>What happens behind the label \<open>failed\<close> once the files are closed: under \<open>hky_test_config\<close> the function returns before the loop.\<close>

definition give_up_sockets :: "listen_conf \<Rightarrow> listen_os \<Rightarrow> hky_listening list \<Rightarrow> listen_trace \<Rightarrow> listen_trace" where
  "give_up_sockets conf os ls tr = (if test_config conf then tr else close_opened os ls tr)"

section \<open>The sockets that are open\<close>

text \<open>The descriptors that are open after some calls.\<close>

fun sock_open :: "listen_trace \<Rightarrow> int list \<Rightarrow> int list" where
  "sock_open [] fds = fds"
| "sock_open ((L_socket _ _, fd, _) # tr) fds = sock_open tr (if fd = -1 then fds else fd # fds)"
| "sock_open ((L_close fd, _, _) # tr) fds = sock_open tr (remove1 fd fds)"
| "sock_open (_ # tr) fds = sock_open tr fds"

lemma sock_open_append: "sock_open (xs @ ys) fds = sock_open ys (sock_open xs fds)"
  by (induction xs fds rule: sock_open.induct) auto

text \<open>\<open>gains tr tr' M\<close>: the calls from \<open>tr\<close> to \<open>tr'\<close> leave open what was open and \<open>M\<close>.\<close>

definition gains :: "listen_trace \<Rightarrow> listen_trace \<Rightarrow> int multiset \<Rightarrow> bool" where
  "gains tr tr' M \<longleftrightarrow> (\<exists>new. tr' = tr @ new \<and> (\<forall>fds. mset (sock_open new fds) = mset fds + M))"

lemma gains_refl [simp, intro]: "gains tr tr {#}"
  by (auto simp: gains_def intro: exI [of _ "[]"])

lemma gains_trans:
  assumes "gains t u M" "gains u v N" shows "gains t v (M + N)"
proof -
  obtain x y where "u = t @ x" "v = u @ y" "\<forall>fds. mset (sock_open x fds) = mset fds + M"
    "\<forall>fds. mset (sock_open y fds) = mset fds + N"
    using assms by (auto simp: gains_def)
  then show ?thesis unfolding gains_def by (intro exI [of _ "x @ y"]) (simp add: sock_open_append add.assoc)
qed

lemma gains_trans0: "gains t u M \<Longrightarrow> gains u v {#} \<Longrightarrow> gains t v M"
  using gains_trans by fastforce

fun neutral :: "listen_call \<Rightarrow> bool" where
  "neutral (L_socket _ _) = False"
| "neutral (L_close _) = False"
| "neutral _ = True"

lemma sock_open_neutral: "neutral c \<Longrightarrow> sock_open [(c, r, e)] fds = fds"
  by (cases c) auto

lemma gains_neutral: "neutral c \<Longrightarrow> gains tr (tr @ [(c, r, e)]) {#}"
  by (auto simp: gains_def sock_open_neutral)

lemma gains_sys [intro]: "sys_call os c tr = (r, e, tr') \<Longrightarrow> neutral c \<Longrightarrow> gains tr tr' {#}"
  by (auto simp: sys_call_def gains_neutral split: prod.splits)

lemma gains_log [simp, intro]: "gains tr (log_msg level m tr) {#}"
  by (simp add: log_msg_def gains_neutral)

lemma gains_try [intro]: "try_call os c level m tr = (ok, tr') \<Longrightarrow> neutral c \<Longrightarrow> gains tr tr' {#}"
  by (auto simp: try_call_def split: prod.splits if_splits intro: gains_sys gains_trans0)

lemma gains_opt:
  "(if P then try_call os c level m tr else (True, tr)) = (ok, tr') \<Longrightarrow> neutral c \<Longrightarrow> gains tr tr' {#}"
  by (auto split: if_splits)

lemma gains_try_snd [intro]: "neutral c \<Longrightarrow> gains tr (snd (try_call os c level m tr)) {#}"
  by (metis gains_try prod.collapse)

lemma gains_socket: "sys_call os (L_socket f t) tr = (s, e, tr') \<Longrightarrow> gains tr tr' (if s = -1 then {#} else {#s#})"
  by (auto simp: sys_call_def gains_def split: prod.splits)

lemma try_close: "\<exists>new. snd (try_call os (L_close s) level m tr) = tr @ new \<and> (\<forall>fds. sock_open new fds = remove1 s fds)"
  by (auto simp: try_call_def sys_call_def log_msg_def split: prod.splits)

lemma gains_close:
  assumes "gains tr tr' (add_mset s M)" shows "gains tr (snd (try_call os (L_close s) level m tr')) M"
proof -
  obtain x where x: "tr' = tr @ x" "\<forall>fds. mset (sock_open x fds) = mset fds + add_mset s M"
    using assms by (auto simp: gains_def)
  obtain y where y: "snd (try_call os (L_close s) level m tr') = tr' @ y" "\<forall>fds. sock_open y fds = remove1 s fds"
    using try_close by blast
  show ?thesis unfolding gains_def
    using x y by (intro exI [of _ "x @ y"]) (simp add: sock_open_append)
qed

lemma gains_close_logged: "gains tr tr' {#s#} \<Longrightarrow> gains tr (close_logged os s tr') {#}"
  by (simp add: close_logged_def gains_close)

section \<open>Opening\<close>

lemma prepare_socket_gains:
  assumes "prepare_socket conf os l tr = (r, tr')"
  shows "gains tr tr' (case r of None \<Rightarrow> {#} | Some s \<Rightarrow> {#s#}) \<and> r \<noteq> Some (-1)"
proof -
  obtain s e t where s: "sys_call os (L_socket (sa_family_of (l_sockaddr l)) (l_type l)) tr = (s, e, t)" by (metis prod_cases3)
  show ?thesis
  proof (cases "s = -1")
    case True
    then show ?thesis using assms s gains_socket [OF s] by (auto simp: prepare_socket_def intro: gains_trans0)
  next
    case False
    then have g: "gains tr t {#s#}" using gains_socket [OF s] by simp
    define f where "f = sa_family_of (l_sockaddr l)"
    obtain ok1 t1 where 1: "try_call os (L_setsockopt s ''SO_REUSEADDR'' 1) 1 ''setsockopt(SO_REUSEADDR) failed'' t = (ok1, t1)"
      by fastforce
    obtain ok2 t2 where 2: "(if have_reuseport conf \<and> l_reuseport l \<and> \<not> test_config conf
        then try_call os (L_setsockopt s ''SO_REUSEPORT'' 1) 1 ''setsockopt(SO_REUSEPORT) failed'' t1 else (True, t1)) = (ok2, t2)"
      by fastforce
    obtain ok3 t3 where 3: "(if f = AF_INET6
        then try_call os (L_setsockopt s ''IPV6_V6ONLY'' (of_bool (l_ipv6only l))) 1
          ''setsockopt(IPV6_V6ONLY) failed, ignored'' t2 else (True, t2)) = (ok3, t3)"
      by fastforce
    obtain ok4 t4 where 4: "(if \<not> iocp_event conf then try_call os (L_nonblocking s) 1 ''nonblocking failed'' t3 else (True, t3)) = (ok4, t4)"
      by fastforce
    have g1: "gains tr t1 {#s#}" using gains_trans0 [OF g gains_try [OF 1]] by simp
    have g2: "gains tr t2 {#s#}" using gains_trans0 [OF g1 gains_opt [OF 2]] by simp
    have g3: "gains tr t3 {#s#}" using gains_trans0 [OF g2 gains_opt [OF 3]] by simp
    have g4: "gains tr t4 {#s#}" using gains_trans0 [OF g3 gains_opt [OF 4]] by simp
    have "(r, tr') = (if \<not> ok1 then (None, close_logged os s t1) else if \<not> ok2 then (None, close_logged os s t2)
        else if \<not> ok4 then (None, close_logged os s t4) else (Some s, t4))"
      unfolding assms [symmetric] prepare_socket_def Let_def f_def [symmetric] s [folded f_def] prod.case if_not_P [OF False]
        1 2 3 4 by simp
    then show ?thesis using False gains_close_logged [OF g1] gains_close_logged [OF g2] gains_close_logged [OF g4] g4
      by (auto split: if_splits)
  qed
qed

text \<open>What opening does to an entry, and the sockets it adds.\<close>

definition kept :: "hky_listening \<Rightarrow> hky_listening \<Rightarrow> bool" where
  "kept l l' \<longleftrightarrow> (l_fd l \<noteq> -1 \<longrightarrow> l_fd l' = l_fd l) \<and> l_open l' = l_open l \<and> l_ignore l' = l_ignore l \<and>
     l_inherited l' = l_inherited l \<and> l_previous l' = l_previous l"

definition newly :: "hky_listening \<Rightarrow> hky_listening \<Rightarrow> int multiset" where
  "newly l l' = (if l_fd l = -1 \<and> l_fd l' \<noteq> -1 then {#l_fd l'#} else {#})"

lemma kept_refl [simp]: "kept l l"
  by (simp add: kept_def)

lemma kept_trans: "kept l l' \<Longrightarrow> kept l' l'' \<Longrightarrow> kept l l'' \<and> newly l l'' = newly l l' + newly l' l''"
  by (auto simp: kept_def newly_def)

lemma newly_refl [simp]: "newly l l = {#}"
  by (simp add: newly_def)

text \<open>\<open>done_ok\<close>: an entry that the round passed without failure has a socket, if it is to have one.\<close>

definition done_ok :: "listen_conf \<Rightarrow> bool \<Rightarrow> hky_listening \<Rightarrow> bool" where
  "done_ok conf failed l \<longleftrightarrow> failed \<or> test_config conf \<or> l_ignore l \<or> l_inherited l \<or> l_fd l \<noteq> -1"

lemma address_failed_ok:
  assumes "address_failed conf os m s err l failed tr = (e, l', failed', tr')" "gains tr0 tr {#s#}"
  shows "gains tr0 tr' {#} \<and> l' = l \<and> (e \<or> failed' = (failed \<or> \<not> test_config conf))"
proof -
  have "gains tr0 (if err \<noteq> HKY_EADDRINUSE \<or> \<not> test_config conf then log_msg 1 m tr else tr) {#s#}"
    using assms(2) gains_trans0 [OF assms(2) gains_log] by simp
  from gains_close_logged [OF this] show ?thesis
    using assms(1) by (auto simp: address_failed_def Let_def split: if_splits)
qed

lemma gains_unix_mode: "gains tr (unix_mode conf os l tr) {#}"
  by (simp add: unix_mode_def Let_def gains_try_snd gains_trans0 [OF gains_try_snd gains_try_snd])

lemma bind_socket_ok:
  assumes "bind_socket conf os s l failed tr = (e, l', failed', tr')" "gains tr0 tr {#s#}" "s \<noteq> -1" "l_fd l = -1"
  shows "gains tr0 tr' (newly l l') \<and> kept l l' \<and> (failed \<longrightarrow> failed' \<or> e) \<and> (e \<or> done_ok conf failed' l')"
proof -
  obtain r err t where b: "sys_call os (L_bind s (l_sockaddr l) (l_socklen l)) tr = (r, err, t)" by (metis prod_cases3)
  have g: "gains tr0 t {#s#}" using gains_trans0 [OF assms(2) gains_sys [OF b]] by simp
  define u where "u = unix_mode conf os l t"
  have gu: "gains tr0 u {#s#}" unfolding u_def by (rule gains_trans0 [OF g gains_unix_mode])
  obtain r2 err2 t2 where c: "sys_call os (L_listen s (l_backlog l)) u = (r2, err2, t2)" by (metis prod_cases3)
  have gl: "gains tr0 t2 {#s#}" using gains_trans0 [OF gu gains_sys [OF c]] by simp
  consider (bind) "address_failed conf os ''bind() failed'' s err l failed t = (e, l', failed', tr')"
    | (dgram) "e = False" "l' = l\<lparr>l_fd := s\<rparr>" "failed' = failed" "tr' = u"
    | (listen) "address_failed conf os ''listen() failed'' s err2 l failed t2 = (e, l', failed', tr')"
    | (ok) "e = False" "l' = l\<lparr>l_listen := True, l_fd := s\<rparr>" "failed' = failed" "tr' = t2"
    using assms(1) unfolding bind_socket_def b Let_def prod.case u_def [symmetric] c
    by (cases "r = -1"; cases "l_type l \<noteq> SOCK_STREAM"; cases "r2 = -1") simp_all
  then show ?thesis
  proof cases
    case bind
    then show ?thesis using address_failed_ok [OF bind g] by (auto simp: done_ok_def)
  next
    case dgram
    then show ?thesis using gu assms(3,4) by (auto simp: newly_def kept_def done_ok_def)
  next
    case listen
    then show ?thesis using address_failed_ok [OF listen gl] by (auto simp: done_ok_def)
  next
    case ok
    then show ?thesis using gl assms(3,4) by (auto simp: newly_def kept_def done_ok_def)
  qed
qed

lemma open_listening_ok:
  assumes "open_listening conf os l failed tr = (e, l', failed', tr')"
  shows "gains tr tr' (newly l l') \<and> kept l l' \<and> (failed \<longrightarrow> failed' \<or> e) \<and> (e \<or> done_ok conf failed' l')"
proof (cases "l_ignore l")
  case True
  then show ?thesis using assms by (auto simp: open_listening_def done_ok_def)
next
  case False
  obtain k t where k: "(if have_reuseport conf \<and> l_add_reuseport l
      then (l\<lparr>l_add_reuseport := False\<rparr>,
        snd (try_call os (L_setsockopt (l_fd l) ''SO_REUSEPORT'' 1) 2 ''setsockopt(SO_REUSEPORT) failed, ignored'' tr))
      else (l, tr)) = (k, t)" by fastforce
  then have kk: "gains tr t {#}" "kept l k" "l_fd k = l_fd l" "l_inherited k = l_inherited l"
    by (auto simp: kept_def split: if_splits)
  have o: "(e, l', failed', tr') = (if l_fd k \<noteq> -1 \<or> l_inherited k then (False, k, failed, t)
      else case prepare_socket conf os k t of
            (None, tr) \<Rightarrow> (True, k, failed, tr)
          | (Some s, tr) \<Rightarrow> bind_socket conf os s k failed tr)"
    unfolding assms [symmetric] open_listening_def if_not_P [OF False] k Let_def by simp
  show ?thesis
  proof (cases "l_fd k \<noteq> -1 \<or> l_inherited k")
    case True
    then show ?thesis using o kk by (auto simp: newly_def done_ok_def)
  next
    case noSocket: False
    obtain r u where p: "prepare_socket conf os k t = (r, u)" by fastforce
    note pg = prepare_socket_gains [OF p]
    show ?thesis
    proof (cases r)
      case None
      then show ?thesis using o noSocket p pg kk gains_trans0 [of tr t "{#}" u] by (auto simp: newly_def)
    next
      case (Some s)
      have "bind_socket conf os s k failed u = (e, l', failed', tr')" using o noSocket p Some by simp
      moreover have "gains tr u {#s#}" using gains_trans [OF kk(1), of u "{#s#}"] pg Some by simp
      ultimately show ?thesis
        using bind_socket_ok [of conf os s k failed u e l' failed' tr' tr] pg Some noSocket kk kept_trans [OF kk(2), of l']
        by (auto simp: newly_def)
    qed
  qed
qed

text \<open>The same for all entries.\<close>

fun newly_all :: "hky_listening list \<Rightarrow> hky_listening list \<Rightarrow> int multiset" where
  "newly_all (l # ls) (l' # ls') = newly l l' + newly_all ls ls'"
| "newly_all _ _ = {#}"

lemma newly_all_refl [simp]: "newly_all ls ls = {#}"
  by (induction ls) auto

lemma kept_all_refl [simp]: "list_all2 kept ls ls"
  by (induction ls) auto

lemma kept_all_trans:
  "list_all2 kept ls ls' \<Longrightarrow> list_all2 kept ls' ls'' \<Longrightarrow>
   list_all2 kept ls ls'' \<and> newly_all ls ls'' = newly_all ls ls' + newly_all ls' ls''"
proof (induction arbitrary: ls'' rule: list_all2_induct)
  case (Cons l ls l' ls')
  obtain l'' ls2 where l'': "ls'' = l'' # ls2" "kept l' l''" "list_all2 kept ls' ls2"
    using Cons.prems by (auto simp: list_all2_Cons1)
  show ?case using Cons.IH [OF l''(3)] kept_trans [OF Cons.hyps(1) l''(2)] l''(1) by simp
qed simp

lemma open_round_ok:
  "open_round conf os ls failed tr = (e, ls', failed', tr') \<Longrightarrow>
   gains tr tr' (newly_all ls ls') \<and> list_all2 kept ls ls' \<and> (failed \<longrightarrow> failed' \<or> e) \<and>
   (e \<or> (\<forall>l\<in>set ls'. done_ok conf failed' l))"
proof (induction ls arbitrary: failed tr e ls' failed' tr')
  case (Cons l ls)
  obtain e1 l1 f1 t1 where o: "open_listening conf os l failed tr = (e1, l1, f1, t1)" by (metis prod_cases4)
  note ok = open_listening_ok [OF o]
  show ?case
  proof (cases e1)
    case True
    then show ?thesis using Cons.prems o ok by auto
  next
    case False
    obtain ls1 where r: "open_round conf os ls f1 t1 = (e, ls1, failed', tr')" "ls' = l1 # ls1"
      using Cons.prems o False by (auto split: prod.splits)
    have "gains tr tr' (newly l l1 + newly_all ls ls1)"
      using gains_trans Cons.IH [OF r(1)] ok by blast
    then show ?thesis using Cons.IH [OF r(1)] ok r(2) False by (auto simp: done_ok_def)
  qed
qed auto

lemma open_tries_ok:
  "open_tries n conf os ls tr = (rc, ls', tr') \<Longrightarrow>
   gains tr tr' (newly_all ls ls') \<and> list_all2 kept ls ls' \<and> rc \<in> {HKY_OK, HKY_ERROR} \<and>
   (rc = HKY_OK \<longrightarrow> (\<forall>l\<in>set ls'. done_ok conf False l))"
proof (induction n arbitrary: ls tr)
  case 0
  then show ?case by (auto simp: hky_consts)
next
  case (Suc n)
  obtain e ls1 f t where o: "open_round conf os ls False tr = (e, ls1, f, t)" by (metis prod_cases4)
  note ok = open_round_ok [OF o]
  consider "e" | "\<not> e" "\<not> f" | "\<not> e" "f" by blast
  then show ?case
  proof cases
    case 3
    obtain r x u where m: "sys_call os (L_msleep 500) (log_msg 6 ''try again to bind() after 500ms'' t) = (r, x, u)"
      by (metis prod_cases3)
    have n: "open_tries n conf os ls1 u = (rc, ls', tr')" using Suc.prems o m 3 by simp
    have "gains tr u (newly_all ls ls1)"
      using gains_trans0 [OF gains_trans0 [OF _ gains_log] gains_sys [OF m]] ok by simp
    then show ?thesis using Suc.IH [OF n] ok kept_all_trans [of ls ls1 ls'] gains_trans [of tr u _ tr'] by simp
  qed (use Suc.prems o ok in \<open>auto simp: hky_consts\<close>)
qed

text \<open>
  C35: \<open>hky_open_listening_sockets\<close>. Whatever the kernel answers, at most five rounds are made, and
  the sockets the call leaves open are exactly those it stored in entries that had none: every
  socket of a failed step is closed. An entry that had a socket keeps it. On success, unless the
  configuration is only tested, every entry that is neither ignored nor inherited has a socket.
\<close>

theorem open_listening_sockets_correct:
  "case hky_open_listening_sockets conf os ls tr of (rc, ls', tr') \<Rightarrow>
     gains tr tr' (newly_all ls ls') \<and> list_all2 kept ls ls' \<and> rc \<in> {HKY_OK, HKY_ERROR} \<and>
     (rc = HKY_OK \<and> \<not> test_config conf \<longrightarrow>
       (\<forall>l\<in>set ls'. l_ignore l \<or> l_inherited l \<or> l_fd l \<noteq> -1))"
proof -
  obtain rc ls' tr' where o: "hky_open_listening_sockets conf os ls tr = (rc, ls', tr')" by (metis prod_cases3)
  show ?thesis using open_tries_ok [OF o [unfolded hky_open_listening_sockets_def]] by (auto simp: o done_ok_def)
qed

definition sample_listening :: hky_listening where
  "sample_listening = \<lparr>l_fd = -1, l_sockaddr = Sin 80 0, l_socklen = 16, l_addr_text_max_len = 0, l_addr_text = [],
     l_type = SOCK_STREAM, l_rcvbuf = -1, l_sndbuf = -1, l_backlog = 511, l_keepidle = 0, l_keepintvl = 0, l_keepcnt = 0,
     l_fastopen = -1, l_log = 0, l_logp = 0, l_previous = None, l_open = False, l_remain = False, l_ignore = False,
     l_inherited = False, l_listen = False, l_wildcard = False, l_ipv6only = False, l_reuseport = False,
     l_add_reuseport = False, l_keepalive = 0, l_deferred_accept = False, l_delete_deferred = False, l_add_deferred = False\<rparr>"

definition sample_listen_conf :: listen_conf where
  "sample_listen_conf = \<lparr>have_reuseport = True, have_deferred = True, have_fastopen = False, have_keepalive_tunable = True,
     have_pktinfo = True, have_recvpktinfo = True, iocp_event = False, test_config = False\<rparr>"

text \<open>Sockets get the number 7; the first two calls of \<open>bind\<close> fail because the address is in use.\<close>

definition sample_listen_os :: listen_os where
  "sample_listen_os tr call =
     (case call of L_socket _ _ \<Rightarrow> (7, 0)
      | L_bind _ _ _ \<Rightarrow> if length (filter (\<lambda>c. fst c = L_msleep 500) tr) < 2 then (-1, HKY_EADDRINUSE) else (0, 0)
      | _ \<Rightarrow> (0, 0))"

lemma sample_listen_run:
  "fst (hky_open_listening_sockets sample_listen_conf sample_listen_os [sample_listening] []) = HKY_OK \<and>
   length (fst (snd (hky_open_listening_sockets sample_listen_conf sample_listen_os [sample_listening] []))) = 1"
  by code_simp

lemma open_listening_sockets_correct_witness:
  "l_fd (hd (fst (snd (hky_open_listening_sockets sample_listen_conf sample_listen_os [sample_listening] [])))) \<noteq> -1"
proof -
  obtain rc ls tr where o: "hky_open_listening_sockets sample_listen_conf sample_listen_os [sample_listening] [] = (rc, ls, tr)"
    by (metis prod_cases3)
  then obtain l where l: "rc = HKY_OK" "ls = [l]" using sample_listen_run by (auto simp: length_Suc_conv)
  show ?thesis
    using open_listening_sockets_correct [where conf = sample_listen_conf and os = sample_listen_os and ls = "[sample_listening]" and tr = "[]"] o l
    by (auto simp: sample_listen_conf_def sample_listening_def kept_def)
qed

section \<open>A change of cycles\<close>

definition live :: "hky_listening list \<Rightarrow> int list" where
  "live ls = filter (\<lambda>fd. fd \<noteq> -1) (map l_fd ls)"

lemma live_Cons [simp]: "live (l # ls) = (if l_fd l = -1 then [] else [l_fd l]) @ live ls"
  by (simp add: live_def)

lemma live_Nil [simp]: "live [] = []"
  by (simp add: live_def)

lemma live_append [simp]: "live (xs @ ys) = live xs @ live ys"
  by (simp add: live_def)

abbreviation taken :: "hky_listening list \<Rightarrow> int list" where "taken ls \<equiv> live (filter l_remain ls)"
abbreviation unused :: "hky_listening list \<Rightarrow> int list" where "unused ls \<equiv> live (filter (\<lambda>l. \<not> l_remain l) ls)"

lemma live_split: "mset (live ls) = mset (taken ls) + mset (unused ls)"
  by (induction ls) auto

lemma take_over_simps [simp]: "l_fd (take_over conf i l n) = l_fd l" "l_open (take_over conf i l n) = l_open n"
  by (simp_all add: take_over_def Let_def)

lemma mark_open_simps [simp]: "l_fd (mark_open conf n) = l_fd n" "l_open (mark_open conf n)"
  by (simp_all add: mark_open_def Let_def)

lemma find_old_ok:
  "find_old conf i n ls = Some (n', ls') \<Longrightarrow> l_fd n = -1 \<Longrightarrow>
   l_open n' = l_open n \<and> mset (taken ls') = mset (taken ls) + mset (live [n']) \<and> live ls' = live ls"
  by (induction conf i n ls arbitrary: n' ls' rule: find_old.induct)
    (auto split: if_splits option.splits)

lemma match_new_ok:
  "match_new conf old news = Some (old', news') \<Longrightarrow> \<forall>n\<in>set news. l_fd n = -1 \<and> \<not> l_open n \<Longrightarrow>
   mset (taken old') = mset (taken old) + mset (live news') \<and> live old' = live old \<and>
   (\<forall>n\<in>set news'. l_open n \<longleftrightarrow> l_fd n = -1)"
proof (induction conf old news arbitrary: old' news' rule: match_new.induct)
  case (2 conf old n news)
  obtain n1 old1 where f: "find_old conf 0 n old = Some (n1, old1)"
    using 2(2) by (auto split: option.splits)
  define n2 where "n2 = (if l_fd n1 = -1 then mark_open conf n1 else n1)"
  obtain news1 where m: "match_new conf old1 news = Some (old', news1)" "news' = n2 # news1"
    using 2(2) f by (auto simp: n2_def Let_def split: option.splits)
  have f1: "\<not> l_open n1" "mset (taken old1) = mset (taken old) + mset (live [n1])" "live old1 = live old"
    using find_old_ok [OF f] 2(3) by auto
  have "mset (taken old') = mset (taken old1) + mset (live news1) \<and> live old' = live old1 \<and> (\<forall>n\<in>set news1. l_open n \<longleftrightarrow> l_fd n = -1)"
    using 2(1) [OF f refl n2_def m(1)] 2(3) by simp
  then show ?case using f1 m(2) by (auto simp: n2_def)
qed auto

lemma inherit_listening_ok:
  assumes "inherit_listening conf old new = Some (old', new')" "\<forall>n\<in>set new. l_fd n = -1 \<and> \<not> l_open n"
  shows "mset (taken old') = mset (live new') \<and> live old' = live old \<and> (\<forall>n\<in>set new'. l_open n \<longleftrightarrow> l_fd n = -1)"
proof (cases "old = []")
  case True
  then have "old' = []" "new' = map (mark_open conf) new" using assms(1) by (auto simp: inherit_listening_def)
  moreover have "live (map (mark_open conf) new) = []" using assms(2) by (induction new) auto
  ultimately show ?thesis using True assms(2) by auto
next
  case False
  let ?o = "map (\<lambda>l. l\<lparr>l_remain := False\<rparr>) old"
  have t: "taken ?o = []" by (simp add: filter_map o_def)
  have l: "live ?o = live old" by (simp add: live_def o_def)
  have "match_new conf ?o new = Some (old', new')" using assms(1) False by (simp add: inherit_listening_def)
  from match_new_ok [OF this assms(2)] show ?thesis unfolding t l by simp
qed

text \<open>The sockets of the opened entries.\<close>

abbreviation opened :: "hky_listening list \<Rightarrow> int list" where "opened ls \<equiv> live (filter l_open ls)"

lemma newly_all_opened:
  "list_all2 kept ls ls' \<Longrightarrow> \<forall>l\<in>set ls. l_open l \<longleftrightarrow> l_fd l = -1 \<Longrightarrow>
   newly_all ls ls' = mset (opened ls') \<and> mset (live ls') = mset (live ls) + newly_all ls ls'"
  by (induction rule: list_all2_induct) (auto simp: kept_def newly_def)

text \<open>The calls from \<open>tr\<close> to \<open>tr'\<close> close \<open>M\<close>.\<close>

definition closes :: "listen_trace \<Rightarrow> listen_trace \<Rightarrow> int multiset \<Rightarrow> bool" where
  "closes tr tr' M \<longleftrightarrow> (\<exists>new. tr' = tr @ new \<and> (\<forall>fds. mset (sock_open new fds) = mset fds - M))"

lemma closes_trans: "closes t u M \<Longrightarrow> closes u v N \<Longrightarrow> closes t v (M + N)"
  unfolding closes_def by (metis append.assoc diff_diff_add sock_open_append)

lemma gains_closes: "gains t u {#} \<Longrightarrow> closes t u {#}"
  by (simp add: gains_def closes_def)

lemma closes_try: "closes tr (snd (try_call os (L_close s) level m tr)) {#s#}"
  using try_close [of os s level m tr] by (auto simp: closes_def)

lemma close_unused_ok: "closes tr (close_unused os ls tr) (mset (unused ls))"
proof (induction os ls tr rule: close_unused.induct)
  case (1 os tr)
  then show ?case by (auto simp: closes_def intro: exI [of _ "[]"])
next
  case (2 os l ls tr)
  show ?case
  proof (cases "l_remain l \<or> l_fd l = -1")
    case True
    then show ?thesis using 2(1) by auto
  next
    case False
    define t where "t = snd (try_call os (L_close (l_fd l)) 1 ''close() listening socket failed'' tr)"
    define u where "u = (if sa_family_of (l_sockaddr l) = AF_UNIX
        then snd (try_call os (L_unlink (drop 5 (l_addr_text l))) 1 ''unlink() failed'' (log_msg 5 ''deleting socket'' t)) else t)"
    have "gains t u {#}" by (auto simp: u_def intro: gains_trans0 [OF gains_log gains_try_snd])
    from closes_trans [OF closes_try gains_closes [OF this [unfolded t_def]]] have c: "closes tr u {#l_fd l#}" by simp
    have "closes u (close_unused os ls u) (mset (unused ls))" using 2(2) [OF False t_def u_def] .
    from closes_trans [OF c this] have "closes tr (close_unused os ls u) ({#l_fd l#} + mset (unused ls))" .
    moreover have "close_unused os (l # ls) tr = close_unused os ls u"
      using False by (simp add: t_def u_def Let_def)
    moreover have "mset (unused (l # ls)) = {#l_fd l#} + mset (unused ls)" using False by simp
    ultimately show ?thesis by simp
  qed
qed

lemma close_opened_ok: "closes tr (close_opened os ls tr) (mset (opened ls))"
proof (induction os ls tr rule: close_opened.induct)
  case (1 os tr)
  then show ?case by (auto simp: closes_def intro: exI [of _ "[]"])
next
  case (2 os l ls tr)
  show ?case
  proof (cases "l_fd l = -1 \<or> \<not> l_open l")
    case True
    then show ?thesis using 2(1) by auto
  next
    case False
    then show ?thesis using closes_trans [OF closes_try 2(2)] by (simp add: add_mset_commute)
  qed
qed

text \<open>
  C36: The sockets over a change of cycles, \<open>hky_init_cycle\<close>. New entries have no socket; they take the
  old ones of their type and address, the others are opened. Whatever the kernel answers: when
  the new cycle is used, the old sockets nobody took are closed, and then, starting from the
  sockets of the old cycle, exactly those of the new entries are open. When it is given up, exactly
  the sockets opened for it are closed, none of the old cycle; but a run that only tests the
  configuration closes nothing, and leaves them open besides the old ones.
\<close>

theorem cycle_sockets_accounted:
  assumes fresh: "\<forall>n\<in>set new. l_fd n = -1 \<and> \<not> l_open n"
    and inherit: "inherit_listening conf old new = Some (old1, new1)"
    and run: "hky_open_listening_sockets conf os new1 tr = (rc, new2, tr1)"
  shows "(\<exists>calls. close_unused os old1 tr1 = tr @ calls \<and> mset (sock_open calls (live old)) = mset (live new2)) \<and>
    (\<exists>calls. give_up_sockets conf os new2 tr1 = tr @ calls \<and>
      mset (sock_open calls (live old)) = mset (live old) + (if test_config conf then mset (opened new2) else {#}))"
proof -
  note inh = inherit_listening_ok [OF inherit fresh]
  have o: "gains tr tr1 (newly_all new1 new2)" "list_all2 kept new1 new2"
    using open_tries_ok [OF run [unfolded hky_open_listening_sockets_def]] by auto
  note new = newly_all_opened [OF o(2)]
  obtain c1 where c1: "tr1 = tr @ c1" "\<And>fds. mset (sock_open c1 fds) = mset fds + newly_all new1 new2"
    using o(1) by (auto simp: gains_def)
  obtain c2 where c2: "close_unused os old1 tr1 = tr1 @ c2" "\<And>fds. mset (sock_open c2 fds) = mset fds - mset (unused old1)"
    using close_unused_ok [of tr1 os old1] by (auto simp: closes_def)
  obtain c3 where c3: "close_opened os new2 tr1 = tr1 @ c3" "\<And>fds. mset (sock_open c3 fds) = mset fds - mset (opened new2)"
    using close_opened_ok [of tr1 os new2] by (auto simp: closes_def)
  have split: "mset (live old) = mset (live new1) + mset (unused old1)"
    using live_split [of old1] inh by simp
  have "mset (sock_open (c1 @ c2) (live old)) = mset (live new2)"
    using c1(2) c2(2) new inh by (simp add: sock_open_append split ac_simps)
  then have used: "\<exists>calls. close_unused os old1 tr1 = tr @ calls \<and> mset (sock_open calls (live old)) = mset (live new2)"
    using c1(1) c2(1) by (metis append.assoc)
  let ?c = "if test_config conf then c1 else c1 @ c3"
  have "give_up_sockets conf os new2 tr1 = tr @ ?c" using c1(1) c3(1) by (simp add: give_up_sockets_def)
  moreover have "mset (sock_open ?c (live old)) = mset (live old) + (if test_config conf then mset (opened new2) else {#})"
    using c1(2) c3(2) new inh by (simp add: sock_open_append)
  ultimately have "\<exists>calls. give_up_sockets conf os new2 tr1 = tr @ calls \<and>
      mset (sock_open calls (live old)) = mset (live old) + (if test_config conf then mset (opened new2) else {#})"
    by blast
  with used show ?thesis by blast
qed

lemma cycle_sockets_accounted_witness:
  "\<exists>rc ls tr calls. hky_open_listening_sockets sample_listen_conf sample_listen_os
      [mark_open sample_listen_conf (sample_listening\<lparr>l_sockaddr := Sin 81 0\<rparr>)] [] = (rc, ls, tr) \<and>
     close_unused sample_listen_os [sample_listening\<lparr>l_fd := 4\<rparr>] tr = calls \<and> mset (sock_open calls [4]) = {#7#}"
proof -
  let ?n = "sample_listening\<lparr>l_sockaddr := Sin 81 0\<rparr>" and ?o = "sample_listening\<lparr>l_fd := 4\<rparr>"
  obtain rc ls tr where o: "hky_open_listening_sockets sample_listen_conf sample_listen_os [mark_open sample_listen_conf ?n] [] = (rc, ls, tr)"
    by (metis prod_cases3)
  have "map l_fd (fst (snd (hky_open_listening_sockets sample_listen_conf sample_listen_os [mark_open sample_listen_conf ?n] []))) = [7]"
    by code_simp
  then have ls: "live ls = [7]" by (simp add: o live_def)
  have i: "inherit_listening sample_listen_conf [?o] [?n] = Some ([?o], [mark_open sample_listen_conf ?n])"
    by (simp add: inherit_listening_def sample_listening_def hky_cmp_sockaddr_def hky_consts)
  have "\<forall>n\<in>set [?n]. l_fd n = -1 \<and> \<not> l_open n" and "live [?o] = [4]" by (simp_all add: sample_listening_def)
  then show ?thesis using cycle_sockets_accounted [OF _ i o] ls o by fastforce
qed

section \<open>Inherited sockets\<close>

text \<open>
  What \<open>getsockname\<close> and \<open>getsockopt\<close> store when they succeed is a parameter. The memory of the
  addresses and their texts is taken from the pool. The first result is \<open>Some\<close> when the function
  returns; \<open>None\<close> as a whole is a read out of bounds.
\<close>

record sock_info =
  si_name :: "int \<Rightarrow> sockaddr \<times> nat"
  si_option :: "int \<Rightarrow> string \<Rightarrow> int"

definition sizeof_hky_sockaddr :: nat where "sizeof_hky_sockaddr = 112"
definition HKY_UNIX_ADDRSTRLEN :: nat where "HKY_UNIX_ADDRSTRLEN = 5 + sizeof_sun_path"

definition addr_text_sizes :: "nat \<Rightarrow> (nat \<times> nat) option" where
  "addr_text_sizes family =
     (if family = AF_INET6 then Some (HKY_INET6_ADDRSTRLEN, HKY_INET6_ADDRSTRLEN + 8)
      else if family = AF_UNIX then Some (HKY_UNIX_ADDRSTRLEN, HKY_UNIX_ADDRSTRLEN)
      else if family = AF_INET then Some (HKY_INET_ADDRSTRLEN, HKY_INET_ADDRSTRLEN + 6)
      else None)"

text \<open>The options of an entry whose address is known: those of stream sockets, the buffers, all.\<close>

definition inherited_fastopen :: "listen_conf \<Rightarrow> sock_info \<Rightarrow> listen_os \<Rightarrow> hky_listening \<Rightarrow> listen_trace \<Rightarrow> hky_listening \<times> listen_trace" where
  "inherited_fastopen conf si os l tr =
     (if have_fastopen conf then
        let (r, err, tr) = sys_call os (L_getsockopt (l_fd l) ''TCP_FASTOPEN'') tr in
        if r = -1 then (l\<lparr>l_fastopen := -1\<rparr>,
          if err \<noteq> HKY_EOPNOTSUPP \<and> err \<noteq> HKY_ENOPROTOOPT then log_msg 6 ''getsockopt(TCP_FASTOPEN) failed, ignored'' tr else tr)
        else (l\<lparr>l_fastopen := si_option si (l_fd l) ''TCP_FASTOPEN''\<rparr>, tr)
      else (l, tr))"

definition inherited_deferred :: "listen_conf \<Rightarrow> sock_info \<Rightarrow> listen_os \<Rightarrow> hky_listening \<Rightarrow> listen_trace \<Rightarrow> hky_listening \<times> listen_trace" where
  "inherited_deferred conf si os l tr =
     (if have_deferred conf then
        let (r, err, tr) = sys_call os (L_getsockopt (l_fd l) ''TCP_DEFER_ACCEPT'') tr in
        if r = -1 then (l, if err = HKY_EOPNOTSUPP then tr else log_msg 6 ''getsockopt(TCP_DEFER_ACCEPT) failed, ignored'' tr)
        else if si_option si (l_fd l) ''TCP_DEFER_ACCEPT'' = 0 then (l, tr)
        else (l\<lparr>l_deferred_accept := True\<rparr>, tr)
      else (l, tr))"

definition inherited_buffers :: "listen_conf \<Rightarrow> sock_info \<Rightarrow> listen_os \<Rightarrow> hky_listening \<Rightarrow> listen_trace \<Rightarrow> hky_listening \<times> listen_trace" where
  "inherited_buffers conf si os l tr =
     (let fd = l_fd l;
          (ok, tr) = try_call os (L_getsockopt fd ''SO_RCVBUF'') 2 ''getsockopt(SO_RCVBUF) failed, ignored'' tr;
          l = l\<lparr>l_rcvbuf := if ok then si_option si fd ''SO_RCVBUF'' else -1\<rparr>;
          (ok, tr) = try_call os (L_getsockopt fd ''SO_SNDBUF'') 2 ''getsockopt(SO_SNDBUF) failed, ignored'' tr;
          l = l\<lparr>l_sndbuf := if ok then si_option si fd ''SO_SNDBUF'' else -1\<rparr>
      in if have_reuseport conf then
           let (ok, tr) = try_call os (L_getsockopt fd ''SO_REUSEPORT'') 2 ''getsockopt(SO_REUSEPORT) failed, ignored'' tr
           in (if ok then l\<lparr>l_reuseport := si_option si fd ''SO_REUSEPORT'' \<noteq> 0\<rparr> else l, tr)
         else (l, tr))"

definition inherited_options :: "listen_conf \<Rightarrow> sock_info \<Rightarrow> listen_os \<Rightarrow> hky_listening \<Rightarrow> listen_trace \<Rightarrow> hky_listening \<times> listen_trace" where
  "inherited_options conf si os l tr =
     (let (ok, tr) = try_call os (L_getsockopt (l_fd l) ''SO_TYPE'') 3 ''getsockopt(SO_TYPE) failed'' tr in
      if \<not> ok then (l\<lparr>l_ignore := True\<rparr>, tr)
      else
        let (l, tr) = inherited_buffers conf si os (l\<lparr>l_type := si_option si (l_fd l) ''SO_TYPE''\<rparr>) tr
        in if l_type l \<noteq> SOCK_STREAM then (l, tr)
           else let (l, tr) = inherited_fastopen conf si os l tr in inherited_deferred conf si os l tr)"

definition inherited_socket ::
  "listen_conf \<Rightarrow> sock_info \<Rightarrow> listen_os \<Rightarrow> allocator \<Rightarrow> hky_listening \<Rightarrow> hky_pool \<Rightarrow> listen_trace \<Rightarrow>
     (bool \<times> hky_listening \<times> hky_pool \<times> listen_trace) option" where
  "inherited_socket conf si os alloc l pool tr =
     (let (a, pool) = hky_palloc alloc sizeof_hky_sockaddr pool in
      if a = 0 then Some (True, l, pool, tr)
      else let (ok, tr) = try_call os (L_getsockname (l_fd l)) 3 ''getsockname() of the inherited socket failed'' tr in
        if \<not> ok then Some (False, l\<lparr>l_socklen := sizeof_hky_sockaddr, l_ignore := True\<rparr>, pool, tr)
        else
          let (sa, socklen) = si_name si (l_fd l);
              l = l\<lparr>l_sockaddr := sa, l_socklen := min socklen sizeof_hky_sockaddr\<rparr>
          in case addr_text_sizes (sa_family_of sa) of
               None \<Rightarrow> Some (False, l\<lparr>l_ignore := True\<rparr>, pool,
                 log_msg 3 ''the inherited socket has an unsupported protocol family'' tr)
             | Some (max_len, len) \<Rightarrow>
                 let l = l\<lparr>l_addr_text_max_len := max_len\<rparr>; (t, pool) = hky_pnalloc alloc len pool in
                 if t = 0 then Some (True, l, pool, tr)
                 else (case hky_sock_ntop sa (l_socklen l) t len True of None \<Rightarrow> None
                   | Some (tx, n) \<Rightarrow>
                       if n = 0 then Some (True, l, pool, tr)
                       else let l = l\<lparr>l_addr_text := take n tx, l_backlog := HKY_LISTEN_BACKLOG\<rparr>;
                                (l, tr) = inherited_options conf si os l tr
                            in Some (False, l, pool, tr)))"

fun hky_set_inherited_sockets ::
  "listen_conf \<Rightarrow> sock_info \<Rightarrow> listen_os \<Rightarrow> allocator \<Rightarrow> hky_listening list \<Rightarrow> hky_pool \<Rightarrow> listen_trace \<Rightarrow>
     (int \<times> hky_listening list \<times> hky_pool \<times> listen_trace) option" where
  "hky_set_inherited_sockets conf si os alloc [] pool tr = Some (HKY_OK, [], pool, tr)"
| "hky_set_inherited_sockets conf si os alloc (l # ls) pool tr =
     (case inherited_socket conf si os alloc l pool tr of
        None \<Rightarrow> None
      | Some (True, l, pool, tr) \<Rightarrow> Some (HKY_ERROR, l # ls, pool, tr)
      | Some (False, l, pool, tr) \<Rightarrow>
          map_option (\<lambda>(rc, ls, r). (rc, l # ls, r)) (hky_set_inherited_sockets conf si os alloc ls pool tr))"

section \<open>Options of the sockets in use\<close>

text \<open>An option that is set when \<open>P\<close> holds; a failure is logged.\<close>

definition put_option :: "bool \<Rightarrow> listen_os \<Rightarrow> int \<Rightarrow> string \<Rightarrow> int \<Rightarrow> listen_trace \<Rightarrow> listen_trace" where
  "put_option P os fd name v tr =
     (if P then snd (try_call os (L_setsockopt fd name v) 2 (''setsockopt('' @ name @ '') failed, ignored'') tr) else tr)"

definition set_packet_info :: "listen_conf \<Rightarrow> listen_os \<Rightarrow> hky_listening \<Rightarrow> listen_trace \<Rightarrow> listen_trace" where
  "set_packet_info conf os l tr =
     (let dgram = l_wildcard l \<and> l_type l = SOCK_DGRAM; family = sa_family_of (l_sockaddr l);
          tr = put_option (have_pktinfo conf \<and> dgram \<and> family = AF_INET) os (l_fd l) ''IP_PKTINFO'' 1 tr
      in put_option (have_recvpktinfo conf \<and> dgram \<and> family = AF_INET6) os (l_fd l) ''IPV6_RECVPKTINFO'' 1 tr)"

definition set_tcp_options :: "listen_conf \<Rightarrow> listen_os \<Rightarrow> hky_listening \<Rightarrow> listen_trace \<Rightarrow> listen_trace" where
  "set_tcp_options conf os l tr =
     (let fd = l_fd l; tunable = have_keepalive_tunable conf;
          tr = put_option (l_rcvbuf l \<noteq> -1) os fd ''SO_RCVBUF'' (l_rcvbuf l) tr;
          tr = put_option (l_sndbuf l \<noteq> -1) os fd ''SO_SNDBUF'' (l_sndbuf l) tr;
          tr = put_option (l_keepalive l \<noteq> 0) os fd ''SO_KEEPALIVE'' (of_bool (l_keepalive l = 1)) tr;
          tr = put_option (tunable \<and> l_keepidle l \<noteq> 0) os fd ''TCP_KEEPIDLE'' (l_keepidle l) tr;
          tr = put_option (tunable \<and> l_keepintvl l \<noteq> 0) os fd ''TCP_KEEPINTVL'' (l_keepintvl l) tr;
          tr = put_option (tunable \<and> l_keepcnt l \<noteq> 0) os fd ''TCP_KEEPCNT'' (l_keepcnt l) tr
      in put_option (have_fastopen conf \<and> l_fastopen l \<noteq> -1) os fd ''TCP_FASTOPEN'' (l_fastopen l) tr)"

definition configure_listening :: "listen_conf \<Rightarrow> listen_os \<Rightarrow> hky_listening \<Rightarrow> listen_trace \<Rightarrow> hky_listening \<times> listen_trace" where
  "configure_listening conf os l tr =
     (let l = l\<lparr>l_log := l_logp l\<rparr>; tr = set_tcp_options conf os l tr;
          tr = (if l_listen l then snd (try_call os (L_listen (l_fd l) (l_backlog l)) 2 ''listen() failed, ignored'' tr) else tr);
          (ok, tr) = (if have_deferred conf \<and> (l_add_deferred l \<or> l_delete_deferred l)
            then try_call os (L_setsockopt (l_fd l) ''TCP_DEFER_ACCEPT'' (of_bool (l_add_deferred l))) 2
              ''setsockopt(TCP_DEFER_ACCEPT) failed, ignored'' tr
            else (True, tr))
      in if \<not> ok then (l, tr)
         else (if have_deferred conf \<and> l_add_deferred l then l\<lparr>l_deferred_accept := True\<rparr> else l, set_packet_info conf os l tr))"

fun hky_configure_listening_sockets :: "listen_conf \<Rightarrow> listen_os \<Rightarrow> hky_listening list \<Rightarrow> listen_trace \<Rightarrow> hky_listening list \<times> listen_trace" where
  "hky_configure_listening_sockets conf os [] tr = ([], tr)"
| "hky_configure_listening_sockets conf os (l # ls) tr =
     (let (l, tr) = configure_listening conf os l tr; (ls, tr) = hky_configure_listening_sockets conf os ls tr in (l # ls, tr))"

text \<open>Configuring the sockets opens and closes none and leaves their numbers as they are.\<close>

lemma put_option_gains [intro]: "gains tr0 tr M \<Longrightarrow> gains tr0 (put_option P os fd name v tr) M"
  by (simp add: put_option_def gains_trans0 [OF _ gains_try_snd])

lemma set_tcp_options_gains: "gains tr (set_tcp_options conf os l tr) {#}"
  unfolding set_tcp_options_def Let_def by (intro put_option_gains gains_refl)

lemma set_packet_info_gains: "gains tr (set_packet_info conf os l tr) {#}"
  unfolding set_packet_info_def Let_def by (intro put_option_gains gains_refl)

lemma configure_listening_gains:
  assumes "configure_listening conf os l tr = (l', tr')"
  shows "gains tr tr' {#} \<and> l_fd l' = l_fd l"
proof -
  define k where "k = l\<lparr>l_log := l_logp l\<rparr>"
  define t1 where "t1 = (if l_listen k then snd (try_call os (L_listen (l_fd k) (l_backlog k)) 2 ''listen() failed, ignored''
      (set_tcp_options conf os k tr)) else set_tcp_options conf os k tr)"
  have g1: "gains tr t1 {#}"
    using gains_trans0 [OF set_tcp_options_gains gains_try_snd] set_tcp_options_gains by (simp add: t1_def)
  obtain ok t2 where 2: "(if have_deferred conf \<and> (l_add_deferred k \<or> l_delete_deferred k)
      then try_call os (L_setsockopt (l_fd k) ''TCP_DEFER_ACCEPT'' (of_bool (l_add_deferred k))) 2
        ''setsockopt(TCP_DEFER_ACCEPT) failed, ignored'' t1 else (True, t1)) = (ok, t2)" by fastforce
  have g2: "gains tr t2 {#}" using gains_trans0 [OF g1 gains_opt [OF 2]] by simp
  have "(l', tr') = (if \<not> ok then (k, t2)
      else (if have_deferred conf \<and> l_add_deferred k then k\<lparr>l_deferred_accept := True\<rparr> else k, set_packet_info conf os k t2))"
    unfolding assms [symmetric] configure_listening_def Let_def k_def [symmetric] t1_def [symmetric] 2 prod.case by simp
  then show ?thesis
    using g2 gains_trans0 [OF g2 set_packet_info_gains] by (auto simp: k_def split: if_splits)
qed

lemma configure_listening_sockets_gains:
  "hky_configure_listening_sockets conf os ls tr = (ls', tr') \<Longrightarrow> gains tr tr' {#} \<and> map l_fd ls' = map l_fd ls"
proof (induction ls arbitrary: tr ls')
  case (Cons l ls)
  obtain l1 t where l: "configure_listening conf os l tr = (l1, t)" by fastforce
  obtain ls1 where ls: "hky_configure_listening_sockets conf os ls t = (ls1, tr')" "ls' = l1 # ls1"
    using Cons.prems l by (auto split: prod.splits)
  show ?case using configure_listening_gains [OF l] Cons.IH [OF ls(1)] ls(2) gains_trans0 by auto
qed auto

lemma inherited_fastopen_gains:
  "inherited_fastopen conf si os l tr = (l', tr') \<Longrightarrow> gains tr tr' {#} \<and> l_fd l' = l_fd l \<and> l_type l' = l_type l"
  by (auto simp: inherited_fastopen_def split: prod.splits if_splits intro: gains_trans0 [OF gains_sys gains_log])

lemma inherited_deferred_gains:
  "inherited_deferred conf si os l tr = (l', tr') \<Longrightarrow> gains tr tr' {#} \<and> l_fd l' = l_fd l \<and> l_type l' = l_type l"
  by (auto simp: inherited_deferred_def split: prod.splits if_splits intro: gains_trans0 [OF gains_sys gains_log])

lemma inherited_buffers_gains:
  assumes "inherited_buffers conf si os l tr = (l', tr')"
  shows "gains tr tr' {#} \<and> l_fd l' = l_fd l \<and> l_type l' = l_type l"
proof -
  obtain ok1 t1 where 1: "try_call os (L_getsockopt (l_fd l) ''SO_RCVBUF'') 2 ''getsockopt(SO_RCVBUF) failed, ignored'' tr = (ok1, t1)"
    by fastforce
  obtain ok2 t2 where 2: "try_call os (L_getsockopt (l_fd l) ''SO_SNDBUF'') 2 ''getsockopt(SO_SNDBUF) failed, ignored'' t1 = (ok2, t2)"
    by fastforce
  obtain ok3 t3 where 3: "try_call os (L_getsockopt (l_fd l) ''SO_REUSEPORT'') 2 ''getsockopt(SO_REUSEPORT) failed, ignored'' t2 = (ok3, t3)"
    by fastforce
  have g2: "gains tr t2 {#}" using gains_trans0 [OF gains_try [OF 1] gains_try [OF 2]] by simp
  have g3: "gains tr t3 {#}" using gains_trans0 [OF g2 gains_try [OF 3]] by simp
  show ?thesis using assms g2 g3 unfolding inherited_buffers_def Let_def 1 2 3 prod.case by (simp split: if_splits) auto
qed

text \<open>What is read of an inherited socket: its kind, or the entry is ignored.\<close>

lemma inherited_options_gains:
  assumes "inherited_options conf si os l tr = (l', tr')"
  shows "gains tr tr' {#} \<and> l_fd l' = l_fd l \<and> (l_ignore l' \<or> l_type l' = si_option si (l_fd l) ''SO_TYPE'')"
proof -
  obtain ok t where 1: "try_call os (L_getsockopt (l_fd l) ''SO_TYPE'') 3 ''getsockopt(SO_TYPE) failed'' tr = (ok, t)" by fastforce
  have g1: "gains tr t {#}" using gains_try [OF 1] by simp
  obtain l2 t2 where 2: "inherited_buffers conf si os (l\<lparr>l_type := si_option si (l_fd l) ''SO_TYPE''\<rparr>) t = (l2, t2)" by fastforce
  obtain l3 t3 where 3: "inherited_fastopen conf si os l2 t2 = (l3, t3)" by fastforce
  obtain l4 t4 where 4: "inherited_deferred conf si os l3 t3 = (l4, t4)" by fastforce
  note i2 = inherited_buffers_gains [OF 2] and i3 = inherited_fastopen_gains [OF 3] and i4 = inherited_deferred_gains [OF 4]
  have g2: "gains tr t2 {#}" using gains_trans0 [OF g1] i2 by blast
  have g4: "gains tr t4 {#}" using gains_trans0 [OF gains_trans0 [OF g2]] i3 i4 by blast
  have "(l', tr') = (if \<not> ok then (l\<lparr>l_ignore := True\<rparr>, t) else if l_type l2 \<noteq> SOCK_STREAM then (l2, t2) else (l4, t4))"
    unfolding assms [symmetric] inherited_options_def Let_def 1 2 3 4 prod.case by simp
  then show ?thesis using g1 g2 g4 i2 i3 i4 by (auto split: if_splits)
qed

end
