(* ===== verification/Hky_Open_Files.thy ===== *)
theory Hky_Open_Files
  imports Hky_Array "HOL-Library.Multiset"
begin

text \<open>
  Files by name: full names and writing (src/core/hky_file.c, src/unix/hky_files.c), the list of open
  files of a cycle (\<open>hky_conf_open_file\<close> of src/core/hky_conf_file.c), and how \<open>hky_init_cycle\<close>
  opens and closes the files of that list (src/core/hky_cycle.c). Names are their bytes, without
  the NUL behind them. The entries of the list are found at the addresses of its elements.
\<close>

section \<open>Full names\<close>

text \<open>\<open>name->data[0]\<close> of an empty name is a byte the model does not have: \<open>None\<close>.\<close>

definition hky_test_full_name :: "byte list \<Rightarrow> int option" where
  "hky_test_full_name name = (case name of [] \<Rightarrow> None | c # _ \<Rightarrow> Some (if c = 47 then HKY_OK else HKY_DECLINED))"

text \<open>\<open>hky_cpystrn\<close> copies up to a NUL; the bytes behind one would be uninitialised.\<close>

definition hky_get_full_name :: "allocator \<Rightarrow> byte list \<Rightarrow> byte list \<Rightarrow> hky_pool \<Rightarrow> (int \<times> byte list \<times> hky_pool) option" where
  "hky_get_full_name os prefix name pool =
     (case hky_test_full_name name of None \<Rightarrow> None
      | Some rc \<Rightarrow>
          if rc = HKY_OK then Some (rc, name, pool)
          else let (n, pool) = hky_pnalloc os (length prefix + length name + 1) pool in
            if n = 0 then Some (HKY_ERROR, name, pool)
            else if 0 \<in> set name then None
            else Some (HKY_OK, prefix @ name, pool))"

definition hky_conf_full_name :: "allocator \<Rightarrow> byte list \<Rightarrow> byte list \<Rightarrow> bool \<Rightarrow> byte list \<Rightarrow> hky_pool \<Rightarrow> (int \<times> byte list \<times> hky_pool) option" where
  "hky_conf_full_name os conf_prefix_text prefix conf_prefix name pool =
     hky_get_full_name os (if conf_prefix then conf_prefix_text else prefix) name pool"

section \<open>The open files of a cycle\<close>

record hky_open_file =
  of_fd :: int
  of_name :: "byte list"

record open_files =
  fs_prefix :: "byte list"
  fs_list :: hky_list
  fs_file :: "nat \<Rightarrow> hky_open_file"
  fs_pool :: hky_pool

text \<open>\<open>strcmp\<close> of two names of the same length.\<close>

definition file_name_eq :: "byte list \<Rightarrow> byte list \<Rightarrow> bool" where
  "file_name_eq a b \<longleftrightarrow> length a = length b \<and> takeWhile (\<lambda>c. c \<noteq> 0) a = takeWhile (\<lambda>c. c \<noteq> 0) b"

text \<open>The new entry; \<open>full\<close> is the full name of a name that is not empty.\<close>

definition push_open_file :: "allocator \<Rightarrow> byte list \<Rightarrow> open_files \<Rightarrow> nat \<times> open_files" where
  "push_open_file os full s =
     (let (file, l, pool) = hky_list_push os (fs_list s) (fs_pool s); s = s\<lparr>fs_list := l, fs_pool := pool\<rparr> in
      if file = 0 then (0, s)
      else (file, s\<lparr>fs_file := (fs_file s)(file := \<lparr>of_fd = if full = [] then 2 else -1, of_name = full\<rparr>)\<rparr>))"

text \<open>The address of the entry, or \<open>NULL\<close>.\<close>

definition hky_conf_open_file :: "allocator \<Rightarrow> byte list \<Rightarrow> open_files \<Rightarrow> (nat \<times> open_files) option" where
  "hky_conf_open_file os name s =
     (if name = [] then Some (push_open_file os [] s)
      else case hky_get_full_name os (fs_prefix s) name (fs_pool s) of None \<Rightarrow> None
      | Some (rc, full, pool) \<Rightarrow>
          let s = s\<lparr>fs_pool := pool\<rparr> in
          if rc \<noteq> HKY_OK then Some (0, s)
          else (case find (\<lambda>f. file_name_eq full (of_name (fs_file s f))) (list_elements (fs_list s)) of
              Some f \<Rightarrow> Some (f, s)
            | None \<Rightarrow> Some (push_open_file os full s)))"

section \<open>Opening and closing the files of a cycle\<close>

datatype file_call =
    F_open "byte list" | F_cloexec int | F_close int | F_log nat string "byte list"

type_synonym file_trace = "(file_call \<times> int) list"
type_synonym file_os = "file_trace \<Rightarrow> file_call \<Rightarrow> int"

definition file_sys :: "file_os \<Rightarrow> file_call \<Rightarrow> file_trace \<Rightarrow> int \<times> file_trace" where
  "file_sys os call tr = (let r = os tr call in (r, tr @ [(call, r)]))"

definition file_log :: "nat \<Rightarrow> string \<Rightarrow> byte list \<Rightarrow> file_trace \<Rightarrow> file_trace" where
  "file_log level message name tr = tr @ [(F_log level message name, 0)]"

text \<open>All entries with a name are opened; the first component is false at the jump to \<open>failed\<close>.\<close>

fun open_all :: "file_os \<Rightarrow> hky_open_file list \<Rightarrow> file_trace \<Rightarrow> bool \<times> hky_open_file list \<times> file_trace" where
  "open_all os [] tr = (True, [], tr)"
| "open_all os (f # fs) tr =
     (if of_name f = [] then (case open_all os fs tr of (ok, fs, tr) \<Rightarrow> (ok, f # fs, tr))
      else
        let (fd, tr) = file_sys os (F_open (of_name f)) tr; f = f\<lparr>of_fd := fd\<rparr> in
        if fd = -1 then (False, f # fs, file_log 1 ''open() failed'' (of_name f) tr)
        else let (r, tr) = file_sys os (F_cloexec fd) tr in
          if r = -1 then (False, f # fs, file_log 1 ''fcntl(FD_CLOEXEC) failed'' (of_name f) tr)
          else (case open_all os fs tr of (ok, fs, tr) \<Rightarrow> (ok, f # fs, tr)))"

text \<open>The loop over the files of the old cycle, and over those of a cycle that failed.\<close>

fun close_all :: "file_os \<Rightarrow> hky_open_file list \<Rightarrow> file_trace \<Rightarrow> file_trace" where
  "close_all os [] tr = tr"
| "close_all os (f # fs) tr =
     (if of_fd f = -1 \<or> of_fd f = 2 then close_all os fs tr
      else let (r, tr) = file_sys os (F_close (of_fd f)) tr in
        close_all os fs (if r = -1 then file_log 1 ''close() failed'' (of_name f) tr else tr))"

section \<open>Writing a file\<close>

text \<open>
  \<open>hky_write_file\<close> with \<open>pwrite\<close>, and without it: then \<open>lseek\<close> comes first if the position is not the
  wanted one. \<open>W_fail e\<close> is a failure with \<open>errno = e\<close>, \<open>W_done n\<close> says that \<open>n\<close> bytes were
  taken, at most those that were given. The content of the file is a function of the position.
\<close>

datatype write_reply = W_done nat | W_fail int

record hky_file =
  fl_offset :: int
  fl_sys_offset :: int
  fl_content :: "int \<Rightarrow> byte"

definition put_bytes :: "int \<Rightarrow> byte list \<Rightarrow> (int \<Rightarrow> byte) \<Rightarrow> int \<Rightarrow> byte" where
  "put_bytes off bs c = (\<lambda>i. if off \<le> i \<and> i < off + int (length bs) then bs ! nat (i - off) else c i)"

definition WRITE_EINTR :: int where "WRITE_EINTR = 4"

text \<open>\<open>None\<close>: the replies are used up, the loop still runs.\<close>

fun pwrite_loop :: "write_reply list \<Rightarrow> byte list \<Rightarrow> int \<Rightarrow> int \<Rightarrow> hky_file \<Rightarrow> (int \<times> hky_file) option" where
  "pwrite_loop [] buf off written file = None"
| "pwrite_loop (W_fail err # rs) buf off written file =
     (if err = WRITE_EINTR then pwrite_loop rs buf off written file else Some (HKY_ERROR, file))"
| "pwrite_loop (W_done k # rs) buf off written file =
     (let n = min k (length buf);
          file = file\<lparr>fl_content := put_bytes off (take n buf) (fl_content file), fl_offset := fl_offset file + int n\<rparr>;
          written = written + int n
      in if n = length buf then Some (written, file)
         else pwrite_loop rs (drop n buf) (off + int n) written file)"

fun write_loop :: "write_reply list \<Rightarrow> byte list \<Rightarrow> int \<Rightarrow> hky_file \<Rightarrow> (int \<times> hky_file) option" where
  "write_loop [] buf written file = None"
| "write_loop (W_fail err # rs) buf written file =
     (if err = WRITE_EINTR then write_loop rs buf written file else Some (HKY_ERROR, file))"
| "write_loop (W_done k # rs) buf written file =
     (let n = min k (length buf);
          file = file\<lparr>fl_content := put_bytes (fl_sys_offset file) (take n buf) (fl_content file),
            fl_sys_offset := fl_sys_offset file + int n, fl_offset := fl_offset file + int n\<rparr>;
          written = written + int n
      in if n = length buf then Some (written, file)
         else write_loop rs (drop n buf) written file)"

definition hky_write_file :: "bool \<Rightarrow> bool \<Rightarrow> write_reply list \<Rightarrow> byte list \<Rightarrow> int \<Rightarrow> hky_file \<Rightarrow> (int \<times> hky_file) option" where
  "hky_write_file have_pwrite lseek_ok rs buf off file =
     (if have_pwrite then pwrite_loop rs buf off 0 file
      else if fl_sys_offset file \<noteq> off then
        if \<not> lseek_ok then Some (HKY_ERROR, file) else write_loop rs buf 0 (file\<lparr>fl_sys_offset := off\<rparr>)
      else write_loop rs buf 0 file)"

section \<open>The list has every file once\<close>

definition files_ok :: "allocator \<Rightarrow> open_files \<Rightarrow> region list \<Rightarrow> bool" where
  "files_ok os s cs \<longleftrightarrow> palloc_inv_of os (fs_pool s) cs \<and> list_ok (fs_list s) cs \<and> 0 < ls_size (fs_list s)"

definition file_entries :: "open_files \<Rightarrow> nat list" where
  "file_entries s = list_elements (fs_list s)"

definition file_names :: "open_files \<Rightarrow> byte list list" where
  "file_names s = filter (\<lambda>n. n \<noteq> []) (map (\<lambda>f. of_name (fs_file s f)) (file_entries s))"

definition full_name :: "byte list \<Rightarrow> byte list \<Rightarrow> byte list" where
  "full_name prefix name = (if name \<noteq> [] \<and> hd name \<noteq> 47 then prefix @ name else name)"

lemma distinct_iff_neq: "distinct xs \<longleftrightarrow> sorted_wrt (\<noteq>) xs"
  by (induction xs) auto

lemma entries_distinct:
  assumes "list_ok l cs" "0 < ls_size l" shows "distinct (list_elements l)"
proof -
  have "sorted_wrt disj (map (\<lambda>a. (a, ls_size l)) (list_elements l))" by (rule list_elements_disj [OF assms(1)])
  then have "sorted_wrt (\<noteq>) (list_elements l)"
    unfolding sorted_wrt_map by (rule sorted_wrt_mono_rel [rotated]) (use assms(2) in \<open>auto simp: disj_def\<close>)
  then show ?thesis by (simp add: distinct_iff_neq)
qed

lemma push_open_file_ok:
  assumes "files_ok os s cs" "push_open_file os full s = (f, s')"
  shows "\<exists>new. files_ok os s' (new @ cs) \<and> fs_prefix s' = fs_prefix s \<and> (\<forall>g\<in>set (file_entries s). fs_file s' g = fs_file s g) \<and>
    (if f = 0 then file_entries s' = file_entries s
     else file_entries s' = file_entries s @ [f] \<and> fs_file s' f = \<lparr>of_fd = if full = [] then 2 else -1, of_name = full\<rparr>)"
proof -
  obtain l pool where u: "hky_list_push os (fs_list s) (fs_pool s) = (f, l, pool)"
    using assms(2) by (auto simp: push_open_file_def Let_def split: prod.splits if_splits)
  obtain new where new: "palloc_inv_of os pool (new @ cs)" "list_ok l (new @ cs)"
    "if f = 0 then l = fs_list s else list_elements l = list_elements (fs_list s) @ [f] \<and> ls_size l = ls_size (fs_list s)"
    using palloc.list_push_ok [of os "fs_pool s" cs "fs_list s" f l pool] assms(1) u
    by (auto simp: files_ok_def hky_list_push_def)
  show ?thesis
  proof (cases "f = 0")
    case True
    then have "s' = s\<lparr>fs_pool := pool\<rparr>" using assms(2) u new(3) by (auto simp: push_open_file_def)
    then show ?thesis using True new assms(1) by (intro exI [of _ new]) (simp add: files_ok_def file_entries_def)
  next
    case False
    have s': "s' = s\<lparr>fs_list := l, fs_pool := pool,
        fs_file := (fs_file s)(f := \<lparr>of_fd = if full = [] then 2 else -1, of_name = full\<rparr>)\<rparr>"
      using assms(2) u False by (auto simp: push_open_file_def)
    have "distinct (list_elements l)" using entries_distinct [OF new(2)] new(3) False assms(1) by (simp add: files_ok_def)
    then have "f \<notin> set (list_elements (fs_list s))" using new(3) False by simp
    then show ?thesis using new assms(1) False
      by (intro exI [of _ new]) (auto simp: files_ok_def file_entries_def s')
  qed
qed

lemma cstr_id: "0 \<notin> set s \<Longrightarrow> takeWhile (\<lambda>c. c \<noteq> 0) s = (s :: byte list)"
  by (induction s) auto

lemma file_name_eq_iff: "0 \<notin> set a \<Longrightarrow> 0 \<notin> set b \<Longrightarrow> file_name_eq a b \<longleftrightarrow> a = b"
  by (auto simp: file_name_eq_def cstr_id)

lemma full_name_text:
  assumes "hky_get_full_name os prefix name pool = Some (HKY_OK, full, pool')"
  shows "full = full_name prefix name"
  using assms by (auto simp: hky_get_full_name_def hky_test_full_name_def full_name_def hky_consts Let_def
      split: list.splits prod.splits if_splits)

lemma full_name_pool:
  assumes "hky_get_full_name os prefix name pool = Some (rc, full, pool')" "palloc_inv_of os pool cs"
  shows "\<exists>new. palloc_inv_of os pool' (new @ cs)"
proof (cases "pool' = pool")
  case True
  then show ?thesis using assms(2) by (intro exI [of _ "[]"]) simp
next
  case False
  then obtain n where n: "hky_pnalloc os (length prefix + length name + 1) pool = (n, pool')"
    using assms(1) by (auto simp: hky_get_full_name_def Let_def split: option.splits prod.splits if_splits)
  show ?thesis
  proof (cases "n = 0")
    case True
    then show ?thesis using pnalloc.alloc_null [OF assms(2)] n by (intro exI [of _ "[]"]) simp
  next
    case False
    then show ?thesis using pnalloc.alloc_fresh [OF assms(2) n] by (metis append_Cons append_Nil)
  qed
qed

lemma list_ok_more: "list_ok l cs \<Longrightarrow> list_ok l (new @ cs)"
  by (auto simp: list_ok_def)

lemma find_entry:
  assumes "\<forall>f\<in>set es. 0 \<notin> set (nm f)" "0 \<notin> set full"
  shows "find (\<lambda>f. file_name_eq full (nm f)) es = None \<longleftrightarrow> full \<notin> nm ` set es"
    "find (\<lambda>f. file_name_eq full (nm f)) es = Some f \<Longrightarrow> f \<in> set es \<and> nm f = full"
proof -
  have e: "file_name_eq full (nm g) \<longleftrightarrow> nm g = full" if "g \<in> set es" for g
    using file_name_eq_iff [OF assms(2)] assms(1) that by metis
  show "find (\<lambda>f. file_name_eq full (nm f)) es = None \<longleftrightarrow> full \<notin> nm ` set es"
    using e by (auto simp: find_None_iff)
  assume "find (\<lambda>f. file_name_eq full (nm f)) es = Some f"
  then have "f \<in> set es" "file_name_eq full (nm f)" by (auto simp: find_Some_iff)
  then show "f \<in> set es \<and> nm f = full" using e by blast
qed

text \<open>
  C37: \<open>hky_conf_open_file\<close>. An entry for a name is looked for by its full name, which is the prefix
  and the name unless the name starts with a slash; so every file is in the list once, and a
  second call with the same name gives the entry of the first. A name that is new adds one entry
  with this name and no descriptor behind the others; without memory the result is \<open>NULL\<close>. No entry
  that was in the list changes, and the pool and the list stay sound.
\<close>

theorem conf_open_file_correct:
  assumes ok: "files_ok os s cs" and names: "distinct (file_names s)" "\<forall>n\<in>set (file_names s). 0 \<notin> set n"
    and name: "name \<noteq> []" "0 \<notin> set (fs_prefix s @ name)"
    and call: "hky_conf_open_file os name s = Some (f, s')"
  shows "(\<exists>new. files_ok os s' (new @ cs)) \<and> (\<forall>g\<in>set (file_entries s). fs_file s' g = fs_file s g) \<and>
    distinct (file_names s') \<and>
    (let full = full_name (fs_prefix s) name in
     if f = 0 then file_entries s' = file_entries s
     else if full \<in> set (file_names s) then file_entries s' = file_entries s \<and> f \<in> set (file_entries s) \<and> of_name (fs_file s f) = full
     else file_entries s' = file_entries s @ [f] \<and> fs_file s' f = \<lparr>of_fd = -1, of_name = full\<rparr>)"
proof -
  obtain rc full pool where g: "hky_get_full_name os (fs_prefix s) name (fs_pool s) = Some (rc, full, pool)"
    using call name(1) by (auto simp: hky_conf_open_file_def split: option.splits)
  let ?s = "s\<lparr>fs_pool := pool\<rparr>"
  obtain n0 where n0: "palloc_inv_of os pool (n0 @ cs)" using full_name_pool [OF g] ok by (auto simp: files_ok_def)
  then have ok0: "files_ok os ?s (n0 @ cs)" using ok list_ok_more by (auto simp: files_ok_def)
  have same: "file_entries ?s = file_entries s" "fs_file ?s = fs_file s" "file_names ?s = file_names s"
    by (simp_all add: file_entries_def file_names_def)
  show ?thesis
  proof (cases "rc = HKY_OK")
    case False
    then have "f = 0" "s' = ?s" using call name(1) g by (auto simp: hky_conf_open_file_def Let_def)
    then show ?thesis using ok0 same names by (auto simp: Let_def)
  next
    case True
    then have full: "full = full_name (fs_prefix s) name" using full_name_text g by blast
    then have nz: "0 \<notin> set full" "full \<noteq> []" using name by (auto simp: full_name_def)
    let ?nm = "\<lambda>f. of_name (fs_file s f)"
    have entries: "\<forall>e\<in>set (file_entries s). 0 \<notin> set (?nm e)" using names(2) by (fastforce simp: file_names_def)
    have mem: "full \<in> ?nm ` set (file_entries s) \<longleftrightarrow> full \<in> set (file_names s)"
      using nz(2) by (auto simp: file_names_def)
    note fe = find_entry [OF entries nz(1)]
    have c: "(case find (\<lambda>f. file_name_eq full (?nm f)) (file_entries s) of
        Some f \<Rightarrow> Some (f, ?s) | None \<Rightarrow> Some (push_open_file os full ?s)) = Some (f, s')"
      using call name(1) g True by (simp add: hky_conf_open_file_def Let_def file_entries_def)
    show ?thesis
    proof (cases "full \<in> set (file_names s)")
      case True
      then obtain e where e: "find (\<lambda>f. file_name_eq full (?nm f)) (file_entries s) = Some e" using fe(1) mem by auto
      then have "f = e" "s' = ?s" using c by auto
      then show ?thesis using True ok0 same names fe(2) [OF e] full by (auto simp: Let_def)
    next
      case False
      then have p: "push_open_file os full ?s = (f, s')" using c fe(1) mem by simp
      obtain new where new: "files_ok os s' (new @ n0 @ cs)" "\<forall>g\<in>set (file_entries s). fs_file s' g = fs_file s g"
        "if f = 0 then file_entries s' = file_entries s
         else file_entries s' = file_entries s @ [f] \<and> fs_file s' f = \<lparr>of_fd = -1, of_name = full\<rparr>"
        using push_open_file_ok [OF ok0 p] nz(2) same by auto
      have "map (\<lambda>f. of_name (fs_file s' f)) (file_entries s) = map ?nm (file_entries s)" using new(2) by simp
      then have "file_names s' = file_names s @ (if f = 0 then [] else [full])"
        using new(3) nz(2) unfolding file_names_def by (auto split: if_splits simp del: map_eq_conv)
      then have "distinct (file_names s')" using names(1) False by simp
      then show ?thesis using new False full by (auto simp: Let_def simp flip: append_assoc)
    qed
  qed
qed

text \<open>An empty list of files in a fresh pool.\<close>

definition sample_files :: open_files where
  "sample_files = (let (l, pool) = hky_list_create bump_os 2 40 sample_pool in
     \<lparr>fs_prefix = bytes_of ''/etc/'', fs_list = the l, fs_file = (\<lambda>_. \<lparr>of_fd = -1, of_name = []\<rparr>), fs_pool = pool\<rparr>)"

lemma sample_files_list: "hky_list_create bump_os 2 40 sample_pool =
    (Some \<lparr>ls_parts = [\<lparr>lp_elts = 4232, lp_nelts = 0\<rparr>], ls_size = 40, ls_nalloc = 2\<rparr>,
     sample_pool\<lparr>p_blocks := [\<lparr>d_base = 4096, d_last = 4312, d_end = 5120, d_failed = 0\<rparr>]\<rparr>)"
  by (simp add: hky_list_create_def list_create_def list_init_def sample_pool_def hky_create_pool_def hky_memalign_def bump_os_def
      boot_def pool_sizes Let_def HKY_MAX_ALLOC_FROM_POOL_def hky_palloc_def hky_palloc_small_def sys.defs hky_pool.defs
      size_t_def align_8 mul64_def sizeof_list_def)

lemma sample_files_value: "sample_files = \<lparr>fs_prefix = bytes_of ''/etc/'',
    fs_list = \<lparr>ls_parts = [\<lparr>lp_elts = 4232, lp_nelts = 0\<rparr>], ls_size = 40, ls_nalloc = 2\<rparr>,
    fs_file = (\<lambda>_. \<lparr>of_fd = -1, of_name = []\<rparr>),
    fs_pool = \<lparr>sys_live = [(4096, 1024)], sys_store = \<lambda>a. 0, p_blocks = [\<lparr>d_base = 4096, d_last = 4312, d_end = 5120, d_failed = 0\<rparr>],
      p_max = 944, p_current = 0, p_chain = 0, p_large = [], p_cleanup = []\<rparr>\<rparr>"
  by (simp add: sample_files_def sample_files_list) (simp add: sample_pool_def hky_create_pool_def hky_memalign_def bump_os_def
      boot_def pool_sizes Let_def HKY_MAX_ALLOC_FROM_POOL_def sys.defs hky_pool.defs size_t_def align_8)

lemma sample_files_ok: "\<exists>cs. files_ok bump_os sample_files cs \<and> file_entries sample_files = [] \<and> fs_prefix sample_files = bytes_of ''/etc/''"
proof -
  obtain res pool where c: "list_create (hky_palloc bump_os) 2 40 sample_pool = (res, pool)" by fastforce
  then obtain l where l: "res = Some l" using sample_files_list by (auto simp: hky_list_create_def)
  show ?thesis
    using palloc.list_create_ok [OF sample_palloc_inv _ _ _ c] l c
    by (auto simp: sample_files_def hky_list_create_def files_ok_def file_entries_def)
qed

lemma conf_open_file_correct_witness:
  "\<exists>f s'. hky_conf_open_file bump_os (bytes_of ''husky.log'') sample_files = Some (f, s') \<and>
     file_entries s' = [f] \<and> of_name (fs_file s' f) = bytes_of ''/etc/husky.log''"
proof -
  obtain cs where cs: "files_ok bump_os sample_files cs" "file_entries sample_files = []" "fs_prefix sample_files = bytes_of ''/etc/''"
    using sample_files_ok by blast
  have "case hky_conf_open_file bump_os (bytes_of ''husky.log'') sample_files of None \<Rightarrow> False | Some (f, s') \<Rightarrow> f \<noteq> 0"
    unfolding sample_files_value
    by (simp add: hky_conf_open_file_def hky_get_full_name_def hky_test_full_name_def hky_consts pool_sizes Let_def
      hky_pnalloc_def hky_palloc_small_def size_t_def list_elements_def push_open_file_def hky_list_push_def list_push_def)
  then obtain f s' where call: "hky_conf_open_file bump_os (bytes_of ''husky.log'') sample_files = Some (f, s')" "f \<noteq> 0"
    by (auto split: option.splits)
  have "file_names sample_files = []" using cs(2) by (simp add: file_names_def)
  then show ?thesis
    using conf_open_file_correct [OF cs(1) _ _ _ _ call(1)] call cs(2,3) by (simp add: full_name_def)
qed

section \<open>No descriptor is lost\<close>

text \<open>The descriptors that are open after some calls.\<close>

fun files_open :: "file_trace \<Rightarrow> int list \<Rightarrow> int list" where
  "files_open [] fds = fds"
| "files_open ((F_open _, fd) # tr) fds = files_open tr (if fd = -1 then fds else fd # fds)"
| "files_open ((F_close fd, _) # tr) fds = files_open tr (remove1 fd fds)"
| "files_open (_ # tr) fds = files_open tr fds"

lemma files_open_append: "files_open (xs @ ys) fds = files_open ys (files_open xs fds)"
  by (induction xs fds rule: files_open.induct) auto

text \<open>The descriptors of entries that are to be closed: not those of the standard error.\<close>

definition own_fds :: "hky_open_file list \<Rightarrow> int list" where
  "own_fds fs = filter (\<lambda>fd. fd \<noteq> -1 \<and> fd \<noteq> 2) (map of_fd fs)"

lemma own_fds_simps [simp]:
  "own_fds [] = []" "own_fds (f # fs) = (if of_fd f = -1 \<or> of_fd f = 2 then [] else [of_fd f]) @ own_fds fs"
  by (simp_all add: own_fds_def)

lemma open_all_ok:
  assumes "open_all os fs tr = (ok, fs', tr')" "own_fds fs = []" "\<And>tr n. os tr (F_open n) \<noteq> 2"
  shows "\<exists>new. tr' = tr @ new \<and> (\<forall>fds. mset (files_open new fds) = mset fds + mset (own_fds fs')) \<and>
    map of_name fs' = map of_name fs \<and> (ok \<longrightarrow> (\<forall>f\<in>set fs'. of_name f \<noteq> [] \<longrightarrow> of_fd f \<noteq> -1))"
  using assms(1,2)
proof (induction fs arbitrary: tr fs')
  case Nil
  then show ?case by (intro exI [of _ "[]"]) simp
next
  case (Cons f fs)
  have fd: "of_fd f = -1 \<or> of_fd f = 2" "own_fds fs = []" using Cons.prems(2) by (auto split: if_splits)
  define fd where "fd = os tr (F_open (of_name f))"
  define u where "u = tr @ [(F_open (of_name f), fd)]"
  define r where "r = os u (F_cloexec fd)"
  have n2: "fd \<noteq> 2" using assms(3) by (simp add: fd_def)
  have run: "open_all os (f # fs) tr = (if of_name f = [] then (case open_all os fs tr of (ok, fs, tr) \<Rightarrow> (ok, f # fs, tr))
      else if fd = -1 then (False, f\<lparr>of_fd := fd\<rparr> # fs, file_log 1 ''open() failed'' (of_name f) u)
      else if r = -1 then (False, f\<lparr>of_fd := fd\<rparr> # fs, file_log 1 ''fcntl(FD_CLOEXEC) failed'' (of_name f) (u @ [(F_cloexec fd, r)]))
      else (case open_all os fs (u @ [(F_cloexec fd, r)]) of (ok, fs, tr) \<Rightarrow> (ok, f\<lparr>of_fd := fd\<rparr> # fs, tr)))"
    by (simp add: file_sys_def Let_def fd_def u_def r_def)
  consider (unnamed) "of_name f = []" | (no_open) "of_name f \<noteq> []" "fd = -1"
    | (no_flag) "of_name f \<noteq> []" "fd \<noteq> -1" "r = -1" | (opened) "of_name f \<noteq> []" "fd \<noteq> -1" "r \<noteq> -1" by blast
  then show ?case
  proof cases
    case unnamed
    then obtain fs1 where o: "open_all os fs tr = (ok, fs1, tr')" "fs' = f # fs1"
      using Cons.prems(1) by (auto split: prod.splits)
    show ?thesis using Cons.IH [OF o(1) fd(2)] unnamed fd(1) o(2) by auto
  next
    case no_open
    then show ?thesis using Cons.prems(1) run fd(2)
      by (intro exI [of _ "[(F_open (of_name f), fd), (F_log 1 ''open() failed'' (of_name f), 0)]"]) (auto simp: file_log_def u_def)
  next
    case no_flag
    then show ?thesis using Cons.prems(1) run fd(2) n2
      by (intro exI [of _ "[(F_open (of_name f), fd), (F_cloexec fd, r), (F_log 1 ''fcntl(FD_CLOEXEC) failed'' (of_name f), 0)]"])
        (auto simp: file_log_def u_def)
  next
    case opened
    then obtain fs1 where o: "open_all os fs (u @ [(F_cloexec fd, r)]) = (ok, fs1, tr')" "fs' = f\<lparr>of_fd := fd\<rparr> # fs1"
      using Cons.prems(1) run by (auto split: prod.splits)
    obtain new where new: "tr' = (u @ [(F_cloexec fd, r)]) @ new" "\<forall>fds. mset (files_open new fds) = mset fds + mset (own_fds fs1)"
      "map of_name fs1 = map of_name fs" "ok \<longrightarrow> (\<forall>f\<in>set fs1. of_name f \<noteq> [] \<longrightarrow> of_fd f \<noteq> -1)"
      using Cons.IH [OF o(1) fd(2)] by blast
    then show ?thesis using opened n2 o(2)
      by (intro exI [of _ "[(F_open (of_name f), fd), (F_cloexec fd, r)] @ new"]) (auto simp: u_def)
  qed
qed

lemma close_all_ok:
  "\<exists>new. close_all os fs tr = tr @ new \<and> (\<forall>fds. mset (files_open new fds) = mset fds - mset (own_fds fs))"
proof (induction os fs tr rule: close_all.induct)
  case (1 os tr)
  then show ?case by (intro exI [of _ "[]"]) simp
next
  case (2 os f fs tr)
  show ?case
  proof (cases "of_fd f = -1 \<or> of_fd f = 2")
    case True
    then show ?thesis using 2(1) by auto
  next
    case False
    define r where "r = os tr (F_close (of_fd f))"
    define logs :: file_trace where "logs = (if r = -1 then [(F_log 1 ''close() failed'' (of_name f), 0)] else [])"
    have c: "close_all os (f # fs) tr = close_all os fs (tr @ (F_close (of_fd f), r) # logs)"
      using False by (simp add: file_sys_def file_log_def r_def logs_def Let_def)
    have "\<exists>new. close_all os fs (tr @ (F_close (of_fd f), r) # logs) = (tr @ (F_close (of_fd f), r) # logs) @ new \<and>
        (\<forall>fds. mset (files_open new fds) = mset fds - mset (own_fds fs))"
      using 2(2) [OF False, of "(r, tr @ [(F_close (of_fd f), r)])" r "tr @ [(F_close (of_fd f), r)]"] False
      by (simp add: file_sys_def file_log_def r_def logs_def Let_def split: if_splits)
    then obtain new where new: "close_all os fs (tr @ (F_close (of_fd f), r) # logs) = (tr @ (F_close (of_fd f), r) # logs) @ new"
      "\<forall>fds. mset (files_open new fds) = mset fds - mset (own_fds fs)" by blast
    have l: "files_open logs fds = fds" for fds by (simp add: logs_def)
    show ?thesis unfolding c using new False
      by (intro exI [of _ "(F_close (of_fd f), r) # logs @ new"]) (simp add: files_open_append l)
  qed
qed

text \<open>
  The files of a cycle. Entries with a name are opened, and when all succeed each has a
  descriptor. Whatever the kernel answers, the descriptors that opening leaves open are those of
  the entries, so when the cycle fails, closing its entries closes all of them; no file is given
  the number of the standard error, which is never closed.
\<close>

theorem cycle_files_closed:
  assumes "own_fds fs = []" "\<And>tr n. os tr (F_open n) \<noteq> 2" "open_all os fs tr = (ok, fs', tr')"
  shows "map of_name fs' = map of_name fs \<and> (ok \<longrightarrow> (\<forall>f\<in>set fs'. of_name f \<noteq> [] \<longrightarrow> of_fd f \<noteq> -1)) \<and>
    (\<exists>opens. tr' = tr @ opens \<and> (\<forall>fds. mset (files_open opens fds) = mset fds + mset (own_fds fs'))) \<and>
    (\<exists>calls. close_all os fs' tr' = tr @ calls \<and> (\<forall>fds. mset (files_open calls fds) = mset fds))"
proof -
  obtain x where x: "tr' = tr @ x" "\<forall>fds. mset (files_open x fds) = mset fds + mset (own_fds fs')"
    "map of_name fs' = map of_name fs" "ok \<longrightarrow> (\<forall>f\<in>set fs'. of_name f \<noteq> [] \<longrightarrow> of_fd f \<noteq> -1)"
    using open_all_ok [OF assms(3,1,2)] by blast
  obtain y where y: "close_all os fs' tr' = tr' @ y" "\<forall>fds. mset (files_open y fds) = mset fds - mset (own_fds fs')"
    using close_all_ok by blast
  have "close_all os fs' tr' = tr @ (x @ y)" "mset (files_open (x @ y) fds) = mset fds" for fds
    using x y by (simp_all add: files_open_append)
  then show ?thesis using x by blast
qed

lemma cycle_files_closed_witness:
  "\<exists>ok fs' tr'. open_all (\<lambda>tr c. case c of F_open _ \<Rightarrow> 5 | _ \<Rightarrow> -1) [\<lparr>of_fd = -1, of_name = bytes_of ''/log''\<rparr>] [] = (ok, fs', tr') \<and>
     own_fds fs' = [5] \<and> mset (files_open (close_all (\<lambda>tr c. 0) fs' tr') []) = {#}"
proof -
  let ?os = "(\<lambda>tr c. case c of F_open _ \<Rightarrow> 5 | _ \<Rightarrow> -1) :: file_os" and ?fs = "[\<lparr>of_fd = -1, of_name = bytes_of ''/log''\<rparr>]"
  have r: "open_all ?os ?fs [] = (False, [\<lparr>of_fd = 5, of_name = bytes_of ''/log''\<rparr>],
      [(F_open (bytes_of ''/log''), 5), (F_cloexec 5, -1), (F_log 1 ''fcntl(FD_CLOEXEC) failed'' (bytes_of ''/log''), 0)])"
    by (simp add: file_sys_def file_log_def Let_def)
  have "own_fds ?fs = []" "\<And>tr n. ?os tr (F_open n) \<noteq> 2" by simp_all
  from cycle_files_closed [OF this r] show ?thesis using r by (auto simp: file_sys_def)
qed

section \<open>Writing\<close>

lemma put_bytes_append: "put_bytes off (xs @ ys) c = put_bytes (off + int (length xs)) ys (put_bytes off xs c)"
proof (rule ext)
  fix x
  have "nat (x - off) - length xs = nat (x - (off + int (length xs)))" by linarith
  then show "put_bytes off (xs @ ys) c x = put_bytes (off + int (length xs)) ys (put_bytes off xs c) x"
    by (auto simp: put_bytes_def nth_append)
qed

lemma put_bytes_nil [simp]: "put_bytes off [] c = c"
  by (rule ext) (auto simp: put_bytes_def)

text \<open>
  What the replies decide. An interruption is not an error; \<open>taken_by\<close> counts the bytes that
  replies take.
\<close>

definition soft :: "write_reply \<Rightarrow> bool" where
  "soft r \<longleftrightarrow> (case r of W_done _ \<Rightarrow> True | W_fail e \<Rightarrow> e = WRITE_EINTR)"

definition taken_by :: "write_reply list \<Rightarrow> nat" where
  "taken_by rs = (\<Sum>r\<leftarrow>rs. case r of W_done k \<Rightarrow> k | W_fail _ \<Rightarrow> 0)"

definition enough :: "write_reply list \<Rightarrow> nat \<Rightarrow> bool" where
  "enough rs n \<longleftrightarrow> n \<le> taken_by rs \<and> (\<exists>k. W_done k \<in> set rs)"

definition file_wrote :: "bool \<Rightarrow> byte list \<Rightarrow> int \<Rightarrow> hky_file \<Rightarrow> hky_file" where
  "file_wrote have_pwrite bs off fl =
     fl\<lparr>fl_content := put_bytes off bs (fl_content fl),
        fl_sys_offset := (if have_pwrite then fl_sys_offset fl else off + int (length bs)),
        fl_offset := fl_offset fl + int (length bs)\<rparr>"

definition write_outcome :: "bool \<Rightarrow> write_reply list \<Rightarrow> byte list \<Rightarrow> int \<Rightarrow> int \<Rightarrow> hky_file \<Rightarrow> (int \<times> hky_file) option" where
  "write_outcome have_pwrite rs buf off written fl =
     (let replies = takeWhile soft rs in
      if enough replies (length buf) then Some (written + int (length buf), file_wrote have_pwrite buf off fl)
      else if replies \<noteq> rs then Some (HKY_ERROR, file_wrote have_pwrite (take (taken_by replies) buf) off fl)
      else None)"

lemma taken_by_simps [simp]: "taken_by [] = 0" "taken_by (W_done k # rs) = k + taken_by rs" "taken_by (W_fail e # rs) = taken_by rs"
  by (simp_all add: taken_by_def)

lemma taken_by_pos: "0 < taken_by rs \<Longrightarrow> \<exists>k. W_done k \<in> set rs"
  by (induction rs) (auto simp: taken_by_def split: write_reply.splits)

lemma file_wrote_append:
  "file_wrote have_pwrite ys (off + int (length xs)) (file_wrote have_pwrite xs off fl) = file_wrote have_pwrite (xs @ ys) off fl"
  by (simp add: file_wrote_def put_bytes_append)

lemma write_outcome_nil: "write_outcome have_pwrite [] buf off written fl = None"
  by (simp add: write_outcome_def enough_def)

lemma write_outcome_fail:
  "have_pwrite \<or> fl_sys_offset fl = off \<Longrightarrow> write_outcome have_pwrite (W_fail e # rs) buf off written fl =
    (if e = WRITE_EINTR then write_outcome have_pwrite rs buf off written fl else Some (HKY_ERROR, fl))"
  by (auto simp: write_outcome_def enough_def soft_def Let_def file_wrote_def)

lemma write_outcome_all:
  "length buf \<le> k \<Longrightarrow> write_outcome have_pwrite (W_done k # rs) buf off written fl =
    Some (written + int (length buf), file_wrote have_pwrite buf off fl)"
  by (auto simp: write_outcome_def enough_def soft_def Let_def)

lemma write_outcome_part:
  assumes "k < length buf"
  shows "write_outcome have_pwrite (W_done k # rs) buf off written fl =
    write_outcome have_pwrite rs (drop k buf) (off + int k) (written + int k) (file_wrote have_pwrite (take k buf) off fl)"
proof -
  let ?pre = "takeWhile soft rs"
  have "enough (W_done k # ?pre) (length buf) \<longleftrightarrow> enough ?pre (length (drop k buf))"
    using assms taken_by_pos [of ?pre] by (auto simp: enough_def)
  moreover have "file_wrote have_pwrite ys (off + int k) (file_wrote have_pwrite (take k buf) off fl) =
      file_wrote have_pwrite (take k buf @ ys) off fl" for ys
    using file_wrote_append [of have_pwrite ys off "take k buf" fl] assms by simp
  ultimately show ?thesis using assms by (simp add: write_outcome_def soft_def Let_def take_add of_nat_diff)
qed

lemma pwrite_loop_outcome: "pwrite_loop rs buf off written fl = write_outcome True rs buf off written fl"
proof (induction rs buf off written fl rule: pwrite_loop.induct)
  case (3 k rs buf off written fl)
  show ?case
  proof (cases "length buf \<le> k")
    case True
    then show ?thesis by (simp add: write_outcome_all file_wrote_def Let_def min_absorb2)
  next
    case False
    then have k: "min k (length buf) = k" "k < length buf" by auto
    show ?thesis using 3 [OF refl refl refl] k by (simp add: write_outcome_part file_wrote_def Let_def)
  qed
qed (simp_all add: write_outcome_nil write_outcome_fail)

lemma write_loop_outcome: "write_loop rs buf written fl = write_outcome False rs buf (fl_sys_offset fl) written fl"
proof (induction rs buf written fl rule: write_loop.induct)
  case (3 k rs buf written fl)
  show ?case
  proof (cases "length buf \<le> k")
    case True
    then show ?thesis by (simp add: write_outcome_all file_wrote_def Let_def min_absorb2)
  next
    case False
    then have k: "min k (length buf) = k" "k < length buf" by auto
    show ?thesis using 3 [OF refl refl refl] k by (simp add: write_outcome_part file_wrote_def Let_def)
  qed
qed (simp_all add: write_outcome_nil write_outcome_fail)

text \<open>
  C38: \<open>hky_write_file\<close>, with \<open>pwrite\<close> and without, is decided by the answers of the kernel up to the
  first failure that is not an interruption. When these take the whole buffer, in any number of parts
  and with any interruptions in between, the buffer stands at the wanted position of the file, the
  offset has moved by its length and the result is its length, even if a failure would have come
  next. When the failure comes first the result is \<open>HKY_ERROR\<close>, and exactly the bytes taken before it
  are written. Without either, the loop still waits for an answer (\<open>None\<close>). Nothing else of the file
  changes; a failed \<open>lseek\<close> writes nothing.
\<close>

theorem write_file_correct:
  "hky_write_file have_pwrite lseek_ok rs buf off fl =
    (let replies = takeWhile (\<lambda>r. case r of W_done _ \<Rightarrow> True | W_fail e \<Rightarrow> e = WRITE_EINTR) rs;
         wrote = (\<lambda>bs. fl\<lparr>fl_content := put_bytes off bs (fl_content fl),
           fl_sys_offset := (if have_pwrite then fl_sys_offset fl else off + int (length bs)),
           fl_offset := fl_offset fl + int (length bs)\<rparr>)
     in if \<not> have_pwrite \<and> fl_sys_offset fl \<noteq> off \<and> \<not> lseek_ok then Some (HKY_ERROR, fl)
        else if length buf \<le> taken_by replies \<and> (\<exists>k. W_done k \<in> set replies) then Some (int (length buf), wrote buf)
        else if replies \<noteq> rs then Some (HKY_ERROR, wrote (take (taken_by replies) buf))
        else None)"
proof -
  have s: "(\<lambda>r. case r of W_done _ \<Rightarrow> True | W_fail e \<Rightarrow> e = WRITE_EINTR) = soft" by (simp add: soft_def fun_eq_iff)
  show ?thesis
    unfolding s enough_def [symmetric] hky_write_file_def pwrite_loop_outcome write_loop_outcome write_outcome_def file_wrote_def Let_def
    by (cases have_pwrite; cases "fl_sys_offset fl = off"; cases lseek_ok; simp del: takeWhile_eq_all_conv)
qed

text \<open>An interruption and a short write in between; a disk that is full after one byte.\<close>

lemma write_file_instances:
  "map_option fst (hky_write_file False True [W_fail 4, W_done 1, W_done 7] [1, 2] 5
     \<lparr>fl_offset = 0, fl_sys_offset = 0, fl_content = (\<lambda>_. 0)\<rparr>) = Some 2"
  "map_option (\<lambda>(rc, f). (rc, fl_offset f)) (hky_write_file True True [W_done 1, W_fail 28] [1, 2] 5
     \<lparr>fl_offset = 0, fl_sys_offset = 0, fl_content = (\<lambda>_. 0)\<rparr>) = Some (HKY_ERROR, 1)"
  by (simp_all add: hky_write_file_def WRITE_EINTR_def Let_def)

end
