(* ===== verification/Hky_Shm.thy ===== *)
theory Hky_Shm
  imports Hky_Lock Hky_Palloc "HOL-Library.Multiset"
begin

text \<open>
  Shared memory: src/unix/hky_shmem.c in its three variants, the layout that \<open>hky_slab_init\<close> of
  src/core/hky_slab.c gives a zone, and the zones of \<open>hky_init_cycle\<close> and \<open>hky_init_zone_pool\<close> in
  src/core/hky_cycle.c: which zones of the old cycle are used again, mapped and unmapped. The results
  of system calls are a function of the calls made so far; \<open>MAP_FAILED\<close> is -1.
\<close>

section \<open>Mapping\<close>

datatype shm_variant = Map_anon | Map_devzero | Map_sysv

datatype shm_call =
    S_mmap nat int | S_munmap int nat | S_open string | S_close int
  | S_shmget nat | S_shmat int | S_shmctl int | S_shmdt int | S_log nat string

type_synonym shm_trace = "(shm_call \<times> int) list"
type_synonym shm_os = "shm_trace \<Rightarrow> shm_call \<Rightarrow> int"

definition shm_sys :: "shm_os \<Rightarrow> shm_call \<Rightarrow> shm_trace \<Rightarrow> int \<times> shm_trace" where
  "shm_sys os call tr = (let r = os tr call in (r, tr @ [(call, r)]))"

definition shm_log_if :: "bool \<Rightarrow> nat \<Rightarrow> string \<Rightarrow> shm_trace \<Rightarrow> shm_trace" where
  "shm_log_if P level message tr = (if P then tr @ [(S_log level message, 0)] else tr)"

record hky_shm =
  shm_addr :: int
  shm_size :: nat
  shm_name :: "byte list"
  shm_exists :: bool

definition shm_alloc_anon :: "shm_os \<Rightarrow> hky_shm \<Rightarrow> shm_trace \<Rightarrow> int \<times> hky_shm \<times> shm_trace" where
  "shm_alloc_anon os shm tr =
     (let (a, tr) = shm_sys os (S_mmap (shm_size shm) (-1)) tr; shm = shm\<lparr>shm_addr := a\<rparr> in
      if a = -1 then (HKY_ERROR, shm, shm_log_if True 2 ''mmap(MAP_ANON|MAP_SHARED) failed'' tr)
      else (HKY_OK, shm, tr))"

definition shm_alloc_devzero :: "shm_os \<Rightarrow> hky_shm \<Rightarrow> shm_trace \<Rightarrow> int \<times> hky_shm \<times> shm_trace" where
  "shm_alloc_devzero os shm tr =
     (let (fd, tr) = shm_sys os (S_open ''/dev/zero'') tr in
      if fd = -1 then (HKY_ERROR, shm, shm_log_if True 2 ''open(/dev/zero) failed'' tr)
      else
        let (a, tr) = shm_sys os (S_mmap (shm_size shm) fd) tr;
            shm = shm\<lparr>shm_addr := a\<rparr>;
            tr = shm_log_if (a = -1) 2 ''mmap(/dev/zero, MAP_SHARED) failed'' tr;
            (r, tr) = shm_sys os (S_close fd) tr;
            tr = shm_log_if (r = -1) 2 ''close(/dev/zero) failed'' tr
        in (if a = -1 then HKY_ERROR else HKY_OK, shm, tr))"

definition shm_alloc_sysv :: "shm_os \<Rightarrow> hky_shm \<Rightarrow> shm_trace \<Rightarrow> int \<times> hky_shm \<times> shm_trace" where
  "shm_alloc_sysv os shm tr =
     (let (ident, tr) = shm_sys os (S_shmget (shm_size shm)) tr in
      if ident = -1 then (HKY_ERROR, shm, shm_log_if True 2 ''shmget() failed'' tr)
      else
        let (a, tr) = shm_sys os (S_shmat ident) tr;
            shm = shm\<lparr>shm_addr := a\<rparr>;
            tr = shm_log_if (a = -1) 2 ''shmat() failed'' tr;
            (r, tr) = shm_sys os (S_shmctl ident) tr;
            tr = shm_log_if (r = -1) 2 ''shmctl(IPC_RMID) failed'' tr
        in (if a = -1 then HKY_ERROR else HKY_OK, shm, tr))"

definition hky_shm_alloc :: "shm_variant \<Rightarrow> shm_os \<Rightarrow> hky_shm \<Rightarrow> shm_trace \<Rightarrow> int \<times> hky_shm \<times> shm_trace" where
  "hky_shm_alloc v = (case v of Map_anon \<Rightarrow> shm_alloc_anon | Map_devzero \<Rightarrow> shm_alloc_devzero | Map_sysv \<Rightarrow> shm_alloc_sysv)"

definition hky_shm_free :: "shm_variant \<Rightarrow> shm_os \<Rightarrow> hky_shm \<Rightarrow> shm_trace \<Rightarrow> shm_trace" where
  "hky_shm_free v os shm tr =
     (let (r, tr) = shm_sys os (if v = Map_sysv then S_shmdt (shm_addr shm) else S_munmap (shm_addr shm) (shm_size shm)) tr
      in shm_log_if (r = -1) 2 (if v = Map_sysv then ''shmdt() failed'' else ''munmap() failed'') tr)"

section \<open>The slab pool\<close>

text \<open>
  Addresses are numbers; \<open>hdr\<close> is \<open>sizeof(hky_slab_pool_t)\<close>, which depends on the build, and
  \<open>shift\<close> is \<open>hky_pagesize_shift\<close>. The entries of the slots and of the table of pages are found at
  their addresses in \<open>sp_mem\<close>, the counters in \<open>sp_counters\<close>; the list of free pages starts in the pool itself, at \<open>free_at\<close>.
\<close>

definition sizeof_slab_page :: nat where "sizeof_slab_page = 24"
definition sizeof_slab_stat :: nat where "sizeof_slab_stat = 32"

record slab_page =
  sl_slab :: nat
  sl_next :: nat
  sl_prev :: nat

record slab_stat =
  st_total :: nat
  st_used :: nat
  st_reqs :: nat
  st_fails :: nat

record slab_pool =
  sp_min_size :: nat
  sp_min_shift :: nat
  sp_pages :: nat
  sp_last :: nat
  sp_free :: slab_page
  sp_stats :: nat
  sp_pfree :: nat
  sp_start :: nat
  sp_end :: nat
  sp_addr :: nat
  sp_mutex :: hky_shmtx
  sp_log_nomem :: bool
  sp_mem :: "nat \<Rightarrow> slab_page"
  sp_counters :: "nat \<Rightarrow> slab_stat"

fun init_slots :: "nat \<Rightarrow> nat \<Rightarrow> (nat \<Rightarrow> slab_page) \<Rightarrow> nat \<Rightarrow> slab_page" where
  "init_slots p 0 mem = mem"
| "init_slots p (Suc n) mem =
     init_slots (p + sizeof_slab_page) n (mem(p := \<lparr>sl_slab = 0, sl_next = p, sl_prev = 0\<rparr>))"

fun zero_pages :: "nat \<Rightarrow> nat \<Rightarrow> (nat \<Rightarrow> slab_page) \<Rightarrow> nat \<Rightarrow> slab_page" where
  "zero_pages p 0 mem = mem"
| "zero_pages p (Suc n) mem = zero_pages (p + sizeof_slab_page) n (mem(p := \<lparr>sl_slab = 0, sl_next = 0, sl_prev = 0\<rparr>))"

fun zero_stats :: "nat \<Rightarrow> nat \<Rightarrow> (nat \<Rightarrow> slab_stat) \<Rightarrow> nat \<Rightarrow> slab_stat" where
  "zero_stats p 0 mem = mem"
| "zero_stats p (Suc n) mem =
     zero_stats (p + sizeof_slab_stat) n (mem(p := \<lparr>st_total = 0, st_used = 0, st_reqs = 0, st_fails = 0\<rparr>))"

definition hky_slab_init :: "nat \<Rightarrow> nat \<Rightarrow> nat \<Rightarrow> nat \<Rightarrow> slab_pool \<Rightarrow> slab_pool" where
  "hky_slab_init hdr free_at shift pool s =
     (let pagesize = 2 ^ shift;
          slots = pool + hdr;
          sz = size_t (int (sp_end s) - int slots);
          n = shift - sp_min_shift s;
          mem = init_slots slots n (sp_mem s);
          stats = slots + n * sizeof_slab_page;
          table = stats + n * sizeof_slab_stat;
          sz' = size_t (int sz - int (n * (sizeof_slab_page + sizeof_slab_stat)));
          pages = sz' div (pagesize + sizeof_slab_page);
          mem = (zero_pages table pages mem)(table := \<lparr>sl_slab = pages, sl_next = free_at, sl_prev = free_at\<rparr>);
          start = hky_align_ptr (table + pages * sizeof_slab_page) pagesize;
          m = wrap_s64 (int pages - int (size_t (int (sp_end s) - int start) div pagesize));
          pages' = (if m > 0 then pages - nat m else pages);
          mem = (if m > 0 then mem(table := (mem table)\<lparr>sl_slab := pages'\<rparr>) else mem)
      in s\<lparr>sp_min_size := 2 ^ sp_min_shift s, sp_stats := stats, sp_pages := table,
           sp_free := \<lparr>sl_slab = 0, sl_next = table, sl_prev = 0\<rparr>, sp_start := start,
           sp_last := table + pages' * sizeof_slab_page, sp_pfree := pages', sp_log_nomem := True, sp_mem := mem,
           sp_counters := zero_stats stats n (sp_counters s)\<rparr>)"

text \<open>
  \<open>hky_init_zone_pool\<close> with atomic operations, so without a lock file: the pool lies at the start of
  the zone. \<open>sp\<close> is what lies there; the boolean says whether the message about unequal addresses
  was logged.
\<close>

definition hky_init_zone_pool ::
  "nat \<Rightarrow> nat \<Rightarrow> nat \<Rightarrow> bool \<Rightarrow> bool \<Rightarrow> nat \<Rightarrow> hky_shm \<Rightarrow> slab_pool \<Rightarrow> int \<times> bool \<times> slab_pool" where
  "hky_init_zone_pool hdr free_at shift posix_sem sem_init lock_addr shm sp =
     (let addr = nat (shm_addr shm) in
      if shm_exists shm then (if addr = sp_addr sp then (HKY_OK, False, sp) else (HKY_ERROR, True, sp))
      else
        let sp = sp\<lparr>sp_end := addr + shm_size shm, sp_min_shift := 3, sp_addr := addr\<rparr>;
            (rc, _, mtx) = hky_shmtx_create posix_sem sem_init lock_addr (lock_addr + 8) (sp_mutex sp);
            sp = sp\<lparr>sp_mutex := mtx\<rparr>
        in if rc \<noteq> HKY_OK then (HKY_ERROR, False, sp)
           else (HKY_OK, False, hky_slab_init hdr free_at shift addr sp))"

section \<open>The zones of a cycle\<close>

text \<open>The pools in the mapped memory, and the initialisation of the modules, are parameters.\<close>

record shm_zone =
  z_shm :: hky_shm
  z_tag :: nat
  z_noreuse :: bool
  z_data :: nat

text \<open>The first zone of that name decides.\<close>

definition zone_name_eq :: "shm_zone \<Rightarrow> shm_zone \<Rightarrow> bool" where
  "zone_name_eq z old \<longleftrightarrow> length (shm_name (z_shm z)) = length (shm_name (z_shm old)) \<and>
     takeWhile (\<lambda>c. c \<noteq> 0) (shm_name (z_shm z)) = takeWhile (\<lambda>c. c \<noteq> 0) (shm_name (z_shm old))"

definition same_zone :: "shm_zone \<Rightarrow> shm_zone \<Rightarrow> bool" where
  "same_zone z old \<longleftrightarrow> z_tag z = z_tag old \<and> shm_size (z_shm z) = shm_size (z_shm old) \<and> \<not> z_noreuse z"

definition reuse_zone :: "shm_zone \<Rightarrow> shm_zone list \<Rightarrow> shm_zone option" where
  "reuse_zone z olds = (case find (zone_name_eq z) olds of None \<Rightarrow> None | Some old \<Rightarrow> if same_zone z old then Some old else None)"

definition start_zone ::
  "shm_variant \<Rightarrow> shm_os \<Rightarrow> (shm_zone \<Rightarrow> bool) \<Rightarrow> (shm_zone \<Rightarrow> nat option \<Rightarrow> bool) \<Rightarrow> shm_zone list \<Rightarrow> shm_zone \<Rightarrow> shm_trace \<Rightarrow>
     bool \<times> shm_zone \<times> shm_trace" where
  "start_zone v os zone_pool init olds z tr =
     (if shm_size (z_shm z) = 0 then (False, z, shm_log_if True 1 ''zero size shared memory zone'' tr)
      else case reuse_zone z olds of
          Some old \<Rightarrow> let z = z\<lparr>z_shm := (z_shm z)\<lparr>shm_addr := shm_addr (z_shm old)\<rparr>\<rparr> in (init z (Some (z_data old)), z, tr)
        | None \<Rightarrow>
            let (rc, shm, tr) = hky_shm_alloc v os (z_shm z) tr; z = z\<lparr>z_shm := shm\<rparr> in
            if rc \<noteq> HKY_OK then (False, z, tr) else (zone_pool z \<and> init z None, z, tr))"

fun start_zones ::
  "shm_variant \<Rightarrow> shm_os \<Rightarrow> (shm_zone \<Rightarrow> bool) \<Rightarrow> (shm_zone \<Rightarrow> nat option \<Rightarrow> bool) \<Rightarrow> shm_zone list \<Rightarrow> shm_zone list \<Rightarrow> shm_trace \<Rightarrow>
     bool \<times> shm_zone list \<times> shm_trace" where
  "start_zones v os zone_pool init olds [] tr = (True, [], tr)"
| "start_zones v os zone_pool init olds (z # zs) tr =
     (case start_zone v os zone_pool init olds z tr of
        (False, z, tr) \<Rightarrow> (False, z # zs, tr)
      | (True, z, tr) \<Rightarrow>
          (case start_zones v os zone_pool init olds zs tr of (ok, zs, tr) \<Rightarrow> (ok, z # zs, tr)))"

text \<open>Zones of the old cycle that the new one does not have are unmapped.\<close>

fun free_old_zones :: "shm_variant \<Rightarrow> shm_os \<Rightarrow> shm_zone list \<Rightarrow> shm_zone list \<Rightarrow> shm_trace \<Rightarrow> shm_trace" where
  "free_old_zones v os news [] tr = tr"
| "free_old_zones v os news (old # olds) tr =
     (if reuse_zone old news \<noteq> None then free_old_zones v os news olds tr
      else free_old_zones v os news olds (hky_shm_free v os (z_shm old) tr))"

section \<open>The layout of a slab pool\<close>

lemma align_pow2: "hky_align_ptr p (2 ^ k) = (p + 2 ^ k - 1) div 2 ^ k * 2 ^ k"
proof -
  let ?x = "p + 2 ^ k - 1"
  have "(1::nat) \<le> p + 2 ^ k" using one_le_power [of "2::nat" k] by linarith
  then have x: "int p + (2 ^ k - 1) = int ?x" by (subst of_nat_diff) simp_all
  have "int ?x - int ?x mod 2 ^ k = int ?x div 2 ^ k * 2 ^ k" by (rule minus_mod_eq_div_mult)
  also have "\<dots> = int (?x div 2 ^ k * 2 ^ k)" by (simp add: zdiv_int)
  finally have "int ?x AND NOT (2 ^ k - 1) = int (?x div 2 ^ k * 2 ^ k)" by (simp only: and_not_mask)
  then show ?thesis unfolding hky_align_ptr_def of_nat_power of_nat_numeral x by (simp only: nat_int)
qed

lemma align_pow2_bounds:
  "p \<le> hky_align_ptr p (2 ^ k)" "hky_align_ptr p (2 ^ k) < p + 2 ^ k" "2 ^ k dvd hky_align_ptr p (2 ^ k)"
proof -
  let ?a = "(2::nat) ^ k" and ?q = "(p + 2 ^ k - 1) div 2 ^ k"
  have a: "0 < ?a" by simp
  have split: "p + ?a - 1 = ?q * ?a + (p + ?a - 1) mod ?a" by (rule div_mult_mod_eq [symmetric])
  have m: "(p + ?a - 1) mod ?a < ?a" using a by (rule mod_less_divisor)
  show "p \<le> hky_align_ptr p (2 ^ k)" "hky_align_ptr p (2 ^ k) < p + 2 ^ k"
    unfolding align_pow2 using split m a by linarith+
  show "2 ^ k dvd hky_align_ptr p (2 ^ k)" unfolding align_pow2 by simp
qed

lemma init_slots_at:
  "init_slots p n mem q = (if \<exists>i < n. q = p + i * sizeof_slab_page then \<lparr>sl_slab = 0, sl_next = q, sl_prev = 0\<rparr> else mem q)"
proof (induction n arbitrary: p mem)
  case (Suc n)
  have "(\<exists>i < Suc n. q = p + i * sizeof_slab_page) \<longleftrightarrow> q = p \<or> (\<exists>i < n. q = p + sizeof_slab_page + i * sizeof_slab_page)"
    by (auto simp: less_Suc_eq_0_disj add.commute add.left_commute)
  then show ?case by (auto simp: Suc)
qed simp

lemma zero_pages_at:
  "zero_pages p n mem q = (if \<exists>i < n. q = p + i * sizeof_slab_page then \<lparr>sl_slab = 0, sl_next = 0, sl_prev = 0\<rparr> else mem q)"
proof (induction n arbitrary: p mem)
  case (Suc n)
  have "(\<exists>i < Suc n. q = p + i * sizeof_slab_page) \<longleftrightarrow> q = p \<or> (\<exists>i < n. q = p + sizeof_slab_page + i * sizeof_slab_page)"
    by (auto simp: less_Suc_eq_0_disj add.commute add.left_commute)
  then show ?case by (auto simp: Suc)
qed simp

lemma zero_stats_at:
  "zero_stats p n mem q = (if \<exists>i < n. q = p + i * sizeof_slab_stat then \<lparr>st_total = 0, st_used = 0, st_reqs = 0, st_fails = 0\<rparr> else mem q)"
proof (induction n arbitrary: p mem)
  case (Suc n)
  have "(\<exists>i < Suc n. q = p + i * sizeof_slab_stat) \<longleftrightarrow> q = p \<or> (\<exists>i < n. q = p + sizeof_slab_stat + i * sizeof_slab_stat)"
    by (auto simp: less_Suc_eq_0_disj add.commute add.left_commute)
  then show ?case by (auto simp: Suc)
qed simp

text \<open>The number of pages that fit behind their table, and what the code keeps of them.\<close>

lemma pages_fit:
  fixes room page pages start finish p :: nat
  assumes pages: "pages = room div (page + 24)" "0 < pages" and finish: "finish = p + room"
    and start: "p + pages * 24 \<le> start" "start < p + pages * 24 + page" and page: "0 < page"
  shows "start \<le> finish" "pages \<le> Suc ((finish - start) div page)" "(finish - start) div page \<le> pages + 1 + 24 div page"
proof -
  let ?d = "(finish - start) div page"
  have room: "pages * (page + 24) \<le> room" "room < (pages + 1) * (page + 24)"
    using pages(1) page by (simp_all add: dividend_less_div_times mult.commute times_div_less_eq_dividend)
      (metis add_gr_0 dividend_less_div_times add.commute mult.commute)+
  show ge: "start \<le> finish"
  proof -
    have "pages * 24 + pages * page \<le> room" using room(1) by (simp add: algebra_simps)
    moreover have "page \<le> pages * page" using pages(2) by simp
    ultimately show ?thesis using start(2) finish by linarith
  qed
  have "pages * page < finish - start + page"
  proof -
    have "pages * 24 + pages * page \<le> room" using room(1) by (simp add: algebra_simps)
    then show ?thesis using start(2) finish ge by linarith
  qed
  moreover have "finish - start < ?d * page + page"
    using mod_less_divisor [OF page, of "finish - start"] div_mult_mod_eq [of "finish - start" page] by linarith
  ultimately have "pages * page < Suc ?d * page + page" by simp
  then have "pages * page < (Suc ?d + 1) * page" by simp
  then show "pages \<le> Suc ?d" using page by (simp only: mult_less_cancel2) simp
  have "?d * page \<le> finish - start" by simp
  also have "\<dots> \<le> (pages + 1) * page + 24"
    using room(2) start(1) finish by (simp add: algebra_simps)
  finally have "?d * page \<le> (pages + 1) * page + 24" .
  then have "?d \<le> ((pages + 1) * page + 24) div page" using page by (simp add: less_eq_div_iff_mult_less_eq)
  then show "?d \<le> pages + 1 + 24 div page" using page by (metis div_mult_self3 gr_implies_not0)
qed

text \<open>
  C39: The layout of a slab pool: when the zone has room for one page and its entry behind the slots and
  their counters, \<open>hky_slab_init\<close> lays out, in this order and without overlap, the slots, each an
  empty list that points to itself, the counters, which are zero, the table of pages and the pages; the pages start
  at a multiple of the page size and the free ones all end before the zone does; the list of free
  pages is one run of them, linked in a circle with the pool, and its first entry has their number.
  At most one page that would fit is given up to the alignment.
\<close>

theorem slab_init_layout:
  assumes n: "shift = sp_min_shift s + n" and finish: "sp_end s < 2 ^ 63"
    and room: "pool + hdr + n * 56 + 2 ^ shift + 24 \<le> sp_end s"
    and r: "r = hky_slab_init hdr free_at shift pool s"
  shows "sp_stats r = pool + hdr + n * sizeof_slab_page \<and> sp_pages r = sp_stats r + n * sizeof_slab_stat \<and>
    sp_last r = sp_pages r + sp_pfree r * sizeof_slab_page \<and> sp_last r \<le> sp_start r \<and>
    2 ^ shift dvd sp_start r \<and> sp_start r + sp_pfree r * 2 ^ shift \<le> sp_end s \<and> sp_end r = sp_end s \<and>
    (sp_end s - sp_pages r) div (2 ^ shift + sizeof_slab_page) \<le> sp_pfree r + 1 \<and>
    sp_free r = \<lparr>sl_slab = 0, sl_next = sp_pages r, sl_prev = 0\<rparr> \<and>
    sp_mem r (sp_pages r) = \<lparr>sl_slab = sp_pfree r, sl_next = free_at, sl_prev = free_at\<rparr> \<and>
    (\<forall>i. i < n \<longrightarrow> sp_mem r (pool + hdr + i * sizeof_slab_page) =
       \<lparr>sl_slab = 0, sl_next = pool + hdr + i * sizeof_slab_page, sl_prev = 0\<rparr>) \<and>
    (\<forall>i. i < n \<longrightarrow> sp_counters r (sp_stats r + i * sizeof_slab_stat) = \<lparr>st_total = 0, st_used = 0, st_reqs = 0, st_fails = 0\<rparr>) \<and>
    (\<forall>i. 0 < i \<and> i < sp_pfree r \<longrightarrow> sp_mem r (sp_pages r + i * sizeof_slab_page) = \<lparr>sl_slab = 0, sl_next = 0, sl_prev = 0\<rparr>)"
proof -
  define p where "p = pool + hdr + n * 24 + n * 32"
  define pages where "pages = (sp_end s - p) div (2 ^ shift + 24)"
  define st where "st = hky_align_ptr (p + pages * 24) (2 ^ shift)"
  define fit where "fit = (sp_end s - st) div 2 ^ shift"
  have p: "p = pool + hdr + n * 56" by (simp add: p_def)
  have pages: "0 < pages" using room by (simp add: pages_def p div_greater_zero_iff)
  have behind: "sp_end s = p + (sp_end s - p)" using room by (simp add: p)
  have fits: "st \<le> sp_end s" "pages \<le> Suc fit"
    unfolding fit_def
    by (rule pages_fit [OF pages_def pages behind]; simp add: st_def align_pow2_bounds)+
  have page0: "(0::nat) < 2 ^ shift" by simp
  have small: "pages \<le> sp_end s" "fit \<le> sp_end s"
    unfolding pages_def fit_def by (metis div_le_dividend diff_le_self le_trans)+
  have e: "int (sp_end s) < 9223372036854775808" using finish by simp
  have size0: "size_t (int (sp_end s) - int (pool + hdr)) = sp_end s - (pool + hdr)"
    using room e by (subst size_t_id) (auto simp: nat_diff_distrib')
  have size1: "size_t (int (sp_end s - (pool + hdr)) - int (n * (24 + 32))) = sp_end s - p"
    using room e by (subst size_t_id) (auto simp: nat_diff_distrib' p)
  have size2: "size_t (int (sp_end s) - int st) = sp_end s - st"
    using fits(1) e by (subst size_t_id) (auto simp: nat_diff_distrib')
  have m: "wrap_s64 (int pages - int fit) = int pages - int fit"
    using small e by (intro wrap_s64_id) linarith+
  define free where "free = (if fit < pages then fit else pages)"
  have nat_m: "pages - nat (int pages - int fit) = fit" if "fit < pages" using that by simp
  have "shift - sp_min_shift s = n" using n by simp
  note steps = hky_slab_init_def Let_def sizeof_slab_page_def sizeof_slab_stat_def this size0 size1 p_def [symmetric]
    pages_def [symmetric] st_def [symmetric] size2 fit_def [symmetric] m
  have r': "sp_stats r = pool + hdr + n * 24 \<and> sp_pages r = p \<and> sp_free r = \<lparr>sl_slab = 0, sl_next = p, sl_prev = 0\<rparr> \<and>
      sp_start r = st \<and> sp_last r = p + free * 24 \<and> sp_pfree r = free \<and> sp_end r = sp_end s \<and>
      sp_counters r = zero_stats (pool + hdr + n * 24) n (sp_counters s) \<and>
      sp_mem r = (zero_pages p pages (init_slots (pool + hdr) n (sp_mem s)))(p := \<lparr>sl_slab = free, sl_next = free_at, sl_prev = free_at\<rparr>)"
    unfolding r steps by (simp add: free_def nat_m)
  have free: "free \<le> pages" "pages \<le> Suc free" "free \<le> fit" using fits(2) by (auto simp: free_def)
  have start: "p + free * 24 \<le> st"
    using align_pow2_bounds(1) [of "p + pages * 24" shift] free(1) by (simp add: st_def)
  have finish_fit: "st + free * 2 ^ shift \<le> sp_end s"
  proof -
    have "free * 2 ^ shift \<le> fit * 2 ^ shift" using free(3) by simp
    also have "\<dots> \<le> sp_end s - st" by (simp add: fit_def)
    finally show ?thesis using fits(1) by linarith
  qed
  have table: "sp_mem r (p + i * 24) = \<lparr>sl_slab = 0, sl_next = 0, sl_prev = 0\<rparr>" if "0 < i" "i < free" for i
    using that free(1) by (auto simp: r' zero_pages_at sizeof_slab_page_def)
  have slots: "sp_mem r (pool + hdr + i * 24) = \<lparr>sl_slab = 0, sl_next = pool + hdr + i * 24, sl_prev = 0\<rparr>" if "i < n" for i
  proof -
    have "pool + hdr + i * 24 < p" using that by (simp add: p)
    then show ?thesis using that by (auto simp: r' zero_pages_at init_slots_at sizeof_slab_page_def)
  qed
  have counters: "sp_counters r (pool + hdr + n * 24 + i * 32) = \<lparr>st_total = 0, st_used = 0, st_reqs = 0, st_fails = 0\<rparr>" if "i < n" for i
    using that by (auto simp: r' zero_stats_at sizeof_slab_stat_def)
  show ?thesis
    using r' free(2) counters start finish_fit table slots align_pow2_bounds(3) [of shift "p + pages * 24"]
    by (simp add: sizeof_slab_page_def sizeof_slab_stat_def p_def pages_def st_def)
qed

definition zeroed_pool :: "nat \<Rightarrow> slab_pool" where
  "zeroed_pool finish = \<lparr>sp_min_size = 0, sp_min_shift = 3, sp_pages = 0, sp_last = 0,
     sp_free = \<lparr>sl_slab = 0, sl_next = 0, sl_prev = 0\<rparr>, sp_stats = 0, sp_pfree = 0, sp_start = 0, sp_end = finish,
     sp_addr = 4096, sp_mutex = \<lparr>mtx_lock = 0, mtx_wait = 0, mtx_semaphore = False, mtx_spin = 0\<rparr>, sp_log_nomem = False,
     sp_mem = \<lambda>_. \<lparr>sl_slab = 0, sl_next = 0, sl_prev = 0\<rparr>,
     sp_counters = \<lambda>_. \<lparr>st_total = 0, st_used = 0, st_reqs = 0, st_fails = 0\<rparr>\<rparr>"

theorem slab_init_layout_witness:
  "let r = hky_slab_init 200 4144 12 4096 (zeroed_pool 69632)
   in 4096 dvd sp_start r \<and> sp_start r + sp_pfree r * 4096 \<le> 69632 \<and> 14 \<le> sp_pfree r"
proof -
  have z: "sp_end (zeroed_pool 69632) = 69632" "sp_min_shift (zeroed_pool 69632) = 3" by (simp_all add: zeroed_pool_def)
  show ?thesis
    using slab_init_layout [where s = "zeroed_pool 69632" and shift = 12 and n = 9 and pool = 4096 and hdr = 200
        and free_at = 4144, OF _ _ _ refl]
    by (simp add: z sizeof_slab_page_def sizeof_slab_stat_def Let_def) (elim conjE, simp)
qed

section \<open>Zones are accounted for\<close>

text \<open>Where the calls of a trace mapped zones, and where they unmapped them.\<close>

fun mapped_at :: "shm_call \<times> int \<Rightarrow> int list" where
  "mapped_at (S_mmap n fd, a) = (if a = -1 then [] else [a])"
| "mapped_at (S_shmat i, a) = (if a = -1 then [] else [a])"
| "mapped_at _ = []"

fun unmapped_at :: "shm_call \<times> int \<Rightarrow> int list" where
  "unmapped_at (S_munmap a n, r) = [a]"
| "unmapped_at (S_shmdt a, r) = [a]"
| "unmapped_at _ = []"

definition maps :: "shm_trace \<Rightarrow> int list" where "maps tr = concat (List.map mapped_at tr)"
definition unmaps :: "shm_trace \<Rightarrow> int list" where "unmaps tr = concat (List.map unmapped_at tr)"

lemma maps_append [simp]: "maps (tr @ tr') = maps tr @ maps tr'" "maps [] = []" "maps (c # tr) = mapped_at c @ maps tr"
  by (simp_all add: maps_def)

lemma unmaps_append [simp]: "unmaps (tr @ tr') = unmaps tr @ unmaps tr'" "unmaps [] = []" "unmaps (c # tr) = unmapped_at c @ unmaps tr"
  by (simp_all add: unmaps_def)

text \<open>Allocating maps one region, at the address in the zone, or fails; freeing unmaps that region.\<close>

lemma shm_alloc_maps:
  assumes "hky_shm_alloc v os shm tr = (rc, shm', tr')"
  shows "unmaps tr' = unmaps tr \<and> maps tr' = maps tr @ (if rc = HKY_OK then [shm_addr shm'] else []) \<and>
    rc \<in> {HKY_OK, HKY_ERROR} \<and> shm_size shm' = shm_size shm \<and> shm_name shm' = shm_name shm"
proof (cases v)
  case Map_anon
  show ?thesis using assms unfolding Map_anon hky_shm_alloc_def shm_alloc_anon_def
    by (auto simp: shm_sys_def shm_log_if_def Let_def hky_consts split: if_splits)
next
  case Map_devzero
  obtain fd tr1 where fd: "shm_sys os (S_open ''/dev/zero'') tr = (fd, tr1)" by fastforce
  obtain a tr2 where a: "shm_sys os (S_mmap (shm_size shm) fd) tr1 = (a, tr2)" by fastforce
  have trs: "tr1 = tr @ [(S_open ''/dev/zero'', fd)]" "tr2 = tr1 @ [(S_mmap (shm_size shm) fd, a)]"
    using fd a by (auto simp: shm_sys_def Let_def)
  show ?thesis using assms unfolding Map_devzero hky_shm_alloc_def shm_alloc_devzero_def shm_variant.case fd a
    prod.case Let_def
    by (cases "fd = -1"; cases "a = -1") (auto simp: trs shm_sys_def shm_log_if_def Let_def hky_consts)
next
  case Map_sysv
  obtain i tr1 where i: "shm_sys os (S_shmget (shm_size shm)) tr = (i, tr1)" by fastforce
  obtain a tr2 where a: "shm_sys os (S_shmat i) tr1 = (a, tr2)" by fastforce
  have trs: "tr1 = tr @ [(S_shmget (shm_size shm), i)]" "tr2 = tr1 @ [(S_shmat i, a)]"
    using i a by (auto simp: shm_sys_def Let_def)
  show ?thesis using assms unfolding Map_sysv hky_shm_alloc_def shm_alloc_sysv_def shm_variant.case i a prod.case Let_def
    by (cases "i = -1"; cases "a = -1") (auto simp: trs shm_sys_def shm_log_if_def Let_def hky_consts)
qed

lemma shm_free_unmaps:
  "unmaps (hky_shm_free v os shm tr) = unmaps tr @ [shm_addr shm] \<and> maps (hky_shm_free v os shm tr) = maps tr"
  by (simp add: hky_shm_free_def shm_sys_def shm_log_if_def Let_def)

text \<open>What identifies a zone: its name up to a zero byte with its length, and what \<open>same_zone\<close> compares.\<close>

definition zone_key :: "shm_zone \<Rightarrow> nat \<times> byte list" where
  "zone_key z = (length (shm_name (z_shm z)), takeWhile (\<lambda>c. c \<noteq> 0) (shm_name (z_shm z)))"

definition zone_ident :: "shm_zone \<Rightarrow> (nat \<times> byte list) \<times> nat \<times> nat \<times> bool" where
  "zone_ident z = (zone_key z, z_tag z, shm_size (z_shm z), z_noreuse z)"

lemma name_eq_key: "zone_name_eq z old \<longleftrightarrow> zone_key z = zone_key old"
  by (auto simp: zone_name_eq_def zone_key_def)

lemma find_key:
  assumes "distinct (List.map zone_key olds)"
  shows "find (zone_name_eq z) olds = Some old \<longleftrightarrow> old \<in> set olds \<and> zone_key z = zone_key old"
  using assms by (induction olds) (auto simp: name_eq_key)

lemma reuse_zone_iff:
  assumes "distinct (List.map zone_key olds)"
  shows "reuse_zone z olds = Some old \<longleftrightarrow> old \<in> set olds \<and> zone_key z = zone_key old \<and> same_zone z old"
proof (cases "find (zone_name_eq z) olds")
  case None
  then show ?thesis using find_key [OF assms, of z] by (auto simp: reuse_zone_def)
next
  case (Some one)
  have "old \<in> set olds \<and> zone_key z = zone_key old \<longleftrightarrow> one = old"
    using find_key [OF assms, of z old] Some by auto
  then show ?thesis using Some by (cases "one = old") (auto simp: reuse_zone_def)
qed

lemma reuse_zone_ident: "zone_ident z' = zone_ident z \<Longrightarrow> reuse_zone z' olds = reuse_zone z olds"
  by (auto simp: reuse_zone_def same_zone_def zone_ident_def name_eq_key [abs_def] zone_key_def split: option.splits)

definition kept :: "shm_zone list \<Rightarrow> shm_zone list \<Rightarrow> shm_zone list" where
  "kept olds news = List.map_filter (\<lambda>z. reuse_zone z olds) news"

lemma kept_simps [simp]:
  "kept olds [] = []"
  "kept olds (z # zs) = (case reuse_zone z olds of None \<Rightarrow> kept olds zs | Some old \<Rightarrow> old # kept olds zs)"
  by (simp_all add: kept_def map_filter_simps split: option.splits)

definition zone_addrs :: "shm_zone list \<Rightarrow> int multiset" where
  "zone_addrs zs = mset (List.map (\<lambda>z. shm_addr (z_shm z)) zs)"

lemma zone_addrs_simps [simp]:
  "zone_addrs [] = {#}" "zone_addrs (z # zs) = add_mset (shm_addr (z_shm z)) (zone_addrs zs)"
  by (simp_all add: zone_addrs_def)

lemma start_zone_maps:
  assumes "start_zone v os zone_pool init olds z tr = (ok, z', tr')"
  shows "unmaps tr' = unmaps tr \<and> zone_ident z' = zone_ident z \<and>
    (ok \<longrightarrow> maps tr' = maps tr @ (if reuse_zone z olds = None then [shm_addr (z_shm z')] else []) \<and>
      (\<forall>old. reuse_zone z olds = Some old \<longrightarrow> shm_addr (z_shm z') = shm_addr (z_shm old)))"
proof (cases "shm_size (z_shm z) = 0")
  case True
  then show ?thesis using assms by (auto simp: start_zone_def shm_log_if_def)
next
  case size: False
  show ?thesis
  proof (cases "reuse_zone z olds")
    case None
    obtain rc shm tr1 where alloc: "hky_shm_alloc v os (z_shm z) tr = (rc, shm, tr1)" by (metis prod_cases3)
    show ?thesis using assms size None shm_alloc_maps [OF alloc]
      by (auto simp: start_zone_def alloc zone_ident_def zone_key_def Let_def split: if_splits)
  next
    case (Some old)
    then show ?thesis using assms size by (auto simp: start_zone_def zone_ident_def zone_key_def Let_def)
  qed
qed

lemma start_zones_maps:
  "start_zones v os zone_pool init olds zs tr = (ok, zs', tr') \<Longrightarrow>
    unmaps tr' = unmaps tr \<and> List.map zone_ident zs' = List.map zone_ident zs \<and>
    (ok \<longrightarrow> (\<exists>fresh. maps tr' = maps tr @ fresh \<and> zone_addrs zs' = mset fresh + zone_addrs (kept olds zs)))"
proof (induction zs arbitrary: tr ok zs' tr')
  case (Cons z zs)
  obtain ok1 z1 tr1 where one: "start_zone v os zone_pool init olds z tr = (ok1, z1, tr1)" by (metis prod_cases3)
  note z1 = start_zone_maps [OF one]
  show ?case
  proof (cases ok1)
    case True
    obtain ok2 zs2 tr2 where rest: "start_zones v os zone_pool init olds zs tr1 = (ok2, zs2, tr2)" by (metis prod_cases3)
    have out: "ok = ok2" "zs' = z1 # zs2" "tr' = tr2" using Cons.prems True by (auto simp: one rest)
    note zs2 = Cons.IH [OF rest]
    show ?thesis
    proof (cases ok2)
      case ok2: True
      then obtain fresh where fresh: "maps tr2 = maps tr1 @ fresh" "zone_addrs zs2 = mset fresh + zone_addrs (kept olds zs)"
        using zs2 by blast
      have "maps tr2 = maps tr @ ((if reuse_zone z olds = None then [shm_addr (z_shm z1)] else []) @ fresh)"
        using z1 True fresh(1) by simp
      moreover have "zone_addrs (z1 # zs2) =
          mset ((if reuse_zone z olds = None then [shm_addr (z_shm z1)] else []) @ fresh) + zone_addrs (kept olds (z # zs))"
        using z1 True fresh(2) by (auto split: option.splits)
      ultimately show ?thesis using z1 zs2 unfolding out by (metis list.simps(9))
    next
      case False
      then show ?thesis using z1 zs2 by (simp add: out)
    qed
  next
    case False
    then show ?thesis using Cons.prems z1 by (auto simp: one)
  qed
qed simp

lemma free_old_zones_unmaps:
  "unmaps (free_old_zones v os news olds tr) =
     unmaps tr @ List.map (\<lambda>z. shm_addr (z_shm z)) [z \<leftarrow> olds. reuse_zone z news = None] \<and>
   maps (free_old_zones v os news olds tr) = maps tr"
  by (induction olds arbitrary: tr) (auto simp: shm_free_unmaps)

lemma set_kept: "set (kept olds news) = {old. \<exists>z \<in> set news. reuse_zone z olds = Some old}"
  by (induction news) (auto split: option.splits)

lemma distinct_kept:
  assumes olds: "distinct (List.map zone_key olds)"
  shows "distinct (List.map zone_key news) \<Longrightarrow> distinct (kept olds news)"
proof (induction news)
  case (Cons z zs)
  have "old \<notin> set (kept olds zs)" if "reuse_zone z olds = Some old" for old
  proof
    assume "old \<in> set (kept olds zs)"
    then obtain z' where z': "z' \<in> set zs" "reuse_zone z' olds = Some old" by (auto simp: set_kept)
    have "zone_key z = zone_key z'" using that z'(2) by (simp add: reuse_zone_iff [OF olds])
    then have "zone_key z \<in> zone_key ` set zs" using z'(1) by (rule image_eqI)
    then show False using Cons.prems by simp
  qed
  then show ?case using Cons by (auto split: option.splits)
qed simp

lemma kept_ident: "List.map zone_ident news' = List.map zone_ident news \<Longrightarrow> kept olds news' = kept olds news"
proof (induction news' arbitrary: news)
  case (Cons z' zs')
  then obtain z zs where news: "news = z # zs" "zone_ident z' = zone_ident z" "List.map zone_ident zs' = List.map zone_ident zs"
    by auto
  show ?case using Cons.IH [OF news(3)] reuse_zone_ident [OF news(2), of olds] by (simp add: news(1) split: option.splits)
qed simp

text \<open>When the flags against reuse agree, the zones that the new cycle takes over are those not unmapped.\<close>

lemma kept_addrs:
  assumes olds: "distinct (List.map zone_key olds)" and news: "distinct (List.map zone_key news)"
    and agree: "\<And>z old. z \<in> set news \<Longrightarrow> old \<in> set olds \<Longrightarrow> zone_key z = zone_key old \<Longrightarrow> z_noreuse z = z_noreuse old"
  shows "zone_addrs (kept olds news) = zone_addrs [old \<leftarrow> olds. reuse_zone old news \<noteq> None]"
proof -
  have sym: "same_zone z old \<longleftrightarrow> same_zone old z" if "z \<in> set news" "old \<in> set olds" "zone_key z = zone_key old" for z old
    using agree [OF that] by (auto simp: same_zone_def)
  have "old \<in> set (kept olds news) \<longleftrightarrow> old \<in> set [old \<leftarrow> olds. reuse_zone old news \<noteq> None]" for old
    using sym [of _ old] by (auto simp: set_kept reuse_zone_iff [OF olds] reuse_zone_iff [OF news])
  then have "set (kept olds news) = set [old \<leftarrow> olds. reuse_zone old news \<noteq> None]" by blast
  moreover have "distinct [old \<leftarrow> olds. reuse_zone old news \<noteq> None]" using olds by (simp add: distinct_map)
  ultimately have "mset (kept olds news) = mset [old \<leftarrow> olds. reuse_zone old news \<noteq> None]"
    using set_eq_iff_mset_eq_distinct distinct_kept [OF olds news] by blast
  then show ?thesis by (simp add: zone_addrs_def)
qed

lemma zone_addrs_partition:
  "zone_addrs zs = zone_addrs [z \<leftarrow> zs. P z] + zone_addrs [z \<leftarrow> zs. \<not> P z]"
  by (induction zs) auto

text \<open>
  C40: Shared memory across a reconfiguration: when the names of the zones are distinct and a zone of
  the new cycle has the same flag against reuse as the zone of its name in the old one, then starting
  the zones and freeing the old ones accounts for every region: those the old zones had and those
  mapped now are, with multiplicities, those unmapped now and those the new zones have. So no region
  is lost, none is unmapped twice and none that is in use is unmapped. Starting the zones unmaps nothing.
\<close>

theorem shared_zones_accounted:
  assumes start: "start_zones v os zone_pool init olds news tr = (True, news', tr')"
    and olds: "distinct (List.map zone_key olds)" and news: "distinct (List.map zone_key news)"
    and agree: "\<forall>z \<in> set news. \<forall>old \<in> set olds. zone_key z = zone_key old \<longrightarrow> z_noreuse z = z_noreuse old"
  shows "\<exists>fresh gone. maps (free_old_zones v os news' olds tr') = maps tr @ fresh \<and>
    unmaps (free_old_zones v os news' olds tr') = unmaps tr @ gone \<and> unmaps tr' = unmaps tr \<and>
    zone_addrs olds + mset fresh = mset gone + zone_addrs news'"
proof -
  note started = start_zones_maps [OF start]
  then obtain fresh where fresh: "maps tr' = maps tr @ fresh" "zone_addrs news' = mset fresh + zone_addrs (kept olds news)" by blast
  have idents: "List.map zone_ident news' = List.map zone_ident news" using started by blast
  have "List.map zone_key news' = List.map zone_key news"
    using arg_cong [OF idents, of "List.map fst"] by (simp add: zone_ident_def comp_def)
  then have news': "distinct (List.map zone_key news')" using news by simp
  have same: "kept olds news' = kept olds news" using idents by (rule kept_ident)
  have "z_noreuse z' = z_noreuse old" if "z' \<in> set news'" "old \<in> set olds" "zone_key z' = zone_key old" for z' old
  proof -
    have "zone_ident z' \<in> zone_ident ` set news" using that(1) idents by (metis imageI set_map)
    then obtain z where "z \<in> set news" "zone_ident z' = zone_ident z" by blast
    then show ?thesis using that agree by (auto simp: zone_ident_def)
  qed
  then have taken': "zone_addrs (kept olds news) = zone_addrs [old \<leftarrow> olds. reuse_zone old news' \<noteq> None]"
    using kept_addrs [OF olds news'] unfolding same by blast
  let ?gone = "List.map (\<lambda>z. shm_addr (z_shm z)) [z \<leftarrow> olds. reuse_zone z news' = None]"
  have "zone_addrs olds + mset fresh = mset ?gone + zone_addrs news'"
  proof -
    have "zone_addrs olds = zone_addrs (kept olds news) + zone_addrs [z \<leftarrow> olds. reuse_zone z news' = None]"
      using zone_addrs_partition [of olds "\<lambda>z. reuse_zone z news' \<noteq> None"]
      by (simp only: taken' not_not)
    moreover have "zone_addrs [z \<leftarrow> olds. reuse_zone z news' = None] = mset ?gone" unfolding zone_addrs_def ..
    ultimately show ?thesis unfolding fresh(2) by (simp only: ac_simps)
  qed
  moreover have "unmaps tr' = unmaps tr" using started by blast
  ultimately show ?thesis
    by - (rule exI [of _ fresh], rule exI [of _ ?gone], simp add: free_old_zones_unmaps fresh(1))
qed

theorem shared_zones_accounted_witness:
  "let z = \<lparr>z_shm = \<lparr>shm_addr = 0, shm_size = 4096, shm_name = [97], shm_exists = False\<rparr>, z_tag = 1, z_noreuse = False, z_data = 0\<rparr>;
       old = z\<lparr>z_shm := (z_shm z)\<lparr>shm_addr := 8192\<rparr>\<rparr>; other = old\<lparr>z_shm := (z_shm old)\<lparr>shm_addr := 16384, shm_name := [98]\<rparr>\<rparr>
   in \<exists>fresh gone. {#8192, 16384#} + mset fresh = mset gone + ({#8192#} :: int multiset) \<and>
     unmaps (free_old_zones Map_anon (\<lambda>_ _. 0) [old] [old, other] []) = gone"
  using shared_zones_accounted [of Map_anon "\<lambda>_ _. 0" "\<lambda>_. True" "\<lambda>_ _. True"
      "[\<lparr>z_shm = \<lparr>shm_addr = 8192, shm_size = 4096, shm_name = [97], shm_exists = False\<rparr>, z_tag = 1, z_noreuse = False, z_data = 0\<rparr>,
        \<lparr>z_shm = \<lparr>shm_addr = 16384, shm_size = 4096, shm_name = [98], shm_exists = False\<rparr>, z_tag = 1, z_noreuse = False, z_data = 0\<rparr>]"
      "[\<lparr>z_shm = \<lparr>shm_addr = 0, shm_size = 4096, shm_name = [97], shm_exists = False\<rparr>, z_tag = 1, z_noreuse = False, z_data = 0\<rparr>]" "[]"
      "[\<lparr>z_shm = \<lparr>shm_addr = 8192, shm_size = 4096, shm_name = [97], shm_exists = False\<rparr>, z_tag = 1, z_noreuse = False, z_data = 0\<rparr>]" "[]"]
  by (simp add: Let_def start_zone_def reuse_zone_def zone_name_eq_def same_zone_def zone_key_def zone_addrs_def shm_free_unmaps)

text \<open>
  The flags against reuse are not the same one in the two places: the start looks at the flag of the new
  zone, the release at that of the old one. When only the new zone has it the old region is never
  unmapped; when only the old one has it the region that the new zone has taken over is unmapped.
\<close>

definition zone_at :: "int \<Rightarrow> bool \<Rightarrow> shm_zone" where
  "zone_at a noreuse = \<lparr>z_shm = \<lparr>shm_addr = a, shm_size = 4096, shm_name = [97], shm_exists = False\<rparr>, z_tag = 1,
     z_noreuse = noreuse, z_data = 0\<rparr>"

lemma noreuse_flag_leak:
  "case start_zones Map_anon (\<lambda>_ _. 12288) (\<lambda>_. True) (\<lambda>_ _. True) [zone_at 8192 False] [zone_at 0 True] [] of
     (ok, news, tr) \<Rightarrow> ok \<and> news = [zone_at 12288 True] \<and> unmaps (free_old_zones Map_anon (\<lambda>_ _. 0) news [zone_at 8192 False] tr) = []"
  by (simp add: zone_at_def start_zone_def reuse_zone_def zone_name_eq_def same_zone_def hky_shm_alloc_def shm_alloc_anon_def
      shm_sys_def shm_log_if_def Let_def hky_consts)

lemma noreuse_flag_use_after_unmap:
  "case start_zones Map_anon (\<lambda>_ _. 12288) (\<lambda>_. True) (\<lambda>_ _. True) [zone_at 8192 True] [zone_at 0 False] [] of
     (ok, news, tr) \<Rightarrow> ok \<and> news = [zone_at 8192 False] \<and> unmaps (free_old_zones Map_anon (\<lambda>_ _. 0) news [zone_at 8192 True] tr) = [8192]"
  by (simp add: zone_at_def start_zone_def reuse_zone_def zone_name_eq_def same_zone_def shm_free_unmaps Let_def)

text \<open>
  A zone that is new gets a pool of its own: the mutex lies in the pool, the layout is that of
  \<open>hky_slab_init\<close>. A zone that existed is left as it is, and refused when it was laid out at another address.
\<close>

lemma zone_pool_cases:
  "hky_init_zone_pool hdr free_at shift posix_sem sem_init lock_addr shm sp =
     (if shm_exists shm then (if nat (shm_addr shm) = sp_addr sp then (HKY_OK, False, sp) else (HKY_ERROR, True, sp))
      else (HKY_OK, False, hky_slab_init hdr free_at shift (nat (shm_addr shm))
        (sp\<lparr>sp_end := nat (shm_addr shm) + shm_size shm, sp_min_shift := 3, sp_addr := nat (shm_addr shm),
            sp_mutex := snd (snd (hky_shmtx_create posix_sem sem_init lock_addr (lock_addr + 8) (sp_mutex sp)))\<rparr>)))"
  by (simp add: hky_init_zone_pool_def hky_shmtx_create_def Let_def)

end
