(* ===== verification/Hky_Log_Conf.thy ===== *)
theory Hky_Log_Conf
  imports Hky_Log Hky_Syslog Hky_Open_Files
begin

text \<open>
  The configuration of logs in src/core/hky_log.c: the directive \<open>error_log\<close> with its three kinds of
  target, the log of a cycle that configures none, the first log of the process and the redirection
  of the standard error. The pieces come from the other theories: levels and insertion from
  \<open>Hky_Log\<close>, peers from \<open>Hky_Syslog\<close>, files from \<open>Hky_Open_Files\<close>, memory from the pool of the cycle.
  The build is the one without \<open>HKY_DEBUG\<close>; the memory log of the other one does not compile.
\<close>

section \<open>The directive\<close>

text \<open>
  \<open>lc_new_log\<close> is the address of \<open>cycle->new_log\<close>, a member of the cycle. The only writer is
  \<open>hky_syslog_writer\<close>, here 1.
\<close>

record log_conf =
  lc_mem :: "nat \<Rightarrow> hky_log"
  lc_new_log :: nat
  lc_files :: open_files
  lc_use_stderr :: bool
  lc_peer :: "nat \<Rightarrow> syslog_peer"

datatype log_conf_error =
    No_memory | No_debug_support | Syslog_problem "syslog_error option" | Level_problem level_error

definition sizeof_hky_log :: nat where "sizeof_hky_log = 80"

definition zero_log :: hky_log where
  "zero_log = \<lparr>log_level = 0, log_file = 0, log_connection = 0, log_disk_full_time = 0, log_handler = None,
     log_writer = 0, log_wdata = 0, log_next = 0\<rparr>"

definition zero_peer :: syslog_peer where
  "zero_peer = \<lparr>facility = 0, severity = 0, peer_tag = None, peer_server = None, peer_fd = 0, busy = False,
     nohostname = False, write_ready = False\<rparr>"

definition with_pool :: "hky_pool \<Rightarrow> log_conf \<Rightarrow> log_conf" where
  "with_pool pool s = s\<lparr>lc_files := (lc_files s)\<lparr>fs_pool := pool\<rparr>\<rparr>"

definition alloc_log :: "allocator \<Rightarrow> log_conf \<Rightarrow> nat \<times> log_conf" where
  "alloc_log os s =
     (let (new, pool) = hky_pcalloc os sizeof_hky_log (fs_pool (lc_files s)); s = with_pool pool s in
      if new = 0 then (0, s) else (new, s\<lparr>lc_mem := (lc_mem s)(new := zero_log)\<rparr>))"

text \<open>The log to fill: the head when it has no level yet, a new one otherwise.\<close>

definition fresh_log :: "allocator \<Rightarrow> nat \<Rightarrow> log_conf \<Rightarrow> nat \<times> log_conf" where
  "fresh_log os head s =
     (if head \<noteq> 0 \<and> log_level (lc_mem s head) = 0 then (head, s) else alloc_log os s)"

definition set_file :: "allocator \<Rightarrow> byte list \<Rightarrow> nat \<Rightarrow> log_conf \<Rightarrow> (bool \<times> log_conf) option" where
  "set_file os name new s =
     (case hky_conf_open_file os name (lc_files s) of None \<Rightarrow> None
      | Some (f, files) \<Rightarrow>
          Some (f \<noteq> 0, s\<lparr>lc_files := files, lc_mem := (lc_mem s)(new := (lc_mem s new)\<lparr>log_file := f\<rparr>)\<rparr>))"

definition set_target ::
  "allocator \<Rightarrow> url_parser \<Rightarrow> nat \<Rightarrow> byte list \<Rightarrow> nat \<Rightarrow> log_conf \<Rightarrow> (log_conf_error option \<times> log_conf) option" where
  "set_target os parse_url peer_size value new s =
     (if cstr_eq value (bytes_of ''stderr'') then
        map_option (\<lambda>(ok, s). (if ok then None else Some No_memory, s)) (set_file os [] new (s\<lparr>lc_use_stderr := True\<rparr>))
      else if starts ''memory:'' value then Some (Some No_debug_support, s)
      else if starts ''syslog:'' value then
        let (p, pool) = hky_pcalloc os peer_size (fs_pool (lc_files s)); s = with_pool pool s in
        if p = 0 then Some (Some No_memory, s)
        else (case hky_syslog_process_conf parse_url value zero_peer pool of
            (Inl e, pool) \<Rightarrow> Some (Some (Syslog_problem e), with_pool pool s)
          | (Inr peer, pool) \<Rightarrow>
              Some (None, (with_pool pool s)\<lparr>lc_peer := (lc_peer s)(p := peer),
                lc_mem := (lc_mem s)(new := (lc_mem s new)\<lparr>log_writer := 1, log_wdata := p\<rparr>)\<rparr>))
      else map_option (\<lambda>(ok, s). (if ok then None else Some No_memory, s)) (set_file os value new s))"

text \<open>
  \<open>Inr\<close> is the head of the chain. \<open>None\<close> is an access through \<open>NULL\<close> or out of a name. A level that is
  refused leaves the log as it was: the configuration is given up then.
\<close>

definition hky_log_set_log ::
  "allocator \<Rightarrow> url_parser \<Rightarrow> nat \<Rightarrow> byte list list \<Rightarrow> nat \<Rightarrow> log_conf \<Rightarrow> ((log_conf_error + nat) \<times> log_conf) option" where
  "hky_log_set_log os parse_url peer_size args head s =
     (let (new, s) = fresh_log os head s in
      if new = 0 then Some (Inl No_memory, s)
      else let head = (if head = 0 then new else head) in
        case set_target os parse_url peer_size (args ! 1) new s of None \<Rightarrow> None
        | Some (Some e, s) \<Rightarrow> Some (Inl e, s)
        | Some (None, s) \<Rightarrow>
            (case hky_log_set_levels args (log_level (lc_mem s new)) of
               Inl e \<Rightarrow> Some (Inl (Level_problem e), s)
             | Inr level \<Rightarrow>
                 let m = (lc_mem s)(new := (lc_mem s new)\<lparr>log_level := level\<rparr>) in
                 if head = new then Some (Inr head, s\<lparr>lc_mem := m\<rparr>)
                 else map_option (\<lambda>m. (Inr head, s\<lparr>lc_mem := m\<rparr>)) (hky_log_insert head new m)))"

definition hky_error_log ::
  "allocator \<Rightarrow> url_parser \<Rightarrow> nat \<Rightarrow> byte list list \<Rightarrow> log_conf \<Rightarrow> ((log_conf_error + nat) \<times> log_conf) option" where
  "hky_error_log os parse_url peer_size args s = hky_log_set_log os parse_url peer_size args (lc_new_log s) s"

section \<open>The log of a cycle\<close>

partial_function (option) hky_log_get_file_log :: "(nat \<Rightarrow> hky_log) \<Rightarrow> nat \<Rightarrow> nat option" where
  "hky_log_get_file_log m log =
     (if log = 0 then Some 0 else if log_file (m log) \<noteq> 0 then Some log else hky_log_get_file_log m (log_next (m log)))"

definition HKY_ERROR_LOG_PATH :: "byte list" where
  "HKY_ERROR_LOG_PATH = bytes_of ''logs/error.log''"

definition hky_log_open_default :: "allocator \<Rightarrow> log_conf \<Rightarrow> (int \<times> log_conf) option" where
  "hky_log_open_default os s =
     (case hky_log_get_file_log (lc_mem s) (lc_new_log s) of None \<Rightarrow> None
      | Some f \<Rightarrow>
          if f \<noteq> 0 then Some (HKY_OK, s)
          else let (log, s) = (if log_level (lc_mem s (lc_new_log s)) \<noteq> 0 then alloc_log os s else (lc_new_log s, s)) in
            if log = 0 then Some (HKY_ERROR, s)
            else let s = s\<lparr>lc_mem := (lc_mem s)(log := (lc_mem s log)\<lparr>log_level := HKY_LOG_ERR_LEVEL\<rparr>)\<rparr> in
              case set_file os HKY_ERROR_LOG_PATH log s of None \<Rightarrow> None
              | Some (ok, s) \<Rightarrow>
                  if \<not> ok then Some (HKY_ERROR, s)
                  else if log = lc_new_log s then Some (HKY_OK, s)
                  else map_option (\<lambda>m. (HKY_OK, s\<lparr>lc_mem := m\<rparr>)) (hky_log_insert (lc_new_log s) log (lc_mem s)))"

text \<open>The result, and the descriptor that was made the standard error, if any; \<open>dup\<close> says whether that worked.\<close>

definition hky_log_redirect_stderr :: "(int \<Rightarrow> bool) \<Rightarrow> nat \<Rightarrow> log_conf \<Rightarrow> (int \<times> int option) option" where
  "hky_log_redirect_stderr dup cycle_log s =
     (if lc_use_stderr s then Some (HKY_OK, None)
      else case hky_log_get_file_log (lc_mem s) cycle_log of None \<Rightarrow> None
        | Some f \<Rightarrow>
            if f = 0 then None
            else let fd = of_fd (fs_file (lc_files s) (log_file (lc_mem s f))) in
              if fd = hky_stderr then Some (HKY_OK, None)
              else if dup fd then Some (HKY_OK, Some fd) else Some (HKY_ERROR, None))"

section \<open>The first log of the process\<close>

text \<open>
  \<open>built_in\<close> is the prefix of the build, if it has one. The results are the log, whose file \<open>hky_log_file\<close>
  is here 1, the name that was opened, the descriptor of \<open>hky_log_file\<close> and the calls; \<open>None\<close> is no
  memory. The message about a file that cannot be opened is an event, as everywhere outside \<open>Hky_Log\<close>.
\<close>

definition hky_log_init ::
  "file_os \<Rightarrow> bool \<Rightarrow> byte list option \<Rightarrow> byte list option \<Rightarrow> file_trace \<Rightarrow> (hky_log \<times> byte list \<times> int \<times> file_trace) option" where
  "hky_log_init os memory built_in prefix tr =
     (let log = zero_log\<lparr>log_file := 1, log_level := HKY_LOG_NOTICE\<rparr>;
          name = HKY_ERROR_LOG_PATH;
          prefix = (case prefix of Some p \<Rightarrow> p | None \<Rightarrow> (case built_in of Some p \<Rightarrow> p | None \<Rightarrow> []))
      in if name = [] then Some (log, [], hky_stderr, tr)
      else if hd name \<noteq> 47 \<and> prefix \<noteq> [] \<and> \<not> memory then None
      else
        let name = (if hd name \<noteq> 47 \<and> prefix \<noteq> [] then (if last prefix = 47 then prefix else prefix @ [47]) @ name else name);
            (fd, tr) = file_sys os (F_open name) tr
        in if fd = -1 then Some (log, name, hky_stderr, file_log 0 ''could not open error log file'' name tr)
           else Some (log, name, fd, tr))"

section \<open>The chain of a cycle\<close>

text \<open>An address inside a chunk of memory in use; a new chunk starts at none.\<close>

definition covered :: "nat \<Rightarrow> region list \<Rightarrow> bool" where
  "covered p cs \<longleftrightarrow> (\<exists>c\<in>set cs. fst c \<le> p \<and> p < fst c + snd c)"

lemma covered_append [simp]: "covered p (new @ cs) \<longleftrightarrow> covered p new \<or> covered p cs"
  by (auto simp: covered_def)

lemma covered_Cons [simp]: "covered p (c # cs) \<longleftrightarrow> fst c \<le> p \<and> p < fst c + snd c \<or> covered p cs"
  by (auto simp: covered_def)

lemma pcalloc_fresh:
  assumes "palloc_inv_of os p cs" "hky_pcalloc os sz p = (r, p')" "r \<noteq> 0" "0 < sz"
  shows "palloc_inv_of os p' ((r, sz) # cs) \<and> \<not> covered r cs"
proof -
  obtain q where q: "hky_palloc os sz p = (r, q)" "p' = hky_memzero r sz q"
    using assms(2,3) by (auto simp: hky_pcalloc_def split: prod.splits if_splits)
  have "palloc_inv_of os q ((r, sz) # cs)" by (rule palloc.alloc_fresh [OF assms(1) q(1) assms(3)])
  moreover have "disj (r, sz) c" if "c \<in> set cs" for c by (rule palloc.fresh_disj [OF assms(1) q(1) assms(3) that])
  ultimately show ?thesis using assms(4) by (fastforce simp: q(2) covered_def disj_def hky_memzero_def pool_inv_store)
qed

lemma pcalloc_null: "palloc_inv_of os p cs \<Longrightarrow> hky_pcalloc os sz p = (0, p') \<Longrightarrow> palloc_inv_of os p' cs"
  using palloc.alloc_null [of os p cs sz] by (auto simp: hky_pcalloc_def split: prod.splits if_splits)

text \<open>
  The logs of a cycle: the chain from \<open>cycle->new_log\<close> is sorted by falling level, every log of it
  lies in memory in use, and every log has a level but for a \<open>new_log\<close> that is not configured, which
  is alone. \<open>configured\<close> are those with a level.
\<close>

definition logs_ok :: "allocator \<Rightarrow> log_conf \<Rightarrow> nat list \<Rightarrow> region list \<Rightarrow> bool" where
  "logs_ok os s ps cs \<longleftrightarrow> files_ok os (lc_files s) cs \<and> log_chain (lc_mem s) (lc_new_log s) ps \<and> lc_new_log s \<noteq> 0 \<and>
     (\<forall>p\<in>set ps. covered p cs) \<and> sorted_wrt (\<lambda>k l. log_level l \<le> log_level k) (log_list (lc_mem s) ps) \<and>
     (if log_level (lc_mem s (lc_new_log s)) = 0 then ps = [lc_new_log s]
      else \<forall>p\<in>set ps. log_level (lc_mem s p) \<noteq> 0)"

definition configured :: "log_conf \<Rightarrow> nat list \<Rightarrow> hky_log list" where
  "configured s ps = (if log_level (lc_mem s (lc_new_log s)) = 0 then [] else log_list (lc_mem s) ps)"

lemma files_ok_pool: "files_ok os f cs \<Longrightarrow> palloc_inv_of os pool (new @ cs) \<Longrightarrow> files_ok os (f\<lparr>fs_pool := pool\<rparr>) (new @ cs)"
  using list_ok_more by (auto simp: files_ok_def)

lemma conf_open_file_keeps:
  assumes "files_ok os s cs" "hky_conf_open_file os name s = Some (f, s')"
  shows "\<exists>new. files_ok os s' (new @ cs) \<and> fs_prefix s' = fs_prefix s \<and>
    (f \<noteq> 0 \<longrightarrow> file_name_eq (full_name (fs_prefix s) name) (of_name (fs_file s' f)) \<and> (name = [] \<longrightarrow> of_fd (fs_file s' f) = hky_stderr))"
proof (cases "name = []")
  case True
  then show ?thesis using push_open_file_ok [OF assms(1), of "[]" f s'] assms(2)
    by (fastforce simp: hky_conf_open_file_def full_name_def file_name_eq_def hky_stderr_def split: if_splits)
next
  case False
  obtain rc full pool where full: "hky_get_full_name os (fs_prefix s) name (fs_pool s) = Some (rc, full, pool)"
    using assms(2) False by (auto simp: hky_conf_open_file_def split: option.splits)
  obtain new where new: "palloc_inv_of os pool (new @ cs)"
    using full_name_pool [OF full] assms(1) by (auto simp: files_ok_def)
  let ?s = "s\<lparr>fs_pool := pool\<rparr>"
  have ok: "files_ok os ?s (new @ cs)" by (rule files_ok_pool [OF assms(1) new])
  show ?thesis
  proof (cases "rc = HKY_OK")
    case rc: True
    have fulln: "full = full_name (fs_prefix s) name" using full_name_text full rc by blast
    show ?thesis
    proof (cases "find (\<lambda>f. file_name_eq full (of_name (fs_file s f))) (list_elements (fs_list s))")
      case None
      then have push: "push_open_file os full ?s = (f, s')"
        using assms(2) False full rc by (simp add: hky_conf_open_file_def)
      obtain new' where "files_ok os s' (new' @ new @ cs)" "fs_prefix s' = fs_prefix s"
        "f \<noteq> 0 \<longrightarrow> fs_file s' f = \<lparr>of_fd = if full = [] then 2 else -1, of_name = full\<rparr>"
        using push_open_file_ok [OF ok push] by (auto split: if_splits)
      then show ?thesis using False by (intro exI [of _ "new' @ new"]) (auto simp: fulln file_name_eq_def)
    next
      case (Some g)
      then have "f = g" "s' = ?s" using assms(2) False full rc by (simp_all add: hky_conf_open_file_def)
      moreover have "file_name_eq full (of_name (fs_file s g))" using Some by (auto simp: find_Some_iff)
      ultimately show ?thesis using ok False fulln by (intro exI [of _ new]) simp
    qed
  next
    case rc: False
    then have "f = 0" "s' = ?s" using assms(2) False full by (simp_all add: hky_conf_open_file_def)
    then show ?thesis using ok by (intro exI [of _ new]) simp
  qed
qed

lemma set_file_ok:
  assumes "files_ok os (lc_files s) cs" "set_file os name new s = Some (ok, s')"
  shows "\<exists>f files added. s' = s\<lparr>lc_files := files, lc_mem := (lc_mem s)(new := (lc_mem s new)\<lparr>log_file := f\<rparr>)\<rparr> \<and>
    files_ok os files (added @ cs) \<and> (ok \<longleftrightarrow> f \<noteq> 0) \<and>
    (ok \<longrightarrow> file_name_eq (full_name (fs_prefix (lc_files s)) name) (of_name (fs_file files f)) \<and>
       (name = [] \<longrightarrow> of_fd (fs_file files f) = hky_stderr)) \<and> fs_prefix files = fs_prefix (lc_files s)"
proof -
  obtain f files where f: "hky_conf_open_file os name (lc_files s) = Some (f, files)"
    "s' = s\<lparr>lc_files := files, lc_mem := (lc_mem s)(new := (lc_mem s new)\<lparr>log_file := f\<rparr>)\<rparr>" "ok \<longleftrightarrow> f \<noteq> 0"
    using assms(2) by (auto simp: set_file_def split: option.splits prod.splits)
  then show ?thesis using conf_open_file_keeps [OF assms(1) f(1)] by blast
qed

text \<open>A URL parser that only allocates, as \<open>hky_parse_url\<close> does.\<close>

definition parser_keeps :: "allocator \<Rightarrow> url_parser \<Rightarrow> bool" where
  "parser_keeps os parse_url \<longleftrightarrow> (\<forall>u pool. grows (palloc_inv_of os) pool (snd (snd (parse_url u pool))))"

lemma hky_parse_url_keeps:
  assumes "lawful_os os" shows "parser_keeps os (hky_parse_url (resolve_getaddrinfo os gai) os)"
  unfolding parser_keeps_def grows_def palloc_inv_of_def
proof (intro allI impI)
  fix u pool cs assume inv: "lawful_os os \<and> (\<exists>n. pool_inv n pool cs)"
  obtain rc u' pool' where c: "hky_parse_url (resolve_getaddrinfo os gai) os u pool = (rc, u', pool')" by (metis prod_cases3)
  show "\<exists>new. lawful_os os \<and> (\<exists>n. pool_inv n (snd (snd (hky_parse_url (resolve_getaddrinfo os gai) os u pool))) (new @ cs))"
    using parse_url_keeps_pool [OF c assms] inv assms by (auto simp: c)
qed

lemma syslog_parameter_grows:
  assumes "parser_keeps os parse_url" "syslog_parameter parse_url p peer pool = (r, pool')"
  shows "grows (palloc_inv_of os) pool pool'"
proof -
  have "grows (palloc_inv_of os) pool q" if "parse_url u pool = (rc, v, q)" for u rc v q
    using assms(1) that unfolding parser_keeps_def by (metis snd_conv)
  then show ?thesis using assms(2)
    by (auto simp: syslog_parameter_def split: if_splits option.splits prod.splits)
qed

lemma syslog_loop_grows:
  "syslog_parse_loop parse_url p peer pool = (r, pool') \<Longrightarrow> parser_keeps os parse_url \<Longrightarrow> grows (palloc_inv_of os) pool pool'"
proof (induction parse_url p peer pool rule: syslog_parse_loop.induct)
  case (1 parse_url p peer pool)
  obtain s rest where sp: "syslog_split p = (s, rest)" by fastforce
  obtain r1 pool1 where r1: "syslog_parameter parse_url s peer pool = (r1, pool1)" by fastforce
  note one = syslog_parameter_grows [OF 1(3) r1]
  show ?case
  proof (cases r1)
    case (Inl e)
    then show ?thesis using 1(2) sp r1 one by (subst (asm) syslog_parse_loop.simps) simp
  next
    case (Inr peer1)
    show ?thesis
    proof (cases rest)
      case None
      then show ?thesis using 1(2) sp r1 Inr one by (subst (asm) syslog_parse_loop.simps) simp
    next
      case (Some q)
      then have "syslog_parse_loop parse_url q peer1 pool1 = (r, pool')"
        using 1(2) sp r1 Inr by (subst (asm) syslog_parse_loop.simps) simp
      then have "grows (palloc_inv_of os) pool1 pool'"
        by (rule 1(1) [OF sp [symmetric] refl r1 [symmetric, unfolded Inr] refl Some _ 1(3)])
      from grows_trans [OF one this] show ?thesis .
    qed
  qed
qed

lemma syslog_conf_grows:
  "hky_syslog_process_conf parse_url value peer pool = (r, pool') \<Longrightarrow> parser_keeps os parse_url \<Longrightarrow> grows (palloc_inv_of os) pool pool'"
  using syslog_loop_grows by (fastforce simp: hky_syslog_process_conf_def hky_syslog_parse_args_def split: prod.splits sum.splits)

text \<open>The target that a directive gives a log.\<close>

definition log_target :: "byte list \<Rightarrow> byte list \<Rightarrow> log_conf \<Rightarrow> hky_log \<Rightarrow> bool" where
  "log_target prefix value s l \<longleftrightarrow>
     (if cstr_eq value (bytes_of ''stderr'') then of_fd (fs_file (lc_files s) (log_file l)) = hky_stderr \<and> lc_use_stderr s
      else if starts ''syslog:'' value then log_writer l = 1 \<and> peer_ok (lc_peer s (log_wdata l))
      else \<not> starts ''memory:'' value \<and> log_file l \<noteq> 0 \<and>
        file_name_eq (full_name prefix value) (of_name (fs_file (lc_files s) (log_file l))))"

lemma set_target_ok:
  assumes inv: "files_ok os (lc_files s) cs" and parse: "parser_keeps os parse_url"
    and call: "set_target os parse_url peer_size value new s = Some (None, s')"
  shows "\<exists>l added. lc_mem s' = (lc_mem s)(new := l) \<and> log_level l = log_level (lc_mem s new) \<and> log_next l = log_next (lc_mem s new) \<and>
    files_ok os (lc_files s') (added @ cs) \<and> lc_new_log s' = lc_new_log s \<and> log_target (fs_prefix (lc_files s)) value s' l \<and>
    fs_prefix (lc_files s') = fs_prefix (lc_files s)"
proof -
  consider (err) "cstr_eq value (bytes_of ''stderr'')" | (sys) "\<not> cstr_eq value (bytes_of ''stderr'')" "\<not> starts ''memory:'' value" "starts ''syslog:'' value"
    | (name) "\<not> cstr_eq value (bytes_of ''stderr'')" "\<not> starts ''memory:'' value" "\<not> starts ''syslog:'' value"
    using call by (fastforce simp: set_target_def)
  then show ?thesis
  proof cases
    case err
    then have "set_file os [] new (s\<lparr>lc_use_stderr := True\<rparr>) = Some (True, s')"
      using call by (auto simp: set_target_def split: if_splits)
    moreover have "files_ok os (lc_files (s\<lparr>lc_use_stderr := True\<rparr>)) cs" using inv by simp
    ultimately obtain f files added where
      "s' = s\<lparr>lc_use_stderr := True, lc_files := files, lc_mem := (lc_mem s)(new := (lc_mem s new)\<lparr>log_file := f\<rparr>)\<rparr>"
      "files_ok os files (added @ cs)" "of_fd (fs_file files f) = hky_stderr" "fs_prefix files = fs_prefix (lc_files s)"
      using set_file_ok [of os "s\<lparr>lc_use_stderr := True\<rparr>" cs "[]" new True s'] by auto
    then show ?thesis using err
      by (intro exI [of _ "(lc_mem s new)\<lparr>log_file := f\<rparr>"] exI [of _ added]) (simp add: log_target_def)
  next
    case name
    then have "set_file os value new s = Some (True, s')" using call by (auto simp: set_target_def split: if_splits)
    from set_file_ok [OF inv this] obtain f files added where
      "s' = s\<lparr>lc_files := files, lc_mem := (lc_mem s)(new := (lc_mem s new)\<lparr>log_file := f\<rparr>)\<rparr>"
      "files_ok os files (added @ cs)" "f \<noteq> 0" "fs_prefix files = fs_prefix (lc_files s)"
      "file_name_eq (full_name (fs_prefix (lc_files s)) value) (of_name (fs_file files f))" by auto
    then show ?thesis using name
      by (intro exI [of _ "(lc_mem s new)\<lparr>log_file := f\<rparr>"] exI [of _ added]) (simp add: log_target_def)
  next
    case sys
    obtain p pool where p: "hky_pcalloc os peer_size (fs_pool (lc_files s)) = (p, pool)" by fastforce
    obtain peer pool' where conf: "p \<noteq> 0" "hky_syslog_process_conf parse_url value zero_peer pool = (Inr peer, pool')"
      "s' = (with_pool pool' (with_pool pool s))\<lparr>lc_peer := (lc_peer s)(p := peer),
         lc_mem := (lc_mem s)(new := (lc_mem s new)\<lparr>log_writer := 1, log_wdata := p\<rparr>)\<rparr>"
      using call sys p by (auto simp: set_target_def Let_def with_pool_def split: if_splits prod.splits sum.splits)
    note grown = grows_trans [OF pcalloc_grows [OF p] syslog_conf_grows [OF conf(2) parse]]
    have "palloc_inv_of os (fs_pool (lc_files s)) cs" using inv by (simp add: files_ok_def)
    then obtain added where "palloc_inv_of os pool' (added @ cs)" using grown unfolding grows_def by blast
    then have "files_ok os (lc_files s') (added @ cs)" using files_ok_pool [OF inv] by (simp add: conf(3) with_pool_def)
    moreover have "peer_ok peer" using syslog_process_conf_ok [OF conf(2)] by (simp add: zero_peer_def)
    ultimately show ?thesis using sys
      by (intro exI [of _ "(lc_mem s new)\<lparr>log_writer := 1, log_wdata := p\<rparr>"] exI [of _ added])
        (simp add: conf(3) with_pool_def log_target_def)
  qed
qed

section \<open>Directives\<close>

lemma set_levels_loop_nonzero:
  "set_levels_loop args lv = Inr level \<Longrightarrow> args \<noteq> [] \<or> lv \<noteq> 0 \<Longrightarrow> level \<noteq> 0"
proof (induction args arbitrary: lv)
  case (Cons v args)
  obtain lv1 found where one: "set_err_level v lv = Inr (lv1, found)"
    using Cons.prems(1) by (auto split: sum.splits)
  obtain lv2 where two: "set_debug_level v lv1 found = Inr lv2" "set_levels_loop args lv2 = Inr level"
    using Cons.prems(1) one by (auto split: sum.splits)
  have "lv1 \<noteq> 0" if f: found
  proof -
    obtain n where n: "find (\<lambda>n. cstr_eq v (err_levels ! n)) [1..<unat HKY_LOG_DEBUG] = Some n" "lv1 = word_of_nat n"
      using one f by (auto simp: set_err_level_def split: option.splits if_splits)
    then have "level_name v n" using find_level by blast
    from level_bit [OF this] show ?thesis by (simp add: n(2))
  qed
  moreover have "lv2 \<noteq> 0" if "found \<Longrightarrow> lv1 \<noteq> 0"
  proof (cases "find (\<lambda>n. cstr_eq v (debug_levels ! n)) [0..<7]")
    case None
    then show ?thesis using two(1) that by (auto simp: set_debug_level_def split: if_splits)
  next
    case (Some d)
    then have "d < 7" by (auto simp: find_Some_iff nth_append)
    from debug_bit [OF this] show ?thesis
      using two(1) Some by (auto simp: set_debug_level_def or_ne_0 split: if_splits)
  qed
  ultimately show ?case using Cons.IH [OF two(2)] by blast
qed simp

lemma set_levels_nonzero: "hky_log_set_levels args 0 = Inr level \<Longrightarrow> 2 \<le> length args \<Longrightarrow> level \<noteq> 0"
  using set_levels_loop_nonzero [of "drop 2 args" 0]
  by (auto simp: hky_log_set_levels_def HKY_LOG_ERR_LEVEL_def HKY_LOG_DEBUG_ALL_def split: sum.splits if_splits)

lemma log_target_mem [simp]:
  "log_target prefix value (s\<lparr>lc_mem := m\<rparr>) l = log_target prefix value s l"
  "log_target prefix value s (l\<lparr>log_level := v\<rparr>) = log_target prefix value s l"
  by (simp_all add: log_target_def)

lemma set_insert_by_level: "set (insert_by_level l ls) = insert l (set ls)"
proof -
  have "set ls = set (takeWhile (\<lambda>k. log_level l \<le> log_level k) ls) \<union> set (dropWhile (\<lambda>k. log_level l \<le> log_level k) ls)"
    by (metis set_append takeWhile_dropWhile_id)
  then show ?thesis by (auto simp: insert_by_level_def)
qed

lemma log_list_levels: "log_level ` set (log_list m ps) = log_level ` m ` set ps"
  by (auto simp: log_list_def image_iff)

text \<open>Inserting a log with a level and a target of its own into a chain that is configured.\<close>

lemma insert_new_log:
  assumes ok: "logs_ok os s ps cs" "log_level (lc_mem s (lc_new_log s)) \<noteq> 0"
    and new: "new \<noteq> 0" "\<not> covered new cs" "covered new added"
    and s1: "lc_mem s1 = (lc_mem s)(new := l)" "lc_new_log s1 = lc_new_log s" "files_ok os (lc_files s1) (added @ cs)"
    and l: "log_level l \<noteq> 0" "log_next l = 0"
    and ins: "hky_log_insert (lc_new_log s) new (lc_mem s1) = Some m'"
  shows "\<exists>ps'. logs_ok os (s1\<lparr>lc_mem := m'\<rparr>) ps' (added @ cs) \<and>
    log_list m' ps' = insert_by_level l (log_list (lc_mem s) ps) \<and> new \<in> set ps' \<and>
    log_level (m' (lc_new_log s)) \<noteq> 0"
proof -
  have notin: "new \<notin> set ps" using ok(1) new(2) by (auto simp: logs_ok_def)
  have chain: "log_chain (lc_mem s1) (lc_new_log s) ps"
    using ok(1) notin by (auto simp: logs_ok_def s1(1) intro: log_chain_cong [THEN iffD2, rotated])
  have list: "log_list (lc_mem s1) ps = log_list (lc_mem s) ps"
    using notin by (intro log_list_cong) (auto simp: s1(1))
  have entry: "(lc_mem s1 new)\<lparr>log_next := 0\<rparr> = l" using l(2) by (simp add: s1(1))
  obtain ps' where ps': "log_chain m' (lc_new_log s) ps'" "log_list m' ps' = insert_by_level l (log_list (lc_mem s) ps)"
    "set ps' = insert new (set ps)" "sorted_wrt (\<lambda>k l. log_level l \<le> log_level k) (log_list m' ps')"
  proof -
    have next0: "log_next (lc_mem s1 new) = 0" "lc_new_log s \<noteq> 0" using l(2) ok(1) by (simp_all add: s1(1) logs_ok_def)
    have "sorted_wrt (\<lambda>k l. log_level l \<le> log_level k) (log_list (lc_mem s1) ps)" using ok(1) by (simp add: list logs_ok_def)
    then show ?thesis
      using log_insert_ok [OF chain next0(2) notin new(1) next0(1)] unfolding ins entry list by (metis option.inject that)
  qed
  have head: "lc_new_log s \<noteq> 0" using ok(1) by (simp add: logs_ok_def)
  have "log_level ` m' ` set ps' = insert (log_level l) (log_level ` lc_mem s ` set ps)"
    using log_list_levels [of m' ps'] log_list_levels [of "lc_mem s" ps] by (simp add: ps'(2) set_insert_by_level)
  moreover have "0 \<notin> log_level ` lc_mem s ` set ps" using ok by (auto simp: logs_ok_def)
  ultimately have levels: "\<forall>p\<in>set ps'. log_level (m' p) \<noteq> 0" using l(1) by (metis image_eqI insertE)
  have "lc_new_log s \<in> set ps'" using ps'(1) head by (cases ps') auto
  then have hd: "log_level (m' (lc_new_log s)) \<noteq> 0" using levels by blast
  have "logs_ok os (s1\<lparr>lc_mem := m'\<rparr>) ps' (added @ cs)"
    using ok(1) s1(2,3) ps' levels hd new(3) by (auto simp: logs_ok_def)
  then show ?thesis using ps'(2,3) hd by blast
qed

lemma alloc_log_ok:
  assumes ok: "files_ok os (lc_files s) cs" and call: "alloc_log os s = (new, s1)" and new: "new \<noteq> 0"
  shows "s1 = s\<lparr>lc_files := (lc_files s)\<lparr>fs_pool := fs_pool (lc_files s1)\<rparr>, lc_mem := (lc_mem s)(new := zero_log)\<rparr> \<and>
    files_ok os (lc_files s1) ((new, sizeof_hky_log) # cs) \<and> \<not> covered new cs"
proof -
  obtain pool where p: "hky_pcalloc os sizeof_hky_log (fs_pool (lc_files s)) = (new, pool)"
    "s1 = (with_pool pool s)\<lparr>lc_mem := (lc_mem s)(new := zero_log)\<rparr>"
    using call new by (auto simp: alloc_log_def Let_def with_pool_def split: prod.splits if_splits)
  have "palloc_inv_of os pool ((new, sizeof_hky_log) # cs) \<and> \<not> covered new cs"
    using pcalloc_fresh [OF _ p(1) new] ok by (simp add: files_ok_def sizeof_hky_log_def)
  then show ?thesis using files_ok_pool [OF ok, of pool "[(new, sizeof_hky_log)]"] by (simp add: p(2) with_pool_def)
qed

text \<open>
  \<open>error_log\<close>: a directive that is accepted adds one log with its level, and with its target, to those
  of the cycle, at the place its level has; the first one fills \<open>cycle->new_log\<close> itself. The chain
  starts at \<open>cycle->new_log\<close> and stays sorted, and memory, files and logs stay sound.
\<close>

lemma error_log_directive:
  assumes ok: "logs_ok os s ps cs" and parse: "parser_keeps os parse_url" and args: "2 \<le> length args"
    and call: "hky_error_log os parse_url peer_size args s = Some (Inr head, s')"
  shows "\<exists>ps' added l. head = lc_new_log s \<and> lc_new_log s' = lc_new_log s \<and> logs_ok os s' ps' (added @ cs) \<and>
    hky_log_set_levels args 0 = Inr (log_level l) \<and> log_target (fs_prefix (lc_files s)) (args ! 1) s' l \<and>
    configured s' ps' = insert_by_level l (configured s ps)"
proof -
  let ?h = "lc_new_log s"
  have h: "?h \<noteq> 0" "files_ok os (lc_files s) cs" using ok by (simp_all add: logs_ok_def)
  obtain new s1 where new: "fresh_log os ?h s = (new, s1)" by fastforce
  obtain s2 where s2: "new \<noteq> 0" "set_target os parse_url peer_size (args ! 1) new s1 = Some (None, s2)"
    using call h(1) by (auto simp: hky_error_log_def hky_log_set_log_def new Let_def split: if_splits option.splits)
  obtain level where level: "hky_log_set_levels args (log_level (lc_mem s2 new)) = Inr level"
    using call h(1) s2 by (auto simp: hky_error_log_def hky_log_set_log_def new Let_def split: if_splits option.splits sum.splits)
  define m where "m = (lc_mem s2)(new := (lc_mem s2 new)\<lparr>log_level := level\<rparr>)"
  have "hky_error_log os parse_url peer_size args s = (if ?h = new then Some (Inr ?h, s2\<lparr>lc_mem := m\<rparr>)
      else map_option (\<lambda>m. (Inr ?h, s2\<lparr>lc_mem := m\<rparr>)) (hky_log_insert ?h new m))"
    using h(1) s2 level by (simp add: hky_error_log_def hky_log_set_log_def new m_def Let_def)
  then have rest: "(if ?h = new then Some (Inr ?h, s2\<lparr>lc_mem := m\<rparr>)
      else map_option (\<lambda>m. (Inr ?h, s2\<lparr>lc_mem := m\<rparr>)) (hky_log_insert ?h new m)) = Some (Inr head :: log_conf_error + nat, s')"
    unfolding call by (rule sym)
  then have head: "head = ?h" by (auto split: if_splits)
  show ?thesis
  proof (cases "log_level (lc_mem s ?h) = 0")
    case True
    then have s1: "new = ?h" "s1 = s" using new h(1) by (auto simp: fresh_log_def)
    have ps: "ps = [?h]" "log_next (lc_mem s ?h) = 0" using ok True by (auto simp: logs_ok_def)
    obtain l added where l: "lc_mem s2 = (lc_mem s)(?h := l)" "log_level l = 0" "log_next l = 0"
      "files_ok os (lc_files s2) (added @ cs)" "lc_new_log s2 = ?h" "log_target (fs_prefix (lc_files s)) (args ! 1) s2 l"
      using set_target_ok [OF h(2) parse s2(2) [unfolded s1]] True ps(2) by auto
    have lev: "hky_log_set_levels args 0 = Inr level" "level \<noteq> 0"
      using level set_levels_nonzero [OF _ args] by (simp_all add: l(1,2) s1)
    have s': "s' = s2\<lparr>lc_mem := (lc_mem s)(?h := l\<lparr>log_level := level\<rparr>)\<rparr>"
      using rest head by (auto simp: s1(1) m_def l(1))
    have "logs_ok os s' [?h] (added @ cs)"
      using ok ps lev(2) l by (auto simp: logs_ok_def s' log_list_def)
    moreover have "configured s' [?h] = insert_by_level (l\<lparr>log_level := level\<rparr>) (configured s ps)"
      using True lev(2) l(3,5) by (simp add: configured_def s' log_list_def insert_by_level_def)
    ultimately show ?thesis using lev l(5,6) head
      by (intro exI [of _ "[?h]"] exI [of _ added] exI [of _ "l\<lparr>log_level := level\<rparr>"]) (simp add: s')
  next
    case False
    then have a: "alloc_log os s = (new, s1)" using new by (simp add: fresh_log_def)
    note al = alloc_log_ok [OF h(2) a s2(1)]
    have mem1: "lc_mem s1 = (lc_mem s)(new := zero_log)" "lc_new_log s1 = ?h" "fs_prefix (lc_files s1) = fs_prefix (lc_files s)"
      using al by (metis log_conf.select_convs log_conf.surjective log_conf.update_convs open_files.select_convs
        open_files.surjective open_files.update_convs)+
    have ne: "?h \<noteq> new" using al ok by (cases ps) (auto simp: logs_ok_def)
    obtain l added where l: "lc_mem s2 = (lc_mem s1)(new := l)" "log_level l = 0" "log_next l = 0"
      "files_ok os (lc_files s2) (added @ (new, sizeof_hky_log) # cs)" "lc_new_log s2 = ?h"
      "log_target (fs_prefix (lc_files s)) (args ! 1) s2 l"
      using set_target_ok [OF _ parse s2(2), of "(new, sizeof_hky_log) # cs"] al mem1 by (auto simp: zero_log_def)
    have lev: "hky_log_set_levels args 0 = Inr level" "level \<noteq> 0"
      using level set_levels_nonzero [OF _ args] by (simp_all add: l(1,2))
    have m: "m = (lc_mem s)(new := l\<lparr>log_level := level\<rparr>)" by (simp add: m_def l(1) mem1(1))
    obtain m' where m': "hky_log_insert ?h new m = Some m'" "s' = s2\<lparr>lc_mem := m'\<rparr>" using rest ne by auto
    have cov: "covered new (added @ [(new, sizeof_hky_log)])" by (simp add: sizeof_hky_log_def)
    obtain ps' where ps': "logs_ok os (s2\<lparr>lc_mem := m'\<rparr>) ps' ((added @ [(new, sizeof_hky_log)]) @ cs)"
      "log_list m' ps' = insert_by_level (l\<lparr>log_level := level\<rparr>) (log_list (lc_mem s) ps)" "log_level (m' ?h) \<noteq> 0"
      using insert_new_log [OF ok False s2(1) _ cov, of "s2\<lparr>lc_mem := m\<rparr>" "l\<lparr>log_level := level\<rparr>" m'] al l lev(2) m' m by auto
    have "configured s' ps' = insert_by_level (l\<lparr>log_level := level\<rparr>) (configured s ps)"
      using False ps'(2,3) l(5) by (simp add: configured_def m'(2))
    then show ?thesis using ps'(1) lev l(5,6) head
      by (intro exI [of _ ps'] exI [of _ "added @ [(new, sizeof_hky_log)]"] exI [of _ "l\<lparr>log_level := level\<rparr>"])
        (simp add: m'(2))
  qed
qed

section \<open>There is a log with a file\<close>

lemma set_file_new_log: "set_file os name new s = Some (ok, s') \<Longrightarrow> lc_new_log s' = lc_new_log s"
  by (auto simp: set_file_def split: option.splits prod.splits)

lemma get_file_log_chain:
  "log_chain m p ps \<Longrightarrow> hky_log_get_file_log m p = Some (case find (\<lambda>q. log_file (m q) \<noteq> 0) ps of None \<Rightarrow> 0 | Some q \<Rightarrow> q)"
proof (induction ps arbitrary: p)
  case Nil
  then have "p = 0" by simp
  then show ?case by (subst hky_log_get_file_log.simps) simp
next
  case (Cons q qs)
  then have q: "hky_log_get_file_log m (log_next (m q)) = Some (case find (\<lambda>q. log_file (m q) \<noteq> 0) qs of None \<Rightarrow> 0 | Some q \<Rightarrow> q)" "p = q" "q \<noteq> 0"
    by auto
  show ?case unfolding q(2) using q(1,3) by (subst hky_log_get_file_log.simps) simp
qed

lemma get_file_log_found:
  assumes "log_chain m p ps" "q \<in> set ps" "log_file (m q) \<noteq> 0"
  shows "\<exists>f\<in>set ps. hky_log_get_file_log m p = Some f \<and> f \<noteq> 0 \<and> log_file (m f) \<noteq> 0"
proof -
  have "find (\<lambda>q. log_file (m q) \<noteq> 0) ps \<noteq> None" using assms(2,3) by (auto simp: find_None_iff)
  then obtain f where f: "find (\<lambda>q. log_file (m q) \<noteq> 0) ps = Some f" by blast
  then have "f \<in> set ps" "log_file (m f) \<noteq> 0" by (auto simp: find_Some_iff intro: nth_mem)
  moreover have "0 \<notin> set ps" using assms(1) by (induction ps arbitrary: p) auto
  moreover from calculation have "f \<noteq> 0" by metis
  ultimately show ?thesis using get_file_log_chain [OF assms(1)] f by (intro bexI [of _ f]) auto
qed

text \<open>
  After \<open>hky_log_open_default\<close> the chain has a log with a file, whatever was configured, so
  \<open>hky_log_redirect_stderr\<close> does not read through \<open>NULL\<close>.
\<close>

lemma open_default_file_log:
  assumes ok: "logs_ok os s ps cs" and call: "hky_log_open_default os s = Some (HKY_OK, s')"
  shows "\<exists>ps' added. logs_ok os s' ps' (added @ cs) \<and> lc_new_log s' = lc_new_log s \<and>
    (\<exists>f\<in>set ps'. hky_log_get_file_log (lc_mem s') (lc_new_log s') = Some f \<and> f \<noteq> 0 \<and> log_file (lc_mem s' f) \<noteq> 0)"
proof -
  let ?h = "lc_new_log s"
  have h: "?h \<noteq> 0" "files_ok os (lc_files s) cs" "log_chain (lc_mem s) ?h ps" using ok by (simp_all add: logs_ok_def)
  obtain f where f: "hky_log_get_file_log (lc_mem s) ?h = Some f" using get_file_log_chain [OF h(3)] by blast
  consider (found) "f \<noteq> 0" | (fill) "f = 0" "log_level (lc_mem s ?h) = 0" | (add) "f = 0" "log_level (lc_mem s ?h) \<noteq> 0" by blast
  then show ?thesis
  proof cases
    case found
    then have "find (\<lambda>q. log_file (lc_mem s q) \<noteq> 0) ps = Some f"
      using f get_file_log_chain [OF h(3)] by (cases "find (\<lambda>q. log_file (lc_mem s q) \<noteq> 0) ps") auto
    then obtain q where "q \<in> set ps" "log_file (lc_mem s q) \<noteq> 0" by (auto simp: find_Some_iff intro: nth_mem)
    moreover have "s' = s" using call f found by (simp add: hky_log_open_default_def)
    ultimately show ?thesis using ok get_file_log_found [OF h(3)] by (intro exI [of _ ps] exI [of _ "[]"]) simp
  next
    case fill
    let ?s = "s\<lparr>lc_mem := (lc_mem s)(?h := (lc_mem s ?h)\<lparr>log_level := HKY_LOG_ERR_LEVEL\<rparr>)\<rparr>"
    have sf: "set_file os HKY_ERROR_LOG_PATH ?h ?s = Some (True, s')"
      using call f fill h(1)
      by (auto simp: hky_log_open_default_def hky_consts dest: set_file_new_log split: option.splits if_splits)
    have ps: "ps = [?h]" "log_next (lc_mem s ?h) = 0" using ok fill by (auto simp: logs_ok_def)
    obtain g files added where g: "s' = ?s\<lparr>lc_files := files, lc_mem := (lc_mem ?s)(?h := (lc_mem ?s ?h)\<lparr>log_file := g\<rparr>)\<rparr>"
      "files_ok os files (added @ cs)" "g \<noteq> 0"
      using set_file_ok [OF _ sf, of cs] h(2) by auto
    have "logs_ok os s' [?h] (added @ cs)"
      using ok ps g(2) by (auto simp: logs_ok_def g(1) log_list_def HKY_LOG_ERR_LEVEL_def)
    moreover have "hky_log_get_file_log (lc_mem s') ?h = Some ?h"
      using g(3) h(1) by (subst hky_log_get_file_log.simps) (simp add: g(1))
    ultimately show ?thesis using g(3) h(1) by (intro exI [of _ "[?h]"] exI [of _ added]) (simp add: g(1))
  next
    case add
    obtain new s1 where a: "alloc_log os s = (new, s1)" by fastforce
    have new: "new \<noteq> 0" using call f add a by (auto simp: hky_log_open_default_def hky_consts split: if_splits)
    note al = alloc_log_ok [OF h(2) a new]
    have mem1: "lc_mem s1 = (lc_mem s)(new := zero_log)" "lc_new_log s1 = ?h"
      using al by (metis log_conf.select_convs log_conf.surjective log_conf.update_convs)+
    let ?s = "s1\<lparr>lc_mem := (lc_mem s1)(new := (lc_mem s1 new)\<lparr>log_level := HKY_LOG_ERR_LEVEL\<rparr>)\<rparr>"
    have ne: "?h \<noteq> new" using al ok by (cases ps) (auto simp: logs_ok_def)
    obtain s2 m' where s2: "set_file os HKY_ERROR_LOG_PATH new ?s = Some (True, s2)"
      "hky_log_insert ?h new (lc_mem s2) = Some m'" "s' = s2\<lparr>lc_mem := m'\<rparr>"
    proof -
      obtain okf s2 where sf: "set_file os HKY_ERROR_LOG_PATH new ?s = Some (okf, s2)"
        using call f add a new by (auto simp: hky_log_open_default_def Let_def split: option.splits)
      have h2: "lc_new_log s2 = ?h" using mem1(2) set_file_new_log [OF sf] by simp
      have "(if \<not> okf then Some (HKY_ERROR, s2) else map_option (\<lambda>m. (HKY_OK, s2\<lparr>lc_mem := m\<rparr>)) (hky_log_insert ?h new (lc_mem s2))) = Some (HKY_OK, s')"
        using call f add a new sf ne by (cases okf) (auto simp: hky_log_open_default_def Let_def mem1(2) h2)
      then show ?thesis using that sf by (auto simp: hky_consts split: if_splits)
    qed
    obtain g files added where g: "s2 = ?s\<lparr>lc_files := files, lc_mem := (lc_mem ?s)(new := (lc_mem ?s new)\<lparr>log_file := g\<rparr>)\<rparr>"
      "files_ok os files (added @ (new, sizeof_hky_log) # cs)" "g \<noteq> 0"
      using set_file_ok [OF _ s2(1), of "(new, sizeof_hky_log) # cs"] al by auto
    let ?l = "zero_log\<lparr>log_level := HKY_LOG_ERR_LEVEL, log_file := g\<rparr>"
    have m2: "lc_mem s2 = (lc_mem s)(new := ?l)" "lc_new_log s2 = ?h" by (simp_all add: g(1) mem1)
    have cov: "covered new (added @ [(new, sizeof_hky_log)])" by (simp add: sizeof_hky_log_def)
    obtain ps' where ps': "logs_ok os s' ps' ((added @ [(new, sizeof_hky_log)]) @ cs)"
      "log_list m' ps' = insert_by_level ?l (log_list (lc_mem s) ps)"
      using insert_new_log [OF ok add(2) new _ cov m2 _ _ _ s2(2)] al g(2) s2(3)
      by (auto simp: g(1) zero_log_def HKY_LOG_ERR_LEVEL_def)
    have "?l \<in> set (log_list m' ps')" by (simp add: ps'(2) set_insert_by_level)
    then obtain q where "q \<in> set ps'" "log_file (m' q) = g" by (auto simp: log_list_def dest: arg_cong [of _ _ log_file])
    then have "\<exists>f\<in>set ps'. hky_log_get_file_log (lc_mem s') (lc_new_log s') = Some f \<and> f \<noteq> 0 \<and> log_file (lc_mem s' f) \<noteq> 0"
      using get_file_log_found [of "lc_mem s'" "lc_new_log s'" ps' q] ps'(1) g(3) by (simp add: logs_ok_def s2(3))
    moreover have "lc_new_log s' = ?h" by (simp add: s2(3) m2(2))
    ultimately show ?thesis using ps'(1) by blast
  qed
qed

lemma redirect_stderr_safe:
  assumes "logs_ok os s ps cs" "hky_log_open_default os s = Some (HKY_OK, s')"
  shows "hky_log_redirect_stderr dup (lc_new_log s') s' \<noteq> None"
  using open_default_file_log [OF assms] by (auto simp: hky_log_redirect_stderr_def Let_def)

text \<open>The name of the first log: a relative path is put behind the prefix, with one slash in between.\<close>

lemma log_init_opens:
  assumes "hky_log_init os memory built_in prefix [] = Some (log, name, fd, tr)"
  shows "name = (case prefix of Some p \<Rightarrow> p | None \<Rightarrow> (case built_in of Some p \<Rightarrow> p | None \<Rightarrow> [])) @ HKY_ERROR_LOG_PATH \<or>
    name = (case prefix of Some p \<Rightarrow> p | None \<Rightarrow> (case built_in of Some p \<Rightarrow> p | None \<Rightarrow> [])) @ [47] @ HKY_ERROR_LOG_PATH"
    "(F_open name, os [] (F_open name)) \<in> set tr" "fd \<noteq> -1"
  using assms by (auto simp: hky_log_init_def HKY_ERROR_LOG_PATH_def file_sys_def file_log_def hky_consts Let_def
      split: if_splits option.splits)

end
