(* ===== verification/Spec2Isabelle.thy ===== *)
theory Spec2Isabelle
  imports Hky_Str_Rbtree Hky_Printf Hky_Url Hky_Times Hky_Conf Hky_Queue Hky_Crc32 Hky_Lock Hky_Timer
    Hky_Base64 Hky_Escape Hky_Utf8 Hky_Pool_Life Hky_Array Hky_Send Hky_Log Hky_Syslog Hky_Listen
    Hky_Open_Files Hky_Shm Hky_Log_Conf
begin

text \<open>
  A verification development for Husky, a C server core in the style of nginx.

  \<^bold>\<open>The program.\<close> src/core holds the library the server is built on (strings, containers,
  memory pools, logs, configuration, addresses, connections, the cycle), src/unix the code that
  talks to the operating system, src/event the event types. Every part allocates from memory
  pools (hky_palloc.c), which sit on wrappers of malloc (unix/hky_alloc.c); the arrays, lists and
  buffers are built in pools; red-black trees hold timers and shared-memory strings; chains of
  buffers are what the send and receive functions of a connection work on.

  \<^bold>\<open>The theories.\<close>
  \<^item> \<open>Husky_Base\<close>: machine types of an LP64 platform, return codes, character macros, shared lemmas.
  \<^item> \<open>Hky_String\<close>: comparison, search and copying of hky_string.c, and \<open>hky_sort\<close>.
  \<^item> \<open>Hky_Number\<close>: the decimal, fixed-point and hexadecimal parsers and the hexadecimal dump.
  \<^item> \<open>Hky_Base64\<close>: both base64 alphabets; the codec is verified in the locale \<open>base64_alphabet\<close>.
  \<^item> \<open>Hky_Escape\<close>: URI, HTML and JSON escaping and URI unescaping.
  \<^item> \<open>Hky_Utf8\<close>: UTF-8 decoding, length and copying.
  \<^item> \<open>Hky_Rbtree\<close>, \<open>Hky_Rbtree_Heap\<close>, \<open>Hky_Rbtree_Insert\<close>, \<open>Hky_Rbtree_Delete\<close>: hky_rbtree.c at
    the level of its pointers, the relation to red-black trees, and the proofs for insertion with
    any callback that meets the locale \<open>rbtree_insert_pt\<close>, and deletion; \<open>Hky_Str_Rbtree\<close>
    is the string tree of hky_string.c as one more callback, and its lookup.
  \<^item> \<open>Hky_Palloc\<close>, \<open>Hky_Pool_Life\<close>: memory pools; the locales \<open>pool_allocator\<close> and
    \<open>aligned_allocator\<close> are the contract the containers rely on.
  \<^item> \<open>Hky_Array\<close>: hky_array.c and hky_list.c on the contract of the pools.
  \<^item> \<open>Hky_Buf\<close>, \<open>Hky_Send\<close>: buffers, chains, and reading from and writing to a connection.
  \<^item> \<open>Hky_Printf\<close>: \<open>hky_vslprintf\<close> with its directives and the entry points around it.
  \<^item> \<open>Hky_Inet\<close>, \<open>Hky_Url\<close>: the text forms of addresses, and the parser of URLs of sockets (hky_inet.c).
  \<^item> \<open>Hky_Times\<close>: the calendar, the cached time and its texts (hky_times.c, unix/hky_time.c).
  \<^item> \<open>Hky_Conf_Lex\<close>, \<open>Hky_Conf\<close>: the lexer of the configuration, and its parser with the lookup of
    directives in the modules (hky_conf_file.c).
  \<^item> \<open>Hky_Queue\<close>: the queues of hky_queue.h and the sort of hky_queue.c, on a heap of links.
  \<^item> \<open>Hky_Crc32\<close>: the table-driven checksum against the bitwise one.
  \<^item> \<open>Hky_Lock\<close>: locks between processes (unix/hky_atomic.h, hky_shmtx.c) as a step relation.
  \<^item> \<open>Hky_Timer\<close>: the timers of event/hky_event_timer.h on the red-black trees.
  \<^item> \<open>Hky_Log\<close>, \<open>Hky_Syslog\<close>: the log line, its delivery to a chain of logs and the levels
    (hky_log.c); the datagrams and the socket of a syslog peer (hky_syslog.c).
  \<^item> \<open>Hky_Log_Conf\<close>: the directive \<open>error_log\<close> with its targets, the default log of a cycle and
    the redirection of the standard error (hky_log.c), on the models of logs, syslog and open files.
  \<^item> \<open>Hky_Open_Files\<close>: full names, the open files of a cycle, writing (hky_file.c, unix/hky_files.c,
    the file loops of hky_cycle.c).
  \<^item> \<open>Hky_Listen\<close>: listening sockets and their handover from one cycle to the next
    (hky_connection.c, the socket loops of hky_cycle.c).
  \<^item> \<open>Hky_Shm\<close>: shared memory, the layout of a slab pool, the zones of a cycle (unix/hky_shmem.c,
    hky_slab.c, the zone loops of hky_cycle.c).

  \<^bold>\<open>Conventions.\<close> A buffer that is only read is the list of bytes up to the end of its object and
  a read behind it makes the model return \<open>None\<close>; pointers of linked structures are natural
  numbers (0 is \<open>NULL\<close>) and structures are records of maps or lists; \<open>size_t\<close> arithmetic that can
  wrap is written with its wrap-around. The C library's allocator and the kernel are parameters:
  an allocation function with the law \<open>lawful_os\<close>, lists of replies to system calls (\<open>Hky_Send\<close>,
  \<open>Hky_Syslog\<close>) or a function from the calls made so far to the next result (\<open>Hky_Listen\<close>,
  \<open>Hky_Open_Files\<close>, \<open>Hky_Shm\<close>). Outside \<open>Hky_Log\<close> a message is a value or an event of the trace;
  what the logger does with one, crash included, is \<open>Hky_Log\<close>.

  \<^bold>\<open>How the parts meet.\<close> Three interfaces are locales, each interpreted on the model of the part
  that provides it: the allocators of a pool (\<open>pool_allocator\<close>, \<open>aligned_allocator\<close>), which arrays,
  lists, names and URLs rely on, the insert callbacks of a tree (\<open>rbtree_insert_pt\<close>), which the string
  tree and the timers provide, and the alphabets of base64 (\<open>base64_alphabet\<close>). The remaining parts
  call each other's definitions: the configuration parser its lexer, the syslog directive the URL
  parser, listening sockets the addresses, the log and the datagrams the formatter, zones the mutexes.

  \<^bold>\<open>Bounds.\<close> The loops over the links of the red-black trees are \<open>while_option\<close>, and the properties
  show that they end on every tree. The send loops end because every round takes a reply. The parser
  of the configuration has fuel, and \<open>conf_parse_terminates\<close> shows that more than the number of unread
  bytes is enough; the sort of a queue of n nodes has fuel 2n; the rounds of opening sockets are the
  five of the code. Writing a file waits for an answer when the replies are used up (\<open>None\<close>). The
  walks over a chain of logs are partial functions, and the properties show that they return on a
  chain that ends.

  \<^bold>\<open>Not modelled.\<close> Of hky_cycle.c the sequence of \<open>hky_init_cycle\<close> around the modelled loops over
  files, sockets and zones, the pid and lock files and \<open>hky_clean_old_cycles\<close>; of hky_log.c the
  memory log of the debug build, which does not compile, and the debug macros; \<open>hky_create_paths\<close> of hky_file.c; husky.c, whose \<open>main\<close> stops after
  saving its arguments, so that its options and inherited sockets are never processed; hky_module.c,
  whose table of modules the build generates; process titles, CPU detection and the initialisation
  of the operating systems, which are inline assembly and single calls of the system; the events
  beyond the record and the timers, which the repository does not have; the platform headers. Where
  a function has variants chosen by the build, those for Windows, Solaris, \<open>SO_ACCEPTFILTER\<close> and
  \<open>SO_SETFIB\<close>, builds without atomic operations in hky_atomic.h, and the debug branches
  (\<open>HKY_DEBUG\<close>) are left out.
\<close>

end
